(* ===== verification/Prelude.thy ===== *)
theory Prelude
  imports Main "HOL-Library.Word"
begin

text \<open>
  Shared vocabulary of the development: the machine integer types of the C and C++ sources,
  the collections of rewrite rules the component theories extend, and the generic lemmas on
  lists, fixed-size arrays and words that several components need.

  A C array is a list of its (fixed) length; a store \<open>a[i] = v\<close> is \<open>a[i := v]\<close>, which
  does nothing out of range, so every component with arrays has an invariant that states the
  lengths and lemmas that the indices it stores to are in range. A (pointer, length) pair of a
  C interface is the list of the bytes it spans.
\<close>

unbundle bit_operations_syntax

type_synonym u8 = "8 word"
type_synonym u16 = "16 word"
type_synonym u32 = "32 word"
type_synonym u64 = "64 word"

named_theorems crc_simps \<open>linearity and evaluation of the CRC register\<close>
named_theorems wire_simps \<open>lengths and shapes of wire-level byte strings\<close>
named_theorems sr_defs \<open>definitions of the node's selective-repeat receiver\<close>
named_theorems trk_defs \<open>definitions of the gateway's command tracker\<close>

subsection \<open>Arrays\<close>

text \<open>
  \<open>copy_prefix src dst\<close> is the effect of the C loop
  \<^verbatim>\<open>for (i = 0; i < n; ++i) dst[i] = src[i];\<close> with \<open>n = length src\<close>.
\<close>

definition copy_prefix :: "'a list \<Rightarrow> 'a list \<Rightarrow> 'a list" where
  "copy_prefix src dst = foldl (\<lambda>d i. d[i := src ! i]) dst [0..<length src]"

lemma foldl_update_upt:
  "n \<le> length src \<Longrightarrow> n \<le> length dst \<Longrightarrow>
   foldl (\<lambda>d i. d[i := src ! i]) dst [0..<n] = take n src @ drop n dst"
proof (induction n)
  case 0
  then show ?case by simp
next
  case (Suc n)
  then have "foldl (\<lambda>d i. d[i := src ! i]) dst [0..<n] = take n src @ drop n dst"
    by simp
  with Suc.prems show ?case
    by (simp add: take_Suc_conv_app_nth list_update_append Cons_nth_drop_Suc [symmetric])
qed

lemma copy_prefix_eq: "length src \<le> length dst \<Longrightarrow> copy_prefix src dst = src @ drop (length src) dst"
  by (simp add: copy_prefix_def foldl_update_upt)

lemma length_foldl_update [simp]: "length (foldl (\<lambda>d i. d[i := f i]) dst is) = length dst"
  by (induction "is" arbitrary: dst) auto

lemma length_copy_prefix [simp]: "length (copy_prefix src dst) = length dst"
  by (simp add: copy_prefix_def)

lemma take_copy_prefix: "length src \<le> length dst \<Longrightarrow> take (length src) (copy_prefix src dst) = src"
  by (simp add: copy_prefix_eq)

text \<open>
  The first index whose element satisfies a predicate: the C idiom of a search loop that
  returns the address of the element found, or \<^verbatim>\<open>NULL\<close>.
\<close>

definition find_index :: "('a \<Rightarrow> bool) \<Rightarrow> 'a list \<Rightarrow> nat option" where
  "find_index P xs = find (\<lambda>i. P (xs ! i)) [0..<length xs]"

lemma find_index_SomeD:
  "find_index P xs = Some i \<Longrightarrow> i < length xs \<and> P (xs ! i) \<and> (\<forall>j<i. \<not> P (xs ! j))"
  by (auto simp: find_index_def find_Some_iff)

lemma find_index_None_iff: "find_index P xs = None \<longleftrightarrow> (\<forall>x\<in>set xs. \<not> P x)"
  by (auto simp: find_index_def find_None_iff set_conv_nth)

lemma find_index_Some_ex: "x \<in> set xs \<Longrightarrow> P x \<Longrightarrow> \<exists>i. find_index P xs = Some i"
  using find_index_None_iff [of P xs] by (cases "find_index P xs") auto

text \<open>Membership in an updated array, in the form the invariant proofs use.\<close>

lemma set_list_updateE:
  assumes "x \<in> set (xs[i := v])"
  obtains "x = v" | "x \<in> set xs"
  using assms set_update_subset_insert [of xs i v] by blast

lemma nth_update_lt: "j < length xs \<Longrightarrow> xs[i := v] ! j = (if j = i then v else xs ! j)"
  by (cases "i = j") auto

lemma all_set_update: "\<forall>x\<in>set xs. P x \<Longrightarrow> P v \<Longrightarrow> \<forall>x\<in>set (xs[i := v]). P x"
  by (auto elim: set_list_updateE)

subsection \<open>Words\<close>

lemma unat_u8_lt [simp]: "unat (b :: u8) < 256"
  using unsigned_less [of b] by simp

lemma unat_of_nat_u8: "n < 256 \<Longrightarrow> unat (of_nat n :: u8) = n"
  by (simp add: unat_of_nat)

lemma unat_of_nat_u16: "n < 65536 \<Longrightarrow> unat (of_nat n :: u16) = n"
  by (simp add: unat_of_nat)

lemma unat_ucast_u8_u16 [simp]: "unat (ucast (b :: u8) :: u16) = unat b"
  using unat_u8_lt [of b] by (simp add: unsigned_ucast_eq take_bit_nat_eq_self del: unat_u8_lt)

lemma u8_of_nat_unat [simp]: "(of_nat (unat (b :: u8)) :: u8) = b"
  by simp

lemma unat_Suc_u8: "unat (x :: u8) < 255 \<Longrightarrow> unat (x + 1) = Suc (unat x)"
  by (simp add: unat_word_ariths)

lemma unat_Suc_u16: "unat (x :: u16) < 65535 \<Longrightarrow> unat (x + 1) = Suc (unat x)"
  by (simp add: unat_word_ariths)

lemma unat_minus_1_u8: "1 \<le> unat (x :: u8) \<Longrightarrow> unat (x - 1) = unat x - 1"
  by (metis not_one_le_zero unat_minus_one unat_0)

lemma unat_minus_1_u16: "1 \<le> unat (x :: u16) \<Longrightarrow> unat (x - 1) = unat x - 1"
  by (metis not_one_le_zero unat_minus_one unat_0)

lemma bit_u8_lt: "bit (b :: u8) n \<Longrightarrow> n < 8"
  by (drule bit_imp_le_length) simp

lemma bit_u16_lt: "bit (x :: u16) n \<Longrightarrow> n < 16"
  by (drule bit_imp_le_length) simp

lemma xor_cancel_left: "(x :: u16) XOR a = x XOR b \<longleftrightarrow> a = b"
proof
  have undo: "x XOR (x XOR c) = c" for c
    by (rule bit_word_eqI) (auto simp: bit_simps)
  assume "x XOR a = x XOR b"
  then have "x XOR (x XOR a) = x XOR (x XOR b)" by simp
  then show "a = b" by (simp only: undo)
qed simp

lemma xor_cancel_right: "(a :: u16) XOR x = b XOR x \<longleftrightarrow> a = b"
  by (simp only: xor.commute [of _ x] xor_cancel_left)

lemma ucast_u8_u16_inj: "(ucast (a :: u8) :: u16) = ucast b \<longleftrightarrow> a = b"
  by (metis unat_ucast_u8_u16 word_unat_eq_iff)

lemma and_255_eq: "(x :: u16) AND 0xFF = take_bit 8 x"
  by (simp add: take_bit_eq_mask mask_eq_exp_minus_1)

text \<open>A word is determined by its bits; the byte/word splits of the wire format use this.\<close>

lemma u16_eqI: "(\<And>n. n < 16 \<Longrightarrow> bit (x :: u16) n = bit y n) \<Longrightarrow> x = y"
  by (rule bit_word_eqI) simp

lemma u64_eqI: "(\<And>n. n < 64 \<Longrightarrow> bit (x :: u64) n = bit y n) \<Longrightarrow> x = y"
  by (rule bit_word_eqI) simp

end
