(* ===== verification/Edge_Proto.thy ===== *)
theory Edge_Proto
  imports Prelude
begin

text \<open>
  \<^verbatim>\<open>protocol/include/edge_proto/edge_proto.h\<close>: the constants of the wire protocol, the
  big-endian readers and writers, and the payload length table. Type codes and result codes
  are bytes; bounds that the code compares with lengths are natural numbers, and time limits
  are milliseconds in the width the caller compares them in.
\<close>

subsection \<open>Constants\<close>

abbreviation (input) EDGE_HDR0 :: u8 where "EDGE_HDR0 \<equiv> 0xAA"
abbreviation (input) EDGE_HDR1 :: u8 where "EDGE_HDR1 \<equiv> 0x55"

abbreviation (input) EDGE_LEN_MIN :: nat where "EDGE_LEN_MIN \<equiv> 1"
abbreviation (input) EDGE_LEN_MAX :: nat where "EDGE_LEN_MAX \<equiv> 64"

abbreviation (input) EDGE_PAYLOAD_MAX :: nat where "EDGE_PAYLOAD_MAX \<equiv> 63"
abbreviation (input) EDGE_FRAME_MIN :: nat where "EDGE_FRAME_MIN \<equiv> 6"
abbreviation (input) EDGE_FRAME_MAX :: nat where "EDGE_FRAME_MAX \<equiv> 69"

abbreviation (input) EDGE_TYPE_DHT11 :: u8 where "EDGE_TYPE_DHT11 \<equiv> 0x01"
abbreviation (input) EDGE_TYPE_BH1750 :: u8 where "EDGE_TYPE_BH1750 \<equiv> 0x02"
abbreviation (input) EDGE_TYPE_HEARTBEAT :: u8 where "EDGE_TYPE_HEARTBEAT \<equiv> 0x03"
abbreviation (input) EDGE_TYPE_STATUS :: u8 where "EDGE_TYPE_STATUS \<equiv> 0x04"
abbreviation (input) EDGE_TYPE_QUERY_RESP :: u8 where "EDGE_TYPE_QUERY_RESP \<equiv> 0x05"
abbreviation (input) EDGE_TYPE_ACK :: u8 where "EDGE_TYPE_ACK \<equiv> 0x06"
abbreviation (input) EDGE_TYPE_SR_RECEIVED :: u8 where "EDGE_TYPE_SR_RECEIVED \<equiv> 0x07"
abbreviation (input) EDGE_TYPE_SR_RESULT :: u8 where "EDGE_TYPE_SR_RESULT \<equiv> 0x08"
abbreviation (input) EDGE_TYPE_SR_OPEN_ACK :: u8 where "EDGE_TYPE_SR_OPEN_ACK \<equiv> 0x09"
abbreviation (input) EDGE_TYPE_QUERY_LIGHT :: u8 where "EDGE_TYPE_QUERY_LIGHT \<equiv> 0x20"
abbreviation (input) EDGE_TYPE_QUERY_TH :: u8 where "EDGE_TYPE_QUERY_TH \<equiv> 0x21"
abbreviation (input) EDGE_TYPE_SET_PERIOD :: u8 where "EDGE_TYPE_SET_PERIOD \<equiv> 0x22"
abbreviation (input) EDGE_TYPE_SR_OPEN :: u8 where "EDGE_TYPE_SR_OPEN \<equiv> 0x23"
abbreviation (input) EDGE_TYPE_SR_COMMAND :: u8 where "EDGE_TYPE_SR_COMMAND \<equiv> 0x24"
abbreviation (input) EDGE_TYPE_SR_RESULT_ACK :: u8 where "EDGE_TYPE_SR_RESULT_ACK \<equiv> 0x25"

definition EDGE_IS_UPLINK :: "u8 \<Rightarrow> bool" where
  "EDGE_IS_UPLINK t \<longleftrightarrow> 0x01 \<le> t \<and> t \<le> 0x1F"

definition EDGE_IS_DOWNLINK :: "u8 \<Rightarrow> bool" where
  "EDGE_IS_DOWNLINK t \<longleftrightarrow> 0x20 \<le> t \<and> t \<le> 0x2F"

abbreviation (input) EDGE_RC_OK :: u8 where "EDGE_RC_OK \<equiv> 0x00"
abbreviation (input) EDGE_RC_BAD_PARAM :: u8 where "EDGE_RC_BAD_PARAM \<equiv> 0x01"
abbreviation (input) EDGE_RC_UNSUPPORTED :: u8 where "EDGE_RC_UNSUPPORTED \<equiv> 0x02"
abbreviation (input) EDGE_RC_BUSY :: u8 where "EDGE_RC_BUSY \<equiv> 0x03"

abbreviation (input) EDGE_PERIOD_MIN_S :: nat where "EDGE_PERIOD_MIN_S \<equiv> 1"
abbreviation (input) EDGE_PERIOD_MAX_S :: nat where "EDGE_PERIOD_MAX_S \<equiv> 65535"

abbreviation (input) EDGE_STATUS_BIT_DHT11 :: u8 where "EDGE_STATUS_BIT_DHT11 \<equiv> 0x01"
abbreviation (input) EDGE_STATUS_BIT_BH1750 :: u8 where "EDGE_STATUS_BIT_BH1750 \<equiv> 0x02"

abbreviation (input) EDGE_ACK_TIMEOUT_MS :: u32 where "EDGE_ACK_TIMEOUT_MS \<equiv> 500"
abbreviation (input) EDGE_MAX_RETRY :: nat where "EDGE_MAX_RETRY \<equiv> 3"
abbreviation (input) EDGE_SR_WINDOW_SIZE :: nat where "EDGE_SR_WINDOW_SIZE \<equiv> 8"
abbreviation (input) EDGE_SR_RESULT_CAPACITY :: nat where "EDGE_SR_RESULT_CAPACITY \<equiv> 16"
abbreviation (input) EDGE_SR_RESULT_TTL_MS :: u32 where "EDGE_SR_RESULT_TTL_MS \<equiv> 5000"
abbreviation (input) EDGE_COMMAND_LIFETIME_MS :: u32 where "EDGE_COMMAND_LIFETIME_MS \<equiv> 4000"
abbreviation (input) EDGE_SR_RESULT_TIMEOUT_MS :: u32 where "EDGE_SR_RESULT_TIMEOUT_MS \<equiv> 10000"
abbreviation (input) EDGE_SR_ARGS_MAX :: nat where "EDGE_SR_ARGS_MAX \<equiv> 53"
abbreviation (input) EDGE_SR_RESULT_MAX :: nat where "EDGE_SR_RESULT_MAX \<equiv> 53"

subsection \<open>Byte order\<close>

text \<open>
  The readers and writers take the base pointer as an array and an offset. The writer shifts
  its value argument as the source does.
\<close>

definition edge_u64_be_read :: "u8 list \<Rightarrow> nat \<Rightarrow> u64" where
  "edge_u64_be_read p off = foldl (\<lambda>v i. push_bit 8 v OR ucast (p ! (off + i))) 0 [0..<8]"

definition edge_u64_be_write :: "u8 list \<Rightarrow> nat \<Rightarrow> u64 \<Rightarrow> u8 list" where
  "edge_u64_be_write p off v =
     fst (foldl (\<lambda>(p, v) i. (p[off + (7 - i) := ucast v], drop_bit 8 v)) (p, v) [0..<8])"

definition edge_u16_be_read :: "u8 list \<Rightarrow> nat \<Rightarrow> u16" where
  "edge_u16_be_read p off = push_bit 8 (ucast (p ! off)) OR ucast (p ! (off + 1))"

definition edge_u16_be_write :: "u8 list \<Rightarrow> nat \<Rightarrow> u16 \<Rightarrow> u8 list" where
  "edge_u16_be_write p off v = (p[off := ucast (drop_bit 8 v)])[off + 1 := ucast (v AND 0xFF)]"

subsection \<open>Payload lengths\<close>

definition edge_min_payload_len :: "u8 \<Rightarrow> int" where
  "edge_min_payload_len type =
    (if type = EDGE_TYPE_DHT11 then 4
     else if type = EDGE_TYPE_BH1750 then 2
     else if type = EDGE_TYPE_HEARTBEAT then 0
     else if type = EDGE_TYPE_STATUS then 1
     else if type = EDGE_TYPE_QUERY_RESP then 2
     else if type = EDGE_TYPE_ACK then 2
     else if type = EDGE_TYPE_SR_RECEIVED \<or> type = EDGE_TYPE_SR_RESULT_ACK then 9
     else if type = EDGE_TYPE_SR_RESULT then 11
     else if type = EDGE_TYPE_SR_OPEN_ACK then 17
     else if type = EDGE_TYPE_SR_OPEN then 8
     else if type = EDGE_TYPE_SR_COMMAND then 10
     else if type = EDGE_TYPE_QUERY_LIGHT then 1
     else if type = EDGE_TYPE_QUERY_TH then 1
     else if type = EDGE_TYPE_SET_PERIOD then 3
     else -1)"

definition edge_payload_len_ok :: "u8 \<Rightarrow> u8 \<Rightarrow> bool" where
  "edge_payload_len_ok type payload_len \<longleftrightarrow>
     (let need = edge_min_payload_len type in 0 \<le> need \<and> need \<le> int (unat payload_len))"

definition edge_period_s_valid :: "u16 \<Rightarrow> bool" where
  "edge_period_s_valid period_s \<longleftrightarrow> EDGE_PERIOD_MIN_S \<le> unat period_s"

subsection \<open>The byte strings the writers produce\<close>

definition u64_bytes :: "u64 \<Rightarrow> u8 list" where
  "u64_bytes v = map (\<lambda>i. ucast (drop_bit (8 * (7 - i)) v)) [0..<8]"

definition u16_bytes :: "u16 \<Rightarrow> u8 list" where
  "u16_bytes v = [ucast (drop_bit 8 v), ucast v]"

lemma length_u64_bytes [simp, wire_simps]: "length (u64_bytes v) = 8"
  by (simp add: u64_bytes_def)

lemma length_u16_bytes [simp, wire_simps]: "length (u16_bytes v) = 2"
  by (simp add: u16_bytes_def)

lemma length_edge_u64_be_write [simp, wire_simps]: "length (edge_u64_be_write p off v) = length p"
  by (simp add: edge_u64_be_write_def upt_rec)

lemma be_write_loop:
  assumes "length p = off + 8 + m" and "n \<le> 8"
  shows "foldl (\<lambda>(p, v) i. (p[off + (7 - i) := ucast v], drop_bit 8 v)) (p, v :: u64) [0..<n] =
    (take (off + 8 - n) p @ drop (8 - n) (u64_bytes v) @ drop (off + 8) p, drop_bit (8 * n) v)"
  using assms(2)
proof (induction n)
  case 0
  then show ?case by simp
next
  case (Suc n)
  then have n: "off + (7 - n) = off + 7 - n" "off + 8 - n = Suc (off + 7 - n)"
    "8 - Suc n = 7 - n" "8 - n = Suc (7 - n)" "7 - n < 8" by auto
  from n(5) have "[0..<8] ! (7 - n) = 7 - n" using nth_upt [of 0 "7 - n" 8] by (simp del: upt_rec_numeral)
  with Suc.prems n(5) have byte: "u64_bytes v ! (7 - n) = ucast (drop_bit (8 * n) v)"
    by (simp add: u64_bytes_def del: upt_rec_numeral)
  have "(take (off + 8 - n) p @ xs)[off + (7 - n) := b] = take (off + 7 - n) p @ b # xs" for xs b
    using assms(1) Suc.prems by (simp add: n take_Suc_conv_app_nth list_update_append)
  with Suc show ?case
    by (simp add: byte [symmetric] n Cons_nth_drop_Suc drop_bit_drop_bit add.commute)
qed

lemma edge_u64_be_write_eq:
  "length p = off + 8 + m \<Longrightarrow> edge_u64_be_write p off v = take off p @ u64_bytes v @ drop (off + 8) p"
  by (simp add: edge_u64_be_write_def be_write_loop)

lemma edge_u16_be_write_eq: "edge_u16_be_write [a, b] 0 v = u16_bytes v"
  by (auto simp: edge_u16_be_write_def u16_bytes_def and_255_eq bit_simps intro!: bit_word_eqI)

lemma be_read_loop:
  "n \<le> 8 \<Longrightarrow> foldl (\<lambda>v i. push_bit 8 v OR ucast (u64_bytes w ! i)) 0 [0..<n] = drop_bit (64 - 8 * n) w"
proof (induction n)
  case 0
  show ?case by (auto intro!: u64_eqI simp: bit_simps dest: bit_imp_le_length)
next
  case (Suc n)
  then have "foldl (\<lambda>v i. push_bit 8 v OR ucast (u64_bytes w ! i)) 0 [0..<n] = drop_bit (64 - 8 * n) w"
    by simp
  moreover from Suc.prems have "[0..<8] ! n = n" using nth_upt [of 0 n 8] by (simp del: upt_rec_numeral)
  with Suc.prems have "u64_bytes w ! n = ucast (drop_bit (64 - 8 * Suc n) w)"
    by (simp add: u64_bytes_def diff_mult_distrib2 del: upt_rec_numeral)
  moreover obtain m where "64 - 8 * Suc n = m" "64 - 8 * n = m + 8" using Suc.prems by auto
  moreover have "push_bit 8 (drop_bit (m + 8) w) OR ucast (ucast (drop_bit m w) :: u8) = drop_bit m w"
    by (rule u64_eqI) (auto simp: bit_simps)
  ultimately show ?case by simp
qed

lemma edge_u64_be_read_bytes: "edge_u64_be_read (xs @ u64_bytes v @ ys) (length xs) = v"
proof -
  have "foldl (\<lambda>w i. push_bit 8 w OR ucast ((u64_bytes v @ ys) ! i)) (0 :: u64) [0..<8] =
      foldl (\<lambda>w i. push_bit 8 w OR ucast (u64_bytes v ! i)) 0 [0..<8]"
    by (rule foldl_cong) (auto simp: nth_append)
  then show ?thesis by (simp add: edge_u64_be_read_def be_read_loop)
qed

lemma edge_u16_be_read_bytes: "edge_u16_be_read (xs @ u16_bytes v @ ys) (length xs) = v"
  by (rule u16_eqI) (auto simp: edge_u16_be_read_def u16_bytes_def nth_append bit_simps)

end
