(* ===== verification/Edge_Crc16.thy ===== *)
theory Edge_Crc16
  imports Prelude
begin

text \<open>
  \<^verbatim>\<open>protocol/src/edge_crc16.c\<close> and \<^verbatim>\<open>protocol/include/edge_proto/edge_crc16.h\<close>:
  the table-driven CRC-16/MODBUS. The table is the source's own; the reference is the bitwise
  register of the polynomial 0xA001. The lemmas show that the table routine is the reference,
  that one update is injective in the register and in the byte, and so that a corrupted byte
  always changes the checksum.
\<close>

subsection \<open>The code\<close>

definition kCrc16Table :: "u16 list" where
  "kCrc16Table =
    [0x0000, 0xC0C1, 0xC181, 0x0140, 0xC301, 0x03C0, 0x0280, 0xC241,
     0xC601, 0x06C0, 0x0780, 0xC741, 0x0500, 0xC5C1, 0xC481, 0x0440,
     0xCC01, 0x0CC0, 0x0D80, 0xCD41, 0x0F00, 0xCFC1, 0xCE81, 0x0E40,
     0x0A00, 0xCAC1, 0xCB81, 0x0B40, 0xC901, 0x09C0, 0x0880, 0xC841,
     0xD801, 0x18C0, 0x1980, 0xD941, 0x1B00, 0xDBC1, 0xDA81, 0x1A40,
     0x1E00, 0xDEC1, 0xDF81, 0x1F40, 0xDD01, 0x1DC0, 0x1C80, 0xDC41,
     0x1400, 0xD4C1, 0xD581, 0x1540, 0xD701, 0x17C0, 0x1680, 0xD641,
     0xD201, 0x12C0, 0x1380, 0xD341, 0x1100, 0xD1C1, 0xD081, 0x1040,
     0xF001, 0x30C0, 0x3180, 0xF141, 0x3300, 0xF3C1, 0xF281, 0x3240,
     0x3600, 0xF6C1, 0xF781, 0x3740, 0xF501, 0x35C0, 0x3480, 0xF441,
     0x3C00, 0xFCC1, 0xFD81, 0x3D40, 0xFF01, 0x3FC0, 0x3E80, 0xFE41,
     0xFA01, 0x3AC0, 0x3B80, 0xFB41, 0x3900, 0xF9C1, 0xF881, 0x3840,
     0x2800, 0xE8C1, 0xE981, 0x2940, 0xEB01, 0x2BC0, 0x2A80, 0xEA41,
     0xEE01, 0x2EC0, 0x2F80, 0xEF41, 0x2D00, 0xEDC1, 0xEC81, 0x2C40,
     0xE401, 0x24C0, 0x2580, 0xE541, 0x2700, 0xE7C1, 0xE681, 0x2640,
     0x2200, 0xE2C1, 0xE381, 0x2340, 0xE101, 0x21C0, 0x2080, 0xE041,
     0xA001, 0x60C0, 0x6180, 0xA141, 0x6300, 0xA3C1, 0xA281, 0x6240,
     0x6600, 0xA6C1, 0xA781, 0x6740, 0xA501, 0x65C0, 0x6480, 0xA441,
     0x6C00, 0xACC1, 0xAD81, 0x6D40, 0xAF01, 0x6FC0, 0x6E80, 0xAE41,
     0xAA01, 0x6AC0, 0x6B80, 0xAB41, 0x6900, 0xA9C1, 0xA881, 0x6840,
     0x7800, 0xB8C1, 0xB981, 0x7940, 0xBB01, 0x7BC0, 0x7A80, 0xBA41,
     0xBE01, 0x7EC0, 0x7F80, 0xBF41, 0x7D00, 0xBDC1, 0xBC81, 0x7C40,
     0xB401, 0x74C0, 0x7580, 0xB541, 0x7700, 0xB7C1, 0xB681, 0x7640,
     0x7200, 0xB2C1, 0xB381, 0x7340, 0xB101, 0x71C0, 0x7080, 0xB041,
     0x5000, 0x90C1, 0x9181, 0x5140, 0x9301, 0x53C0, 0x5280, 0x9241,
     0x9601, 0x56C0, 0x5780, 0x9741, 0x5500, 0x95C1, 0x9481, 0x5440,
     0x9C01, 0x5CC0, 0x5D80, 0x9D41, 0x5F00, 0x9FC1, 0x9E81, 0x5E40,
     0x5A00, 0x9AC1, 0x9B81, 0x5B40, 0x9901, 0x59C0, 0x5880, 0x9841,
     0x8801, 0x48C0, 0x4980, 0x8941, 0x4B00, 0x8BC1, 0x8A81, 0x4A40,
     0x4E00, 0x8EC1, 0x8F81, 0x4F40, 0x8D01, 0x4DC0, 0x4C80, 0x8C41,
     0x4400, 0x84C1, 0x8581, 0x4540, 0x8701, 0x47C0, 0x4680, 0x8641,
     0x8201, 0x42C0, 0x4380, 0x8341, 0x4100, 0x81C1, 0x8081, 0x4040]"

abbreviation (input) EDGE_CRC16_INIT :: u16 where
  "EDGE_CRC16_INIT \<equiv> 0xFFFF"

definition edge_crc16_update :: "u16 \<Rightarrow> u8 \<Rightarrow> u16" where
  "edge_crc16_update crc byte =
     drop_bit 8 crc XOR kCrc16Table ! unat ((crc XOR ucast byte) AND 0xFF)"

definition edge_crc16 :: "u8 list \<Rightarrow> u16" where
  "edge_crc16 data = foldl edge_crc16_update EDGE_CRC16_INIT data"

subsection \<open>The bitwise reference\<close>

definition crc_shift :: "u16 \<Rightarrow> u16" where
  "crc_shift c = (if bit c 0 then drop_bit 1 c XOR 0xA001 else drop_bit 1 c)"

definition crc_byte :: "u16 \<Rightarrow> u16" where
  "crc_byte c = crc_shift (crc_shift (crc_shift (crc_shift
     (crc_shift (crc_shift (crc_shift (crc_shift c)))))))"

definition modbus_crc16 :: "u8 list \<Rightarrow> u16" where
  "modbus_crc16 data = foldl (\<lambda>c b. crc_byte (c XOR ucast b)) 0xFFFF data"

lemma crc_shift_xor [crc_simps]: "crc_shift (a XOR b) = crc_shift a XOR crc_shift b"
  by (auto simp: crc_shift_def bit_simps intro!: u16_eqI)

lemma crc_byte_xor [crc_simps]: "crc_byte (a XOR b) = crc_byte a XOR crc_byte b"
  by (simp add: crc_byte_def crc_simps)

lemma length_table [simp]: "length kCrc16Table = 256"
  by (simp add: kCrc16Table_def)

text \<open>
  The table is generated by the checksums of the eight single-bit bytes: linearity gives every
  other entry as an exclusive or of them.
\<close>

fun crc_table :: "u16 list \<Rightarrow> u16 list" where
  "crc_table [] = [0]"
| "crc_table (g # gs) = crc_table gs @ map (\<lambda>v. v XOR g) (crc_table gs)"

lemma of_nat_add_pow: "i < 2 ^ k \<Longrightarrow> (of_nat (i + 2 ^ k) :: u16) = of_nat i XOR 2 ^ k"
proof -
  assume "i < 2 ^ k"
  then have "\<not> bit i k" by (simp add: bit_iff_odd)
  then have "(of_nat i :: u16) AND 2 ^ k = 0"
    by (intro u16_eqI) (auto simp: bit_and_iff bit_exp_iff bit_of_nat_iff)
  then show ?thesis by (simp add: disjunctive_add_eq_xor)
qed

lemma length_crc_table [simp]: "length (crc_table gs) = 2 ^ length gs"
  by (induction gs) auto

lemma crc_table_nth:
  "i < 2 ^ k \<Longrightarrow> crc_table (map (\<lambda>j. crc_byte (2 ^ j)) (rev [0..<k])) ! i = crc_byte (of_nat i)"
proof (induction k arbitrary: i)
  case 0
  then show ?case by (simp add: crc_byte_def crc_shift_def)
next
  case (Suc k)
  show ?case
  proof (cases "i < 2 ^ k")
    case True
    with Suc.IH show ?thesis by (simp add: nth_append)
  next
    case False
    then obtain j where "i = j + 2 ^ k" by (metis le_add_diff_inverse2 not_less)
    with Suc.prems have "j < 2 ^ k" by simp
    with Suc.IH [of j] \<open>i = j + 2 ^ k\<close> show ?thesis
      by (simp add: nth_append of_nat_add_pow crc_byte_xor del: of_nat_add)
  qed
qed

lemma kCrc16Table_eq: "kCrc16Table = crc_table (map (\<lambda>j. crc_byte (2 ^ j)) (rev [0..<8]))"
proof -
  have gens: "map (\<lambda>j. crc_byte (2 ^ j)) (rev [0..<8]) =
      [0xA001, 0xF001, 0xD801, 0xCC01, 0xC601, 0xC301, 0xC181, 0xC0C1]"
    by (simp add: crc_byte_def crc_shift_def upt_rec)
  show ?thesis unfolding gens by (simp add: kCrc16Table_def)
qed

lemma kCrc16Table_nth: "i < 256 \<Longrightarrow> kCrc16Table ! i = crc_byte (of_nat i)"
  using crc_table_nth [of i 8] by (simp add: kCrc16Table_eq)

lemma crc_byte_high: "(\<And>n. n < 8 \<Longrightarrow> \<not> bit x n) \<Longrightarrow> crc_byte x = drop_bit 8 x"
  by (simp add: crc_byte_def crc_shift_def bit_simps numeral_eq_Suc)

lemma edge_crc16_update_bitwise: "edge_crc16_update crc byte = crc_byte (crc XOR ucast byte)"
proof -
  let ?x = "crc XOR ucast byte"
  have "?x = push_bit 8 (drop_bit 8 crc) XOR take_bit 8 ?x"
    by (rule u16_eqI) (auto simp: bit_simps dest: bit_u8_lt)
  then have "crc_byte ?x = crc_byte (push_bit 8 (drop_bit 8 crc)) XOR crc_byte (take_bit 8 ?x)"
    using crc_byte_xor by metis
  also have "crc_byte (push_bit 8 (drop_bit 8 crc)) = drop_bit 8 (push_bit 8 (drop_bit 8 crc))"
    by (rule crc_byte_high) (simp add: bit_simps)
  also have "\<dots> = drop_bit 8 crc"
    by (rule u16_eqI) (auto simp: bit_simps dest: bit_u16_lt)
  finally have "crc_byte ?x = drop_bit 8 crc XOR crc_byte (take_bit 8 ?x)" .
  moreover have "unat (take_bit 8 y) < 256" for y :: u16
    using take_bit_nat_less_exp [of 8 "unat y"] by (simp add: unsigned_take_bit_eq)
  ultimately show ?thesis
    by (simp only: edge_crc16_update_def and_255_eq kCrc16Table_nth of_nat_unat ucast_id)
qed

lemma crc_shift_inj: "crc_shift a = crc_shift b \<Longrightarrow> a = b"
proof -
  have top: "bit (crc_shift c) 15 = bit c 0" for c
    by (auto simp: crc_shift_def bit_simps dest: bit_u16_lt)
  have rest: "bit c (Suc n) = (bit (crc_shift c) n \<noteq> (bit c 0 \<and> bit (0xA001 :: u16) n))" for c n
    by (auto simp: crc_shift_def bit_simps)
  assume eq: "crc_shift a = crc_shift b"
  then have "bit a 0 = bit b 0" using top by metis
  with eq rest have "bit a n = bit b n" for n
    by (cases n) metis+
  then show "a = b" by (intro bit_word_eqI)
qed

lemma crc_byte_inj: "crc_byte a = crc_byte b \<Longrightarrow> a = b"
  unfolding crc_byte_def by (drule crc_shift_inj)+

lemma edge_crc16_update_inj_crc: "edge_crc16_update c b = edge_crc16_update c' b \<Longrightarrow> c = c'"
  by (auto simp: edge_crc16_update_bitwise xor_cancel_right dest!: crc_byte_inj)

lemma edge_crc16_update_inj_byte: "edge_crc16_update c b = edge_crc16_update c b' \<Longrightarrow> b = b'"
  by (auto simp: edge_crc16_update_bitwise xor_cancel_left ucast_u8_u16_inj dest!: crc_byte_inj)

text \<open>The register is injective along any common continuation, so one changed byte is never absorbed.\<close>

lemma foldl_crc_inj: "foldl edge_crc16_update c xs = foldl edge_crc16_update c' xs \<Longrightarrow> c = c'"
  by (induction xs arbitrary: c c') (auto dest: edge_crc16_update_inj_crc)

lemma edge_crc16_append [crc_simps]:
  "edge_crc16 (xs @ ys) = foldl edge_crc16_update (edge_crc16 xs) ys"
  by (simp add: edge_crc16_def)

lemma edge_crc16_snoc [crc_simps]:
  "edge_crc16 (xs @ [b]) = edge_crc16_update (edge_crc16 xs) b"
  by (simp add: edge_crc16_def)

lemma edge_crc16_changed_byte:
  assumes "edge_crc16 (xs @ b # ys) = edge_crc16 (xs @ b' # ys)"
  shows "b = b'"
proof -
  from assms have "edge_crc16_update (edge_crc16 xs) b = edge_crc16_update (edge_crc16 xs) b'"
    by (auto simp: edge_crc16_append intro: foldl_crc_inj)
  then show ?thesis by (rule edge_crc16_update_inj_byte)
qed

subsection \<open>Properties\<close>

text \<open>
  C6. The table-driven routine computes CRC-16/MODBUS: for every byte string it returns the
  value of the bitwise shift register with reflected polynomial 0xA001 and initial value 0xFFFF.
\<close>

theorem edge_crc16_is_modbus: "edge_crc16 data = modbus_crc16 data"
  by (simp add: edge_crc16_def modbus_crc16_def edge_crc16_update_bitwise [abs_def])

end
