(* ===== verification/Edge_Frame.thy ===== *)
theory Edge_Frame
  imports Edge_Proto Edge_Crc16 "HOL-Library.Sublist"
begin

text \<open>
  \<^verbatim>\<open>protocol/src/edge_frame.c\<close> and \<^verbatim>\<open>protocol/include/edge_proto/edge_frame.h\<close>:
  the frame encoder and the byte-driven receive state machine.

  A parser is a record; its callback transforms the caller's context, which stands for what
  the C callback does through its \<^verbatim>\<open>user\<close> pointer. The parser argument of the C functions
  may be NULL, in which case they do nothing; here it is a value. A (pointer, length) pair is
  the list of bytes it spans, \<open>None\<close> for the NULL pointer.
\<close>

subsection \<open>Encoder\<close>

text \<open>The locals of the encoder: the output array, the next index and the running checksum.\<close>

record enc_state =
  enc_out :: "u8 list"
  enc_n :: u8
  enc_crc :: u16

text \<open>\<^verbatim>\<open>out[n++] = b\<close>, and the same with the checksum updated.\<close>

definition put_byte :: "u8 \<Rightarrow> enc_state \<Rightarrow> enc_state" where
  "put_byte b s = s\<lparr>enc_out := (enc_out s)[unat (enc_n s) := b], enc_n := enc_n s + 1\<rparr>"

definition put_crc_byte :: "u8 \<Rightarrow> enc_state \<Rightarrow> enc_state" where
  "put_crc_byte b s = (put_byte b s)\<lparr>enc_crc := edge_crc16_update (enc_crc s) b\<rparr>"

text \<open>\<^verbatim>\<open>for (uint8_t i = 0; i < payload_len; ++i)\<close>\<close>

function encode_payload :: "u8 list \<Rightarrow> u8 \<Rightarrow> u8 \<Rightarrow> enc_state \<Rightarrow> enc_state" where
  "encode_payload payload payload_len i s =
     (if i < payload_len
      then encode_payload payload payload_len (i + 1) (put_crc_byte (payload ! unat i) s)
      else s)"
  by pat_completeness auto
termination
proof (relation "measure (\<lambda>(payload, payload_len, i, s). unat payload_len - unat i)", goal_cases)
  case (2 payload payload_len i s)
  then have "unat i < unat payload_len" by (simp add: word_less_nat_alt)
  moreover have "unat payload_len < 256" by simp
  ultimately have "unat (i + 1) = Suc (unat i)" by (intro unat_Suc_u8) linarith
  with \<open>unat i < unat payload_len\<close> show ?case by simp
qed simp

declare encode_payload.simps [simp del]

definition edge_frame_encode ::
    "u8 \<Rightarrow> u8 list option \<Rightarrow> u8 \<Rightarrow> u8 list option \<Rightarrow> u8 \<times> u8 list option" where
  "edge_frame_encode type payload payload_len out =
    (case out of
       None \<Rightarrow> (0, None)
     | Some buf \<Rightarrow>
         if unat payload_len > EDGE_PAYLOAD_MAX then (0, Some buf)
         else if payload = None \<and> payload_len \<noteq> 0 then (0, Some buf)
         else
           let s = \<lparr>enc_out = buf, enc_n = 0, enc_crc = EDGE_CRC16_INIT\<rparr>;
               s = put_byte EDGE_HDR0 s;
               s = put_byte EDGE_HDR1 s;
               len = 1 + payload_len;
               s = put_crc_byte len s;
               s = put_crc_byte type s;
               s = encode_payload (case payload of None \<Rightarrow> [] | Some p \<Rightarrow> p) payload_len 0 s;
               crc = enc_crc s;
               s = put_byte (ucast (crc AND 0xFF)) s;
               s = put_byte (ucast (drop_bit 8 crc)) s
           in (enc_n s, Some (enc_out s)))"

subsection \<open>Receive state machine\<close>

datatype edge_state_t =
    EDGE_ST_WAIT_HDR0
  | EDGE_ST_WAIT_HDR1
  | EDGE_ST_WAIT_LEN
  | EDGE_ST_WAIT_TYPE
  | EDGE_ST_READ_PAYLOAD
  | EDGE_ST_WAIT_CRC_LO
  | EDGE_ST_WAIT_CRC_HI
  | EDGE_ST_DELIVER

record edge_parser_stats_t =
  frames_ok :: u32
  len_err :: u32
  crc_err :: u32
  resync :: u32

type_synonym 'u edge_frame_cb_t = "u8 \<Rightarrow> u8 list \<Rightarrow> 'u \<Rightarrow> 'u"

record 'u edge_parser_t =
  p_state :: edge_state_t
  p_len :: u8
  p_type :: u8
  p_payload :: "u8 list"
  p_received :: u8
  p_crc :: u16
  p_crc_lo :: u8
  p_crc_hi :: u8
  p_on_frame :: "'u edge_frame_cb_t option"
  p_user :: 'u
  p_stats :: edge_parser_stats_t

definition edge_parser_reset :: "'u edge_parser_t \<Rightarrow> 'u edge_parser_t" where
  "edge_parser_reset p = p\<lparr>p_state := EDGE_ST_WAIT_HDR0, p_len := 0, p_type := 0,
     p_received := 0, p_crc := EDGE_CRC16_INIT, p_crc_lo := 0, p_crc_hi := 0\<rparr>"

definition edge_parser_resync :: "'u edge_parser_t \<Rightarrow> 'u edge_parser_t" where
  "edge_parser_resync p =
    (let p = edge_parser_reset p
     in p\<lparr>p_stats := (p_stats p)\<lparr>resync := resync (p_stats p) + 1\<rparr>\<rparr>)"

definition edge_parser_deliver :: "'u edge_parser_t \<Rightarrow> 'u edge_parser_t" where
  "edge_parser_deliver p =
    (let received = push_bit 8 (ucast (p_crc_hi p)) OR ucast (p_crc_lo p)
     in if received = p_crc p then
          let p = p\<lparr>p_stats := (p_stats p)\<lparr>frames_ok := frames_ok (p_stats p) + 1\<rparr>\<rparr>;
              p = (case p_on_frame p of
                     None \<Rightarrow> p
                   | Some cb \<Rightarrow>
                       p\<lparr>p_user := cb (p_type p) (take (unat (p_len p - 1)) (p_payload p)) (p_user p)\<rparr>)
          in p\<lparr>p_state := EDGE_ST_WAIT_HDR0\<rparr>
        else
          edge_parser_resync (p\<lparr>p_stats := (p_stats p)\<lparr>crc_err := crc_err (p_stats p) + 1\<rparr>\<rparr>))"

definition edge_parser_init ::
    "'u edge_parser_t \<Rightarrow> 'u edge_frame_cb_t option \<Rightarrow> 'u \<Rightarrow> 'u edge_parser_t" where
  "edge_parser_init p cb user = p\<lparr>p_state := EDGE_ST_WAIT_HDR0, p_len := 0, p_type := 0,
     p_received := 0, p_crc := EDGE_CRC16_INIT, p_crc_lo := 0, p_crc_hi := 0,
     p_on_frame := cb, p_user := user,
     p_stats := \<lparr>frames_ok = 0, len_err = 0, crc_err = 0, resync = 0\<rparr>\<rparr>"

definition edge_parser_feed :: "'u edge_parser_t \<Rightarrow> u8 \<Rightarrow> 'u edge_parser_t" where
  "edge_parser_feed p byte =
    (case p_state p of
       EDGE_ST_WAIT_HDR0 \<Rightarrow>
         if byte = EDGE_HDR0 then p\<lparr>p_state := EDGE_ST_WAIT_HDR1\<rparr> else p
     | EDGE_ST_WAIT_HDR1 \<Rightarrow>
         if byte = EDGE_HDR1 then p\<lparr>p_crc := EDGE_CRC16_INIT, p_state := EDGE_ST_WAIT_LEN\<rparr>
         else if byte = EDGE_HDR0 then p
         else p\<lparr>p_state := EDGE_ST_WAIT_HDR0\<rparr>
     | EDGE_ST_WAIT_LEN \<Rightarrow>
         if unat byte < EDGE_LEN_MIN \<or> unat byte > EDGE_LEN_MAX then
           edge_parser_resync (p\<lparr>p_stats := (p_stats p)\<lparr>len_err := len_err (p_stats p) + 1\<rparr>\<rparr>)
         else p\<lparr>p_len := byte, p_crc := edge_crc16_update (p_crc p) byte,
                p_state := EDGE_ST_WAIT_TYPE\<rparr>
     | EDGE_ST_WAIT_TYPE \<Rightarrow>
         p\<lparr>p_type := byte, p_crc := edge_crc16_update (p_crc p) byte, p_received := 0,
           p_state := (if unat (p_len p) = EDGE_LEN_MIN then EDGE_ST_WAIT_CRC_LO
                       else EDGE_ST_READ_PAYLOAD)\<rparr>
     | EDGE_ST_READ_PAYLOAD \<Rightarrow>
         let p = p\<lparr>p_payload := (p_payload p)[unat (p_received p) := byte]\<rparr>;
             p = p\<lparr>p_received := p_received p + 1\<rparr>;
             p = p\<lparr>p_crc := edge_crc16_update (p_crc p) byte\<rparr>
         in if p_received p \<ge> p_len p - 1 then p\<lparr>p_state := EDGE_ST_WAIT_CRC_LO\<rparr> else p
     | EDGE_ST_WAIT_CRC_LO \<Rightarrow> p\<lparr>p_crc_lo := byte, p_state := EDGE_ST_WAIT_CRC_HI\<rparr>
     | EDGE_ST_WAIT_CRC_HI \<Rightarrow>
         edge_parser_deliver (p\<lparr>p_crc_hi := byte, p_state := EDGE_ST_DELIVER\<rparr>)
     | EDGE_ST_DELIVER \<Rightarrow> edge_parser_resync p)"

definition edge_parser_feed_buf :: "'u edge_parser_t \<Rightarrow> u8 list option \<Rightarrow> 'u edge_parser_t" where
  "edge_parser_feed_buf p buf =
    (case buf of None \<Rightarrow> p | Some bytes \<Rightarrow> foldl edge_parser_feed p bytes)"

subsection \<open>The wire format\<close>

text \<open>What a frame is on the line: header, LEN, TYPE, payload, CRC low byte first.\<close>

definition frame_body :: "u8 \<Rightarrow> u8 list \<Rightarrow> u8 list" where
  "frame_body type payload = of_nat (Suc (length payload)) # type # payload"

definition crc_bytes :: "u16 \<Rightarrow> u8 list" where
  "crc_bytes crc = [ucast crc, ucast (drop_bit 8 crc)]"

definition wire_frame :: "u8 \<Rightarrow> u8 list \<Rightarrow> u8 list" where
  "wire_frame type payload =
     [EDGE_HDR0, EDGE_HDR1] @ frame_body type payload @ crc_bytes (edge_crc16 (frame_body type payload))"

lemma length_frame_body [simp, wire_simps]: "length (frame_body t pl) = length pl + 2"
  by (simp add: frame_body_def)

lemma length_crc_bytes [simp, wire_simps]: "length (crc_bytes c) = 2"
  by (simp add: crc_bytes_def)

lemma length_wire_frame [simp, wire_simps]: "length (wire_frame t pl) = length pl + 6"
  by (simp add: wire_frame_def)

lemma crc_bytes_join: "push_bit 8 (ucast hi) OR ucast lo = c \<longleftrightarrow> [lo, hi] = crc_bytes c"
proof
  assume "push_bit 8 (ucast hi) OR ucast lo = c"
  then show "[lo, hi] = crc_bytes c"
    by (auto simp: crc_bytes_def bit_simps dest: bit_u8_lt intro!: bit_word_eqI)
next
  assume "[lo, hi] = crc_bytes c"
  then show "push_bit 8 (ucast hi) OR ucast lo = c"
    by (auto simp: crc_bytes_def bit_simps dest: bit_u16_lt intro!: u16_eqI)
qed

subsection \<open>Encoder lemmas\<close>

text \<open>The encoder's locals after it has written the bytes \<open>w\<close> over the buffer \<open>buf\<close>.\<close>

definition enc_at :: "u8 list \<Rightarrow> u16 \<Rightarrow> u8 list \<Rightarrow> enc_state" where
  "enc_at w c buf = \<lparr>enc_out = w @ drop (length w) buf, enc_n = of_nat (length w), enc_crc = c\<rparr>"

lemma put_byte_enc_at:
  "length w < length buf \<Longrightarrow> length w < 255 \<Longrightarrow> put_byte b (enc_at w c buf) = enc_at (w @ [b]) c buf"
  by (simp add: put_byte_def enc_at_def unat_of_nat_u8 list_update_append
      Cons_nth_drop_Suc [symmetric])

lemma put_crc_byte_enc_at:
  "length w < length buf \<Longrightarrow> length w < 255 \<Longrightarrow>
   put_crc_byte b (enc_at w c buf) = enc_at (w @ [b]) (edge_crc16_update c b) buf"
  by (simp add: put_crc_byte_def put_byte_enc_at) (simp add: enc_at_def)

lemma encode_payload_enc_at:
  assumes "length pl = unat n" and "length w + (unat n - unat i) \<le> length buf"
    and "length w + (unat n - unat i) < 255"
  shows "encode_payload (pl @ rest) n i (enc_at w c buf) =
    enc_at (w @ drop (unat i) pl) (foldl edge_crc16_update c (drop (unat i) pl)) buf"
  using assms
proof (induction "unat n - unat i" arbitrary: i w c)
  case 0
  then have "\<not> i < n" by (simp add: word_less_nat_alt)
  with 0 show ?case by (subst encode_payload.simps) simp
next
  case (Suc k)
  then have lt: "unat i < unat n" by simp
  then have i: "i < n" by (simp add: word_less_nat_alt)
  have suc: "unat (i + 1) = Suc (unat i)"
    using lt unat_u8_lt [of n] by (intro unat_Suc_u8) linarith
  have nth: "(pl @ rest) ! unat i = pl ! unat i" "drop (unat i) pl = pl ! unat i # drop (Suc (unat i)) pl"
    using lt Suc.prems(1) by (simp_all add: nth_append Cons_nth_drop_Suc)
  have "encode_payload (pl @ rest) n (i + 1) (enc_at (w @ [pl ! unat i]) (edge_crc16_update c (pl ! unat i)) buf) =
      enc_at ((w @ [pl ! unat i]) @ drop (unat (i + 1)) pl)
        (foldl edge_crc16_update (edge_crc16_update c (pl ! unat i)) (drop (unat (i + 1)) pl)) buf"
    by (rule Suc.hyps(1)) (use Suc suc lt in simp_all)
  with i nth suc Suc.prems lt show ?case
    by (subst encode_payload.simps) (simp add: put_crc_byte_enc_at)
qed

lemma ucast_low_byte: "(ucast (take_bit 8 (c :: u16)) :: u8) = ucast c"
  by (rule bit_word_eqI) (auto simp: bit_simps)

lemma edge_frame_encode_ok:
  assumes pl: "length pl \<le> EDGE_PAYLOAD_MAX" and buf: "length pl + 6 \<le> length buf"
    and payload: "payload = Some (pl @ rest) \<or> (payload = None \<and> pl = [])"
  shows "edge_frame_encode t payload (of_nat (length pl)) (Some buf) =
    (of_nat (length pl + 6), Some (wire_frame t pl @ drop (length pl + 6) buf))"
proof -
  let ?n = "of_nat (length pl) :: u8"
  have n: "unat ?n = length pl" using pl by (simp add: unat_of_nat_u8)
  have start: "\<lparr>enc_out = buf, enc_n = 0, enc_crc = EDGE_CRC16_INIT\<rparr> = enc_at [] EDGE_CRC16_INIT buf"
    by (simp add: enc_at_def)
  obtain rest' where pay: "(case payload of None \<Rightarrow> [] | Some p \<Rightarrow> p) = pl @ rest'"
    using payload by (cases payload) auto
  have guards: "\<not> unat ?n > EDGE_PAYLOAD_MAX" "\<not> (payload = None \<and> ?n \<noteq> 0)"
    using pl payload n by auto
  let ?h = "[EDGE_HDR0, EDGE_HDR1, 1 + ?n, t]"
  let ?ci = "edge_crc16_update (edge_crc16_update EDGE_CRC16_INIT (1 + ?n)) t"
  let ?c = "foldl edge_crc16_update ?ci pl"
  have head: "put_crc_byte t (put_crc_byte (1 + ?n) (put_byte EDGE_HDR1 (put_byte EDGE_HDR0
      (enc_at [] EDGE_CRC16_INIT buf)))) = enc_at ?h ?ci buf"
  proof -
    have "buf \<noteq> []" "1 < length buf" "2 < length buf" "3 < length buf" using buf by auto
    then show ?thesis by (simp add: put_byte_enc_at put_crc_byte_enc_at)
  qed
  have loop: "encode_payload (pl @ rest') ?n 0 (enc_at ?h ?ci buf) = enc_at (?h @ pl) ?c buf"
    using encode_payload_enc_at [of pl ?n ?h 0 buf rest' ?ci] buf n pl by simp
  have tail: "put_byte (ucast (drop_bit 8 ?c)) (put_byte (ucast (?c AND 0xFF)) (enc_at (?h @ pl) ?c buf)) =
      enc_at (wire_frame t pl) ?c buf"
    using buf pl by (simp add: put_byte_enc_at and_255_eq ucast_low_byte wire_frame_def
        frame_body_def crc_bytes_def edge_crc16_def)
  have "enc_crc (enc_at (?h @ pl) ?c buf) = ?c" by (simp add: enc_at_def)
  then show ?thesis
    unfolding edge_frame_encode_def Let_def option.case if_not_P [OF guards(1)] if_not_P [OF guards(2)]
      start pay head loop
    by (simp only: tail) (simp add: enc_at_def)
qed

subsection \<open>What the parser has read so far\<close>

text \<open>
  The bytes of the frame under construction, as the parser's fields record them, and the
  well-formedness of a parser between two calls. The payload array has its declared size and
  the next write index is below it in every state that writes.
\<close>

definition cur_bytes :: "'u edge_parser_t \<Rightarrow> u8 list" where
  "cur_bytes p =
    (case p_state p of
       EDGE_ST_WAIT_HDR0 \<Rightarrow> []
     | EDGE_ST_WAIT_HDR1 \<Rightarrow> [EDGE_HDR0]
     | EDGE_ST_WAIT_LEN \<Rightarrow> [EDGE_HDR0, EDGE_HDR1]
     | EDGE_ST_WAIT_TYPE \<Rightarrow> [EDGE_HDR0, EDGE_HDR1, p_len p]
     | EDGE_ST_READ_PAYLOAD \<Rightarrow>
         [EDGE_HDR0, EDGE_HDR1, p_len p, p_type p] @ take (unat (p_received p)) (p_payload p)
     | EDGE_ST_WAIT_CRC_LO \<Rightarrow>
         [EDGE_HDR0, EDGE_HDR1, p_len p, p_type p] @ take (unat (p_len p) - 1) (p_payload p)
     | EDGE_ST_WAIT_CRC_HI \<Rightarrow>
         [EDGE_HDR0, EDGE_HDR1, p_len p, p_type p] @ take (unat (p_len p) - 1) (p_payload p) @ [p_crc_lo p]
     | EDGE_ST_DELIVER \<Rightarrow> [])"

definition len_ok :: "u8 \<Rightarrow> bool" where
  "len_ok l \<longleftrightarrow> EDGE_LEN_MIN \<le> unat l \<and> unat l \<le> EDGE_LEN_MAX"

definition parser_wf :: "'u edge_parser_t \<Rightarrow> bool" where
  "parser_wf p \<longleftrightarrow> length (p_payload p) = EDGE_PAYLOAD_MAX \<and>
    (case p_state p of
       EDGE_ST_WAIT_HDR0 \<Rightarrow> True
     | EDGE_ST_WAIT_HDR1 \<Rightarrow> True
     | EDGE_ST_WAIT_LEN \<Rightarrow> p_crc p = EDGE_CRC16_INIT
     | EDGE_ST_WAIT_TYPE \<Rightarrow> len_ok (p_len p) \<and> p_crc p = edge_crc16 [p_len p]
     | EDGE_ST_READ_PAYLOAD \<Rightarrow> len_ok (p_len p) \<and> unat (p_received p) < unat (p_len p) - 1 \<and>
         p_crc p = edge_crc16 (p_len p # p_type p # take (unat (p_received p)) (p_payload p))
     | EDGE_ST_WAIT_CRC_LO \<Rightarrow> len_ok (p_len p) \<and>
         p_crc p = edge_crc16 (p_len p # p_type p # take (unat (p_len p) - 1) (p_payload p))
     | EDGE_ST_WAIT_CRC_HI \<Rightarrow> len_ok (p_len p) \<and>
         p_crc p = edge_crc16 (p_len p # p_type p # take (unat (p_len p) - 1) (p_payload p))
     | EDGE_ST_DELIVER \<Rightarrow> False)"

text \<open>The frame a parser in \<open>EDGE_ST_WAIT_CRC_HI\<close> accepts with the byte \<open>b\<close>.\<close>

definition completes :: "'u edge_parser_t \<Rightarrow> u8 \<Rightarrow> bool" where
  "completes p b \<longleftrightarrow> p_state p = EDGE_ST_WAIT_CRC_HI \<and> [p_crc_lo p, b] = crc_bytes (p_crc p)"

lemma edge_parser_deliver_ok:
  "[p_crc_lo p, p_crc_hi p] = crc_bytes (p_crc p) \<Longrightarrow>
   edge_parser_deliver p = p\<lparr>p_stats := (p_stats p)\<lparr>frames_ok := frames_ok (p_stats p) + 1\<rparr>,
     p_user := (case p_on_frame p of None \<Rightarrow> p_user p
                | Some cb \<Rightarrow> cb (p_type p) (take (unat (p_len p - 1)) (p_payload p)) (p_user p)),
     p_state := EDGE_ST_WAIT_HDR0\<rparr>"
  by (simp add: edge_parser_deliver_def crc_bytes_join Let_def split: option.split)

lemma edge_parser_deliver_bad:
  "[p_crc_lo p, p_crc_hi p] \<noteq> crc_bytes (p_crc p) \<Longrightarrow>
   edge_parser_deliver p =
     edge_parser_resync (p\<lparr>p_stats := (p_stats p)\<lparr>crc_err := crc_err (p_stats p) + 1\<rparr>\<rparr>)"
  by (simp add: edge_parser_deliver_def crc_bytes_join)

lemmas parser_step_defs = edge_parser_feed_def edge_parser_resync_def edge_parser_reset_def Let_def

lemma len_ok_minus: "len_ok l \<Longrightarrow> unat (l - 1) = unat l - 1 \<and> unat l - 1 \<le> 63"
  by (auto simp: len_ok_def unat_minus_1_u8)

lemma feed_payload_step:
  assumes "parser_wf p" and "p_state p = EDGE_ST_READ_PAYLOAD"
  shows "edge_parser_feed p b = p\<lparr>p_payload := (p_payload p)[unat (p_received p) := b],
      p_received := p_received p + 1, p_crc := edge_crc16_update (p_crc p) b,
      p_state := (if Suc (unat (p_received p)) = unat (p_len p) - 1 then EDGE_ST_WAIT_CRC_LO
                  else EDGE_ST_READ_PAYLOAD)\<rparr>"
    and "unat (p_received p + 1) = Suc (unat (p_received p))"
    and "take (Suc (unat (p_received p))) ((p_payload p)[unat (p_received p) := b]) =
      take (unat (p_received p)) (p_payload p) @ [b]"
proof -
  from assms have len: "len_ok (p_len p)" and r: "unat (p_received p) < unat (p_len p) - 1"
    and l: "length (p_payload p) = 63"
    by (auto simp: parser_wf_def)
  from len_ok_minus [OF len] r show s: "unat (p_received p + 1) = Suc (unat (p_received p))"
    by (intro unat_Suc_u8) linarith
  have "p_len p - 1 \<le> p_received p + 1 \<longleftrightarrow> Suc (unat (p_received p)) = unat (p_len p) - 1"
    using len_ok_minus [OF len] r s by (auto simp: word_le_nat_alt)
  with assms(2) show "edge_parser_feed p b = p\<lparr>p_payload := (p_payload p)[unat (p_received p) := b],
      p_received := p_received p + 1, p_crc := edge_crc16_update (p_crc p) b,
      p_state := (if Suc (unat (p_received p)) = unat (p_len p) - 1 then EDGE_ST_WAIT_CRC_LO
                  else EDGE_ST_READ_PAYLOAD)\<rparr>"
    by (simp add: edge_parser_feed_def Let_def)
  from r len_ok_minus [OF len] l show
    "take (Suc (unat (p_received p))) ((p_payload p)[unat (p_received p) := b]) =
      take (unat (p_received p)) (p_payload p) @ [b]"
    by (simp add: take_Suc_conv_app_nth)
qed

lemma edge_crc16_Cons2: "edge_crc16 (a # b # xs @ [c]) = edge_crc16_update (edge_crc16 (a # b # xs)) c"
  by (simp add: edge_crc16_def)

lemma parser_wf_feed:
  assumes "parser_wf p"
  shows "parser_wf (edge_parser_feed p b)"
proof (cases "p_state p")
  case EDGE_ST_READ_PAYLOAD
  with assms feed_payload_step [OF assms EDGE_ST_READ_PAYLOAD] show ?thesis
    by (auto simp: parser_wf_def edge_crc16_Cons2)
next
  case EDGE_ST_WAIT_CRC_HI
  then have "edge_parser_feed p b = edge_parser_deliver (p\<lparr>p_crc_hi := b, p_state := EDGE_ST_DELIVER\<rparr>)"
    by (simp add: edge_parser_feed_def)
  moreover have "length (p_payload p) = 63" using assms by (simp add: parser_wf_def)
  ultimately show ?thesis
    by (cases "[p_crc_lo p, b] = crc_bytes (p_crc p)")
      (simp_all add: edge_parser_deliver_ok edge_parser_deliver_bad parser_wf_def parser_step_defs)
qed (use assms in \<open>auto simp: parser_wf_def parser_step_defs len_ok_def edge_crc16_def
    dest: order_antisym\<close>)

lemma parser_wf_feeds: "parser_wf p \<Longrightarrow> parser_wf (foldl edge_parser_feed p bs)"
  by (induction bs arbitrary: p) (simp_all add: parser_wf_feed)

lemma parser_wf_init:
  "length (p_payload p) = EDGE_PAYLOAD_MAX \<Longrightarrow> parser_wf (edge_parser_init p cb user)"
  by (simp add: parser_wf_def edge_parser_init_def)

subsection \<open>Feeding a whole frame\<close>

lemma feed_crc_lo: "p_state p = EDGE_ST_WAIT_CRC_LO \<Longrightarrow>
    edge_parser_feed p b = p\<lparr>p_crc_lo := b, p_state := EDGE_ST_WAIT_CRC_HI\<rparr>"
  by (simp add: edge_parser_feed_def)

lemma feed_crc_hi: "p_state p = EDGE_ST_WAIT_CRC_HI \<Longrightarrow>
    edge_parser_feed p b = edge_parser_deliver (p\<lparr>p_crc_hi := b, p_state := EDGE_ST_DELIVER\<rparr>)"
  by (simp add: edge_parser_feed_def)

lemma feed_payload_bytes:
  assumes "parser_wf p" and "p_state p = EDGE_ST_READ_PAYLOAD" and "xs \<noteq> []"
    and "unat (p_received p) + length xs = unat (p_len p) - 1"
  shows "foldl edge_parser_feed p xs =
    p\<lparr>p_payload := take (unat (p_received p)) (p_payload p) @ xs @
        drop (unat (p_received p) + length xs) (p_payload p),
      p_received := p_received p + of_nat (length xs),
      p_crc := foldl edge_crc16_update (p_crc p) xs, p_state := EDGE_ST_WAIT_CRC_LO\<rparr>"
  using assms
proof (induction xs arbitrary: p)
  case (Cons x xs)
  let ?r = "unat (p_received p)"
  from Cons.prems have "len_ok (p_len p)" "length (p_payload p) = 63" by (auto simp: parser_wf_def)
  with Cons.prems(4) len_ok_minus [of "p_len p"] have r: "?r < length (p_payload p)" by simp
  have split: "(p_payload p)[?r := x] = take ?r (p_payload p) @ x # drop (Suc ?r) (p_payload p)"
    using r by (simp add: upd_conv_take_nth_drop)
  note step = feed_payload_step [OF Cons.prems(1,2)]
  show ?case
  proof (cases "xs = []")
    case True
    with Cons.prems(4) step(1) [of x] split show ?thesis by simp
  next
    case False
    let ?q = "edge_parser_feed p x"
    have "Suc ?r \<noteq> unat (p_len p) - 1" using Cons.prems(4) False by (cases xs) auto
    then have st: "p_state ?q = EDGE_ST_READ_PAYLOAD" and rq: "unat (p_received ?q) = Suc ?r"
      by (simp_all add: step)
    have IH: "foldl edge_parser_feed ?q xs =
        ?q\<lparr>p_payload := take (Suc ?r) (p_payload ?q) @ xs @ drop (Suc ?r + length xs) (p_payload ?q),
           p_received := p_received ?q + of_nat (length xs),
           p_crc := foldl edge_crc16_update (p_crc ?q) xs, p_state := EDGE_ST_WAIT_CRC_LO\<rparr>"
    proof (rule Cons.IH [OF parser_wf_feed [OF Cons.prems(1)] st False, unfolded rq])
      show "Suc ?r + length xs = unat (p_len ?q) - 1" using Cons.prems(4) by (simp add: step(1))
    qed
    have "min (length (p_payload p)) ?r = ?r" using r by simp
    then show ?thesis
      unfolding foldl_Cons IH using r by (simp add: step(1) split ac_simps)
  qed
qed simp

lemma feed_frame:
  assumes "p_state p = EDGE_ST_WAIT_HDR0" and "length (p_payload p) = EDGE_PAYLOAD_MAX"
    and "length pl \<le> EDGE_PAYLOAD_MAX"
  shows "foldl edge_parser_feed p ([EDGE_HDR0, EDGE_HDR1] @ frame_body t pl @ [lo, hi]) =
    edge_parser_deliver (p\<lparr>p_len := of_nat (Suc (length pl)), p_type := t,
      p_payload := pl @ drop (length pl) (p_payload p), p_received := of_nat (length pl),
      p_crc := edge_crc16 (frame_body t pl), p_crc_lo := lo, p_crc_hi := hi,
      p_state := EDGE_ST_DELIVER\<rparr>)"
proof -
  let ?l = "of_nat (Suc (length pl)) :: u8"
  have l: "unat ?l = Suc (length pl)" using assms(3) by (simp only: unat_of_nat_u8)
  let ?p = "p\<lparr>p_len := ?l, p_type := t, p_received := 0, p_crc := edge_crc16 [?l, t],
    p_state := (if pl = [] then EDGE_ST_WAIT_CRC_LO else EDGE_ST_READ_PAYLOAD)\<rparr>"
  have head: "foldl edge_parser_feed p [EDGE_HDR0, EDGE_HDR1, ?l, t] = ?p"
    using assms l by (simp add: edge_parser_feed_def edge_crc16_def del: of_nat_Suc)
  have wf: "parser_wf ?p" using assms l by (auto simp: parser_wf_def len_ok_def)
  let ?q = "?p\<lparr>p_payload := pl @ drop (length pl) (p_payload p), p_received := of_nat (length pl),
    p_crc := edge_crc16 (frame_body t pl), p_state := EDGE_ST_WAIT_CRC_LO\<rparr>"
  have mid: "foldl edge_parser_feed ?p pl = ?q"
  proof (cases "pl = []")
    case False
    then have "unat (p_received ?p) + length pl = unat (p_len ?p) - 1"
      and "p_state ?p = EDGE_ST_READ_PAYLOAD" using l by simp_all
    from feed_payload_bytes [OF wf this(2) False this(1)] False show ?thesis
      by (simp add: edge_crc16_def frame_body_def del: of_nat_Suc)
  qed (simp add: frame_body_def del: of_nat_Suc)
  have "[EDGE_HDR0, EDGE_HDR1] @ frame_body t pl @ [lo, hi] = [EDGE_HDR0, EDGE_HDR1, ?l, t] @ pl @ [lo, hi]"
    by (simp add: frame_body_def)
  then have "foldl edge_parser_feed p ([EDGE_HDR0, EDGE_HDR1] @ frame_body t pl @ [lo, hi]) =
      edge_parser_feed (edge_parser_feed ?q lo) hi"
    by (simp only: foldl_append head mid) simp
  then show ?thesis by (simp add: feed_crc_lo feed_crc_hi del: of_nat_Suc)
qed

lemma feed_frame_accept:
  assumes "p_state p = EDGE_ST_WAIT_HDR0" and "length (p_payload p) = EDGE_PAYLOAD_MAX"
    and "length pl \<le> EDGE_PAYLOAD_MAX"
  shows "foldl edge_parser_feed p (wire_frame t pl) =
    p\<lparr>p_len := of_nat (Suc (length pl)), p_type := t,
      p_payload := pl @ drop (length pl) (p_payload p), p_received := of_nat (length pl),
      p_crc := edge_crc16 (frame_body t pl),
      p_crc_lo := ucast (edge_crc16 (frame_body t pl)),
      p_crc_hi := ucast (drop_bit 8 (edge_crc16 (frame_body t pl))),
      p_stats := (p_stats p)\<lparr>frames_ok := frames_ok (p_stats p) + 1\<rparr>,
      p_user := (case p_on_frame p of None \<Rightarrow> p_user p | Some cb \<Rightarrow> cb t pl (p_user p))\<rparr>"
proof -
  have "unat (of_nat (Suc (length pl)) - 1 :: u8) = length pl"
    using assms(3) by (simp add: unat_of_nat_u8)
  with assms show ?thesis
    unfolding wire_frame_def crc_bytes_def feed_frame [OF assms]
    by (subst edge_parser_deliver_ok) (simp_all add: crc_bytes_def split: option.split)
qed

lemma feed_frame_reject:
  assumes "p_state p = EDGE_ST_WAIT_HDR0" and "length (p_payload p) = EDGE_PAYLOAD_MAX"
    and "length pl \<le> EDGE_PAYLOAD_MAX" and "[lo, hi] \<noteq> crc_bytes (edge_crc16 (frame_body t pl))"
  defines "q \<equiv> foldl edge_parser_feed p ([EDGE_HDR0, EDGE_HDR1] @ frame_body t pl @ [lo, hi])"
  shows "p_state q = EDGE_ST_WAIT_HDR0" and "p_user q = p_user p" and "p_on_frame q = p_on_frame p"
    and "p_stats q = (p_stats p)\<lparr>crc_err := crc_err (p_stats p) + 1, resync := resync (p_stats p) + 1\<rparr>"
  using assms(4) unfolding q_def feed_frame [OF assms(1-3)]
  by (simp_all add: edge_parser_deliver_bad parser_step_defs)

subsection \<open>One byte at a time\<close>

lemma on_frame_feed [simp]: "p_on_frame (edge_parser_feed p b) = p_on_frame p"
  by (auto simp: parser_step_defs edge_parser_deliver_def split: edge_state_t.split option.split)

lemma on_frame_feeds [simp]: "p_on_frame (foldl edge_parser_feed p bs) = p_on_frame p"
  by (induction bs arbitrary: p) auto

lemma feed_completes:
  assumes "parser_wf p" and "completes p b"
  defines "pl \<equiv> take (unat (p_len p) - 1) (p_payload p)"
  shows "edge_parser_feed p b = p\<lparr>p_crc_hi := b,
      p_stats := (p_stats p)\<lparr>frames_ok := frames_ok (p_stats p) + 1\<rparr>,
      p_user := (case p_on_frame p of None \<Rightarrow> p_user p | Some cb \<Rightarrow> cb (p_type p) pl (p_user p)),
      p_state := EDGE_ST_WAIT_HDR0\<rparr>"
    and "cur_bytes p @ [b] = wire_frame (p_type p) pl"
    and "length pl \<le> EDGE_PAYLOAD_MAX"
proof -
  from assms have st: "p_state p = EDGE_ST_WAIT_CRC_HI" and crc: "[p_crc_lo p, b] = crc_bytes (p_crc p)"
    and len: "len_ok (p_len p)" and pay: "length (p_payload p) = 63"
    and c: "p_crc p = edge_crc16 (p_len p # p_type p # pl)"
    by (auto simp: completes_def parser_wf_def)
  show "edge_parser_feed p b = p\<lparr>p_crc_hi := b,
      p_stats := (p_stats p)\<lparr>frames_ok := frames_ok (p_stats p) + 1\<rparr>,
      p_user := (case p_on_frame p of None \<Rightarrow> p_user p | Some cb \<Rightarrow> cb (p_type p) pl (p_user p)),
      p_state := EDGE_ST_WAIT_HDR0\<rparr>"
    using crc len_ok_minus [OF len]
    by (simp add: feed_crc_hi [OF st] edge_parser_deliver_ok pl_def split: option.split)
  have l: "length pl = unat (p_len p) - 1" using len_ok_minus [OF len] pay by (simp add: pl_def)
  then have "Suc (length pl) = unat (p_len p)" using len by (simp add: len_ok_def)
  then have "p_len p # p_type p # pl = frame_body (p_type p) pl"
    by (simp add: frame_body_def del: of_nat_Suc)
  then show "cur_bytes p @ [b] = wire_frame (p_type p) pl"
    using st crc c by (simp add: cur_bytes_def wire_frame_def pl_def)
  show "length pl \<le> EDGE_PAYLOAD_MAX" using l len_ok_minus [OF len] by simp
qed

lemma feed_incomplete:
  assumes "parser_wf p" and "\<not> completes p b"
  shows "suffix (cur_bytes (edge_parser_feed p b)) (cur_bytes p @ [b])"
    and "p_user (edge_parser_feed p b) = p_user p"
    and "frames_ok (p_stats (edge_parser_feed p b)) = frames_ok (p_stats p)"
proof -
  have "suffix (cur_bytes (edge_parser_feed p b)) (cur_bytes p @ [b]) \<and>
    p_user (edge_parser_feed p b) = p_user p \<and>
    frames_ok (p_stats (edge_parser_feed p b)) = frames_ok (p_stats p)"
  proof (cases "p_state p")
    case EDGE_ST_READ_PAYLOAD
    with feed_payload_step [OF assms(1) EDGE_ST_READ_PAYLOAD] show ?thesis
      by (auto simp: cur_bytes_def)
  next
    case EDGE_ST_WAIT_CRC_HI
    with assms(2) have "[p_crc_lo p, b] \<noteq> crc_bytes (p_crc p)" by (simp add: completes_def)
    then show ?thesis
      by (simp add: feed_crc_hi [OF EDGE_ST_WAIT_CRC_HI] edge_parser_deliver_bad
          edge_parser_resync_def edge_parser_reset_def cur_bytes_def)
  next
    case EDGE_ST_WAIT_TYPE
    with assms(1) have "unat (p_len p) = Suc 0 \<Longrightarrow> p_len p = 1" by (metis One_nat_def unat_1 word_unat_eq_iff)
    with EDGE_ST_WAIT_TYPE show ?thesis by (auto simp: cur_bytes_def edge_parser_feed_def)
  qed (use assms(1) in \<open>auto simp: cur_bytes_def parser_step_defs suffix_Cons parser_wf_def\<close>)
  then show "suffix (cur_bytes (edge_parser_feed p b)) (cur_bytes p @ [b])"
    and "p_user (edge_parser_feed p b) = p_user p"
    and "frames_ok (p_stats (edge_parser_feed p b)) = frames_ok (p_stats p)" by blast+
qed

subsection \<open>Delivered frames are segments of the input\<close>

text \<open>
  \<open>carved bs fs\<close>: the frames \<open>fs\<close> lie in the byte string \<open>bs\<close> one after the other,
  without overlap, each as a complete wire frame.
\<close>

inductive carved :: "u8 list \<Rightarrow> (u8 \<times> u8 list) list \<Rightarrow> bool" where
  carved_nil: "carved [] []"
| carved_gap: "carved pre fs \<Longrightarrow> carved (pre @ gap) fs"
| carved_frame: "carved pre fs \<Longrightarrow> length pl \<le> EDGE_PAYLOAD_MAX \<Longrightarrow>
    carved (pre @ wire_frame t pl) (fs @ [(t, pl)])"

definition explains ::
    "'u edge_parser_t \<Rightarrow> u8 list \<Rightarrow> 'u edge_parser_t \<Rightarrow> 'u edge_frame_cb_t \<Rightarrow> u8 list \<Rightarrow>
     (u8 \<times> u8 list) list \<Rightarrow> bool" where
  "explains p bs q cb pre fs \<longleftrightarrow> bs = pre @ cur_bytes q \<and> carved pre fs \<and>
    p_user q = foldl (\<lambda>u (t, pl). cb t pl u) (p_user p) fs \<and>
    frames_ok (p_stats q) = frames_ok (p_stats p) + of_nat (length fs)"

lemma carved_feeds:
  assumes "parser_wf p" and "p_on_frame p = Some cb" and "p_state p = EDGE_ST_WAIT_HDR0"
  shows "\<exists>pre fs. explains p bs (foldl edge_parser_feed p bs) cb pre fs"
proof (induction bs rule: rev_induct)
  case Nil
  have "carved [] []" by (rule carved_nil)
  with assms(3) show ?case by (force simp: cur_bytes_def explains_def)
next
  case (snoc b bs)
  let ?q = "foldl edge_parser_feed p bs"
  have wf: "parser_wf ?q" by (rule parser_wf_feeds [OF assms(1)])
  from snoc obtain pre fs where IH: "bs = pre @ cur_bytes ?q" "carved pre fs"
    "p_user ?q = foldl (\<lambda>u (t, pl). cb t pl u) (p_user p) fs"
    "frames_ok (p_stats ?q) = frames_ok (p_stats p) + of_nat (length fs)"
    by (auto simp: explains_def)
  have "\<exists>pre fs. explains p (bs @ [b]) (edge_parser_feed ?q b) cb pre fs"
  proof (cases "completes ?q b")
    case True
    let ?t = "p_type ?q" and ?pl = "take (unat (p_len ?q) - 1) (p_payload ?q)"
    note c = feed_completes [OF wf True]
    have "bs @ [b] = pre @ wire_frame ?t ?pl" using IH(1) c(2) by (metis append.assoc)
    moreover have "carved (pre @ wire_frame ?t ?pl) (fs @ [(?t, ?pl)])"
      using IH(2) c(3) by (rule carved_frame)
    moreover have "cur_bytes (edge_parser_feed ?q b) = []" by (simp add: c(1) cur_bytes_def)
    moreover have "p_user (edge_parser_feed ?q b) = cb ?t ?pl (p_user ?q)"
      and "frames_ok (p_stats (edge_parser_feed ?q b)) = frames_ok (p_stats ?q) + 1"
      using assms(2) by (simp_all add: c(1))
    ultimately have "explains p (bs @ [b]) (edge_parser_feed ?q b) cb (pre @ wire_frame ?t ?pl)
        (fs @ [(?t, ?pl)])"
      using IH(3,4) unfolding explains_def by simp
    then show ?thesis by blast
  next
    case False
    note c = feed_incomplete [OF wf False]
    from c(1) obtain gap where "cur_bytes ?q @ [b] = gap @ cur_bytes (edge_parser_feed ?q b)"
      by (auto simp: suffix_def)
    then have "bs @ [b] = (pre @ gap) @ cur_bytes (edge_parser_feed ?q b)"
      using IH(1) by (metis append.assoc)
    moreover have "carved (pre @ gap) fs" using IH(2) by (rule carved_gap)
    ultimately show ?thesis
      using IH(3,4) c(2,3) unfolding explains_def by metis
  qed
  then show ?case by simp
qed

subsection \<open>Resynchronisation\<close>

text \<open>
  The number of further bytes, none of them 0xAA, after which the parser is certain to be
  looking for a header again.
\<close>

definition bytes_to_hdr0 :: "'u edge_parser_t \<Rightarrow> nat" where
  "bytes_to_hdr0 p =
    (case p_state p of
       EDGE_ST_WAIT_HDR0 \<Rightarrow> 0
     | EDGE_ST_WAIT_HDR1 \<Rightarrow> 68
     | EDGE_ST_WAIT_LEN \<Rightarrow> 67
     | EDGE_ST_WAIT_TYPE \<Rightarrow> unat (p_len p) + 2
     | EDGE_ST_READ_PAYLOAD \<Rightarrow> unat (p_len p) - 1 - unat (p_received p) + 2
     | EDGE_ST_WAIT_CRC_LO \<Rightarrow> 2
     | EDGE_ST_WAIT_CRC_HI \<Rightarrow> 1
     | EDGE_ST_DELIVER \<Rightarrow> 1)"

lemma state_deliver [simp]: "p_state (edge_parser_deliver p) = EDGE_ST_WAIT_HDR0"
  by (simp add: edge_parser_deliver_def parser_step_defs)

lemma bytes_to_hdr0_feed:
  assumes "parser_wf p" and "b \<noteq> EDGE_HDR0"
  shows "bytes_to_hdr0 (edge_parser_feed p b) \<le> bytes_to_hdr0 p - 1"
proof (cases "p_state p")
  case EDGE_ST_READ_PAYLOAD
  with assms(1) feed_payload_step [OF assms(1) EDGE_ST_READ_PAYLOAD] show ?thesis
    by (auto simp: bytes_to_hdr0_def parser_wf_def)
next
  case EDGE_ST_WAIT_CRC_HI
  then show ?thesis by (simp add: bytes_to_hdr0_def feed_crc_hi)
qed (use assms in \<open>auto simp: bytes_to_hdr0_def parser_step_defs parser_wf_def len_ok_def\<close>)

lemma bytes_to_hdr0_feeds:
  "parser_wf p \<Longrightarrow> EDGE_HDR0 \<notin> set bs \<Longrightarrow>
   bytes_to_hdr0 (foldl edge_parser_feed p bs) \<le> bytes_to_hdr0 p - length bs"
proof (induction bs arbitrary: p)
  case (Cons b bs)
  then have "bytes_to_hdr0 (foldl edge_parser_feed (edge_parser_feed p b) bs) \<le>
      bytes_to_hdr0 (edge_parser_feed p b) - length bs"
    by (auto intro: parser_wf_feed)
  moreover have "bytes_to_hdr0 (edge_parser_feed p b) \<le> bytes_to_hdr0 p - 1"
    using Cons.prems by (intro bytes_to_hdr0_feed) auto
  ultimately show ?case by simp
qed simp

lemma bytes_to_hdr0_le: "parser_wf p \<Longrightarrow> bytes_to_hdr0 p \<le> 68"
  by (auto simp: bytes_to_hdr0_def parser_wf_def len_ok_def split: edge_state_t.split)

lemma bytes_to_hdr0_eq_0: "bytes_to_hdr0 p = 0 \<longleftrightarrow> p_state p = EDGE_ST_WAIT_HDR0"
  by (auto simp: bytes_to_hdr0_def split: edge_state_t.splits)

lemma feed_quiet:
  "p_state p = EDGE_ST_WAIT_HDR0 \<Longrightarrow> EDGE_HDR0 \<notin> set bs \<Longrightarrow> foldl edge_parser_feed p bs = p"
  by (induction bs) (auto simp: edge_parser_feed_def)

subsection \<open>Error statistics\<close>

definition stats_balanced :: "'u edge_parser_t \<Rightarrow> bool" where
  "stats_balanced p \<longleftrightarrow> resync (p_stats p) = len_err (p_stats p) + crc_err (p_stats p)"

lemma stats_balanced_feed:
  assumes "parser_wf p" and "stats_balanced p"
  shows "stats_balanced (edge_parser_feed p b)"
proof (cases "p_state p")
  case EDGE_ST_WAIT_CRC_HI
  with assms(2) show ?thesis
    by (cases "[p_crc_lo p, b] = crc_bytes (p_crc p)")
      (simp_all add: feed_crc_hi edge_parser_deliver_ok edge_parser_deliver_bad stats_balanced_def
        edge_parser_resync_def edge_parser_reset_def)
qed (use assms in \<open>auto simp: stats_balanced_def parser_step_defs parser_wf_def\<close>)

lemma stats_balanced_feeds:
  "parser_wf p \<Longrightarrow> stats_balanced p \<Longrightarrow> stats_balanced (foldl edge_parser_feed p bs)"
  by (induction bs arbitrary: p) (simp_all add: parser_wf_feed stats_balanced_feed)

subsection \<open>Properties\<close>

text \<open>A parser over zeroed memory whose callback records the frames it is given.\<close>

definition logging_parser :: "(u8 \<times> u8 list) list edge_parser_t" where
  "logging_parser = edge_parser_init
     \<lparr>p_state = EDGE_ST_WAIT_HDR0, p_len = 0, p_type = 0, p_payload = replicate EDGE_PAYLOAD_MAX 0,
      p_received = 0, p_crc = 0, p_crc_lo = 0, p_crc_hi = 0, p_on_frame = None, p_user = [],
      p_stats = \<lparr>frames_ok = 0, len_err = 0, crc_err = 0, resync = 0\<rparr>\<rparr>
     (Some (\<lambda>t pl frames. frames @ [(t, pl)])) []"

lemma logging_parser_simps [simp]:
  "p_state logging_parser = EDGE_ST_WAIT_HDR0" "length (p_payload logging_parser) = 63"
  "p_user logging_parser = []" "p_on_frame logging_parser = Some (\<lambda>t pl frames. frames @ [(t, pl)])"
  "parser_wf logging_parser"
  by (simp_all add: logging_parser_def edge_parser_init_def parser_wf_def)

lemma foldl_snoc_pairs [simp]: "foldl (\<lambda>fs (t, pl). fs @ [(t, pl)]) acc fs = acc @ fs"
  by (induction fs arbitrary: acc) auto

text \<open>
  The encoder on all inputs of its contract (an output array of at least EDGE_FRAME_MAX
  bytes, a payload pointer that covers the length): it refuses a NULL output, an oversized
  payload and a NULL payload of nonzero length by returning 0 and writing nothing; otherwise it
  writes exactly the wire frame, header, LEN, TYPE, payload and little-endian CRC of LEN to the end of the payload,
  leaves the rest of the array alone and returns the frame's length.
\<close>

theorem edge_frame_encode_correct:
  assumes "\<And>buf. out = Some buf \<Longrightarrow> EDGE_FRAME_MAX \<le> length buf"
    and "\<And>p. payload = Some p \<Longrightarrow> unat n \<le> length p"
  shows "edge_frame_encode t payload n out =
    (if out = None \<or> EDGE_PAYLOAD_MAX < unat n \<or> (payload = None \<and> n \<noteq> 0) then (0, out)
     else (n + 6, Some (wire_frame t (take (unat n) (case payload of None \<Rightarrow> [] | Some p \<Rightarrow> p)) @
                        drop (unat n + 6) (the out))))"
proof (cases "out = None \<or> EDGE_PAYLOAD_MAX < unat n \<or> (payload = None \<and> n \<noteq> 0)")
  case True
  then show ?thesis by (auto simp: edge_frame_encode_def split: option.split)
next
  case False
  then obtain buf where buf: "out = Some buf" "unat n \<le> 63" by auto
  define p where "p = (case payload of None \<Rightarrow> [] | Some p \<Rightarrow> p)"
  have n: "length (take (unat n) p) = unat n" and "payload = Some (take (unat n) p @ drop (unat n) p) \<or>
      (payload = None \<and> take (unat n) p = [])"
    using assms(2) False by (auto simp: p_def split: option.splits)
  from edge_frame_encode_ok [OF _ _ this(2), of buf t] assms(1) [OF buf(1)] buf n False show ?thesis
    unfolding n by (auto simp: p_def)
qed

theorem edge_frame_encode_correct_witness:
  "edge_frame_encode 0x22 (Some [7, 0, 5, 9]) 3 (Some (replicate 69 0)) =
    (9, Some (wire_frame 0x22 [7, 0, 5] @ replicate 60 0))"
  using edge_frame_encode_correct [of "Some (replicate 69 0)" "Some [7, 0, 5, 9]" 3 "0x22"]
  by simp

definition encoded :: "u8 \<times> u8 list \<Rightarrow> u8 list" where
  "encoded f = (case edge_frame_encode (fst f) (Some (snd f)) (of_nat (length (snd f)))
      (Some (replicate EDGE_FRAME_MAX 0)) of
      (n, Some out) \<Rightarrow> take (unat n) out | (n, None) \<Rightarrow> [])"

lemma encoded_eq: "length pl \<le> EDGE_PAYLOAD_MAX \<Longrightarrow> encoded (t, pl) = wire_frame t pl"
proof -
  assume "length pl \<le> EDGE_PAYLOAD_MAX"
  then have "edge_frame_encode t (Some pl) (of_nat (length pl)) (Some (replicate EDGE_FRAME_MAX 0)) =
      (of_nat (length pl + 6), Some (wire_frame t pl @ drop (length pl + 6) (replicate EDGE_FRAME_MAX 0)))"
    using edge_frame_encode_ok [of pl "replicate EDGE_FRAME_MAX 0" "Some pl" "[]" t] by simp
  moreover have "unat (of_nat (length pl + 6) :: u8) = length pl + 6"
    using \<open>length pl \<le> EDGE_PAYLOAD_MAX\<close> by (simp only: unat_of_nat_u8)
  ultimately show ?thesis by (simp add: encoded_def del: of_nat_add)
qed

lemma feed_noisy_stream:
  assumes "p_state p = EDGE_ST_WAIT_HDR0" and "length (p_payload p) = EDGE_PAYLOAD_MAX"
    and "p_on_frame p = Some cb"
    and "\<forall>(noise, f)\<in>set items. EDGE_HDR0 \<notin> set noise \<and> length (snd f) \<le> EDGE_PAYLOAD_MAX"
  defines "q \<equiv> foldl edge_parser_feed p (concat (map (\<lambda>(noise, f). noise @ encoded f) items))"
  shows "p_state q = EDGE_ST_WAIT_HDR0 \<and>
    p_user q = foldl (\<lambda>u (t, pl). cb t pl u) (p_user p) (map snd items) \<and>
    p_stats q = (p_stats p)\<lparr>frames_ok := frames_ok (p_stats p) + of_nat (length items)\<rparr>"
  using assms(1-4) unfolding q_def
proof (induction items arbitrary: p)
  case (Cons item items)
  obtain noise t pl where item: "item = (noise, t, pl)" by (cases item) auto
  let ?p = "foldl edge_parser_feed p (wire_frame t pl)"
  have acc: "?p = foldl edge_parser_feed p (noise @ encoded (t, pl))"
    using Cons.prems item by (simp add: feed_quiet encoded_eq)
  have "p_state ?p = EDGE_ST_WAIT_HDR0" "length (p_payload ?p) = EDGE_PAYLOAD_MAX" "p_on_frame ?p = Some cb"
    and user: "p_user ?p = cb t pl (p_user p)"
    and stats: "p_stats ?p = (p_stats p)\<lparr>frames_ok := frames_ok (p_stats p) + 1\<rparr>"
    using Cons.prems item feed_frame_accept [of p pl t] by simp_all
  with Cons.IH [of ?p] Cons.prems(4) show ?case
    by (simp add: item acc [symmetric, simplified] add.assoc)
qed simp

text \<open>
  C5. Round trip of encoder and parser over a stream: a parser that is looking for a header and
  is fed encoded frames, each after any noise without 0xAA, hands every frame to its callback
  once, in order, with the type and payload that were encoded, counts them, records no error
  and is looking for a header again.
\<close>

theorem frame_stream_roundtrip:
  assumes "p_state p = EDGE_ST_WAIT_HDR0" and "length (p_payload p) = EDGE_PAYLOAD_MAX"
    and "p_on_frame p = Some cb"
    and "\<forall>(noise, f)\<in>set items. EDGE_HDR0 \<notin> set noise \<and> length (snd f) \<le> EDGE_PAYLOAD_MAX"
  defines "q \<equiv> edge_parser_feed_buf p (Some (concat (map (\<lambda>(noise, f). noise @ encoded f) items)))"
  shows "p_state q = EDGE_ST_WAIT_HDR0 \<and>
    p_user q = foldl (\<lambda>u (t, pl). cb t pl u) (p_user p) (map snd items) \<and>
    p_stats q = (p_stats p)\<lparr>frames_ok := frames_ok (p_stats p) + of_nat (length items)\<rparr>"
  using feed_noisy_stream [OF assms(1-4)] by (simp add: q_def edge_parser_feed_buf_def)

theorem frame_stream_roundtrip_witness:
  "p_user (edge_parser_feed_buf logging_parser
     (Some ([0, 0x55] @ encoded (0x22, [7, 0, 5]) @ encoded (3, [])))) = [(0x22, [7, 0, 5]), (3, [])]"
  using frame_stream_roundtrip [of logging_parser _ "[([0, 0x55], (0x22, [7, 0, 5])), ([], (3, []))]"]
  by simp

text \<open>
  C4. Nothing is made up: whatever bytes an initialised parser is fed, the calls of its callback
  are exactly one call per frame of a sequence of complete, CRC-correct wire frames that lie in
  the input one after the other without overlap, in that order, and the counter of good frames
  is the number of calls.
\<close>

theorem parser_delivers_only_wire_frames:
  fixes m :: "'u edge_parser_t" and cb :: "'u edge_frame_cb_t" and user :: 'u and bs :: "u8 list"
  assumes "length (p_payload m) = EDGE_PAYLOAD_MAX"
  defines "q \<equiv> edge_parser_feed_buf (edge_parser_init m (Some cb) user) (Some bs)"
  shows "\<exists>fs. carved bs fs \<and> p_user q = foldl (\<lambda>u (t, pl). cb t pl u) user fs \<and>
    frames_ok (p_stats q) = of_nat (length fs)"
proof -
  let ?p = "edge_parser_init m (Some cb) user"
  have "p_state ?p = EDGE_ST_WAIT_HDR0" "p_on_frame ?p = Some cb" "p_user ?p = user"
    "frames_ok (p_stats ?p) = 0"
    by (simp_all add: edge_parser_init_def)
  with carved_feeds [OF parser_wf_init [OF assms(1)], of "Some cb" user cb bs]
  obtain pre fs where "bs = pre @ cur_bytes q" "carved pre fs"
    "p_user q = foldl (\<lambda>u (t, pl). cb t pl u) user fs" "frames_ok (p_stats q) = of_nat (length fs)"
    by (auto simp: explains_def q_def edge_parser_feed_buf_def)
  then show ?thesis by (metis carved_gap)
qed

theorem parser_delivers_only_wire_frames_witness:
  "\<exists>fs. carved [0xAA, 0x55, 0xAA] fs \<and>
    p_user (edge_parser_feed_buf (edge_parser_init logging_parser (Some (\<lambda>t pl fs. (t, pl) # fs)) [])
      (Some [0xAA, 0x55, 0xAA])) = foldl (\<lambda>fs (t, pl). (t, pl) # fs) [] fs"
  using parser_delivers_only_wire_frames
    [of logging_parser "[0xAA, 0x55, 0xAA]" "\<lambda>t pl fs. (t, pl) # fs" "[]"]
  by auto

text \<open>
  C10. Memory safety of the receive buffer and the statistics: from initialisation on and after any input the payload array
  keeps its 63 bytes, the parser never rests in the delivery state, whenever the next byte is
  a payload byte its index is inside the array, and the resynchronisation counter is the sum of
  the length and checksum errors.
\<close>

theorem parser_memory_safe:
  fixes m :: "'u edge_parser_t" and cb :: "'u edge_frame_cb_t option" and user :: 'u and bs :: "u8 list"
  assumes "length (p_payload m) = EDGE_PAYLOAD_MAX"
  defines "q \<equiv> edge_parser_feed_buf (edge_parser_init m cb user) (Some bs)"
  shows "length (p_payload q) = EDGE_PAYLOAD_MAX \<and> p_state q \<noteq> EDGE_ST_DELIVER \<and>
    (p_state q = EDGE_ST_READ_PAYLOAD \<longrightarrow> unat (p_received q) < length (p_payload q)) \<and>
    resync (p_stats q) = len_err (p_stats q) + crc_err (p_stats q)"
proof -
  have wf: "parser_wf (edge_parser_init m cb user)" using assms(1) by (rule parser_wf_init)
  have "stats_balanced (edge_parser_init m cb user)"
    by (simp add: stats_balanced_def edge_parser_init_def)
  from stats_balanced_feeds [OF wf this] parser_wf_feeds [OF wf]
  have "stats_balanced q" "parser_wf q" by (auto simp: q_def edge_parser_feed_buf_def)
  then show ?thesis
    by (auto simp: stats_balanced_def parser_wf_def len_ok_def split: edge_state_t.splits)
qed

theorem parser_memory_safe_witness:
  "length (p_payload (edge_parser_feed_buf (edge_parser_init logging_parser None []) (Some [0xAA, 0x55, 0]))) = 63"
  using parser_memory_safe [of logging_parser None "[]" "[0xAA, 0x55, 0]"] by simp

text \<open>
  C8. The parser cannot be stuck: from any state it can be in, 68 or more bytes without 0xAA
  (the longest frame less its first byte) bring it back to looking for a header, and the next
  frame is then delivered.
\<close>

theorem parser_resynchronises:
  fixes t :: u8
  assumes "parser_wf p" and "p_on_frame p = Some cb"
    and "EDGE_HDR0 \<notin> set noise" and "68 \<le> length noise" and "length pl \<le> EDGE_PAYLOAD_MAX"
  defines "q \<equiv> edge_parser_feed_buf p (Some noise)"
  defines "r \<equiv> edge_parser_feed_buf q (Some (encoded (t, pl)))"
  shows "p_state q = EDGE_ST_WAIT_HDR0 \<and> p_user r = cb t pl (p_user q) \<and>
    frames_ok (p_stats r) = frames_ok (p_stats q) + 1"
proof -
  have q: "q = foldl edge_parser_feed p noise" by (simp add: q_def edge_parser_feed_buf_def)
  have "bytes_to_hdr0 q = 0"
    using bytes_to_hdr0_feeds [OF assms(1,3)] bytes_to_hdr0_le [OF assms(1)] assms(4) by (simp add: q)
  then have st: "p_state q = EDGE_ST_WAIT_HDR0" by (simp add: bytes_to_hdr0_eq_0)
  have len: "length (p_payload q) = EDGE_PAYLOAD_MAX"
    using parser_wf_feeds [OF assms(1)] by (simp add: q parser_wf_def)
  have "p_on_frame q = Some cb" using assms(2) by (simp add: q)
  with st feed_frame_accept [OF st len assms(5), of t] show ?thesis
    by (simp add: r_def edge_parser_feed_buf_def encoded_eq [OF assms(5)])
qed

theorem parser_resynchronises_witness:
  "p_state (edge_parser_feed_buf (edge_parser_feed_buf logging_parser (Some [0xAA, 0x55, 0x40]))
      (Some (replicate 68 0))) = EDGE_ST_WAIT_HDR0"
proof -
  have "parser_wf (edge_parser_feed_buf logging_parser (Some [0xAA, 0x55, 0x40]))"
    by (simp add: edge_parser_feed_buf_def parser_wf_feed)
  then show ?thesis
    using parser_resynchronises [of "edge_parser_feed_buf logging_parser (Some [0xAA, 0x55, 0x40])" _
      "replicate 68 0" "[]"] by (simp add: edge_parser_feed_buf_def)
qed

lemma crc_bytes_neq: "x \<noteq> y \<Longrightarrow> [ucast x, ucast (drop_bit 8 x)] \<noteq> crc_bytes y"
  by (metis crc_bytes_join crc_bytes_def)

lemma changed_bodyE:
  assumes "3 \<le> i" and "i < length (wire_frame t pl)" and "b \<noteq> wire_frame t pl ! i"
  obtains t' pl' lo hi where
    "(wire_frame t pl)[i := b] = [EDGE_HDR0, EDGE_HDR1] @ frame_body t' pl' @ [lo, hi]"
    "length pl' = length pl" "[lo, hi] \<noteq> crc_bytes (edge_crc16 (frame_body t' pl'))"
proof -
  let ?c = "edge_crc16 (frame_body t pl)"
  let ?l = "of_nat (Suc (length pl)) :: u8"
  have "i = 3 \<or> (i = i - 4 + 4 \<and> i - 4 < length pl) \<or> i = length pl + 4 \<or> i = length pl + 5"
    using assms(1,2) unfolding length_wire_frame by arith
  then consider "i = 3" | j where "i = j + 4" "j < length pl" | "i = length pl + 4" | "i = length pl + 5"
    by blast
  then show thesis
  proof cases
    case 1
    then have "b \<noteq> t" using assms(3) by (simp add: wire_frame_def frame_body_def)
    then have "?c \<noteq> edge_crc16 (frame_body b pl)"
      using edge_crc16_changed_byte [of "[?l]" t pl b] by (auto simp: frame_body_def)
    with 1 show ?thesis
      by (intro that [of b pl "ucast ?c" "ucast (drop_bit 8 ?c)"]) (simp_all add: crc_bytes_neq,
          simp add: wire_frame_def frame_body_def crc_bytes_def)
  next
    case 2
    then have "b \<noteq> pl ! j" using assms(3)
      by (simp add: wire_frame_def frame_body_def nth_append)
    then have "?c \<noteq> edge_crc16 (frame_body t (pl[j := b]))"
      using edge_crc16_changed_byte [of "?l # t # take j pl" "pl ! j" "drop (Suc j) pl" b] 2
      by (auto simp: frame_body_def upd_conv_take_nth_drop id_take_nth_drop [symmetric])
    with 2 show ?thesis
      by (intro that [of t "pl[j := b]" "ucast ?c" "ucast (drop_bit 8 ?c)"]) (simp_all add: crc_bytes_neq,
          simp add: wire_frame_def frame_body_def crc_bytes_def list_update_append eval_nat_numeral)
  next
    case 3
    with assms(3) show ?thesis
      by (intro that [of t pl]) (auto simp: wire_frame_def frame_body_def crc_bytes_def
          list_update_append nth_append eval_nat_numeral)
  next
    case 4
    with assms(3) show ?thesis
      by (intro that [of t pl]) (auto simp: wire_frame_def frame_body_def crc_bytes_def
          list_update_append nth_append eval_nat_numeral)
  qed
qed

text \<open>
  C9. A frame with one changed byte in TYPE, payload or CRC is always detected: it is not
  delivered, it is counted once as a checksum error and once as a resynchronisation, and the
  parser is looking for a header when the frame ends.
\<close>

theorem single_byte_error_detected:
  assumes "p_state p = EDGE_ST_WAIT_HDR0" and "length (p_payload p) = EDGE_PAYLOAD_MAX"
    and "length pl \<le> EDGE_PAYLOAD_MAX"
    and "3 \<le> i" and "i < length (encoded (t, pl))" and "b \<noteq> encoded (t, pl) ! i"
  defines "q \<equiv> edge_parser_feed_buf p (Some ((encoded (t, pl))[i := b]))"
  shows "p_state q = EDGE_ST_WAIT_HDR0 \<and> p_user q = p_user p \<and>
    p_stats q = (p_stats p)\<lparr>crc_err := crc_err (p_stats p) + 1, resync := resync (p_stats p) + 1\<rparr>"
proof -
  note e = encoded_eq [OF assms(3), of t]
  obtain t' pl' lo hi where w: "(wire_frame t pl)[i := b] = [EDGE_HDR0, EDGE_HDR1] @ frame_body t' pl' @ [lo, hi]"
    "length pl' = length pl" "[lo, hi] \<noteq> crc_bytes (edge_crc16 (frame_body t' pl'))"
    using changed_bodyE assms(4-6) unfolding e by metis
  from w(2) assms(3) have "length pl' \<le> EDGE_PAYLOAD_MAX" by simp
  from feed_frame_reject [OF assms(1,2) this w(3)] show ?thesis
    by (simp only: q_def edge_parser_feed_buf_def option.case e w(1))
qed

theorem single_byte_error_detected_witness:
  "p_user (edge_parser_feed_buf logging_parser (Some ((encoded (0x22, [7, 0, 5]))[5 := 1]))) = []"
proof -
  have "encoded (0x22, [7, 0, 5]) = wire_frame 0x22 [7, 0, 5]" by (rule encoded_eq) simp
  then show ?thesis
    using single_byte_error_detected [of logging_parser "[7, 0, 5]" 5 "0x22" 1]
    by (simp add: wire_frame_def frame_body_def)
qed

lemmas crc_eval = edge_crc16_update_bitwise crc_byte_def crc_shift_def

lemma heartbeat_wire: "wire_frame EDGE_TYPE_HEARTBEAT [] = [0xAA, 0x55, 1, 3, 0x40, 0x21]"
  by (simp add: wire_frame_def frame_body_def edge_crc16_def crc_bytes_def crc_eval)

lemma concat_replicate_11: "concat (replicate 11 x) = x @ x @ x @ x @ x @ x @ x @ x @ x @ x @ x"
  by (simp add: numeral_eq_Suc)

lemma swallowed_crc:
  "edge_crc16 (0x40 # (let x = [0xAA, 0x55, 1, 3, 0x40, 0x21] in x @ x @ x @ x @ x @ x @ x @ x @ x @ x) @
     [0xAA, 0x55, 1, 3]) = 0x7BDE"
  by (simp add: edge_crc16_def crc_eval)

text \<open>
  C17. The cost of a false header: the three noise bytes AA 55 40 in front of a run of heartbeats
  make the parser swallow eleven intact frames before it is looking for a header again; the
  twelfth is delivered.
\<close>

theorem false_header_swallows_eleven_frames:
  assumes "p_state p = EDGE_ST_WAIT_HDR0" and "length (p_payload p) = EDGE_PAYLOAD_MAX"
  defines "q \<equiv> edge_parser_feed_buf p
      (Some ([0xAA, 0x55, 0x40] @ concat (replicate 11 (encoded (EDGE_TYPE_HEARTBEAT, [])))))"
  shows "p_user q = p_user p \<and> frames_ok (p_stats q) = frames_ok (p_stats p) \<and>
    p_state q = EDGE_ST_WAIT_HDR0"
proof -
  let ?x = "[0xAA, 0x55, 1, 3, 0x40, 0x21] :: u8 list"
  let ?pl = "tl ?x @ ?x @ ?x @ ?x @ ?x @ ?x @ ?x @ ?x @ ?x @ ?x @ [0xAA, 0x55, 1, 3]"
  have x: "encoded (EDGE_TYPE_HEARTBEAT, []) = ?x" using heartbeat_wire by (simp add: encoded_eq)
  have bs: "[0xAA, 0x55, 0x40] @ concat (replicate 11 ?x) =
      [EDGE_HDR0, EDGE_HDR1] @ frame_body 0xAA ?pl @ [0x40, 0x21]"
    unfolding concat_replicate_11 by (simp add: frame_body_def)
  have "edge_crc16 (frame_body 0xAA ?pl) = 0x7BDE"
    using swallowed_crc by (simp add: frame_body_def)
  then have crc: "[0x40, 0x21] \<noteq> crc_bytes (edge_crc16 (frame_body 0xAA ?pl))"
    by (simp add: crc_bytes_def)
  from feed_frame_reject [OF assms(1,2) _ crc] show ?thesis
    by (simp only: q_def edge_parser_feed_buf_def option.case x bs) simp
qed

theorem false_header_swallows_eleven_frames_witness:
  "p_user (edge_parser_feed_buf logging_parser
    (Some ([0xAA, 0x55, 0x40] @ concat (replicate 11 (encoded (EDGE_TYPE_HEARTBEAT, [])))))) = []"
  using false_header_swallows_eleven_frames [of logging_parser] by simp

end
