(* ===== verification/Lts.thy ===== *)
theory Lts
  imports Main
begin

text \<open>
  Labelled transition systems: what a call of a component may do is specified by a relation of
  atomic steps, each labelled with the events it shows, and a call is a finite sequence of them.
\<close>

inductive lts_steps :: "('s \<Rightarrow> 'e list \<Rightarrow> 's \<Rightarrow> bool) \<Rightarrow> 's \<Rightarrow> 'e list \<Rightarrow> 's \<Rightarrow> bool"
  for R where
  steps_refl: "lts_steps R s [] s"
| steps_step: "R s evs s' \<Longrightarrow> lts_steps R s' evs' s'' \<Longrightarrow> lts_steps R s (evs @ evs') s''"

lemma steps_single: "R s evs s' \<Longrightarrow> lts_steps R s evs s'"
  using steps_step [of R, OF _ steps_refl] by fastforce

lemma steps_trans: "lts_steps R s evs s' \<Longrightarrow> lts_steps R s' evs' s'' \<Longrightarrow> lts_steps R s (evs @ evs') s''"
  by (induction rule: lts_steps.induct) (auto intro: steps_step)

text \<open>An invariant of the steps, over the events so far and the state, is an invariant of a call.\<close>

lemma steps_invariant:
  assumes "lts_steps R s evs s'" and "P [] s"
    and "\<And>s evs0 evs s'. P evs0 s \<Longrightarrow> R s evs s' \<Longrightarrow> P (evs0 @ evs) s'"
  shows "P evs s'"
proof -
  have "P (evs0 @ evs) s'" if "P evs0 s" for evs0
    using assms(1) that
  proof (induction arbitrary: evs0 rule: lts_steps.induct)
    case (steps_step s evs s' evs' s'')
    from steps_step.IH [OF assms(3) [OF steps_step.prems steps_step.hyps(1)]] show ?case by simp
  qed simp
  from this [OF assms(2)] show ?thesis by simp
qed

end
