(* ===== verification/Edge_Sr.thy ===== *)
theory Edge_Sr
  imports Edge_Proto Lts
begin

text \<open>
  \<^verbatim>\<open>protocol/src/edge_sr.c\<close> and \<^verbatim>\<open>protocol/include/edge_proto/edge_sr.h\<close>: the node's
  selective-repeat receiver. The caller's context and the three hooks it installs are parameters:
  the clock and the executor may change the context, and so may the transmitter. A pointer to
  an entry is its index in the entry array.
\<close>

subsection \<open>State\<close>

record 'u edge_sr_hooks_t =
  now_ms :: "'u \<Rightarrow> u32 \<times> 'u"
  execute :: "u8 \<Rightarrow> u8 \<Rightarrow> u8 list \<Rightarrow> u8 list \<Rightarrow> 'u \<Rightarrow> u8 \<times> u8 list \<times> 'u"
  emit :: "u8 \<Rightarrow> u8 list \<Rightarrow> 'u \<Rightarrow> 'u"

record edge_sr_entry_t =
  received_at :: u32
  completed_at :: u32
  last_sent_at :: u32
  e_state :: u8
  e_seq :: u8
  e_command :: u8
  args_len :: u8
  result_len :: u8
  retries :: u8
  e_args :: "u8 list"
  e_result :: "u8 list"

record edge_sr_node_t =
  nd_session :: u64
  nd_base :: u16
  nd_active :: u8
  nd_entries :: "edge_sr_entry_t list"

subsection \<open>Operations\<close>

definition clear_entries :: "edge_sr_node_t \<Rightarrow> edge_sr_node_t" where
  "clear_entries node = node\<lparr>nd_entries := map (\<lambda>e. e\<lparr>e_state := 0\<rparr>) (nd_entries node)\<rparr>"

definition edge_sr_node_init :: "edge_sr_node_t \<Rightarrow> edge_sr_node_t" where
  "edge_sr_node_init node = clear_entries (node\<lparr>nd_session := 0, nd_base := 0, nd_active := 0\<rparr>)"

definition find_entry :: "edge_sr_node_t \<Rightarrow> u8 \<Rightarrow> nat option" where
  "find_entry node seq = find_index (\<lambda>e. e_state e \<noteq> 0 \<and> e_seq e = seq) (nd_entries node)"

text \<open>
  The local arrays of the two senders are uninitialised in C; here they start as zeroes. Every
  byte handed to the transmitter has been written before.
\<close>

definition emit_received :: "edge_sr_node_t \<Rightarrow> u8 \<Rightarrow> 'u edge_sr_hooks_t \<Rightarrow> 'u \<Rightarrow> 'u" where
  "emit_received node seq hooks user =
    (let p = replicate 9 0;
         p = edge_u64_be_write p 0 (nd_session node);
         p = p[8 := seq]
     in emit hooks EDGE_TYPE_SR_RECEIVED p user)"

definition emit_result ::
    "edge_sr_node_t \<Rightarrow> edge_sr_entry_t \<Rightarrow> 'u edge_sr_hooks_t \<Rightarrow> 'u \<Rightarrow> 'u" where
  "emit_result node e hooks user =
    (let p = replicate EDGE_PAYLOAD_MAX 0;
         p = edge_u64_be_write p 0 (nd_session node);
         p = p[8 := e_seq e];
         p = p[9 := e_command e];
         p = foldl (\<lambda>p i. p[10 + i := e_result e ! i]) p [0..<unat (result_len e)]
     in emit hooks EDGE_TYPE_SR_RESULT (take (10 + unat (result_len e)) p) user)"

text \<open>The loop of \<open>expire\<close> over the entry indices, with its early return.\<close>

fun expire_loop :: "bool \<Rightarrow> u32 \<Rightarrow> nat list \<Rightarrow> edge_sr_node_t \<Rightarrow> edge_sr_node_t" where
  "expire_loop gap now [] node = node"
| "expire_loop gap now (i # is) node =
    (let e = nd_entries node ! i in
     if gap \<and> e_state e = 1 \<and> now - received_at e \<ge> EDGE_COMMAND_LIFETIME_MS
     then clear_entries (node\<lparr>nd_active := 0\<rparr>)
     else if e_state e = 2 \<and> now - completed_at e \<ge> EDGE_SR_RESULT_TTL_MS
     then expire_loop gap now is
            (node\<lparr>nd_entries := (nd_entries node)[i := e\<lparr>e_state := 0\<rparr>]\<rparr>)
     else expire_loop gap now is node)"

definition expire :: "edge_sr_node_t \<Rightarrow> u32 \<Rightarrow> edge_sr_node_t" where
  "expire node now =
    (let gap = (unat (nd_base node) < 256 \<and> find_entry node (ucast (nd_base node)) = None)
     in expire_loop gap now [0..<EDGE_SR_RESULT_CAPACITY] node)"

text \<open>The body of the delivery loop once the entry \<open>i\<close> of the left edge is buffered.\<close>

definition execute_entry ::
    "'u edge_sr_hooks_t \<Rightarrow> edge_sr_node_t \<Rightarrow> nat \<Rightarrow> 'u \<Rightarrow> edge_sr_node_t \<times> 'u" where
  "execute_entry hooks node i user =
    (let e = nd_entries node ! i;
         (rlen, rbuf, user) = execute hooks (e_seq e) (e_command e)
            (take (unat (args_len e)) (e_args e)) (e_result e) user;
         e = e\<lparr>e_result := rbuf, result_len := rlen\<rparr>;
         e = (if result_len e = 0 \<or> unat (result_len e) > EDGE_SR_RESULT_MAX
              then e\<lparr>e_result := (e_result e)[0 := EDGE_RC_UNSUPPORTED], result_len := 1\<rparr> else e);
         (now, user) = now_ms hooks user;
         e = e\<lparr>completed_at := now\<rparr>;
         e = e\<lparr>last_sent_at := completed_at e\<rparr>;
         e = e\<lparr>retries := 0\<rparr>;
         e = e\<lparr>e_state := 2\<rparr>;
         node = node\<lparr>nd_entries := (nd_entries node)[i := e]\<rparr>;
         node = node\<lparr>nd_base := nd_base node + 1\<rparr>
     in (node, emit_result node e hooks user))"

lemma base_execute_entry [simp]: "nd_base (fst (execute_entry hooks node i user)) = nd_base node + 1"
  by (simp add: execute_entry_def Let_def split: prod.split)

lemma base_clear_entries [simp]: "nd_base (clear_entries node) = nd_base node"
  and session_clear_entries [simp]: "nd_session (clear_entries node) = nd_session node"
  and active_clear_entries [simp]: "nd_active (clear_entries node) = nd_active node"
  by (simp_all add: clear_entries_def)

lemma base_expire_loop [simp]: "nd_base (expire_loop gap now is node) = nd_base node"
  by (induction gap now "is" node rule: expire_loop.induct) (auto simp: Let_def)

lemma base_expire [simp]: "nd_base (expire node now) = nd_base node"
  by (simp add: expire_def)

function deliver :: "'u edge_sr_hooks_t \<Rightarrow> edge_sr_node_t \<Rightarrow> 'u \<Rightarrow> edge_sr_node_t \<times> 'u" where
  "deliver hooks node user =
    (if unat (nd_base node) < 256 then
       let (now, user) = now_ms hooks user;
           node = expire node now
       in if nd_active node = 0 then (node, user)
          else case find_entry node (ucast (nd_base node)) of
                 None \<Rightarrow> (node, user)
               | Some i \<Rightarrow>
                   if e_state (nd_entries node ! i) \<noteq> 1 then (node, user)
                   else let (node, user) = execute_entry hooks node i user
                        in deliver hooks node user
     else (node, user))"
  by pat_completeness auto
termination
proof (relation "measure (\<lambda>(hooks, node, user). 256 - unat (nd_base node))", goal_cases)
  case (2 hooks node user x now user' node' i y node'' user'')
  then have "nd_base node'' = nd_base node + 1"
    using base_execute_entry [of hooks node' i user'] by (metis base_expire fst_conv)
  with 2 show ?case by (auto simp: unat_Suc_u16 split: prod.splits)
qed simp

declare deliver.simps [simp del]
text \<open>
  The three branches of \<open>edge_sr_node_on_frame\<close>: the OPEN request, the RESULT_ACK and the
  COMMAND, the last from the point where the frame is known to be a command of the session.
\<close>

definition on_open :: "'u edge_sr_hooks_t \<Rightarrow> edge_sr_node_t \<Rightarrow> u64 \<Rightarrow> 'u \<Rightarrow> edge_sr_node_t \<times> 'u" where
  "on_open hooks node session user =
    (let node = (if session > nd_session node
                 then (clear_entries node)\<lparr>nd_session := session, nd_base := 0, nd_active := 1\<rparr>
                 else node);
         rc = (if session = nd_session node \<and> nd_active node \<noteq> 0 then EDGE_RC_OK else EDGE_RC_BAD_PARAM);
         p = replicate 17 0;
         p = edge_u64_be_write p 0 session;
         p = edge_u64_be_write p 8 (nd_session node);
         p = p[16 := rc]
     in (node, emit hooks EDGE_TYPE_SR_OPEN_ACK p user))"

definition same_command :: "edge_sr_entry_t \<Rightarrow> u8 list \<Rightarrow> bool" where
  "same_command e payload \<longleftrightarrow>
     \<not> (e_command e \<noteq> payload ! 9 \<or> unat (args_len e) \<noteq> length payload - 10) \<and>
     \<not> list_ex (\<lambda>i. e_args e ! i \<noteq> payload ! (10 + i)) [0..<unat (args_len e)]"

definition store_command :: "edge_sr_entry_t \<Rightarrow> u8 list \<Rightarrow> u32 \<Rightarrow> edge_sr_entry_t" where
  "store_command e payload now =
    (let e = e\<lparr>e_state := 1\<rparr>;
         e = e\<lparr>e_seq := payload ! 8\<rparr>;
         e = e\<lparr>e_command := payload ! 9\<rparr>;
         e = e\<lparr>args_len := of_nat (length payload - 10)\<rparr>;
         e = e\<lparr>received_at := now\<rparr>
     in e\<lparr>e_args := foldl (\<lambda>a i. a[i := payload ! (10 + i)]) (e_args e) [0..<unat (args_len e)]\<rparr>)"

definition on_command ::
    "'u edge_sr_hooks_t \<Rightarrow> edge_sr_node_t \<Rightarrow> u8 list \<Rightarrow> u32 \<Rightarrow> 'u \<Rightarrow> edge_sr_node_t \<times> 'u" where
  "on_command hooks node payload now user =
    (let seq = payload ! 8 in
     case find_entry node seq of
       Some i \<Rightarrow>
         let e = nd_entries node ! i in
         if \<not> same_command e payload then (node, user)
         else let user = emit_received node seq hooks user
              in if e_state e = 2 then (node, emit_result node e hooks user) else (node, user)
     | None \<Rightarrow>
         if unat seq < unat (nd_base node) then (node, emit_received node seq hooks user)
         else if unat seq \<ge> unat (nd_base node) + EDGE_SR_WINDOW_SIZE then (node, user)
         else case find_index (\<lambda>e. e_state e = 0) (nd_entries node) of
                None \<Rightarrow> (node, user)
              | Some i \<Rightarrow>
                  let node = node\<lparr>nd_entries :=
                        (nd_entries node)[i := store_command (nd_entries node ! i) payload now]\<rparr>;
                      user = emit_received node seq hooks user
                  in deliver hooks node user)"

definition edge_sr_node_on_frame ::
    "edge_sr_node_t \<Rightarrow> u8 \<Rightarrow> u8 list option \<Rightarrow> 'u edge_sr_hooks_t \<Rightarrow> 'u \<Rightarrow> edge_sr_node_t \<times> 'u" where
  "edge_sr_node_on_frame node type payload hooks user =
    (let (now, user) = now_ms hooks user;
         node = expire node now
     in case payload of
          None \<Rightarrow> (node, user)
        | Some pl \<Rightarrow>
            if length pl > EDGE_PAYLOAD_MAX \<or> length pl < 8 then (node, user)
            else
              let session = edge_u64_be_read pl 0 in
              if type = EDGE_TYPE_SR_OPEN then
                if length pl \<noteq> 8 then (node, user) else on_open hooks node session user
              else if nd_active node = 0 \<or> session \<noteq> nd_session node \<or> length pl < 9 then (node, user)
              else if type = EDGE_TYPE_SR_RESULT_ACK then
                (case find_entry node (pl ! 8) of
                   Some i \<Rightarrow>
                     if length pl = 9 \<and> e_state (nd_entries node ! i) = 2
                     then (node\<lparr>nd_entries :=
                             (nd_entries node)[i := (nd_entries node ! i)\<lparr>e_state := 0\<rparr>]\<rparr>, user)
                     else (node, user)
                 | None \<Rightarrow> (node, user))
              else if type \<noteq> EDGE_TYPE_SR_COMMAND \<or> length pl < 10 then (node, user)
              else on_command hooks node pl now user)"

definition tick_entry ::
    "'u edge_sr_hooks_t \<Rightarrow> u32 \<Rightarrow> edge_sr_node_t \<times> 'u \<Rightarrow> nat \<Rightarrow> edge_sr_node_t \<times> 'u" where
  "tick_entry hooks now s i =
    (let (node, user) = s; e = nd_entries node ! i in
     if e_state e = 2 \<and> unat (retries e) < EDGE_MAX_RETRY \<and> now - last_sent_at e \<ge> EDGE_ACK_TIMEOUT_MS
     then let e = e\<lparr>retries := retries e + 1\<rparr>;
              e = e\<lparr>last_sent_at := now\<rparr>;
              node = node\<lparr>nd_entries := (nd_entries node)[i := e]\<rparr>
          in (node, emit_result node e hooks user)
     else (node, user))"

definition edge_sr_node_tick :: "edge_sr_node_t \<Rightarrow> 'u edge_sr_hooks_t \<Rightarrow> 'u \<Rightarrow> edge_sr_node_t \<times> 'u" where
  "edge_sr_node_tick node hooks user =
    (let (now, user) = now_ms hooks user;
         node = expire node now
     in if nd_active node = 0 then (node, user)
        else foldl (tick_entry hooks now) (node, user) [0..<EDGE_SR_RESULT_CAPACITY])"

subsection \<open>The bytes of the replies\<close>

definition received_payload :: "u64 \<Rightarrow> u8 \<Rightarrow> u8 list" where
  "received_payload s seq = u64_bytes s @ [seq]"

definition result_payload :: "u64 \<Rightarrow> edge_sr_entry_t \<Rightarrow> u8 list" where
  "result_payload s e = u64_bytes s @ [e_seq e, e_command e] @ take (unat (result_len e)) (e_result e)"

definition open_ack_payload :: "u64 \<Rightarrow> u64 \<Rightarrow> u8 \<Rightarrow> u8 list" where
  "open_ack_payload asked s rc = u64_bytes asked @ u64_bytes s @ [rc]"

lemma u64_be_write_replicate:
  "edge_u64_be_write (replicate (8 + m) 0) 0 v = u64_bytes v @ replicate m 0"
  by (simp add: edge_u64_be_write_eq [of _ 0 m])

lemma emit_received_eq:
  "emit_received node seq hooks user =
     emit hooks EDGE_TYPE_SR_RECEIVED (received_payload (nd_session node) seq) user"
  using u64_be_write_replicate [of 1 "nd_session node"]
  by (simp add: emit_received_def received_payload_def list_update_append)

lemma foldl_update_from:
  "n \<le> length src \<Longrightarrow> length w + n \<le> length dst + length w \<Longrightarrow>
   foldl (\<lambda>p i. p[length w + i := src ! i]) (w @ dst) [0..<n] = w @ take n src @ drop n dst"
proof (induction n)
  case (Suc n)
  then show ?case
    by (simp add: list_update_append take_Suc_conv_app_nth Cons_nth_drop_Suc [symmetric])
qed simp

lemma emit_result_eq:
  assumes "length (e_result e) = EDGE_SR_RESULT_MAX" and "unat (result_len e) \<le> EDGE_SR_RESULT_MAX"
  shows "emit_result node e hooks user =
    emit hooks EDGE_TYPE_SR_RESULT (result_payload (nd_session node) e) user"
proof -
  let ?h = "u64_bytes (nd_session node) @ [e_seq e, e_command e]"
  have "(edge_u64_be_write (replicate EDGE_PAYLOAD_MAX 0) 0 (nd_session node))[8 := e_seq e, 9 := e_command e] =
      ?h @ replicate 53 0"
    using u64_be_write_replicate [of 55 "nd_session node"]
    by (simp add: list_update_append replicate_add [of 2 53, simplified] numeral_eq_Suc)
  moreover have "foldl (\<lambda>p i. p[10 + i := e_result e ! i]) (?h @ replicate 53 0) [0..<unat (result_len e)] =
      ?h @ take (unat (result_len e)) (e_result e) @ replicate (53 - unat (result_len e)) 0"
    using foldl_update_from [of "unat (result_len e)" "e_result e" ?h "replicate 53 0"] assms by simp
  ultimately show ?thesis
    using assms by (simp add: emit_result_def Let_def result_payload_def)
qed

lemma open_ack_bytes:
  "(edge_u64_be_write (edge_u64_be_write (replicate 17 0) 0 a) 8 s)[16 := rc] = open_ack_payload a s rc"
proof -
  have "edge_u64_be_write (replicate 17 0) 0 a = u64_bytes a @ replicate 9 0"
    using u64_be_write_replicate [of 9 a] by simp
  moreover have "edge_u64_be_write (u64_bytes a @ replicate 9 0) 8 s = u64_bytes a @ u64_bytes s @ [0]"
    using edge_u64_be_write_eq [of "u64_bytes a @ replicate 9 0" 8 1 s] by simp
  ultimately show ?thesis by (simp add: open_ack_payload_def list_update_append)
qed

subsection \<open>What the context sees\<close>

text \<open>
  The hooks with a log in the context: every execution and every frame handed to the
  transmitter, in order.
\<close>

datatype sr_event = Executed u8 u8 "u8 list" | Sent u8 "u8 list"

definition recording :: "'u edge_sr_hooks_t \<Rightarrow> ('u \<times> sr_event list) edge_sr_hooks_t" where
  "recording h =
    \<lparr>now_ms = (\<lambda>(u, log). let (t, u) = now_ms h u in (t, u, log)),
     execute = (\<lambda>seq cmd args buf (u, log).
       let (n, buf, u) = execute h seq cmd args buf u in (n, buf, u, log @ [Executed seq cmd args])),
     emit = (\<lambda>type payload (u, log). (emit h type payload u, log @ [Sent type payload]))\<rparr>"

text \<open>The executor writes to the result array in place, so the array keeps its size.\<close>

definition hooks_ok :: "'u edge_sr_hooks_t \<Rightarrow> bool" where
  "hooks_ok h \<longleftrightarrow>
     (\<forall>seq cmd args buf u. length (fst (snd (execute h seq cmd args buf u))) = length buf)"

datatype sr_input = FrameIn u8 "u8 list option" | Tick

definition sr_input_step ::
    "'u edge_sr_hooks_t \<Rightarrow> edge_sr_node_t \<Rightarrow> 'u \<Rightarrow> sr_input \<Rightarrow> edge_sr_node_t \<times> 'u" where
  "sr_input_step h node user inp =
    (case inp of
       FrameIn type payload \<Rightarrow> edge_sr_node_on_frame node type payload h user
     | Tick \<Rightarrow> edge_sr_node_tick node h user)"

text \<open>The events of a run of the node over a sequence of inputs, each with the session it belongs to.\<close>

fun sr_history ::
    "'u edge_sr_hooks_t \<Rightarrow> edge_sr_node_t \<Rightarrow> 'u \<Rightarrow> sr_input list \<Rightarrow> (u64 \<times> sr_event) list" where
  "sr_history h node user [] = []"
| "sr_history h node user (inp # inps) =
    (let (node, user, log) = sr_input_step (recording h) node (user, []) inp
     in map (Pair (nd_session node)) log @ sr_history h node user inps)"

subsection \<open>Specification: a labelled transition system\<close>

text \<open>
  What one call of the receiver may do, as a sequence of atomic steps: forget a finished result,
  close the session because of an expired gap, open a newer session, answer, store a command of
  the window, execute the command at the left edge, repeat a result. The label is what the
  context sees. The input of the call is a parameter, so that only a command that has just
  arrived can be stored.
\<close>

definition command_of :: "sr_input \<Rightarrow> (u64 \<times> u8 \<times> u8 \<times> u8 list) option" where
  "command_of inp =
    (case inp of
       FrameIn type (Some pl) \<Rightarrow>
         if type = EDGE_TYPE_SR_COMMAND \<and> 10 \<le> length pl \<and> length pl \<le> EDGE_PAYLOAD_MAX
         then Some (edge_u64_be_read pl 0, pl ! 8, pl ! 9, drop 10 pl) else None
     | _ \<Rightarrow> None)"

definition entry_args :: "edge_sr_entry_t \<Rightarrow> u8 list" where
  "entry_args e = take (unat (args_len e)) (e_args e)"

definition set_entry :: "edge_sr_node_t \<Rightarrow> nat \<Rightarrow> edge_sr_entry_t \<Rightarrow> edge_sr_node_t" where
  "set_entry node i e = node\<lparr>nd_entries := (nd_entries node)[i := e]\<rparr>"

inductive sr_step :: "sr_input \<Rightarrow> edge_sr_node_t \<Rightarrow> sr_event list \<Rightarrow> edge_sr_node_t \<Rightarrow> bool" where
  step_free:
    "i < length (nd_entries n) \<Longrightarrow> e_state (nd_entries n ! i) = 2 \<Longrightarrow>
     sr_step inp n [] (set_entry n i ((nd_entries n ! i)\<lparr>e_state := 0\<rparr>))"
| step_close:
    "unat (nd_base n) < 256 \<Longrightarrow> find_entry n (ucast (nd_base n)) = None \<Longrightarrow>
     e \<in> set (nd_entries n) \<Longrightarrow> e_state e = 1 \<Longrightarrow> EDGE_COMMAND_LIFETIME_MS \<le> now - received_at e \<Longrightarrow>
     sr_step inp n [] (clear_entries (n\<lparr>nd_active := 0\<rparr>))"
| step_open:
    "nd_session n < s \<Longrightarrow> inp = FrameIn EDGE_TYPE_SR_OPEN (Some pl) \<Longrightarrow> length pl = 8 \<Longrightarrow>
     s = edge_u64_be_read pl 0 \<Longrightarrow>
     sr_step inp n [Sent EDGE_TYPE_SR_OPEN_ACK (open_ack_payload s s EDGE_RC_OK)]
       ((clear_entries n)\<lparr>nd_session := s, nd_base := 0, nd_active := 1\<rparr>)"
| step_reopen:
    "s \<le> nd_session n \<Longrightarrow> inp = FrameIn EDGE_TYPE_SR_OPEN (Some pl) \<Longrightarrow> s = edge_u64_be_read pl 0 \<Longrightarrow>
     rc = (if s = nd_session n \<and> nd_active n \<noteq> 0 then EDGE_RC_OK else EDGE_RC_BAD_PARAM) \<Longrightarrow>
     sr_step inp n [Sent EDGE_TYPE_SR_OPEN_ACK (open_ack_payload s (nd_session n) rc)] n"
| step_received:
    "command_of inp \<noteq> None \<Longrightarrow> nd_active n \<noteq> 0 \<Longrightarrow> find_entry n seq \<noteq> None \<or> unat seq < unat (nd_base n) \<Longrightarrow>
     sr_step inp n [Sent EDGE_TYPE_SR_RECEIVED (received_payload (nd_session n) seq)] n"
| step_replay:
    "command_of inp \<noteq> None \<Longrightarrow> nd_active n \<noteq> 0 \<Longrightarrow> e \<in> set (nd_entries n) \<Longrightarrow> e_state e = 2 \<Longrightarrow>
     sr_step inp n [Sent EDGE_TYPE_SR_RESULT (result_payload (nd_session n) e)] n"
| step_store:
    "nd_active n \<noteq> 0 \<Longrightarrow> command_of inp = Some (nd_session n, seq, cmd, args) \<Longrightarrow>
     find_entry n seq = None \<Longrightarrow> unat (nd_base n) \<le> unat seq \<Longrightarrow>
     unat seq < unat (nd_base n) + EDGE_SR_WINDOW_SIZE \<Longrightarrow>
     i < length (nd_entries n) \<Longrightarrow> e_state (nd_entries n ! i) = 0 \<Longrightarrow>
     e_state e = 1 \<Longrightarrow> e_seq e = seq \<Longrightarrow> e_command e = cmd \<Longrightarrow> entry_args e = args \<Longrightarrow>
     length (e_args e) = EDGE_SR_ARGS_MAX \<Longrightarrow> length (e_result e) = EDGE_SR_RESULT_MAX \<Longrightarrow>
     unat (args_len e) \<le> EDGE_SR_ARGS_MAX \<Longrightarrow>
     sr_step inp n [Sent EDGE_TYPE_SR_RECEIVED (received_payload (nd_session n) seq)] (set_entry n i e)"
| step_exec:
    "command_of inp \<noteq> None \<Longrightarrow> nd_active n \<noteq> 0 \<Longrightarrow> unat (nd_base n) < 256 \<Longrightarrow>
     i < length (nd_entries n) \<Longrightarrow> e = nd_entries n ! i \<Longrightarrow>
     e_state e = 1 \<Longrightarrow> e_seq e = ucast (nd_base n) \<Longrightarrow>
     e' = e\<lparr>e_result := r, result_len := l, completed_at := t, last_sent_at := t, retries := 0, e_state := 2\<rparr> \<Longrightarrow>
     length r = EDGE_SR_RESULT_MAX \<Longrightarrow> 0 < unat l \<Longrightarrow> unat l \<le> EDGE_SR_RESULT_MAX \<Longrightarrow>
     sr_step inp n
       [Executed (e_seq e) (e_command e) (entry_args e),
        Sent EDGE_TYPE_SR_RESULT (result_payload (nd_session n) e')]
       ((set_entry n i e')\<lparr>nd_base := nd_base n + 1\<rparr>)"
| step_resend:
    "inp = Tick \<Longrightarrow> nd_active n \<noteq> 0 \<Longrightarrow> i < length (nd_entries n) \<Longrightarrow> e = nd_entries n ! i \<Longrightarrow> e_state e = 2 \<Longrightarrow>
     unat (retries e) < EDGE_MAX_RETRY \<Longrightarrow> e' = e\<lparr>retries := retries e + 1, last_sent_at := t\<rparr> \<Longrightarrow>
     sr_step inp n [Sent EDGE_TYPE_SR_RESULT (result_payload (nd_session n) e)] (set_entry n i e')"

abbreviation sr_steps :: "sr_input \<Rightarrow> edge_sr_node_t \<Rightarrow> sr_event list \<Rightarrow> edge_sr_node_t \<Rightarrow> bool" where
  "sr_steps inp \<equiv> lts_steps (sr_step inp)"

lemmas sr_single = steps_single [where R = "sr_step inp" for inp]
lemmas sr_cons = steps_step [where R = "sr_step inp" for inp]
lemmas sr_invariant = steps_invariant [where R = "sr_step inp" for inp]

subsection \<open>Well-formed nodes\<close>

definition entry_wf :: "nat \<Rightarrow> edge_sr_entry_t \<Rightarrow> bool" where
  "entry_wf base e \<longleftrightarrow>
     length (e_args e) = EDGE_SR_ARGS_MAX \<and> length (e_result e) = EDGE_SR_RESULT_MAX \<and>
     (e_state e = 0 \<or> e_state e = 1 \<or> e_state e = 2) \<and>
     (e_state e = 1 \<longrightarrow> base \<le> unat (e_seq e) \<and> unat (e_seq e) < base + EDGE_SR_WINDOW_SIZE) \<and>
     (e_state e \<noteq> 0 \<longrightarrow> unat (args_len e) \<le> EDGE_SR_ARGS_MAX) \<and>
     (e_state e = 2 \<longrightarrow> unat (e_seq e) < base \<and> 0 < unat (result_len e) \<and>
        unat (result_len e) \<le> EDGE_SR_RESULT_MAX \<and> unat (retries e) \<le> EDGE_MAX_RETRY)"

definition node_wf :: "edge_sr_node_t \<Rightarrow> bool" where
  "node_wf n \<longleftrightarrow> length (nd_entries n) = EDGE_SR_RESULT_CAPACITY \<and> unat (nd_base n) \<le> 256 \<and>
     (\<forall>i<EDGE_SR_RESULT_CAPACITY. entry_wf (unat (nd_base n)) (nd_entries n ! i)) \<and>
     (\<forall>i<EDGE_SR_RESULT_CAPACITY. \<forall>j<EDGE_SR_RESULT_CAPACITY. i \<noteq> j \<longrightarrow>
        e_state (nd_entries n ! i) \<noteq> 0 \<longrightarrow> e_state (nd_entries n ! j) \<noteq> 0 \<longrightarrow>
        e_seq (nd_entries n ! i) \<noteq> e_seq (nd_entries n ! j)) \<and>
     (nd_active n = 0 \<longrightarrow> (\<forall>i<EDGE_SR_RESULT_CAPACITY. e_state (nd_entries n ! i) = 0))"

lemma node_wfD:
  assumes "node_wf n"
  shows "length (nd_entries n) = 16" "unat (nd_base n) \<le> 256"
    "i < 16 \<Longrightarrow> entry_wf (unat (nd_base n)) (nd_entries n ! i)"
    "i < 16 \<Longrightarrow> j < 16 \<Longrightarrow> i \<noteq> j \<Longrightarrow> e_state (nd_entries n ! i) \<noteq> 0 \<Longrightarrow> e_state (nd_entries n ! j) \<noteq> 0 \<Longrightarrow>
       e_seq (nd_entries n ! i) \<noteq> e_seq (nd_entries n ! j)"
    "nd_active n = 0 \<Longrightarrow> i < 16 \<Longrightarrow> e_state (nd_entries n ! i) = 0"
  using assms unfolding node_wf_def by auto

lemma node_wf_entry: "node_wf n \<Longrightarrow> e \<in> set (nd_entries n) \<Longrightarrow> entry_wf (unat (nd_base n)) e"
  by (auto simp: in_set_conv_nth node_wfD)

lemma set_entry_simps [simp]:
  "nd_session (set_entry n i e) = nd_session n" "nd_base (set_entry n i e) = nd_base n"
  "nd_active (set_entry n i e) = nd_active n" "nd_entries (set_entry n i e) = (nd_entries n)[i := e]"
  by (simp_all add: set_entry_def)

lemma unat_ucast_base: "unat b < 256 \<Longrightarrow> unat (ucast (b :: u16) :: u8) = unat b"
  by (simp add: unsigned_ucast_eq take_bit_nat_eq_self)

lemma find_entry_SomeD:
  "find_entry n seq = Some i \<Longrightarrow>
   i < length (nd_entries n) \<and> e_state (nd_entries n ! i) \<noteq> 0 \<and> e_seq (nd_entries n ! i) = seq"
  by (auto simp: find_entry_def dest: find_index_SomeD)

lemma find_entry_None_iff:
  "find_entry n seq = None \<longleftrightarrow> (\<forall>e\<in>set (nd_entries n). e_state e \<noteq> 0 \<longrightarrow> e_seq e \<noteq> seq)"
  by (auto simp: find_entry_def find_index_None_iff)

lemma find_entry_NoneD:
  "find_entry n seq = None \<Longrightarrow> i < length (nd_entries n) \<Longrightarrow> e_state (nd_entries n ! i) \<noteq> 0 \<Longrightarrow>
   e_seq (nd_entries n ! i) \<noteq> seq"
  by (simp add: find_entry_None_iff)

lemma find_entry_unique:
  assumes "node_wf n" and "i < 16" and "e_state (nd_entries n ! i) \<noteq> 0"
  shows "find_entry n (e_seq (nd_entries n ! i)) = Some i"
proof -
  obtain j where j: "find_entry n (e_seq (nd_entries n ! i)) = Some j"
    using assms node_wfD(1) [OF assms(1)]
    by (metis find_entry_NoneD not_None_eq)
  from find_entry_SomeD [OF j] assms node_wfD(1,4) [OF assms(1)] have "j = i" by metis
  with j show ?thesis by simp
qed

lemma node_wf_set_entry:
  assumes "node_wf n" and "entry_wf (unat (nd_base n)) e"
    and "e_state e = 0 \<or> (nd_active n \<noteq> 0 \<and>
      (\<forall>j<16. j \<noteq> i \<longrightarrow> e_state (nd_entries n ! j) \<noteq> 0 \<longrightarrow> e_seq (nd_entries n ! j) \<noteq> e_seq e))"
  shows "node_wf (set_entry n i e)"
  using assms unfolding node_wf_def set_entry_simps
  by (auto simp: nth_update_lt)

lemma node_wf_clear: "node_wf n \<Longrightarrow> node_wf (clear_entries (n\<lparr>nd_active := a\<rparr>))"
  unfolding node_wf_def by (auto simp: clear_entries_def entry_wf_def)

lemma node_wf_open:
  "node_wf n \<Longrightarrow> node_wf ((clear_entries n)\<lparr>nd_session := s, nd_base := 0, nd_active := 1\<rparr>)"
  unfolding node_wf_def by (auto simp: clear_entries_def entry_wf_def)

lemma node_wf_exec:
  assumes wf: "node_wf n" and "nd_active n \<noteq> 0" and b: "unat (nd_base n) < 256"
    and i: "i < 16" "e_state (nd_entries n ! i) = 1" "e_seq (nd_entries n ! i) = ucast (nd_base n)"
    and e': "entry_wf (Suc (unat (nd_base n))) e'" "e_state e' = 2" "e_seq e' = ucast (nd_base n)"
  shows "node_wf ((set_entry n i e')\<lparr>nd_base := nd_base n + 1\<rparr>)"
proof -
  let ?b = "unat (nd_base n)"
  have s: "unat (nd_base n + 1) = Suc ?b" using b by (simp add: unat_Suc_u16)
  have other: "e_seq (nd_entries n ! j) \<noteq> e_seq e'"
    if "j < 16" "j \<noteq> i" "e_state (nd_entries n ! j) \<noteq> 0" for j
    using node_wfD(4) [OF wf that(1) i(1) that(2,3)] i e'(3) by simp
  have "entry_wf (Suc ?b) (nd_entries n ! j)" if "j < 16" "j \<noteq> i" for j
  proof -
    have "e_seq (nd_entries n ! j) = ucast (nd_base n)" if "unat (e_seq (nd_entries n ! j)) = ?b"
      using that unat_ucast_base [OF b] by (metis word_unat_eq_iff)
    then show ?thesis
      using node_wfD(3) [OF wf that(1)] other [OF that] e'(3)
      by (auto simp: entry_wf_def dest: le_neq_implies_less)
  qed
  with wf e' other other [THEN not_sym] \<open>nd_active n \<noteq> 0\<close> b show ?thesis
    unfolding node_wf_def by (auto simp: nth_update_lt s)
qed

lemma sr_step_wf:
  assumes "sr_step inp n evs n'" and "node_wf n"
  shows "node_wf n'"
  using assms
proof (cases rule: sr_step.cases)
  case (step_free i)
  with assms(2) node_wfD(1,3) [OF assms(2)] show ?thesis
    by (auto intro!: node_wf_set_entry simp: entry_wf_def)
next
  case (step_close e now)
  with assms(2) show ?thesis by (simp add: node_wf_clear)
next
  case (step_open s pl)
  with assms(2) show ?thesis by (simp add: node_wf_open)
next
  case (step_store seq cmd args i e)
  have "\<forall>j<16. j \<noteq> i \<longrightarrow> e_state (nd_entries n ! j) \<noteq> 0 \<longrightarrow> e_seq (nd_entries n ! j) \<noteq> e_seq e"
    using find_entry_NoneD step_store node_wfD(1) [OF assms(2)] by auto
  with step_store assms(2) show ?thesis
    by (auto intro!: node_wf_set_entry simp: entry_wf_def)
next
  case (step_exec i e e' r l t)
  note wf = node_wfD [OF assms(2)]
  have "entry_wf (unat (nd_base n)) e" using step_exec wf(1,3) by auto
  with step_exec have "entry_wf (Suc (unat (nd_base n))) e'"
    by (simp add: entry_wf_def unat_ucast_base)
  with step_exec assms(2) wf(1) show ?thesis by (auto intro!: node_wf_exec)
next
  case (step_resend i e e' t)
  note wf = node_wfD [OF assms(2)]
  have "entry_wf (unat (nd_base n)) e" using step_resend wf(1,3) by auto
  with step_resend have "entry_wf (unat (nd_base n)) e'"
    by (simp add: entry_wf_def unat_Suc_u8)
  moreover have "\<forall>j<16. j \<noteq> i \<longrightarrow> e_state (nd_entries n ! j) \<noteq> 0 \<longrightarrow> e_seq (nd_entries n ! j) \<noteq> e_seq e'"
    using wf(4) step_resend wf(1) by (auto dest: not_sym)
  ultimately show ?thesis using step_resend assms(2) by (auto intro!: node_wf_set_entry)
qed auto

lemma sr_steps_wf: "sr_steps inp n evs n' \<Longrightarrow> node_wf n \<Longrightarrow> node_wf n'"
  by (induction rule: lts_steps.induct) (auto intro: sr_step_wf)

subsection \<open>The code takes only these steps\<close>

lemma recording_simps [simp]:
  "now_ms (recording h) (u, log) = (fst (now_ms h u), snd (now_ms h u), log)"
  "emit (recording h) t p (u, log) = (emit h t p u, log @ [Sent t p])"
  "execute (recording h) s c a b (u, log) =
     (fst (execute h s c a b u), fst (snd (execute h s c a b u)), snd (snd (execute h s c a b u)),
      log @ [Executed s c a])"
  by (auto simp: recording_def split: prod.split)

lemma hooks_ok_length: "hooks_ok h \<Longrightarrow> length (fst (snd (execute h s c a b u))) = length b"
  by (simp add: hooks_ok_def)

lemma expire_loop_steps:
  assumes "node_wf n" and "set is \<subseteq> {..<16}" and "gap \<Longrightarrow> unat (nd_base n) < 256 \<and> find_entry n (ucast (nd_base n)) = None"
  shows "sr_steps inp n [] (expire_loop gap now is n)"
  using assms
proof (induction "is" arbitrary: n)
  case Nil
  show ?case by (simp add: steps_refl)
next
  case (Cons i "is")
  let ?e = "nd_entries n ! i"
  have i: "i < length (nd_entries n)" using Cons.prems(2) node_wfD(1) [OF Cons.prems(1)] by simp
  have gap': "find_entry (set_entry n i (?e\<lparr>e_state := 0\<rparr>)) seq = None" if "find_entry n seq = None" for seq
    using that by (auto simp: find_entry_None_iff elim!: set_list_updateE)
  consider (close) "gap" "e_state ?e = 1" "EDGE_COMMAND_LIFETIME_MS \<le> now - received_at ?e"
    | (free) "\<not> (gap \<and> e_state ?e = 1 \<and> EDGE_COMMAND_LIFETIME_MS \<le> now - received_at ?e)"
        "e_state ?e = 2" "EDGE_SR_RESULT_TTL_MS \<le> now - completed_at ?e"
    | (keep) "\<not> (gap \<and> e_state ?e = 1 \<and> EDGE_COMMAND_LIFETIME_MS \<le> now - received_at ?e)"
        "\<not> (e_state ?e = 2 \<and> EDGE_SR_RESULT_TTL_MS \<le> now - completed_at ?e)"
    by blast
  then show ?case
  proof cases
    case close
    then have "sr_step inp n [] (clear_entries (n\<lparr>nd_active := 0\<rparr>))"
      using Cons.prems(3) i by (intro step_close [of _ ?e]) auto
    with close show ?thesis by (simp add: sr_single Let_def)
  next
    case free
    let ?n = "set_entry n i (?e\<lparr>e_state := 0\<rparr>)"
    have step: "sr_step inp n [] ?n" using free i by (intro step_free)
    have "sr_steps inp ?n [] (expire_loop gap now is ?n)"
      using Cons.prems gap' sr_step_wf [OF step] by (intro Cons.IH) auto
    with step free show ?thesis
      using sr_cons by (fastforce simp: Let_def set_entry_def)
  next
    case keep
    with Cons show ?thesis by (auto simp: Let_def)
  qed
qed

lemma expire_steps: "node_wf n \<Longrightarrow> sr_steps inp n [] (expire n now)"
  unfolding expire_def Let_def by (rule expire_loop_steps) auto

lemma expire_wf: "node_wf n \<Longrightarrow> node_wf (expire n now)"
  using expire_steps sr_steps_wf by blast

text \<open>A call that starts in \<open>n\<close> with the log \<open>log\<close> and returns \<open>res\<close> has taken steps, and logged them.\<close>

definition refines ::
    "sr_input \<Rightarrow> edge_sr_node_t \<Rightarrow> sr_event list \<Rightarrow> edge_sr_node_t \<times> 'u \<times> sr_event list \<Rightarrow> bool" where
  "refines inp n log res \<longleftrightarrow>
     (case res of (n', u', log') \<Rightarrow> \<exists>evs. log' = log @ evs \<and> sr_steps inp n evs n')"

lemma refines_steps: "sr_steps inp n evs n' \<Longrightarrow> refines inp n log (n', u, log @ evs)"
  by (auto simp: refines_def)

lemma refines_refl: "refines inp n log (n, u, log)"
  using refines_steps [OF steps_refl] by fastforce

lemma refines_step: "sr_step inp n evs n' \<Longrightarrow> refines inp n log (n', u, log @ evs)"
  by (rule refines_steps) (rule sr_single)

lemma refines_trans:
  "sr_steps inp n evs n' \<Longrightarrow> refines inp n' (log @ evs) res \<Longrightarrow> refines inp n log res"
  using steps_trans by (fastforce simp: refines_def split: prod.splits)

lemma refines_silent: "sr_steps inp n [] n' \<Longrightarrow> refines inp n' log res \<Longrightarrow> refines inp n log res"
  using refines_trans [of inp n "[]"] by simp

lemma execute_entry_eq:
  assumes "e = nd_entries n ! i"
    and "execute hooks (e_seq e) (e_command e) (entry_args e) (e_result e) user = (rl, rb, u1)"
    and "now_ms hooks u1 = (t, u2)"
    and "if rl = 0 \<or> EDGE_SR_RESULT_MAX < unat rl then r = rb[0 := EDGE_RC_UNSUPPORTED] \<and> l = 1 else r = rb \<and> l = rl"
    and "e' = e\<lparr>e_result := r, result_len := l, completed_at := t, last_sent_at := t, retries := 0, e_state := 2\<rparr>"
    and "n' = (set_entry n i e')\<lparr>nd_base := nd_base n + 1\<rparr>"
  shows "execute_entry hooks n i user = (n', emit_result n' e' hooks u2)"
  using assms unfolding execute_entry_def entry_args_def [symmetric]
  by (cases "rl = 0 \<or> EDGE_SR_RESULT_MAX < unat rl") (simp_all add: set_entry_def Let_def)

lemma execute_entry_step:
  assumes h: "hooks_ok h" and "command_of inp \<noteq> None" and wf: "node_wf n" and "nd_active n \<noteq> 0" and "unat (nd_base n) < 256"
    and i: "i < 16" "e_state (nd_entries n ! i) = 1" "e_seq (nd_entries n ! i) = ucast (nd_base n)"
  obtains n' u' evs where "execute_entry (recording h) n i (u, log) = (n', u', log @ evs)"
    "sr_step inp n evs n'"
proof -
  define e where "e = nd_entries n ! i"
  obtain rl rb u1 where x: "execute h (e_seq e) (e_command e) (entry_args e) (e_result e) u = (rl, rb, u1)"
    by (metis prod_cases3)
  obtain t u2 where t: "now_ms h u1 = (t, u2)" by fastforce
  obtain r l where rl: "if rl = 0 \<or> EDGE_SR_RESULT_MAX < unat rl
      then r = rb[0 := EDGE_RC_UNSUPPORTED] \<and> l = 1 else r = rb \<and> l = rl" by (metis (full_types))
  define e' where "e' = e\<lparr>e_result := r, result_len := l, completed_at := t, last_sent_at := t,
    retries := 0, e_state := 2\<rparr>"
  define n' where "n' = (set_entry n i e')\<lparr>nd_base := nd_base n + 1\<rparr>"
  let ?sent = "Sent EDGE_TYPE_SR_RESULT (result_payload (nd_session n) e')"
  let ?evs = "[Executed (e_seq e) (e_command e) (entry_args e), ?sent]"
  have "length (e_result e) = 53" using node_wfD(3) [OF wf i(1)] by (simp add: entry_wf_def e_def)
  then have r: "length r = 53" using hooks_ok_length [OF h, of "e_seq e" "e_command e" "entry_args e" "e_result e" u] x rl
    by (auto split: if_splits)
  have l: "0 < unat l" "unat l \<le> 53" using rl by (auto simp: unat_gt_0 split: if_splits)
  have "sr_step inp n ?evs n'"
    unfolding n'_def using assms node_wfD(1) [OF wf] r l
    by (intro step_exec [OF _ _ _ _ e_def _ _ e'_def]) (auto simp: e_def)
  moreover have "execute_entry (recording h) n i (u, log) =
      (n', emit_result n' e' (recording h) (u2, log @ [Executed (e_seq e) (e_command e) (entry_args e)]))"
    using execute_entry_eq [OF e_def _ _ rl e'_def n'_def, of "recording h"] x t by simp
  moreover have "emit_result n' e' (recording h) (v, log') =
      (emit h EDGE_TYPE_SR_RESULT (result_payload (nd_session n) e') v, log' @ [?sent])" for v log'
    using r l by (subst emit_result_eq) (auto simp: e'_def n'_def)
  ultimately show ?thesis using that by simp
qed

lemma deliver_refines:
  assumes "hooks_ok h" and "command_of inp \<noteq> None" and "node_wf n"
  shows "refines inp n log (deliver (recording h) n (u, log))"
  using assms(3)
proof (induction "256 - unat (nd_base n)" arbitrary: n u log rule: less_induct)
  case less
  show ?case
  proof (cases "unat (nd_base n) < 256")
    case False
    then show ?thesis by (subst deliver.simps) (simp add: refines_refl)
  next
    case b: True
    let ?now = "fst (now_ms h u)" and ?u = "snd (now_ms h u)"
    let ?n = "expire n ?now"
    have exp: "sr_steps inp n [] ?n" and wf: "node_wf ?n"
      using less.prems by (rule expire_steps, rule expire_wf)
    show ?thesis
    proof (cases "\<exists>i. nd_active ?n \<noteq> 0 \<and> find_entry ?n (ucast (nd_base n)) = Some i \<and>
        e_state (nd_entries ?n ! i) = 1")
      case False
      then have "deliver (recording h) n (u, log) = (?n, ?u, log)"
        using b by (subst deliver.simps) (auto simp: Let_def split: option.split)
      then show ?thesis using exp refines_refl refines_silent by metis
    next
      case True
      then obtain i where i: "nd_active ?n \<noteq> 0" "find_entry ?n (ucast (nd_base n)) = Some i"
        "e_state (nd_entries ?n ! i) = 1" by blast
      have "i < 16" "e_seq (nd_entries ?n ! i) = ucast (nd_base ?n)"
        using find_entry_SomeD [OF i(2)] node_wfD(1) [OF wf] by auto
      then obtain n' u' evs where x: "execute_entry (recording h) ?n i (?u, log) = (n', u', log @ evs)"
        and step: "sr_step inp ?n evs n'"
        using execute_entry_step [OF assms(1,2) wf i(1), of i ?u log] b i(3) by auto
      have base: "nd_base n' = nd_base n + 1" using base_execute_entry [of "recording h" ?n i "(?u, log)"] x by simp
      have "refines inp n' (log @ evs) (deliver (recording h) n' (u', log @ evs))"
        using b base sr_step_wf [OF step wf] by (intro less.hyps) (auto simp: unat_Suc_u16)
      moreover have "deliver (recording h) n (u, log) = deliver (recording h) n' (u', log @ evs)"
        using b i x by (subst deliver.simps) (simp add: Let_def)
      ultimately show ?thesis
        using refines_silent [OF exp] refines_trans [OF sr_single [OF step]] by metis
    qed
  qed
qed

lemma store_command_entry:
  fixes now :: u32
  assumes "length (e_args e) = EDGE_SR_ARGS_MAX" and "10 \<le> length pl" and "length pl \<le> EDGE_PAYLOAD_MAX"
  defines "e' \<equiv> store_command e pl now"
  shows "e_state e' = 1" "e_seq e' = pl ! 8" "e_command e' = pl ! 9" "entry_args e' = drop 10 pl"
    "length (e_args e') = EDGE_SR_ARGS_MAX" "e_result e' = e_result e" "unat (args_len e') \<le> EDGE_SR_ARGS_MAX"
    "received_at e' = now"
proof -
  have l: "unat (of_nat (length pl - 10) :: u8) = length pl - 10"
    using assms(3) by (intro unat_of_nat_u8) linarith
  have "foldl (\<lambda>a i. a[i := pl ! (10 + i)]) (e_args e) [0..<length pl - 10] = copy_prefix (drop 10 pl) (e_args e)"
    unfolding copy_prefix_def using assms(2) by (auto intro!: foldl_cong)
  moreover have "take (length pl - 10) (copy_prefix (drop 10 pl) (e_args e)) = drop 10 pl"
    using take_copy_prefix [of "drop 10 pl" "e_args e"] assms by simp
  ultimately show "entry_args e' = drop 10 pl"
    by (simp add: e'_def store_command_def entry_args_def Let_def l)
  show "unat (args_len e') \<le> EDGE_SR_ARGS_MAX"
    using assms(3) by (simp add: e'_def store_command_def Let_def l)
qed (simp_all add: e'_def store_command_def Let_def assms(1))

lemma emit_received_recording [simp]:
  "emit_received n seq (recording h) (u, log) =
    (emit h EDGE_TYPE_SR_RECEIVED (received_payload (nd_session n) seq) u,
     log @ [Sent EDGE_TYPE_SR_RECEIVED (received_payload (nd_session n) seq)])"
  by (simp add: emit_received_eq)

lemma emit_result_recording:
  assumes "entry_wf b e" and "e_state e = 2"
  shows "emit_result n e (recording h) (u, log) =
    (emit h EDGE_TYPE_SR_RESULT (result_payload (nd_session n) e) u,
     log @ [Sent EDGE_TYPE_SR_RESULT (result_payload (nd_session n) e)])"
  using assms by (subst emit_result_eq) (auto simp: entry_wf_def)

lemma store_step:
  assumes wf: "node_wf n" and "nd_active n \<noteq> 0"
    and inp: "inp = FrameIn EDGE_TYPE_SR_COMMAND (Some pl)" and len: "10 \<le> length pl" "length pl \<le> EDGE_PAYLOAD_MAX"
    and "edge_u64_be_read pl 0 = nd_session n" and "find_entry n (pl ! 8) = None"
    and "unat (nd_base n) \<le> unat (pl ! 8)" "unat (pl ! 8) < unat (nd_base n) + EDGE_SR_WINDOW_SIZE"
    and idx: "find_index (\<lambda>e. e_state e = 0) (nd_entries n) = Some i"
  shows "sr_step inp n [Sent EDGE_TYPE_SR_RECEIVED (received_payload (nd_session n) (pl ! 8))]
    (set_entry n i (store_command (nd_entries n ! i) pl now))"
proof -
  have i: "i < 16" "e_state (nd_entries n ! i) = 0"
    using find_index_SomeD [OF idx] node_wfD(1) [OF wf] by auto
  have "length (e_args (nd_entries n ! i)) = EDGE_SR_ARGS_MAX" "length (e_result (nd_entries n ! i)) = EDGE_SR_RESULT_MAX"
    using node_wfD(3) [OF wf i(1)] by (auto simp: entry_wf_def)
  note e = store_command_entry [OF this(1) len, of now] this(2)
  show ?thesis
    using assms i node_wfD(1) [OF wf] e by (intro step_store) (auto simp: command_of_def inp)
qed

lemma on_command_refines:
  assumes h: "hooks_ok h" and wf: "node_wf n" and act: "nd_active n \<noteq> 0"
    and inp: "inp = FrameIn EDGE_TYPE_SR_COMMAND (Some pl)" and len: "10 \<le> length pl" "length pl \<le> EDGE_PAYLOAD_MAX"
    and sess: "edge_u64_be_read pl 0 = nd_session n"
  shows "refines inp n log (on_command (recording h) n pl now (u, log))"
proof -
  have cmd: "command_of inp \<noteq> None" using inp len by (simp add: command_of_def)
  show ?thesis
  proof (cases "find_entry n (pl ! 8)")
    case (Some i)
    let ?e = "nd_entries n ! i"
    have i: "i < 16" using find_entry_SomeD [OF Some] node_wfD(1) [OF wf] by simp
    have rcv: "sr_step inp n [Sent EDGE_TYPE_SR_RECEIVED (received_payload (nd_session n) (pl ! 8))] n"
      using cmd act Some by (intro step_received) auto
    have res: "sr_step inp n [Sent EDGE_TYPE_SR_RESULT (result_payload (nd_session n) ?e)] n" if "e_state ?e = 2"
      using cmd act that i node_wfD(1) [OF wf] by (intro step_replay) auto
    show ?thesis
      using Some refines_refl refines_step [OF rcv]
        refines_steps [OF sr_cons [OF rcv sr_single [OF res]], of log]
      by (auto simp: on_command_def Let_def emit_result_recording [OF node_wfD(3) [OF wf i]])
  next
    case None
    consider "unat (pl ! 8) < unat (nd_base n)" | "unat (nd_base n) + EDGE_SR_WINDOW_SIZE \<le> unat (pl ! 8)"
      | "unat (nd_base n) \<le> unat (pl ! 8)" "find_index (\<lambda>e. e_state e = 0) (nd_entries n) = None"
      | i where "unat (nd_base n) \<le> unat (pl ! 8)" "unat (pl ! 8) < unat (nd_base n) + EDGE_SR_WINDOW_SIZE"
          "find_index (\<lambda>e. e_state e = 0) (nd_entries n) = Some i"
      by (metis linorder_not_less not_None_eq)
    then show ?thesis
    proof cases
      case 1
      with cmd act None refines_step [OF step_received, of inp n "pl ! 8" log] show ?thesis
        by (simp add: on_command_def Let_def)
    next
      case (4 i)
      let ?e = "store_command (nd_entries n ! i) pl now"
      let ?n = "set_entry n i ?e"
      let ?evs = "[Sent EDGE_TYPE_SR_RECEIVED (received_payload (nd_session n) (pl ! 8))]"
      have step: "sr_step inp n ?evs ?n" by (rule store_step [OF wf act inp len sess None 4])
      have "refines inp ?n (log @ ?evs) (deliver (recording h) ?n (v, log @ ?evs))" for v
        using sr_step_wf [OF step wf] by (rule deliver_refines [OF h cmd])
      moreover have "on_command (recording h) n pl now (u, log) = deliver (recording h) ?n
          (emit h EDGE_TYPE_SR_RECEIVED (received_payload (nd_session n) (pl ! 8)) u, log @ ?evs)"
        using None 4 by (simp add: on_command_def Let_def set_entry_def)
      ultimately show ?thesis using refines_trans [OF sr_single [OF step]] by metis
    qed (use None refines_refl in \<open>auto simp: on_command_def Let_def split: option.split\<close>)
  qed
qed

lemma on_open_refines:
  assumes "inp = FrameIn EDGE_TYPE_SR_OPEN (Some pl)" and "length pl = 8" and "s = edge_u64_be_read pl 0"
  shows "refines inp n log (on_open (recording h) n s (u, log))"
proof (cases "nd_session n < s")
  case True
  from refines_step [OF step_open [OF True assms], of log] True show ?thesis
    by (simp add: on_open_def Let_def open_ack_bytes)
next
  case False
  then have "s \<le> nd_session n" by simp
  from refines_step [OF step_reopen [OF this assms(1,3) refl], of log] False show ?thesis
    by (cases "s = nd_session n \<and> nd_active n \<noteq> 0") (auto simp: on_open_def Let_def open_ack_bytes)
qed

lemma on_frame_refines:
  assumes "hooks_ok h" and "node_wf n"
  shows "refines (FrameIn type payload) n log (edge_sr_node_on_frame n type payload (recording h) (u, log))"
proof -
  let ?inp = "FrameIn type payload" and ?n = "expire n (fst (now_ms h u))"
  have wf: "node_wf ?n" using assms(2) by (rule expire_wf)
  have "refines ?inp ?n log (edge_sr_node_on_frame n type payload (recording h) (u, log))"
  proof (cases payload)
    case None
    then show ?thesis by (simp add: edge_sr_node_on_frame_def refines_refl)
  next
    case (Some pl)
    let ?ack = "case find_entry ?n (pl ! 8) of None \<Rightarrow> (?n, snd (now_ms h u), log)
      | Some i \<Rightarrow> if length pl = 9 \<and> e_state (nd_entries ?n ! i) = 2
                  then (set_entry ?n i ((nd_entries ?n ! i)\<lparr>e_state := 0\<rparr>), snd (now_ms h u), log)
                  else (?n, snd (now_ms h u), log)"
    have ack: "refines ?inp ?n log ?ack"
      using refines_step [OF step_free, of _ ?n ?inp log "snd (now_ms h u)"]
      by (auto split: option.split dest!: find_entry_SomeD intro: refines_refl)
    show ?thesis
      unfolding edge_sr_node_on_frame_def Some option.case recording_simps Let_def prod.case
        set_entry_def [symmetric]
      using ack Some
      by (auto intro: refines_refl on_open_refines on_command_refines [OF assms(1) wf])
  qed
  then show ?thesis by (rule refines_silent [OF expire_steps [OF assms(2)]])
qed

lemma tick_entry_refines:
  assumes "node_wf n" and "nd_active n \<noteq> 0" and "i < 16"
  shows "refines Tick n log (tick_entry (recording h) now (n, u, log) i)"
    and "node_wf (fst (tick_entry (recording h) now (n, u, log) i))"
    and "nd_active (fst (tick_entry (recording h) now (n, u, log) i)) \<noteq> 0"
proof -
  let ?e = "nd_entries n ! i" and ?r = "tick_entry (recording h) now (n, u, log) i"
  let ?fires = "e_state ?e = 2 \<and> unat (retries ?e) < EDGE_MAX_RETRY \<and> EDGE_ACK_TIMEOUT_MS \<le> now - last_sent_at ?e"
  let ?e' = "?e\<lparr>retries := retries ?e + 1, last_sent_at := now\<rparr>"
  let ?p = "result_payload (nd_session n) ?e"
  have wf: "entry_wf (unat (nd_base n)) ?e" using node_wfD(3) assms by blast
  have "refines Tick n log ?r \<and> node_wf (fst ?r) \<and> nd_active (fst ?r) \<noteq> 0"
  proof (cases ?fires)
    case False
    then have "?r = (n, u, log)" by (auto simp: tick_entry_def Let_def)
    with assms show ?thesis by (simp add: refines_refl)
  next
    case True
    then have e': "entry_wf (unat (nd_base n)) ?e'" using wf by (simp add: entry_wf_def unat_Suc_u8)
    have "result_payload (nd_session n) ?e' = ?p" by (simp add: result_payload_def)
    then have r: "?r = (set_entry n i ?e', emit h EDGE_TYPE_SR_RESULT ?p u, log @ [Sent EDGE_TYPE_SR_RESULT ?p])"
      using True by (simp add: tick_entry_def Let_def set_entry_def emit_result_recording [OF e'])
    have step: "sr_step Tick n [Sent EDGE_TYPE_SR_RESULT ?p] (set_entry n i ?e')"
      using True assms node_wfD(1) [OF assms(1)] by (intro step_resend) auto
    from refines_step [OF step] sr_step_wf [OF step assms(1)] assms(2) r show ?thesis by simp
  qed
  then show "refines Tick n log ?r" "node_wf (fst ?r)" "nd_active (fst ?r) \<noteq> 0" by blast+
qed

lemma tick_loop_refines:
  "node_wf n \<Longrightarrow> nd_active n \<noteq> 0 \<Longrightarrow> set is \<subseteq> {..<16} \<Longrightarrow>
   refines Tick n log (foldl (tick_entry (recording h) now) (n, u, log) is)"
proof (induction "is" arbitrary: n u log)
  case (Cons i "is")
  then have "i < 16" by simp
  note step = tick_entry_refines [OF Cons.prems(1,2) this, where log = log and h = h and now = now and u = u]
  obtain n' u' log' where r: "tick_entry (recording h) now (n, u, log) i = (n', u', log')"
    by (metis prod_cases3)
  from step(1) obtain evs where evs: "log' = log @ evs" "sr_steps Tick n evs n'"
    by (auto simp: r refines_def)
  have "refines Tick n' log' (foldl (tick_entry (recording h) now) (n', u', log') is)"
    using step(2,3) Cons.prems(3) by (intro Cons.IH) (auto simp: r)
  with evs show ?case by (simp add: r refines_trans)
qed (simp add: refines_refl)

lemma tick_refines:
  assumes "node_wf n"
  shows "refines Tick n log (edge_sr_node_tick n (recording h) (u, log))"
proof -
  let ?n = "expire n (fst (now_ms h u))"
  have "refines Tick ?n log (edge_sr_node_tick n (recording h) (u, log))"
    by (auto simp: edge_sr_node_tick_def Let_def refines_refl
        intro!: tick_loop_refines expire_wf [OF assms])
  then show ?thesis by (rule refines_silent [OF expire_steps [OF assms]])
qed

lemma sr_input_step_refines:
  assumes "hooks_ok h" and "node_wf n"
  obtains n' u' evs where "sr_input_step (recording h) n (u, log) inp = (n', u', log @ evs)"
    "sr_steps inp n evs n'" "node_wf n'"
proof -
  have "refines inp n log (sr_input_step (recording h) n (u, log) inp)"
    using on_frame_refines [OF assms] tick_refines [OF assms(2)]
    by (cases inp) (auto simp: sr_input_step_def)
  then obtain n' u' evs where r: "sr_input_step (recording h) n (u, log) inp = (n', u', log @ evs)"
    "sr_steps inp n evs n'"
    by (auto simp: refines_def split: prod.splits)
  then show ?thesis using that sr_steps_wf [OF _ assms(2)] by blast
qed

lemma node_wf_init:
  assumes "length (nd_entries n) = EDGE_SR_RESULT_CAPACITY"
    and "\<forall>e\<in>set (nd_entries n). length (e_args e) = EDGE_SR_ARGS_MAX \<and> length (e_result e) = EDGE_SR_RESULT_MAX"
  shows "node_wf (edge_sr_node_init n)"
  using assms by (auto simp: node_wf_def edge_sr_node_init_def clear_entries_def entry_wf_def)

end
