(* ===== verification/Edge_Sr_History.thy ===== *)
theory Edge_Sr_History
  imports Edge_Sr
begin

text \<open>
  Whole runs of the node's receiver: what the context has seen after any sequence of frames and
  ticks. The history invariant ties the log to the node's state; it is proved once per step of
  the specification and carried to runs of the code by the refinement lemmas of the previous theory.
\<close>

subsection \<open>The history invariant\<close>

definition executed_seqs :: "u64 \<Rightarrow> (u64 \<times> sr_event) list \<Rightarrow> u8 list" where
  "executed_seqs s H =
     concat (map (\<lambda>(s', ev). case ev of Executed q c a \<Rightarrow> if s' = s then [q] else [] | Sent t p \<Rightarrow> []) H)"

text \<open>The commands that have arrived: session, sequence number, command and arguments.\<close>

definition asked :: "sr_input list \<Rightarrow> (u64 \<times> u8 \<times> u8 \<times> u8 list) set" where
  "asked I = {c. \<exists>inp\<in>set I. command_of inp = Some c}"

definition order_ok :: "(u64 \<times> sr_event) list \<Rightarrow> edge_sr_node_t \<Rightarrow> bool" where
  "order_ok H n \<longleftrightarrow> executed_seqs (nd_session n) H = map of_nat [0..<unat (nd_base n)] \<and>
     (\<forall>s>nd_session n. executed_seqs s H = []) \<and>
     (\<forall>s<nd_session n. \<exists>k\<le>256. executed_seqs s H = map of_nat [0..<k])"

definition content_ok :: "sr_input list \<Rightarrow> (u64 \<times> sr_event) list \<Rightarrow> edge_sr_node_t \<Rightarrow> bool" where
  "content_ok I H n \<longleftrightarrow>
     (\<forall>s q c a. (s, Executed q c a) \<in> set H \<longrightarrow> (s, q, c, a) \<in> asked I) \<and>
     (\<forall>e\<in>set (nd_entries n). e_state e \<noteq> 0 \<longrightarrow>
        (nd_session n, e_seq e, e_command e, entry_args e) \<in> asked I)"

definition results_ok :: "(u64 \<times> sr_event) list \<Rightarrow> edge_sr_node_t \<Rightarrow> bool" where
  "results_ok H n \<longleftrightarrow>
     (\<forall>s p. (s, Sent EDGE_TYPE_SR_RESULT p) \<in> set H \<longrightarrow>
        edge_u64_be_read p 0 = s \<and> (\<exists>a. (s, Executed (p ! 8) (p ! 9) a) \<in> set H)) \<and>
     (\<forall>s p p'. (s, Sent EDGE_TYPE_SR_RESULT p) \<in> set H \<longrightarrow> (s, Sent EDGE_TYPE_SR_RESULT p') \<in> set H \<longrightarrow>
        p ! 8 = p' ! 8 \<longrightarrow> p = p') \<and>
     (\<forall>e\<in>set (nd_entries n). e_state e = 2 \<longrightarrow>
        (nd_session n, Sent EDGE_TYPE_SR_RESULT (result_payload (nd_session n) e)) \<in> set H)"

definition hist_ok :: "sr_input list \<Rightarrow> (u64 \<times> sr_event) list \<Rightarrow> edge_sr_node_t \<Rightarrow> bool" where
  "hist_ok I H n \<longleftrightarrow> order_ok H n \<and> content_ok I H n \<and> results_ok H n"

lemmas hist_defs = hist_ok_def order_ok_def content_ok_def results_ok_def

lemma executed_seqs_append [simp]:
  "executed_seqs s (H @ H') = executed_seqs s H @ executed_seqs s H'"
  by (simp add: executed_seqs_def)

lemma executed_seqs_simps [simp]:
  "executed_seqs s [] = []"
  "executed_seqs s ((s', Sent t p) # H) = executed_seqs s H"
  "executed_seqs s ((s', Executed q c a) # H) = (if s' = s then [q] else []) @ executed_seqs s H"
  by (simp_all add: executed_seqs_def)

lemma executed_in_seqs: "(s, Executed q c a) \<in> set H \<Longrightarrow> q \<in> set (executed_seqs s H)"
  by (force simp: executed_seqs_def)

lemma result_payload_seq [simp]: "result_payload s e ! 8 = e_seq e"
  by (simp add: result_payload_def nth_append)

lemma result_payload_command [simp]: "result_payload s e ! 9 = e_command e"
  by (simp add: result_payload_def nth_append)

lemma result_payload_session [simp]: "edge_u64_be_read (result_payload s e) 0 = s"
  using edge_u64_be_read_bytes [of "[]" s] by (simp add: result_payload_def)

lemma result_payload_update [simp]:
  "result_payload s (e\<lparr>e_state := st\<rparr>) = result_payload s e"
  "result_payload s (e\<lparr>retries := r, last_sent_at := t\<rparr>) = result_payload s e"
  by (simp_all add: result_payload_def)

lemma entry_args_update [simp]:
  "entry_args (e\<lparr>e_state := st\<rparr>) = entry_args e"
  "entry_args (e\<lparr>retries := r, last_sent_at := t\<rparr>) = entry_args e"
  by (simp_all add: entry_args_def)

text \<open>Frames other than results leave the invariant alone.\<close>

lemma hist_ok_frame:
  assumes "\<forall>ev\<in>set evs. \<exists>t p. ev = Sent t p \<and> t \<noteq> EDGE_TYPE_SR_RESULT"
  shows "hist_ok I (H @ map (Pair s) evs) n \<longleftrightarrow> hist_ok I H n"
proof -
  have "executed_seqs s' (map (Pair s) evs) = []" for s'
    using assms by (induction evs) auto
  moreover have "(s', Executed q c a) \<notin> set (map (Pair s) evs)"
    and "(s', Sent EDGE_TYPE_SR_RESULT p) \<notin> set (map (Pair s) evs)" for s' q c a p
    using assms by auto
  ultimately show ?thesis by (simp only: hist_defs executed_seqs_append set_append Un_iff append_Nil2) simp
qed

lemma hist_ok_frame1 [simp]:
  "t \<noteq> EDGE_TYPE_SR_RESULT \<Longrightarrow> hist_ok I (H @ [(s, Sent t p)]) n \<longleftrightarrow> hist_ok I H n"
  using hist_ok_frame [of "[Sent t p]" I H s n] by simp

lemma hist_ok_free:
  assumes "hist_ok I H n" and "i < length (nd_entries n)"
  shows "hist_ok I H (set_entry n i ((nd_entries n ! i)\<lparr>e_state := 0\<rparr>))"
  using assms unfolding hist_defs by (auto elim!: set_list_updateE)

lemma hist_ok_close: "hist_ok I H n \<Longrightarrow> hist_ok I H (clear_entries (n\<lparr>nd_active := 0\<rparr>))"
  unfolding hist_defs by (auto simp: clear_entries_def)

lemma hist_ok_open:
  assumes "hist_ok I H n" and "nd_session n < s" and "unat (nd_base n) \<le> 256"
  shows "hist_ok I H ((clear_entries n)\<lparr>nd_session := s, nd_base := 0, nd_active := 1\<rparr>)"
proof -
  have "\<exists>k\<le>256. executed_seqs s' H = map of_nat [0..<k]" if "s' < s" for s'
    using assms unfolding hist_defs
    by (metis le0 linorder_neqE list.simps(8) upt_0)
  with assms show ?thesis
    unfolding hist_defs by (auto simp: clear_entries_def)
qed

lemma hist_ok_store:
  assumes "hist_ok I H n" and "(nd_session n, e_seq e, e_command e, entry_args e) \<in> asked I" and "e_state e = 1"
  shows "hist_ok I H (set_entry n i e)"
  using assms unfolding hist_defs by (auto elim!: set_list_updateE)

lemma hist_ok_touch:
  assumes "hist_ok I H n" and "i < length (nd_entries n)"
  shows "hist_ok I H (set_entry n i ((nd_entries n ! i)\<lparr>retries := r, last_sent_at := t\<rparr>))"
  using assms unfolding hist_defs by (auto elim!: set_list_updateE)

lemma hist_ok_replay:
  assumes "hist_ok I H n" and "e \<in> set (nd_entries n)" and "e_state e = 2"
  shows "hist_ok I (H @ [(nd_session n, Sent EDGE_TYPE_SR_RESULT (result_payload (nd_session n) e))]) n"
proof -
  let ?x = "(nd_session n, Sent EDGE_TYPE_SR_RESULT (result_payload (nd_session n) e))"
  have "?x \<in> set H" using assms by (auto simp: hist_defs)
  then have "set (H @ [?x]) = set H" by auto
  moreover have "executed_seqs s (H @ [?x]) = executed_seqs s H" for s by simp
  ultimately show ?thesis using assms(1) unfolding hist_defs by presburger
qed
lemma hist_ok_exec:
  assumes ok: "hist_ok I H n" and wf: "node_wf n" and b: "unat (nd_base n) < 256"
    and i: "i < length (nd_entries n)" "e = nd_entries n ! i" "e_state e = 1" "e_seq e = ucast (nd_base n)"
    and e': "e_seq e' = e_seq e" "e_command e' = e_command e" "entry_args e' = entry_args e"
  shows "hist_ok I
    (H @ [(nd_session n, Executed (e_seq e) (e_command e) (entry_args e)),
          (nd_session n, Sent EDGE_TYPE_SR_RESULT (result_payload (nd_session n) e'))])
    ((set_entry n i e')\<lparr>nd_base := nd_base n + 1\<rparr>)" (is "hist_ok I ?H ?n")
proof -
  let ?s = "nd_session n" and ?b = "unat (nd_base n)"
  have seq: "e_seq e = of_nat ?b"
    using i(4) unat_ucast_base [OF b] by (metis u8_of_nat_unat)
  have b': "unat (nd_base n + 1) = Suc ?b" using b by (simp add: unat_Suc_u16)
  have old: "e_seq e \<notin> set (executed_seqs ?s H)"
  proof
    assume "e_seq e \<in> set (executed_seqs ?s H)"
    then obtain k where "k < ?b" "(of_nat k :: u8) = of_nat ?b"
      using ok seq by (auto simp: hist_defs)
    moreover have "unat (of_nat k :: u8) = k" "unat (of_nat ?b :: u8) = ?b"
      using b \<open>k < ?b\<close> by (simp_all only: unat_of_nat_u8)
    ultimately show False by (metis less_irrefl)
  qed
  have "order_ok ?H ?n" using ok seq by (auto simp: hist_defs b')
  moreover have "content_ok I ?H ?n"
  proof -
    have "e \<in> set (nd_entries n)" "e_state e \<noteq> 0" using i by auto
    then have "(?s, e_seq e, e_command e, entry_args e) \<in> asked I"
      using ok unfolding hist_defs by blast
    with ok e' show ?thesis by (auto simp: hist_defs elim!: set_list_updateE)
  qed
  moreover have "results_ok ?H ?n"
  proof -
    have res: "p ! 8 \<noteq> e_seq e" if "(?s, Sent EDGE_TYPE_SR_RESULT p) \<in> set H" for p
      using that ok old executed_in_seqs unfolding hist_ok_def results_ok_def by metis
    have "e_seq d \<noteq> e_seq e" if "d \<in> set (nd_entries n)" "e_state d = 2" for d
      using res ok that by (metis hist_ok_def results_ok_def result_payload_seq)
    with ok e' res show ?thesis
      unfolding hist_defs by (auto elim!: set_list_updateE) metis+
  qed
  ultimately show ?thesis by (simp add: hist_ok_def)
qed

lemma hist_ok_step:
  assumes "sr_step inp n evs n'" and "hist_ok I H n" and "node_wf n" and "inp \<in> set I"
    and "nd_session n' = nd_session n"
  shows "hist_ok I (H @ map (Pair (nd_session n)) evs) n'"
  using assms(1)
proof (cases rule: sr_step.cases)
  case (step_store seq cmd args i e)
  then have "(nd_session n, e_seq e, e_command e, entry_args e) \<in> asked I"
    using assms(4) by (auto simp: asked_def)
  with step_store assms(2) show ?thesis by (subst hist_ok_frame) (auto intro: hist_ok_store)
next
  case (step_exec i e e' r l t)
  then show ?thesis
    using hist_ok_exec [OF assms(2,3), of i e e'] by (simp add: entry_args_def)
next
  case (step_resend i e e' t)
  then show ?thesis
    using hist_ok_replay [OF assms(2), of e] hist_ok_touch [of I _ n i] by auto
next
  case (step_open s pl)
  with assms(5) show ?thesis by simp
qed (use assms(2) in \<open>auto simp: hist_ok_free hist_ok_close hist_ok_replay\<close>)

definition is_ack :: "sr_event \<Rightarrow> bool" where
  "is_ack ev \<longleftrightarrow> (\<exists>p. ev = Sent EDGE_TYPE_SR_OPEN_ACK p)"

lemma sr_step_session:
  assumes "sr_step inp n evs n'"
  shows "nd_session n \<le> nd_session n'"
    and "nd_session n' \<noteq> nd_session n \<Longrightarrow> command_of inp = None \<and> inp \<noteq> Tick"
    and "command_of inp = None \<Longrightarrow> inp \<noteq> Tick \<Longrightarrow> \<forall>ev\<in>set evs. is_ack ev"
  using assms by (cases rule: sr_step.cases; auto simp: is_ack_def command_of_def)+

lemma sr_step_new_session:
  "sr_step inp n evs n' \<Longrightarrow> nd_session n' \<noteq> nd_session n \<Longrightarrow>
   \<exists>s>nd_session n. n' = (clear_entries n)\<lparr>nd_session := s, nd_base := 0, nd_active := 1\<rparr>"
  by (erule sr_step.cases) auto

lemma hist_ok_acks: "\<forall>ev\<in>set evs. is_ack ev \<Longrightarrow> hist_ok I (H @ map (Pair s) evs) n \<longleftrightarrow> hist_ok I H n"
  by (rule hist_ok_frame) (auto simp: is_ack_def)

lemma hist_ok_call:
  assumes "sr_steps inp n evs n'" and "hist_ok I H n" and "node_wf n" and "inp \<in> set I"
  shows "hist_ok I (H @ map (Pair (nd_session n')) evs) n'"
proof -
  let ?open = "command_of inp = None \<and> inp \<noteq> Tick"
  let ?P = "\<lambda>evs m. node_wf m \<and> nd_session n \<le> nd_session m \<and> (?open \<longrightarrow> (\<forall>ev\<in>set evs. is_ack ev)) \<and>
    (if nd_session m = nd_session n then hist_ok I (H @ map (Pair (nd_session n)) evs) m
     else ?open \<and> hist_ok I H m)"
  have "?P evs n'"
  proof (rule sr_invariant [OF assms(1), where P = ?P])
    fix m evs0 evs1 m'
    assume P: "?P evs0 m" and step: "sr_step inp m evs1 m'"
    note sess = sr_step_session [OF step]
    have wf: "node_wf m'" using P step sr_step_wf by blast
    have acks: "?open \<Longrightarrow> \<forall>ev\<in>set (evs0 @ evs1). is_ack ev" using P sess(3) by auto
    consider (same) "nd_session m' = nd_session m" "nd_session m = nd_session n"
      | (later) "nd_session m' \<noteq> nd_session n" "?open" "hist_ok I H m"
      using P sess(1,2) hist_ok_acks [of evs0 I H "nd_session n" m] by (metis order_antisym)
    then show "?P (evs0 @ evs1) m'"
    proof cases
      case same
      then have "hist_ok I ((H @ map (Pair (nd_session n)) evs0) @ map (Pair (nd_session n)) evs1) m'"
        using P hist_ok_step [OF step _ _ assms(4)] by metis
      with wf same acks P show ?thesis by simp
    next
      case later
      have "hist_ok I H m'"
      proof (cases "nd_session m' = nd_session m")
        case True
        then show ?thesis
          using hist_ok_step [OF step later(3) _ assms(4)] P later(2) sess(3) hist_ok_acks by metis
      next
        case False
        then obtain s where "m' = (clear_entries m)\<lparr>nd_session := s, nd_base := 0, nd_active := 1\<rparr>" "nd_session m < s"
          using sr_step_new_session [OF step] by blast
        then show ?thesis using hist_ok_open [OF later(3)] node_wfD(2) P by auto
      qed
      with wf later acks P sess(1) show ?thesis by (auto intro: order_trans)
    qed
  qed (use assms in simp)
  then show ?thesis using hist_ok_acks [of evs] by (metis (full_types))
qed

lemma command_ofD:
  "command_of inp = Some (s, q, c, a) \<Longrightarrow> \<exists>pl. inp = FrameIn EDGE_TYPE_SR_COMMAND (Some pl) \<and>
     length pl \<le> EDGE_PAYLOAD_MAX \<and> edge_u64_be_read pl 0 = s \<and> pl ! 8 = q \<and> pl ! 9 = c \<and> drop 10 pl = a"
  by (auto simp: command_of_def split: sr_input.splits option.splits if_splits)

subsection \<open>Runs\<close>

lemma asked_mono: "set I \<subseteq> set I' \<Longrightarrow> asked I \<subseteq> asked I'"
  by (auto simp: asked_def)

lemma hist_ok_mono: "hist_ok I H n \<Longrightarrow> set I \<subseteq> set I' \<Longrightarrow> hist_ok I' H n"
  using asked_mono unfolding hist_defs by blast

lemma sr_history_ok:
  assumes "hooks_ok h" and "node_wf n" and "hist_ok I H n"
  shows "\<exists>n'. node_wf n' \<and> hist_ok (I @ inps) (H @ sr_history h n u inps) n'"
  using assms(2,3)
proof (induction inps arbitrary: I H n u)
  case Nil
  then show ?case by auto
next
  case (Cons inp inps)
  obtain n' u' evs where r: "sr_input_step (recording h) n (u, []) inp = (n', u', [] @ evs)"
    "sr_steps inp n evs n'" "node_wf n'"
    by (rule sr_input_step_refines [OF assms(1) Cons.prems(1)])
  have "hist_ok (I @ [inp]) (H @ map (Pair (nd_session n')) evs) n'"
    using Cons.prems(1) by (intro hist_ok_call [OF r(2)] hist_ok_mono [OF Cons.prems(2)]) auto
  from Cons.IH [OF r(3) this, of u'] r(1) show ?case by (simp add: Let_def)
qed

definition node_memory_ok :: "edge_sr_node_t \<Rightarrow> bool" where
  "node_memory_ok n \<longleftrightarrow> length (nd_entries n) = EDGE_SR_RESULT_CAPACITY \<and>
     (\<forall>e\<in>set (nd_entries n). length (e_args e) = EDGE_SR_ARGS_MAX \<and> length (e_result e) = EDGE_SR_RESULT_MAX)"

lemma init_node_wf: "node_memory_ok m \<Longrightarrow> node_wf (edge_sr_node_init m)"
  unfolding node_memory_ok_def by (rule node_wf_init) auto

lemma init_history:
  assumes "hooks_ok h" and "node_memory_ok m"
  obtains n' where "node_wf n'" "hist_ok inps (sr_history h (edge_sr_node_init m) u inps) n'"
proof -
  have "hist_ok [] [] (edge_sr_node_init m)"
    by (auto simp: hist_defs edge_sr_node_init_def clear_entries_def)
  from sr_history_ok [OF assms(1) init_node_wf [OF assms(2)] this, of inps u] that
  show ?thesis by auto
qed

text \<open>Recording changes nothing: the log is dropped by \<open>erase\<close>, and the rest is the plain run.\<close>

definition erase :: "'n \<times> 'u \<times> 'l \<Rightarrow> 'n \<times> 'u" where
  "erase r = (fst r, fst (snd r))"

lemma erase_simps [simp]: "erase (n, u, log) = (n, u)"
  by (simp add: erase_def)

lemma recording_emit: "fst (emit (recording h) t p s) = emit h t p (fst s)"
  by (cases s) simp

lemma erase_emit_result: "fst (emit_result n e (recording h) s) = emit_result n e h (fst s)"
  by (simp add: emit_result_def Let_def recording_emit)

lemma erase_emit_received: "fst (emit_received n q (recording h) s) = emit_received n q h (fst s)"
  by (simp add: emit_received_def Let_def recording_emit)

lemma erase_execute_entry: "erase (execute_entry (recording h) n i (u, log)) = execute_entry h n i u"
  by (simp add: execute_entry_def Let_def erase_def erase_emit_result split: prod.split)

lemma erase_deliver: "erase (deliver (recording h) n (u, log)) = deliver h n u"
proof (induction "256 - unat (nd_base n)" arbitrary: n u log rule: less_induct)
  case less
  let ?now = "fst (now_ms h u)" and ?u = "snd (now_ms h u)"
  let ?n = "expire n ?now"
  have step: "erase (deliver (recording h) (fst r) (snd r)) = deliver h (fst (erase r)) (snd (erase r))"
    if "unat (nd_base n) < 256" "r = execute_entry (recording h) ?n i (?u, log)" for i r
  proof -
    have "nd_base (fst r) = nd_base n + 1" using that(2) by simp
    then show ?thesis using less.hyps [of "fst r" "fst (snd r)" "snd (snd r)"] that(1)
      by (simp add: unat_Suc_u16 erase_def)
  qed
  show ?case
    unfolding deliver.simps [of "recording h" n "(u, log)"] deliver.simps [of h n u]
    using step [OF _ refl] by (auto simp: Let_def case_prod_beta erase_execute_entry split: option.split)
qed

lemma erase_on_frame:
  "erase (edge_sr_node_on_frame n type payload (recording h) (u, log)) = edge_sr_node_on_frame n type payload h u"
  by (auto simp: edge_sr_node_on_frame_def on_open_def on_command_def Let_def case_prod_beta recording_emit
      erase_deliver erase_emit_received erase_emit_result erase_def [of "(_, emit _ _ _ _)"]
      erase_def [of "(_, emit_result _ _ _ _)"] erase_def [of "(_, emit_received _ _ _ _)"]
      emit_received_eq split: option.split)

lemma erase_tick_entry:
  "erase (tick_entry (recording h) now (n, u, log) i) = tick_entry h now (n, u) i"
  by (simp add: tick_entry_def Let_def erase_def erase_emit_result)

lemma erase_tick_loop:
  "erase (foldl (tick_entry (recording h) now) (n, u, log) is) = foldl (tick_entry h now) (n, u) is"
proof (induction "is" arbitrary: n u log)
  case (Cons i "is")
  obtain n' u' log' where "tick_entry (recording h) now (n, u, log) i = (n', u', log')"
    by (metis prod_cases3)
  with Cons erase_tick_entry [of h now n u log i] show ?case by simp
qed simp

lemma erase_tick: "erase (edge_sr_node_tick n (recording h) (u, log)) = edge_sr_node_tick n h u"
  by (simp add: edge_sr_node_tick_def Let_def case_prod_beta erase_tick_loop)

lemma erase_input_step: "erase (sr_input_step (recording h) n (u, log) inp) = sr_input_step h n u inp"
  by (cases inp) (simp_all add: sr_input_step_def erase_on_frame erase_tick)

definition sr_run :: "'u edge_sr_hooks_t \<Rightarrow> edge_sr_node_t \<Rightarrow> 'u \<Rightarrow> sr_input list \<Rightarrow> edge_sr_node_t \<times> 'u" where
  "sr_run h n u inps = foldl (\<lambda>(n, u) inp. sr_input_step h n u inp) (n, u) inps"

text \<open>A property of nodes that every call keeps holds along a run.\<close>

lemma sr_run_invariant:
  assumes "\<And>n u inp. P n \<Longrightarrow> P (fst (sr_input_step h n u inp))" and "P n"
  shows "P (fst (sr_run h n u inps))"
  using assms(2) unfolding sr_run_def
proof (induction inps arbitrary: n u)
  case (Cons inp inps)
  then show ?case using assms(1) [OF Cons.prems, of u inp]
    by (cases "sr_input_step h n u inp") simp
qed simp

lemma sr_input_step_plain:
  assumes "hooks_ok h" and "node_wf n"
  obtains evs where "sr_steps inp n evs (fst (sr_input_step h n u inp))" "node_wf (fst (sr_input_step h n u inp))"
proof -
  obtain n' u' evs where r: "sr_input_step (recording h) n (u, []) inp = (n', u', [] @ evs)"
    "sr_steps inp n evs n'" "node_wf n'"
    by (rule sr_input_step_refines [OF assms])
  from r(1) erase_input_step [of h n u "[]" inp] have "fst (sr_input_step h n u inp) = n'" by (metis erase_simps fst_conv)
  with r that show ?thesis by blast
qed

subsection \<open>Nothing executable is left behind\<close>

definition edge_free :: "edge_sr_node_t \<Rightarrow> bool" where
  "edge_free n \<longleftrightarrow> (unat (nd_base n) < 256 \<longrightarrow> find_entry n (ucast (nd_base n)) = None)"

lemma length_expire_loop: "length (nd_entries (expire_loop gap now is n)) = length (nd_entries n)"
  by (induction gap now "is" n rule: expire_loop.induct) (auto simp: Let_def clear_entries_def)

lemma expire_loop_entry:
  "i < length (nd_entries n) \<Longrightarrow>
   nd_entries (expire_loop gap now is n) ! i = nd_entries n ! i \<or>
   nd_entries (expire_loop gap now is n) ! i = (nd_entries n ! i)\<lparr>e_state := 0\<rparr>"
proof (induction gap now "is" n rule: expire_loop.induct)
  case (2 gap now j "is" n)
  then show ?case by (auto simp: Let_def clear_entries_def nth_update_lt)
qed simp

lemma expire_entry:
  assumes "i < length (nd_entries n)"
  shows "nd_entries (expire n now) ! i = nd_entries n ! i \<or>
    nd_entries (expire n now) ! i = (nd_entries n ! i)\<lparr>e_state := 0\<rparr>"
  unfolding expire_def Let_def by (rule expire_loop_entry [OF assms])

lemma length_expire [simp]: "length (nd_entries (expire n now)) = length (nd_entries n)"
  unfolding expire_def Let_def by (rule length_expire_loop)

lemma expire_find_None:
  assumes "find_entry n q = None"
  shows "find_entry (expire n now) q = None"
proof -
  have "e_seq (nd_entries (expire n now) ! i) \<noteq> q"
    if "i < length (nd_entries n)" "e_state (nd_entries (expire n now) ! i) \<noteq> 0" for i
    using that expire_entry [OF that(1), of now] find_entry_NoneD [OF assms that(1)] by auto
  then show ?thesis unfolding find_entry_None_iff all_set_conv_all_nth length_expire by blast
qed

lemma expire_edge_free: "edge_free n \<Longrightarrow> edge_free (expire n now)"
  by (simp add: edge_free_def expire_find_None)

text \<open>With the left edge buffered there is no gap: the session survives and so does the entry.\<close>

lemma expire_loop_no_gap:
  "nd_active (expire_loop False now is n) = nd_active n"
  "i < length (nd_entries n) \<Longrightarrow> e_state (nd_entries n ! i) = 1 \<Longrightarrow>
   nd_entries (expire_loop False now is n) ! i = nd_entries n ! i"
proof (induction "is" arbitrary: n)
  case (Cons j "is")
  {
    case 1
    then show ?case using Cons.IH(1) by (simp add: Let_def)
  next
    case 2
    then show ?case
      using Cons.IH(2) [of n] Cons.IH(2) [of "n\<lparr>nd_entries := (nd_entries n)[j := (nd_entries n ! j)\<lparr>e_state := 0\<rparr>]\<rparr>"]
      by (cases "i = j") (auto simp: Let_def)
  }
qed simp_all

lemma expire_no_gap:
  assumes "find_entry n (ucast (nd_base n)) = Some j"
  shows "nd_active (expire n now) = nd_active n"
    and "i < length (nd_entries n) \<Longrightarrow> e_state (nd_entries n ! i) = 1 \<Longrightarrow>
      nd_entries (expire n now) ! i = nd_entries n ! i"
  using assms by (simp_all add: expire_def expire_loop_no_gap)

lemma deliver_plain_wf:
  assumes "hooks_ok h" and "node_wf n"
  shows "node_wf (fst (deliver h n u))"
proof -
  have "command_of (FrameIn EDGE_TYPE_SR_COMMAND (Some (replicate 10 0))) \<noteq> None"
    by (simp add: command_of_def)
  note ref = deliver_refines [OF assms(1) this assms(2), of "[]" u]
  obtain n' u' log' where r: "deliver (recording h) n (u, []) = (n', u', log')" by (metis prod_cases3)
  then have "fst (deliver h n u) = n'" using erase_deliver [of h n u "[]"] by (metis erase_simps fst_conv)
  moreover have "node_wf n'" using ref sr_steps_wf [OF _ assms(2)] by (auto simp: r refines_def)
  ultimately show ?thesis by simp
qed

lemma execute_entry_plain_wf:
  assumes "hooks_ok h" and "node_wf n" and "nd_active n \<noteq> 0" and "unat (nd_base n) < 256"
    and "i < 16" "e_state (nd_entries n ! i) = 1" "e_seq (nd_entries n ! i) = ucast (nd_base n)"
  shows "node_wf (fst (execute_entry h n i u))"
proof -
  have c: "command_of (FrameIn EDGE_TYPE_SR_COMMAND (Some (replicate 10 0))) \<noteq> None"
    by (simp add: command_of_def)
  obtain n' u' evs where "execute_entry (recording h) n i (u, []) = (n', u', [] @ evs)"
    "sr_step (FrameIn EDGE_TYPE_SR_COMMAND (Some (replicate 10 0))) n evs n'"
    using execute_entry_step [OF assms(1) c assms(2-7)] by blast
  with sr_step_wf [OF _ assms(2)] erase_execute_entry [of h n i u "[]"] show ?thesis
    by (metis erase_simps fst_conv)
qed

lemma deliver_edge_free:
  assumes "hooks_ok h" and "node_wf n"
  shows "edge_free (fst (deliver h n u))"
  using assms(2)
proof (induction "256 - unat (nd_base n)" arbitrary: n u rule: less_induct)
  case less
  let ?n = "expire n (fst (now_ms h u))" and ?u = "snd (now_ms h u)"
  have wf: "node_wf ?n" using less.prems by (rule expire_wf)
  show ?case
  proof (cases "unat (nd_base n) < 256 \<and> nd_active ?n \<noteq> 0 \<and> find_entry ?n (ucast (nd_base n)) \<noteq> None")
    case False
    have "find_entry ?n q = None" if "nd_active ?n = 0" for q
      using node_wfD(1,5) [OF wf] that by (auto simp: find_entry_None_iff in_set_conv_nth)
    with False show ?thesis
      by (subst deliver.simps) (auto simp: edge_free_def Let_def case_prod_beta split: option.split)
  next
    case True
    then obtain i where i: "find_entry ?n (ucast (nd_base n)) = Some i" by auto
    have i16: "i < 16" and seq: "e_seq (nd_entries ?n ! i) = ucast (nd_base ?n)"
      using find_entry_SomeD [OF i] node_wfD(1) [OF wf] by auto
    have "unat (e_seq (nd_entries ?n ! i)) = unat (nd_base n)" using True seq by (simp add: unat_ucast_base)
    then have st: "e_state (nd_entries ?n ! i) = 1"
      using node_wfD(3) [OF wf i16] find_entry_SomeD [OF i] by (auto simp: entry_wf_def)
    let ?x = "execute_entry h ?n i ?u"
    have "node_wf (fst ?x)"
      using execute_entry_plain_wf [OF assms(1) wf _ _ i16 st seq] True by simp
    then have "edge_free (fst (deliver h (fst ?x) (snd ?x)))"
      using True by (intro less.hyps) (auto simp: unat_Suc_u16)
    moreover have "deliver h n u = deliver h (fst ?x) (snd ?x)"
      using True i st by (subst deliver.simps) (simp add: Let_def case_prod_beta)
    ultimately show ?thesis by simp
  qed
qed

lemma find_None_set_entry:
  "find_entry n q = None \<Longrightarrow> e_state e = 0 \<or> e_seq e \<noteq> q \<Longrightarrow> find_entry (set_entry n i e) q = None"
  by (auto simp: find_entry_None_iff elim!: set_list_updateE)

lemma edge_free_open:
  "edge_free ((clear_entries n)\<lparr>nd_session := s, nd_base := 0, nd_active := 1\<rparr>)"
  by (auto simp: edge_free_def find_entry_None_iff clear_entries_def)

lemma on_open_edge_free: "edge_free n \<Longrightarrow> edge_free (fst (on_open h n s u))"
  by (simp add: on_open_def Let_def edge_free_open)

lemma on_command_edge_free:
  assumes "hooks_ok h" and "node_wf n" and "edge_free n" and "nd_active n \<noteq> 0"
    and "10 \<le> length pl" "length pl \<le> EDGE_PAYLOAD_MAX" and "edge_u64_be_read pl 0 = nd_session n"
  shows "edge_free (fst (on_command h n pl now u))"
proof -
  have "node_wf (set_entry n i (store_command (nd_entries n ! i) pl now))"
    if "find_entry n (pl ! 8) = None" "unat (nd_base n) \<le> unat (pl ! 8)"
      "unat (pl ! 8) < unat (nd_base n) + EDGE_SR_WINDOW_SIZE"
      "find_index (\<lambda>e. e_state e = 0) (nd_entries n) = Some i" for i
    using sr_step_wf [OF store_step [OF assms(2,4) refl assms(5-7) that] assms(2)] .
  then show ?thesis
    using assms(3) by (auto simp: on_command_def Let_def set_entry_def [symmetric] deliver_edge_free [OF assms(1)]
        split: option.split)
qed

lemma on_frame_edge_free:
  assumes "hooks_ok h" and "node_wf n" and "edge_free n"
  shows "edge_free (fst (edge_sr_node_on_frame n type payload h u))"
proof -
  let ?n = "expire n (fst (now_ms h u))"
  have wf: "node_wf ?n" and free: "edge_free ?n"
    using assms by (auto intro: expire_wf expire_edge_free)
  have "edge_free (set_entry ?n i ((nd_entries ?n ! i)\<lparr>e_state := 0\<rparr>))" for i
    using free by (auto simp: edge_free_def find_None_set_entry)
  then show ?thesis
    using free by (auto simp: edge_sr_node_on_frame_def Let_def case_prod_beta set_entry_def [symmetric]
        on_open_edge_free on_command_edge_free [OF assms(1) wf free] split: option.split)
qed

lemma tick_loop_edge_free:
  "edge_free n \<Longrightarrow> set is \<subseteq> {..<length (nd_entries n)} \<Longrightarrow> edge_free (fst (foldl (tick_entry h now) (n, u) is))"
proof (induction "is" arbitrary: n u)
  case (Cons i "is")
  let ?e = "nd_entries n ! i"
  have e: "?e \<in> set (nd_entries n)" using Cons.prems(2) by simp
  have "edge_free (set_entry n i (?e\<lparr>retries := r, last_sent_at := now\<rparr>))" for r
    using Cons.prems(1) e unfolding edge_free_def set_entry_simps
    by (auto simp: find_entry_None_iff elim!: set_list_updateE)
  with Cons show ?case
    by (auto simp: tick_entry_def Let_def set_entry_def [symmetric])
qed simp

lemma tick_edge_free:
  assumes "node_wf n" and "edge_free n"
  shows "edge_free (fst (edge_sr_node_tick n h u))"
  using assms node_wfD(1) [OF assms(1)]
  by (auto simp: edge_sr_node_tick_def Let_def case_prod_beta expire_edge_free intro!: tick_loop_edge_free)

lemma sr_input_step_keeps:
  assumes "hooks_ok h"
  shows "node_wf n \<and> edge_free n \<Longrightarrow>
    node_wf (fst (sr_input_step h n u inp)) \<and> edge_free (fst (sr_input_step h n u inp))"
proof
  assume n: "node_wf n \<and> edge_free n"
  then show "node_wf (fst (sr_input_step h n u inp))"
    using sr_input_step_plain [OF assms] by metis
  from n show "edge_free (fst (sr_input_step h n u inp))"
    by (cases inp) (auto simp: sr_input_step_def on_frame_edge_free [OF assms] tick_edge_free)
qed

subsection \<open>Closed sessions\<close>

lemma sr_steps_inactive:
  assumes "sr_steps inp n evs n'" and "node_wf n" and "nd_active n = 0"
  shows "nd_session n \<le> nd_session n' \<and> node_wf n' \<and> (nd_session n' = nd_session n \<longrightarrow> nd_active n' = 0) \<and>
    (\<forall>q c a. Executed q c a \<in> set evs \<longrightarrow> nd_session n < nd_session n')"
proof -
  let ?P = "\<lambda>evs m. node_wf m \<and> nd_session n \<le> nd_session m \<and>
    (nd_session m = nd_session n \<longrightarrow> nd_active m = 0) \<and>
    (\<forall>q c a. Executed q c a \<in> set evs \<longrightarrow> nd_session n < nd_session m)"
  have "?P evs n'"
  proof (rule sr_invariant [OF assms(1), where P = ?P])
    fix m evs0 evs1 m'
    assume P: "?P evs0 m" and step: "sr_step inp m evs1 m'"
    have wf: "node_wf m'" using P step sr_step_wf by blast
    have "nd_session m \<le> nd_session m'" by (rule sr_step_session(1) [OF step])
    moreover have "nd_active m' = 0 \<and> (\<forall>q c a. Executed q c a \<notin> set evs1)"
      if "nd_active m = 0" "nd_session m' = nd_session m"
      using step that by (cases rule: sr_step.cases) auto
    ultimately show "?P (evs0 @ evs1) m'"
      using P wf by (auto; metis order_antisym order_trans le_less)
  qed (use assms in auto)
  then show ?thesis by blast
qed

lemma sr_history_inactive:
  assumes "hooks_ok h"
  shows "node_wf n \<Longrightarrow> nd_session n = s0 \<and> nd_active n = 0 \<or> s0 < nd_session n \<Longrightarrow>
    (s, Executed q c a) \<in> set (sr_history h n u inps) \<Longrightarrow> s0 < s"
proof (induction inps arbitrary: n u)
  case (Cons inp inps)
  obtain n' u' evs where r: "sr_input_step (recording h) n (u, []) inp = (n', u', [] @ evs)"
    "sr_steps inp n evs n'" "node_wf n'"
    by (rule sr_input_step_refines [OF assms Cons.prems(1)])
  have mono: "nd_session n \<le> nd_session n'"
    using sr_invariant [OF r(2), of "\<lambda>evs m. nd_session n \<le> nd_session m"] sr_step_session(1)
    by (meson order_refl order_trans)
  have after: "nd_session n' = s0 \<and> nd_active n' = 0 \<or> s0 < nd_session n'"
    and now: "Executed q c a \<in> set evs \<Longrightarrow> s0 < nd_session n'"
    using Cons.prems(1,2) sr_steps_inactive [OF r(2)] mono by (auto simp: order.order_iff_strict)
  from Cons.prems(3) r(1) consider "(s, Executed q c a) \<in> set (map (Pair (nd_session n')) evs)"
    | "(s, Executed q c a) \<in> set (sr_history h n' u' inps)"
    by (auto simp: Let_def)
  then show ?case using Cons.IH [OF r(3) after] now by cases auto
qed simp

subsection \<open>Properties\<close>

text \<open>Hooks of a node with a constant clock that answers every command with OK, over any context.\<close>

definition plain_hooks :: "unit edge_sr_hooks_t" where
  "plain_hooks = \<lparr>now_ms = (\<lambda>u. (0, u)), execute = (\<lambda>q c a buf u. (1, buf[0 := EDGE_RC_OK], u)),
     emit = (\<lambda>t p u. u)\<rparr>"

definition blank_entry :: edge_sr_entry_t where
  "blank_entry = \<lparr>received_at = 0, completed_at = 0, last_sent_at = 0, e_state = 0, e_seq = 0, e_command = 0,
     args_len = 0, result_len = 0, retries = 0, e_args = replicate EDGE_SR_ARGS_MAX 0,
     e_result = replicate EDGE_SR_RESULT_MAX 0\<rparr>"

definition blank_node :: edge_sr_node_t where
  "blank_node = \<lparr>nd_session = 0, nd_base = 0, nd_active = 0,
     nd_entries = replicate EDGE_SR_RESULT_CAPACITY blank_entry\<rparr>"

lemma plain_hooks_ok: "hooks_ok plain_hooks"
  by (simp add: hooks_ok_def plain_hooks_def)

lemma blank_node_ok: "node_memory_ok blank_node"
  by (simp add: node_memory_ok_def blank_node_def blank_entry_def)

definition demo_inputs :: "sr_input list" where
  "demo_inputs = [FrameIn EDGE_TYPE_SR_OPEN (Some [0, 0, 0, 0, 0, 0, 0, 1]),
     FrameIn EDGE_TYPE_SR_COMMAND (Some [0, 0, 0, 0, 0, 0, 0, 1, 0, 0x20])]"

lemma demo_history:
  "sr_history plain_hooks (edge_sr_node_init blank_node) () demo_inputs =
    [(1, Sent 9 [0, 0, 0, 0, 0, 0, 0, 1, 0, 0, 0, 0, 0, 0, 0, 1, 0]),
     (1, Sent 7 [0, 0, 0, 0, 0, 0, 0, 1, 0]),
     (1, Executed 0 0x20 []),
     (1, Sent 8 [0, 0, 0, 0, 0, 0, 0, 1, 0, 0x20, 0])]"
  by code_simp

text \<open>
  C3. Exactly-once, in-order execution on the node: after any sequence of frames (lost, repeated,
  reordered, corrupted or forged) and ticks, the commands the node has executed in a session are
  the sequence numbers 0, 1, 2, ... up to some bound of at most 256, each once and in this order.
\<close>

theorem node_executes_in_order_once:
  assumes "hooks_ok h" and "node_memory_ok m"
  shows "\<exists>k\<le>256. executed_seqs s (sr_history h (edge_sr_node_init m) u inps) = map of_nat [0..<k]"
proof -
  let ?H = "sr_history h (edge_sr_node_init m) u inps"
  obtain n where n: "node_wf n" "hist_ok inps ?H n"
    using init_history [OF assms] by blast
  consider "s = nd_session n" | "s < nd_session n" | "nd_session n < s" by (metis linorder_neqE)
  then show ?thesis
  proof cases
    case 1
    with n node_wfD(2) show ?thesis by (auto simp: hist_defs)
  next
    case 3
    with n have "executed_seqs s ?H = map of_nat [0..<0]" by (auto simp: hist_defs)
    then show ?thesis by blast
  qed (use n in \<open>auto simp: hist_defs\<close>)
qed

theorem node_executes_in_order_once_witness:
  "\<exists>k\<le>256. executed_seqs 1 (sr_history plain_hooks (edge_sr_node_init blank_node) () demo_inputs) =
     map of_nat [0..<k]"
  by (rule node_executes_in_order_once [OF plain_hooks_ok blank_node_ok])

text \<open>
  Integrity of what is executed: every execution is of a command that has arrived in a
  well-formed SR_COMMAND frame of the same session with exactly this sequence number, command
  and arguments.
\<close>

theorem node_executes_only_what_arrived:
  assumes "hooks_ok h" and "node_memory_ok m"
    and "(s, Executed q c a) \<in> set (sr_history h (edge_sr_node_init m) u inps)"
  shows "\<exists>pl. FrameIn EDGE_TYPE_SR_COMMAND (Some pl) \<in> set inps \<and> length pl \<le> EDGE_PAYLOAD_MAX \<and>
    edge_u64_be_read pl 0 = s \<and> pl ! 8 = q \<and> pl ! 9 = c \<and> drop 10 pl = a"
proof -
  obtain n where "node_wf n" "hist_ok inps (sr_history h (edge_sr_node_init m) u inps) n"
    using init_history [OF assms(1,2)] by blast
  with assms(3) obtain inp where "inp \<in> set inps" "command_of inp = Some (s, q, c, a)"
    unfolding hist_ok_def content_ok_def asked_def by blast
  then show ?thesis by (fastforce dest: command_ofD)
qed

theorem node_executes_only_what_arrived_witness:
  "\<exists>pl. FrameIn EDGE_TYPE_SR_COMMAND (Some pl) \<in> set demo_inputs \<and> pl ! 9 = 0x20 \<and> drop 10 pl = []"
  using node_executes_only_what_arrived [OF plain_hooks_ok blank_node_ok, of 1 0 "0x20" "[]" "()" demo_inputs]
  by (auto simp: demo_history)

text \<open>
  Results are honest and stable: every SR_RESULT frame the node transmits is for a command it
  has executed in that session, and however often the result of one command is transmitted (at
  completion, on a tick or in answer to a repeated command) the bytes are the same.
\<close>

theorem node_results_stable:
  fixes u :: 'u and inps :: "sr_input list"
  assumes "hooks_ok h" and "node_memory_ok m"
  defines "H \<equiv> sr_history h (edge_sr_node_init m) u inps"
  assumes "(s, Sent EDGE_TYPE_SR_RESULT p) \<in> set H"
  shows "p ! 8 \<in> set (executed_seqs s H) \<and>
    (\<forall>p'. (s, Sent EDGE_TYPE_SR_RESULT p') \<in> set H \<and> p' ! 8 = p ! 8 \<longrightarrow> p' = p)"
proof -
  obtain n where "hist_ok inps H n"
    using init_history [OF assms(1,2), of inps u] unfolding H_def by blast
  with assms(4) show ?thesis using executed_in_seqs unfolding hist_ok_def results_ok_def by blast
qed

theorem node_results_stable_witness:
  "0 \<in> set (executed_seqs 1 (sr_history plain_hooks (edge_sr_node_init blank_node) () demo_inputs))"
  using node_results_stable [OF plain_hooks_ok blank_node_ok, of 1 "[0, 0, 0, 0, 0, 0, 0, 1, 0, 0x20, 0]" "()" demo_inputs]
  by (simp add: demo_history)

text \<open>
  C7. The receiver's invariant: whatever arrives, the node's arrays keep their sizes, at most one
  entry is held per sequence number, buffered commands lie in the window of eight at the left
  edge, stored results lie to the left of it and have been resent at most three times, a closed
  session holds nothing, and the command at the left edge is never left waiting in the buffer:
  whatever could be executed has been executed.
\<close>

theorem node_invariant:
  fixes u :: 'u and inps :: "sr_input list"
  assumes "hooks_ok h" and "node_memory_ok m"
  defines "n \<equiv> fst (sr_run h (edge_sr_node_init m) u inps)"
  shows "node_wf n \<and> (unat (nd_base n) < 256 \<longrightarrow> find_entry n (ucast (nd_base n)) = None)"
proof -
  have "edge_free (edge_sr_node_init m)"
    by (auto simp: edge_free_def edge_sr_node_init_def clear_entries_def find_entry_None_iff)
  then have "node_wf n \<and> edge_free n"
    unfolding n_def using init_node_wf [OF assms(2)] sr_input_step_keeps [OF assms(1)]
    by (intro sr_run_invariant [where P = "\<lambda>n. node_wf n \<and> edge_free n"]) auto
  then show ?thesis by (simp add: edge_free_def)
qed

theorem node_invariant_witness:
  "node_wf (fst (sr_run plain_hooks (edge_sr_node_init blank_node) () demo_inputs))"
  using node_invariant [OF plain_hooks_ok blank_node_ok] by blast

text \<open>
  A closed session stays closed: once a session has been closed (an expired gap), no frame
  makes the node execute another command of it or of an older one; only a strictly newer session
  executes again.
\<close>

theorem closed_session_is_final:
  assumes "hooks_ok h" and "node_wf n" and "nd_active n = 0"
    and "(s, Executed q c a) \<in> set (sr_history h n u inps)"
  shows "nd_session n < s"
  using sr_history_inactive [OF assms(1,2) _ assms(4)] assms(3) by blast

theorem closed_session_is_final_witness:
  "nd_session (edge_sr_node_init blank_node) < 1"
  using closed_session_is_final [OF plain_hooks_ok init_node_wf [OF blank_node_ok], of 1 0 "0x20" "[]" "()" demo_inputs]
  by (simp add: demo_history edge_sr_node_init_def)

lemma expire_session [simp]: "nd_session (expire n now) = nd_session n"
proof -
  have "nd_session (expire_loop gap now is n) = nd_session n" for gap "is"
    by (induction gap now "is" n rule: expire_loop.induct) (auto simp: Let_def)
  then show ?thesis by (simp add: expire_def)
qed

lemma log_prefix: "refines inp n log (n', u', log') \<Longrightarrow> \<exists>evs. log' = log @ evs"
  by (auto simp: refines_def)

lemma execute_entry_log:
  "\<exists>evs. snd (snd (execute_entry (recording h) n i (u, log))) =
     log @ Executed (e_seq (nd_entries n ! i)) (e_command (nd_entries n ! i)) (entry_args (nd_entries n ! i)) # evs"
  by (simp add: execute_entry_def Let_def emit_result_def entry_args_def)

lemma deliver_executes_edge:
  assumes h: "hooks_ok h" and cmd: "command_of inp \<noteq> None" and wf: "node_wf n" and act: "nd_active n \<noteq> 0"
    and b: "unat (nd_base n) < 256" and i: "i < 16" "e_state (nd_entries n ! i) = 1" "e_seq (nd_entries n ! i) = ucast (nd_base n)"
  shows "Executed (e_seq (nd_entries n ! i)) (e_command (nd_entries n ! i)) (entry_args (nd_entries n ! i))
    \<in> set (snd (snd (deliver (recording h) n (u, log))))"
proof -
  let ?n = "expire n (fst (now_ms h u))" and ?u = "snd (now_ms h u)"
  have "find_entry n (e_seq (nd_entries n ! i)) = Some i" using find_entry_unique [OF wf i(1)] i(2) by simp
  then have edge: "find_entry n (ucast (nd_base n)) = Some i" by (simp add: i(3))
  have wf': "node_wf ?n" using wf by (rule expire_wf)
  have same: "nd_entries ?n ! i = nd_entries n ! i" and act': "nd_active ?n \<noteq> 0"
    using expire_no_gap [OF edge] i node_wfD(1) [OF wf] act by auto
  have "find_entry ?n (e_seq (nd_entries ?n ! i)) = Some i"
    using find_entry_unique [OF wf' i(1)] i(2) same by simp
  then have find: "find_entry ?n (ucast (nd_base n)) = Some i" by (simp add: same i(3))
  let ?x = "execute_entry (recording h) ?n i (?u, log)"
  have eq: "deliver (recording h) n (u, log) = deliver (recording h) (fst ?x) (fst (snd ?x), snd (snd ?x))"
    using b act' find i(2) same by (subst deliver.simps) (simp add: Let_def case_prod_beta)
  obtain n' u' evs where x: "?x = (n', u', log @ evs)" "sr_step inp ?n evs n'"
    by (rule execute_entry_step [OF h cmd wf' act', of i ?u log]) (use b i same in auto)
  have "refines inp n' (log @ evs) (deliver (recording h) n' (u', log @ evs))"
    using deliver_refines [OF h cmd sr_step_wf [OF x(2) wf']] .
  then obtain evs' where log: "snd (snd (deliver (recording h) n (u, log))) = (log @ evs) @ evs'"
    unfolding eq x(1) by (cases "deliver (recording h) n' (u', log @ evs)") (auto dest: log_prefix)
  from execute_entry_log [of h ?n i ?u log] x(1) same show ?thesis
    unfolding log by auto
qed

text \<open>
  Progress on the node: when the next command in order arrives in the open session and an
  entry is free, it is executed during that very call, with the command and arguments of the frame.
\<close>

theorem next_command_is_executed:
  fixes u :: 'u and log :: "sr_event list"
  assumes "hooks_ok h" and "node_wf n" and "nd_active (expire n (fst (now_ms h u))) \<noteq> 0"
    and "10 \<le> length pl" and "length pl \<le> EDGE_PAYLOAD_MAX"
    and "edge_u64_be_read pl 0 = nd_session n"
    and "unat (pl ! 8) = unat (nd_base n)" and "find_entry n (pl ! 8) = None"
    and "\<exists>e\<in>set (nd_entries (expire n (fst (now_ms h u)))). e_state e = 0"
  shows "Executed (pl ! 8) (pl ! 9) (drop 10 pl)
    \<in> set (snd (snd (edge_sr_node_on_frame n EDGE_TYPE_SR_COMMAND (Some pl) (recording h) (u, log))))"
proof -
  let ?now = "fst (now_ms h u)" and ?u = "snd (now_ms h u)"
  let ?n = "expire n ?now" and ?inp = "FrameIn EDGE_TYPE_SR_COMMAND (Some pl)"
  have wf: "node_wf ?n" using assms(2) by (rule expire_wf)
  have none: "find_entry ?n (pl ! 8) = None" using assms(8) by (rule expire_find_None)
  obtain i where i: "find_index (\<lambda>e. e_state e = 0) (nd_entries ?n) = Some i"
    using assms(9) find_index_Some_ex [of _ "nd_entries ?n" "\<lambda>e. e_state e = 0"] by blast
  let ?e = "store_command (nd_entries ?n ! i) pl ?now"
  let ?m = "set_entry ?n i ?e"
  have i16: "i < 16" using find_index_SomeD [OF i] node_wfD(1) [OF wf] by simp
  have window: "edge_u64_be_read pl 0 = nd_session ?n" "unat (nd_base ?n) \<le> unat (pl ! 8)"
    "unat (pl ! 8) < unat (nd_base ?n) + EDGE_SR_WINDOW_SIZE"
    using assms(6,7) by simp_all
  have wfm: "node_wf ?m"
    by (rule sr_step_wf [OF store_step [OF wf assms(3) refl assms(4,5) window(1) none window(2,3) i] wf])
  have "length (e_args (nd_entries ?n ! i)) = EDGE_SR_ARGS_MAX"
    using node_wfD(3) [OF wf i16] by (simp add: entry_wf_def)
  note e = store_command_entry [OF this assms(4,5), of ?now]
  have seq: "pl ! 8 = ucast (nd_base n)" and b: "unat (nd_base n) < 256"
    using assms(7) unat_ucast_base [of "nd_base n"] unat_u8_lt [of "pl ! 8"] by (metis word_unat_eq_iff)+
  have at: "nd_entries ?m ! i = ?e" using i16 node_wfD(1) [OF wf] by simp
  have cmd: "command_of ?inp \<noteq> None" using assms(4,5) by (simp add: command_of_def)
  let ?p = "received_payload (nd_session n) (pl ! 8)"
  have "edge_sr_node_on_frame n EDGE_TYPE_SR_COMMAND (Some pl) (recording h) (u, log) =
      deliver (recording h) ?m (emit h EDGE_TYPE_SR_RECEIVED ?p ?u, log @ [Sent EDGE_TYPE_SR_RECEIVED ?p])"
    using assms(3-7) none i
    by (simp add: edge_sr_node_on_frame_def on_command_def Let_def set_entry_def)
  with deliver_executes_edge [OF assms(1) cmd wfm, of i] e at b seq i16 assms(3)
  show ?thesis by simp
qed

definition demo_node :: edge_sr_node_t where
  "demo_node = blank_node\<lparr>nd_session := 1, nd_active := 1\<rparr>"

lemma demo_node_wf: "node_wf demo_node"
  by (simp add: node_wf_def demo_node_def blank_node_def blank_entry_def entry_wf_def)

theorem next_command_is_executed_witness:
  "Executed 0 0x20 [] \<in> set (snd (snd (edge_sr_node_on_frame demo_node EDGE_TYPE_SR_COMMAND
     (Some [0, 0, 0, 0, 0, 0, 0, 1, 0, 0x20]) (recording plain_hooks) ((), []))))"
proof -
  have "nd_active (expire demo_node (fst (now_ms plain_hooks ()))) \<noteq> 0"
    and "edge_u64_be_read [0, 0, 0, 0, 0, 0, 0, 1, 0, 0x20] 0 = nd_session demo_node"
    and "find_entry demo_node 0 = None"
    and "\<exists>e\<in>set (nd_entries (expire demo_node (fst (now_ms plain_hooks ())))). e_state e = 0"
    by code_simp+
  then show ?thesis
    using next_command_is_executed [OF plain_hooks_ok demo_node_wf, of "()" "[0, 0, 0, 0, 0, 0, 0, 1, 0, 0x20]" "[]"]
    by (simp add: demo_node_def blank_node_def)
qed

text \<open>
  The OPEN handshake: a session above the high-water mark replaces the current one with an
  empty window, anything else leaves the node as it is; the reply always carries the requested
  session, the node's session after the request and OK exactly when they agree and the session is
  open. The high-water mark never falls.
\<close>

theorem node_open_behaviour:
  fixes n :: edge_sr_node_t and s :: u64 and h :: "'u edge_sr_hooks_t" and u :: 'u
  defines "n' \<equiv> (if nd_session n < s
    then (clear_entries (expire n (fst (now_ms h u))))\<lparr>nd_session := s, nd_base := 0, nd_active := 1\<rparr>
    else expire n (fst (now_ms h u)))"
  defines "ack \<equiv> u64_bytes s @ u64_bytes (max s (nd_session n)) @
    [if nd_session n' = s \<and> nd_active n' \<noteq> 0 then EDGE_RC_OK else EDGE_RC_BAD_PARAM]"
  shows "edge_sr_node_on_frame n EDGE_TYPE_SR_OPEN (Some (u64_bytes s)) (recording h) (u, log) =
    (n', emit h EDGE_TYPE_SR_OPEN_ACK ack (snd (now_ms h u)), log @ [Sent EDGE_TYPE_SR_OPEN_ACK ack])"
proof -
  have "edge_u64_be_read (u64_bytes s) 0 = s" using edge_u64_be_read_bytes [of "[]" s "[]"] by simp
  then show ?thesis
    by (auto simp: edge_sr_node_on_frame_def on_open_def Let_def open_ack_bytes open_ack_payload_def
        n'_def ack_def max_def)
qed

definition gap_expired :: "edge_sr_node_t \<Rightarrow> u32 \<Rightarrow> bool" where
  "gap_expired n now \<longleftrightarrow> unat (nd_base n) < 256 \<and> find_entry n (ucast (nd_base n)) = None \<and>
     (\<exists>e\<in>set (nd_entries n). e_state e = 1 \<and> EDGE_COMMAND_LIFETIME_MS \<le> now - received_at e)"

lemma expire_loop_closes:
  assumes "set is \<subseteq> {..<length (nd_entries n)}"
  shows "nd_active (expire_loop gap now is n) =
    (if gap \<and> (\<exists>i\<in>set is. e_state (nd_entries n ! i) = 1 \<and>
          EDGE_COMMAND_LIFETIME_MS \<le> now - received_at (nd_entries n ! i)) then 0 else nd_active n)"
  using assms
proof (induction "is" arbitrary: n)
  case (Cons j "is")
  let ?n = "n\<lparr>nd_entries := (nd_entries n)[j := (nd_entries n ! j)\<lparr>e_state := 0\<rparr>]\<rparr>"
  let ?stale = "\<lambda>n i. e_state (nd_entries n ! i) = 1 \<and> EDGE_COMMAND_LIFETIME_MS \<le> now - received_at (nd_entries n ! i)"
  have "?stale ?n i = ?stale n i" if "e_state (nd_entries n ! j) = 2" "i \<in> set is" for i
    using that Cons.prems by (cases "i = j") auto
  then have "(\<exists>i\<in>set is. ?stale ?n i) = (\<exists>i\<in>set is. ?stale n i)" if "e_state (nd_entries n ! j) = 2"
    using that by blast
  with Cons.IH [of ?n] Cons.IH [of n] Cons.prems show ?case
    by (auto simp: Let_def)
qed simp

lemma expire_active:
  assumes "length (nd_entries n) = EDGE_SR_RESULT_CAPACITY"
  shows "nd_active (expire n now) = (if gap_expired n now then 0 else nd_active n)"
proof -
  have "(\<exists>i\<in>{0..<16}. P (nd_entries n ! i)) = (\<exists>e\<in>set (nd_entries n). P e)" for P
    using assms by (metis atLeastLessThan_iff in_set_conv_nth le0)
  then have ex: "(\<exists>i\<in>set [0..<16]. P (nd_entries n ! i)) = (\<exists>e\<in>set (nd_entries n). P e)" for P
    by (simp only: set_upt)
  have "set [0..<16] \<subseteq> {..<length (nd_entries n)}" using assms by auto
  from expire_loop_closes [OF this] show ?thesis
    unfolding expire_def Let_def gap_expired_def
    by (simp only: ex [of "\<lambda>e. e_state e = 1 \<and> EDGE_COMMAND_LIFETIME_MS \<le> now - received_at e"] conj_assoc)
qed

lemma tick_entry_active: "nd_active (fst (tick_entry h now s i)) = nd_active (fst s)"
  by (cases s) (simp add: tick_entry_def Let_def)

lemma tick_loop_active: "nd_active (fst (foldl (tick_entry h now) s is)) = nd_active (fst s)"
  by (induction "is" arbitrary: s) (simp_all add: tick_entry_active)

text \<open>
  The gap timeout, exactly: a tick closes an open session if and only if the command at the
  left edge is missing while some later command has been buffered for at least four seconds of
  the wrapping millisecond clock; a closed session has no entries left.
\<close>

theorem tick_closes_exactly_expired_gaps:
  fixes h :: "'u edge_sr_hooks_t" and u :: 'u
  assumes "node_wf n" and "hooks_ok h"
  defines "n' \<equiv> fst (edge_sr_node_tick n h u)"
  shows "nd_active n' = (if gap_expired n (fst (now_ms h u)) then 0 else nd_active n) \<and>
    (nd_active n' = 0 \<longrightarrow> (\<forall>e\<in>set (nd_entries n'). e_state e = 0))"
proof -
  have "nd_active n' = nd_active (expire n (fst (now_ms h u)))"
    by (simp add: n'_def edge_sr_node_tick_def Let_def case_prod_beta tick_loop_active)
  moreover have "node_wf n'"
    using sr_input_step_plain [OF assms(2,1), of Tick u] by (auto simp: sr_input_step_def n'_def)
  ultimately show ?thesis
    using expire_active [OF node_wfD(1) [OF assms(1)]] node_wfD(1,5)
    by (auto simp: in_set_conv_nth)
qed

theorem tick_closes_exactly_expired_gaps_witness:
  "nd_active (fst (edge_sr_node_tick
     (set_entry demo_node 0 (blank_entry\<lparr>e_state := 1, e_seq := 1, received_at := - 4000\<rparr>)) plain_hooks ())) = 0"
proof -
  let ?n = "set_entry demo_node 0 (blank_entry\<lparr>e_state := 1, e_seq := 1, received_at := - 4000\<rparr>)"
  have "node_wf ?n"
    by (rule node_wf_set_entry [OF demo_node_wf])
      (simp_all add: entry_wf_def demo_node_def blank_node_def blank_entry_def)
  moreover have "gap_expired ?n (fst (now_ms plain_hooks ()))"
    unfolding gap_expired_def by code_simp
  ultimately show ?thesis
    using tick_closes_exactly_expired_gaps [OF _ plain_hooks_ok, of ?n "()"] by simp
qed

end
