(* ===== verification/Std_Map.thy ===== *)
theory Std_Map
  imports Prelude
begin

text \<open>
  \<^verbatim>\<open>std::map\<close> as the gateway uses it: an ordered container with unique keys. The interface is a
  locale over the operations the components call (lookup, \<open>emplace\<close>, writing through an iterator,
  \<open>erase\<close>, in-order iteration); what follows from its laws is proved once inside. The provider is
  the association list that is sorted by key, in which iteration order is list order.
\<close>

locale ordered_map =
  fixes empty_map :: 'm
    and lookup :: "'m \<Rightarrow> 'k::linorder \<Rightarrow> 'v option"
    and emplace :: "'k \<Rightarrow> 'v \<Rightarrow> 'm \<Rightarrow> 'm"
    and assign :: "'k \<Rightarrow> 'v \<Rightarrow> 'm \<Rightarrow> 'm"
    and erase_key :: "'k \<Rightarrow> 'm \<Rightarrow> 'm"
    and items :: "'m \<Rightarrow> ('k \<times> 'v) list"
    and inv :: "'m \<Rightarrow> bool"
  assumes inv_empty: "inv empty_map"
    and items_empty: "items empty_map = []"
    and inv_emplace: "inv m \<Longrightarrow> inv (emplace k v m)"
    and inv_assign: "inv m \<Longrightarrow> inv (assign k v m)"
    and inv_erase: "inv m \<Longrightarrow> inv (erase_key k m)"
    and lookup_emplace: "inv m \<Longrightarrow>
      lookup (emplace k v m) k' = (if k' = k \<and> lookup m k = None then Some v else lookup m k')"
    and lookup_assign: "inv m \<Longrightarrow>
      lookup (assign k v m) k' = (if k' = k \<and> lookup m k \<noteq> None then Some v else lookup m k')"
    and lookup_erase: "inv m \<Longrightarrow> lookup (erase_key k m) k' = (if k' = k then None else lookup m k')"
    and items_sorted: "inv m \<Longrightarrow> sorted_wrt (<) (map fst (items m))"
    and lookup_items: "inv m \<Longrightarrow> lookup m = map_of (items m)"
begin

definition keys :: "'m \<Rightarrow> 'k set" where
  "keys m = fst ` set (items m)"

lemma distinct_keys: "inv m \<Longrightarrow> distinct (map fst (items m))"
  using items_sorted strict_sorted_iff by blast

lemma lookup_Some_iff: "inv m \<Longrightarrow> lookup m k = Some v \<longleftrightarrow> (k, v) \<in> set (items m)"
  using distinct_keys by (simp add: lookup_items)

lemma in_keys_iff: "inv m \<Longrightarrow> k \<in> keys m \<longleftrightarrow> lookup m k \<noteq> None"
  by (simp add: keys_def lookup_items map_of_eq_None_iff)

lemma keys_empty: "keys empty_map = {}"
  by (simp add: keys_def items_empty)

lemma keys_emplace: "inv m \<Longrightarrow> keys (emplace k v m) = insert k (keys m)"
  by (auto simp: in_keys_iff inv_emplace lookup_emplace split: if_splits)

lemma keys_assign: "inv m \<Longrightarrow> keys (assign k v m) = keys m"
  by (auto simp: in_keys_iff inv_assign lookup_assign split: if_splits)

lemma keys_erase: "inv m \<Longrightarrow> keys (erase_key k m) = keys m - {k}"
  by (auto simp: in_keys_iff inv_erase lookup_erase split: if_splits)

lemma finite_keys: "finite (keys m)"
  by (simp add: keys_def)

lemma card_keys: "inv m \<Longrightarrow> card (keys m) = length (items m)"
  using distinct_card [OF distinct_keys, of m] by (simp add: keys_def)

lemma size_emplace: "inv m \<Longrightarrow> lookup m k = None \<Longrightarrow> length (items (emplace k v m)) = Suc (length (items m))"
  by (metis card_keys card_insert_disjoint finite_keys in_keys_iff inv_emplace keys_emplace)

lemma size_erase: "inv m \<Longrightarrow> lookup m k \<noteq> None \<Longrightarrow> Suc (length (items (erase_key k m))) = length (items m)"
  by (metis card_Suc_Diff1 card_keys finite_keys in_keys_iff inv_erase keys_erase)

lemma set_items_emplace:
  "inv m \<Longrightarrow> lookup m k = None \<Longrightarrow> set (items (emplace k v m)) = insert (k, v) (set (items m))"
  by (auto simp flip: lookup_Some_iff simp: inv_emplace lookup_emplace split: if_splits)

lemma set_items_assign:
  "inv m \<Longrightarrow> lookup m k = Some w \<Longrightarrow>
   set (items (assign k v m)) = insert (k, v) (set (items m) - {(k, w)})"
  by (auto simp flip: lookup_Some_iff simp: inv_assign lookup_assign split: if_splits)

lemma emplace_itemD:
  "inv m \<Longrightarrow> lookup m k = None \<Longrightarrow> (k', x) \<in> set (items (emplace k v m)) \<Longrightarrow>
   if k' = k then x = v else (k', x) \<in> set (items m)"
  by (auto simp flip: lookup_Some_iff simp: inv_emplace lookup_emplace split: if_splits)

lemma assign_itemD:
  "inv m \<Longrightarrow> lookup m k = Some w \<Longrightarrow> (k', x) \<in> set (items (assign k v m)) \<Longrightarrow>
   if k' = k then x = v else (k', x) \<in> set (items m)"
  by (auto simp flip: lookup_Some_iff simp: inv_assign lookup_assign split: if_splits)

lemma set_items_erase:
  "inv m \<Longrightarrow> set (items (erase_key k m)) = {(k', v) \<in> set (items m). k' \<noteq> k}"
  by (auto simp flip: lookup_Some_iff simp: inv_erase lookup_erase split: if_splits)

end

subsection \<open>The sorted association list\<close>

type_synonym ('k, 'v) smap = "('k \<times> 'v) list"

definition smap_ok :: "('k::linorder, 'v) smap \<Rightarrow> bool" where
  "smap_ok m \<longleftrightarrow> sorted_wrt (<) (map fst m)"

fun smap_emplace :: "'k::linorder \<Rightarrow> 'v \<Rightarrow> ('k, 'v) smap \<Rightarrow> ('k, 'v) smap" where
  "smap_emplace k v [] = [(k, v)]"
| "smap_emplace k v ((k', w) # m) =
    (if k < k' then (k, v) # (k', w) # m
     else if k = k' then (k', w) # m
     else (k', w) # smap_emplace k v m)"

definition smap_assign :: "'k::linorder \<Rightarrow> 'v \<Rightarrow> ('k, 'v) smap \<Rightarrow> ('k, 'v) smap" where
  "smap_assign k v m = map (\<lambda>(k', w). if k' = k then (k', v) else (k', w)) m"

definition smap_erase :: "'k::linorder \<Rightarrow> ('k, 'v) smap \<Rightarrow> ('k, 'v) smap" where
  "smap_erase k m = filter (\<lambda>(k', w). k' \<noteq> k) m"

definition smap_find :: "('k::linorder, 'v) smap \<Rightarrow> 'k \<Rightarrow> 'v option" where
  "smap_find m k = map_of m k"

lemma smap_emplace_keys: "fst ` set (smap_emplace k v m) = insert k (fst ` set m)"
  by (induction k v m rule: smap_emplace.induct) auto

lemma smap_assign_keys: "map fst (smap_assign k v m) = map fst m"
  by (auto simp: smap_assign_def)

lemma smap_ok_Cons: "smap_ok ((k, v) # m) \<longleftrightarrow> (\<forall>k'\<in>fst ` set m. k < k') \<and> smap_ok m"
  by (auto simp: smap_ok_def)

lemma smap_ok_emplace: "smap_ok m \<Longrightarrow> smap_ok (smap_emplace k v m)"
  by (induction k v m rule: smap_emplace.induct)
    (auto simp: smap_ok_Cons smap_emplace_keys simp del: split_paired_All)

lemma smap_ok_assign: "smap_ok m \<Longrightarrow> smap_ok (smap_assign k v m)"
  by (simp add: smap_ok_def smap_assign_keys)

lemma smap_ok_erase: "smap_ok m \<Longrightarrow> smap_ok (smap_erase k m)"
  by (simp add: smap_ok_def smap_erase_def sorted_wrt_map sorted_wrt_filter)

lemma smap_find_above: "\<forall>k'\<in>fst ` set m. k < k' \<Longrightarrow> smap_find m k = None"
  by (auto simp: smap_find_def map_of_eq_None_iff)

lemma smap_find_Cons: "smap_find ((k', v) # m) k = (if k = k' then Some v else smap_find m k)"
  by (simp add: smap_find_def)

lemma smap_find_emplace:
  "smap_ok m \<Longrightarrow> smap_find (smap_emplace k v m) k' =
     (if k' = k \<and> smap_find m k = None then Some v else smap_find m k')"
proof (induction k v m rule: smap_emplace.induct)
  case (2 k v j w m)
  have "smap_find m k = None" if "k < j"
    using 2(2) that by (intro smap_find_above) (auto simp: smap_ok_Cons dest: order.strict_trans)
  with 2 show ?case by (auto simp: smap_find_Cons smap_ok_Cons)
qed (simp add: smap_find_def)

lemma smap_find_assign:
  "smap_find (smap_assign k v m) k' = (if k' = k \<and> smap_find m k \<noteq> None then Some v else smap_find m k')"
  by (induction m) (auto simp: smap_find_def smap_assign_def)

lemma smap_find_erase: "smap_find (smap_erase k m) k' = (if k' = k then None else smap_find m k')"
  by (induction m) (auto simp: smap_find_def smap_erase_def)

interpretation smap: ordered_map "[]" smap_find smap_emplace smap_assign smap_erase "\<lambda>m. m" smap_ok
  by unfold_locales
    (simp_all add: smap_ok_emplace smap_ok_assign smap_ok_erase smap_find_emplace smap_find_assign
      smap_find_erase, simp_all add: smap_ok_def smap_find_def fun_eq_iff)

end
