(* ===== verification/Command_Tracker.thy ===== *)
theory Command_Tracker
  imports Edge_Proto Std_Map
begin

text \<open>
  \<^verbatim>\<open>src/gateway/link/CommandTracker.{h,cpp}\<close>: the gateway's selective-repeat sender. A method is
  a function from the tracker to its result and the tracker afterwards. Time points of the steady
  clock are integers of nanoseconds, so differences are exact; \<open>Ms\<close> converts milliseconds. The
  map of commands in flight is the sorted association list of the ordered-map interface.
\<close>

subsection \<open>Data\<close>

type_synonym time_point = int

definition Ms :: "nat \<Rightarrow> int" where
  "Ms n = int n * 1000000"

record command_send =
  cs_type :: u8
  cs_payload :: "u8 list"
  cs_session :: u64
  cs_seq :: u8
  cs_attempt :: u32

record command_completion =
  cc_seq :: u8
  cc_type :: u8
  cc_result :: "u8 list"
  cc_error :: string

record tracker_actions =
  ta_send :: "command_send list"
  ta_finished :: "command_completion list"

definition no_actions :: tracker_actions where
  "no_actions = \<lparr>ta_send = [], ta_finished = []\<rparr>"

definition push_send :: "command_send \<Rightarrow> tracker_actions \<Rightarrow> tracker_actions" where
  "push_send s a = a\<lparr>ta_send := ta_send a @ [s]\<rparr>"

definition push_finished :: "command_completion \<Rightarrow> tracker_actions \<Rightarrow> tracker_actions" where
  "push_finished c a = a\<lparr>ta_finished := ta_finished a @ [c]\<rparr>"

datatype tracker_state = Closed | Opening | Ready | Failed

record tracker_entry =
  te_type :: u8
  te_args :: "u8 list"
  te_queued_at :: time_point
  te_sent_at :: time_point
  te_sends :: u32
  te_pending :: bool
  te_received :: bool

record command_tracker =
  tr_state :: tracker_state
  tr_session :: u64
  tr_base :: u16
  tr_next :: u16
  tr_received :: "bool list"
  tr_completed :: "bool list"
  tr_types :: "u8 list"
  tr_entries :: "(u8, tracker_entry) smap"
  tr_opening_at :: time_point
  tr_open_sent_at :: time_point
  tr_open_sends :: u32
  tr_open_pending :: bool

definition new_tracker :: command_tracker where
  "new_tracker = \<lparr>tr_state = Closed, tr_session = 0, tr_base = 0, tr_next = 0,
     tr_received = replicate 256 False, tr_completed = replicate 256 False, tr_types = replicate 256 0,
     tr_entries = [], tr_opening_at = 0, tr_open_sent_at = 0, tr_open_sends = 0, tr_open_pending = False\<rparr>"

subsection \<open>Operations\<close>

definition resultValid :: "u8 \<Rightarrow> u8 list \<Rightarrow> bool" where
  "resultValid type p \<longleftrightarrow>
    (if length p < 11 \<or> p ! 10 > EDGE_RC_BUSY then False
     else if p ! 10 \<noteq> EDGE_RC_OK then length p = 11
     else if type = EDGE_TYPE_QUERY_LIGHT then length p = 13
     else if type = EDGE_TYPE_QUERY_TH then length p = 15
     else if type = EDGE_TYPE_SET_PERIOD then length p = 11
     else False)"

definition openSend :: "command_tracker \<Rightarrow> command_send" where
  "openSend t = \<lparr>cs_type = EDGE_TYPE_SR_OPEN,
     cs_payload = edge_u64_be_write (replicate 8 0) 0 (tr_session t),
     cs_session = tr_session t, cs_seq = 0, cs_attempt = tr_open_sends t\<rparr>"

definition dataSend :: "command_tracker \<Rightarrow> u8 \<Rightarrow> tracker_entry \<Rightarrow> command_send" where
  "dataSend t seq entry = \<lparr>cs_type = EDGE_TYPE_SR_COMMAND,
     cs_payload = (edge_u64_be_write (replicate 10 0) 0 (tr_session t))[8 := seq, 9 := te_type entry] @ te_args entry,
     cs_session = tr_session t, cs_seq = seq, cs_attempt = te_sends entry\<rparr>"

definition resultAck :: "command_tracker \<Rightarrow> u8 \<Rightarrow> command_send" where
  "resultAck t seq = \<lparr>cs_type = EDGE_TYPE_SR_RESULT_ACK,
     cs_payload = (edge_u64_be_write (replicate 9 0) 0 (tr_session t))[8 := seq],
     cs_session = tr_session t, cs_seq = seq, cs_attempt = 0\<rparr>"

definition begin_session ::
    "command_tracker \<Rightarrow> u64 \<Rightarrow> time_point \<Rightarrow> tracker_actions \<Rightarrow> tracker_actions \<times> command_tracker" where
  "begin_session t session now actions =
    (if session \<le> tr_session t \<and> tr_session t = - 1 then (actions, t\<lparr>tr_state := Failed\<rparr>)
     else
       let session = (if session \<le> tr_session t then tr_session t + 1 else session);
           t = t\<lparr>tr_session := session, tr_base := 0, tr_next := 0,
                 tr_received := replicate 256 False, tr_completed := replicate 256 False,
                 tr_types := replicate 256 0, tr_opening_at := now, tr_open_sends := 0,
                 tr_open_pending := True, tr_state := Opening\<rparr>
       in (push_send (openSend t) actions, t))"

definition finish_entries :: "(u8 \<Rightarrow> string) \<Rightarrow> command_tracker \<Rightarrow> tracker_actions" where
  "finish_entries reason t = foldl (\<lambda>a (seq, e). push_finished
     \<lparr>cc_seq = seq, cc_type = te_type e, cc_result = [], cc_error = reason seq\<rparr> a) no_actions (tr_entries t)"

definition start :: "command_tracker \<Rightarrow> u64 \<Rightarrow> time_point \<Rightarrow> tracker_actions \<times> command_tracker" where
  "start t session now =
    (let actions = finish_entries (\<lambda>seq. ''session_aborted'') t
     in begin_session (t\<lparr>tr_entries := []\<rparr>) session now actions)"

definition canSubmit :: "command_tracker \<Rightarrow> bool" where
  "canSubmit t \<longleftrightarrow> tr_state t = Ready \<and> unat (tr_next t) < 256 \<and>
     unat (tr_next t) < unat (tr_base t) + EDGE_SR_WINDOW_SIZE \<and>
     length (tr_entries t) < EDGE_SR_WINDOW_SIZE"

definition submit ::
    "command_tracker \<Rightarrow> u8 \<Rightarrow> u8 list \<Rightarrow> time_point \<Rightarrow> command_send option \<times> command_tracker" where
  "submit t type args now =
    (if \<not> canSubmit t \<or> length args > EDGE_SR_ARGS_MAX then (None, t)
     else
       let seq = ucast (tr_next t);
           t = t\<lparr>tr_next := tr_next t + 1\<rparr>;
           t = t\<lparr>tr_entries := smap_emplace seq
                 \<lparr>te_type = type, te_args = args, te_queued_at = now, te_sent_at = 0, te_sends = 0,
                  te_pending = True, te_received = False\<rparr> (tr_entries t)\<rparr>;
           t = t\<lparr>tr_types := (tr_types t)[unat seq := type]\<rparr>
       in case smap_find (tr_entries t) seq of
            Some e \<Rightarrow> (Some (dataSend t seq e), t)
          | None \<Rightarrow> (None, t))"

text \<open>\<^verbatim>\<open>while (base_ < next_ && received_[base_]) ++base_;\<close>\<close>

function advance_base :: "command_tracker \<Rightarrow> command_tracker" where
  "advance_base t =
    (if tr_base t < tr_next t \<and> tr_received t ! unat (tr_base t)
     then advance_base (t\<lparr>tr_base := tr_base t + 1\<rparr>) else t)"
  by pat_completeness auto
termination
proof (relation "measure (\<lambda>t. unat (tr_next t) - unat (tr_base t))", goal_cases)
  case (2 t)
  then have lt: "unat (tr_base t) < unat (tr_next t)" by (simp add: word_less_nat_alt)
  moreover have "unat (tr_next t) < 65536" using unsigned_less [of "tr_next t"] by simp
  ultimately have "unat (tr_base t + 1) = Suc (unat (tr_base t))" by (intro unat_Suc_u16) linarith
  with lt show ?case by simp
qed simp

declare advance_base.simps [simp del]

definition receive_seq :: "command_tracker \<Rightarrow> u8 \<Rightarrow> command_tracker" where
  "receive_seq t seq =
    (let t = t\<lparr>tr_received := (tr_received t)[unat seq := True]\<rparr>;
         t = (case smap_find (tr_entries t) seq of
                Some e \<Rightarrow> t\<lparr>tr_entries := smap_assign seq (e\<lparr>te_received := True\<rparr>) (tr_entries t)\<rparr>
              | None \<Rightarrow> t)
     in advance_base t)"

definition rollover ::
    "command_tracker \<Rightarrow> time_point \<Rightarrow> tracker_actions \<Rightarrow> tracker_actions \<times> command_tracker" where
  "rollover t now actions =
    (if unat (tr_next t) = 256 \<and> tr_entries t = [] then begin_session t (tr_session t) now actions
     else (actions, t))"

definition abort_session ::
    "command_tracker \<Rightarrow> u8 \<Rightarrow> string \<Rightarrow> time_point \<Rightarrow> tracker_actions \<times> command_tracker" where
  "abort_session t failed_seq reason now =
    (let actions = finish_entries (\<lambda>seq. if seq = failed_seq then reason else ''session_aborted'') t
     in begin_session (t\<lparr>tr_entries := []\<rparr>) (tr_session t) now actions)"

definition canSend :: "command_tracker \<Rightarrow> command_send \<Rightarrow> time_point \<Rightarrow> bool" where
  "canSend t send now \<longleftrightarrow>
    (if cs_session send \<noteq> tr_session t then False
     else if cs_type send = EDGE_TYPE_SR_OPEN then
       tr_state t = Opening \<and> tr_open_pending t \<and> cs_attempt send = tr_open_sends t \<and>
       now - tr_opening_at t < Ms (unat EDGE_COMMAND_LIFETIME_MS)
     else if tr_state t \<noteq> Ready then False
     else if cs_type send = EDGE_TYPE_SR_RESULT_ACK then tr_completed t ! unat (cs_seq send)
     else case smap_find (tr_entries t) (cs_seq send) of
            None \<Rightarrow> False
          | Some e \<Rightarrow> cs_type send = EDGE_TYPE_SR_COMMAND \<and> te_pending e \<and> \<not> te_received e \<and>
              cs_attempt send = te_sends e \<and>
              now - te_queued_at e < Ms (unat EDGE_COMMAND_LIFETIME_MS))"
definition onWritten ::
    "command_tracker \<Rightarrow> command_send \<Rightarrow> bool \<Rightarrow> time_point \<Rightarrow> tracker_actions \<times> command_tracker" where
  "onWritten t send success now =
    (if cs_session send \<noteq> tr_session t then (no_actions, t)
     else if cs_type send = EDGE_TYPE_SR_OPEN then
       if tr_state t \<noteq> Opening \<or> \<not> tr_open_pending t \<or> cs_attempt send \<noteq> tr_open_sends t then (no_actions, t)
       else
         let t = t\<lparr>tr_open_pending := False\<rparr> in
         if \<not> success \<or> now - tr_opening_at t \<ge> Ms (unat EDGE_COMMAND_LIFETIME_MS)
         then (no_actions, t\<lparr>tr_state := Failed\<rparr>)
         else (no_actions, t\<lparr>tr_open_sends := tr_open_sends t + 1, tr_open_sent_at := now\<rparr>)
     else if tr_state t \<noteq> Ready \<or> cs_type send \<noteq> EDGE_TYPE_SR_COMMAND then (no_actions, t)
     else case smap_find (tr_entries t) (cs_seq send) of
            None \<Rightarrow> (no_actions, t)
          | Some e \<Rightarrow>
              if \<not> te_pending e \<or> te_received e \<or> cs_attempt send \<noteq> te_sends e then (no_actions, t)
              else if now - te_queued_at e \<ge> Ms (unat EDGE_COMMAND_LIFETIME_MS)
              then abort_session t (cs_seq send) ''timeout'' now
              else if \<not> success then abort_session t (cs_seq send) ''send_failed'' now
              else (no_actions, t\<lparr>tr_entries := smap_assign (cs_seq send)
                     (e\<lparr>te_pending := False, te_sends := te_sends e + 1, te_sent_at := now\<rparr>) (tr_entries t)\<rparr>))"

text \<open>The two halves of \<open>onFrame\<close>: the OPEN_ACK branch and the branches of a ready session.\<close>

definition onOpenAck ::
    "command_tracker \<Rightarrow> u8 list \<Rightarrow> time_point \<Rightarrow> tracker_actions \<times> command_tracker" where
  "onOpenAck t p now =
    (if length p \<noteq> 17 \<or> tr_state t \<noteq> Opening \<or> tr_open_sends t = 0 then (no_actions, t)
     else if now - tr_opening_at t \<ge> Ms (unat EDGE_COMMAND_LIFETIME_MS)
     then (no_actions, t\<lparr>tr_state := Failed\<rparr>)
     else
       let high_water = edge_u64_be_read p 8 in
       if p ! 16 = EDGE_RC_OK \<and> high_water = tr_session t
       then (no_actions, t\<lparr>tr_state := Ready, tr_open_pending := False\<rparr>)
       else if p ! 16 = EDGE_RC_BAD_PARAM \<and> high_water \<ge> tr_session t then
         if high_water = - 1 \<or> unat (tr_open_sends t) > EDGE_MAX_RETRY
         then (no_actions, t\<lparr>tr_state := Failed\<rparr>)
         else let t = t\<lparr>tr_session := high_water + 1, tr_open_pending := True\<rparr>
              in (push_send (openSend t) no_actions, t)
       else (no_actions, t))"

definition onResult ::
    "command_tracker \<Rightarrow> u8 list \<Rightarrow> time_point \<Rightarrow> tracker_actions \<times> command_tracker" where
  "onResult t p now =
    (let seq = p ! 8 in
     if length p < 11 \<or> p ! 9 \<noteq> tr_types t ! unat seq \<or> \<not> resultValid (p ! 9) p then (no_actions, t)
     else if tr_completed t ! unat seq then (push_send (resultAck t seq) no_actions, t)
     else case smap_find (tr_entries t) seq of
            None \<Rightarrow> (no_actions, t)
          | Some e \<Rightarrow>
              if te_sends e = 0 then (no_actions, t)
              else
                let t = receive_seq t seq;
                    t = t\<lparr>tr_completed := (tr_completed t)[unat seq := True]\<rparr>;
                    actions = push_finished
                      \<lparr>cc_seq = seq, cc_type = te_type e, cc_result = drop 10 p, cc_error = []\<rparr> no_actions;
                    t = t\<lparr>tr_entries := smap_erase seq (tr_entries t)\<rparr>;
                    actions = push_send (resultAck t seq) actions
                in rollover t now actions)"

definition onFrame ::
    "command_tracker \<Rightarrow> u8 \<Rightarrow> u8 list \<Rightarrow> time_point \<Rightarrow> tracker_actions \<times> command_tracker" where
  "onFrame t type p now =
    (if length p < 8 \<or> length p > EDGE_PAYLOAD_MAX \<or> edge_u64_be_read p 0 \<noteq> tr_session t then (no_actions, t)
     else if type = EDGE_TYPE_SR_OPEN_ACK then onOpenAck t p now
     else if tr_state t \<noteq> Ready \<or> length p < 9 then (no_actions, t)
     else if unat (p ! 8) \<ge> unat (tr_next t) then (no_actions, t)
     else if type = EDGE_TYPE_SR_RECEIVED then
       (case smap_find (tr_entries t) (p ! 8) of
          Some e \<Rightarrow> if length p = 9 \<and> te_sends e \<noteq> 0 then (no_actions, receive_seq t (p ! 8)) else (no_actions, t)
        | None \<Rightarrow> (no_actions, t))
     else if type \<noteq> EDGE_TYPE_SR_RESULT then (no_actions, t)
     else onResult t p now)"

definition entry_expired :: "time_point \<Rightarrow> tracker_entry \<Rightarrow> bool" where
  "entry_expired now e \<longleftrightarrow>
     (\<not> te_received e \<and> now - te_queued_at e \<ge> Ms (unat EDGE_COMMAND_LIFETIME_MS)) \<or>
     now - te_queued_at e \<ge> Ms (unat EDGE_SR_RESULT_TIMEOUT_MS) \<or>
     (\<not> te_received e \<and> \<not> te_pending e \<and> unat (te_sends e) > EDGE_MAX_RETRY \<and>
      now - te_sent_at e \<ge> Ms (unat EDGE_ACK_TIMEOUT_MS))"

definition needs_resend :: "time_point \<Rightarrow> tracker_entry \<Rightarrow> bool" where
  "needs_resend now e \<longleftrightarrow>
     \<not> te_received e \<and> \<not> te_pending e \<and> now - te_sent_at e \<ge> Ms (unat EDGE_ACK_TIMEOUT_MS)"

fun resend_loop ::
    "command_tracker \<Rightarrow> time_point \<Rightarrow> (u8, tracker_entry) smap \<Rightarrow> tracker_actions \<Rightarrow>
     tracker_actions \<times> (u8, tracker_entry) smap" where
  "resend_loop t now [] actions = (actions, [])"
| "resend_loop t now ((seq, e) # es) actions =
    (if needs_resend now e then
       let e = e\<lparr>te_pending := True\<rparr>;
           (actions, es) = resend_loop t now es (push_send (dataSend t seq e) actions)
       in (actions, (seq, e) # es)
     else
       let (actions, es) = resend_loop t now es actions
       in (actions, (seq, e) # es))"

definition tracker_tick :: "command_tracker \<Rightarrow> time_point \<Rightarrow> tracker_actions \<times> command_tracker" where
  "tracker_tick t now =
    (if tr_state t = Opening then
       if now - tr_opening_at t \<ge> Ms (unat EDGE_COMMAND_LIFETIME_MS) then (no_actions, t\<lparr>tr_state := Failed\<rparr>)
       else if \<not> tr_open_pending t \<and> now - tr_open_sent_at t \<ge> Ms (unat EDGE_ACK_TIMEOUT_MS) then
         if unat (tr_open_sends t) > EDGE_MAX_RETRY then (no_actions, t\<lparr>tr_state := Failed\<rparr>)
         else let t = t\<lparr>tr_open_pending := True\<rparr> in (push_send (openSend t) no_actions, t)
       else (no_actions, t)
     else if tr_state t \<noteq> Ready then (no_actions, t)
     else case find (\<lambda>(seq, e). entry_expired now e) (tr_entries t) of
            Some (seq, e) \<Rightarrow> abort_session t seq ''timeout'' now
          | None \<Rightarrow>
              let (actions, es) = resend_loop t now (tr_entries t) no_actions
              in (actions, t\<lparr>tr_entries := es\<rparr>))"

subsection \<open>Invariant\<close>

text \<open>
  A command in flight: its flags agree with the window's arrays, it has been transmitted at most
  four times, and at most three times while a further transmission is pending.
\<close>

definition entry_ok :: "command_tracker \<Rightarrow> u8 \<Rightarrow> tracker_entry \<Rightarrow> bool" where
  "entry_ok t q e \<longleftrightarrow>
     te_received e = tr_received t ! unat q \<and> te_type e = tr_types t ! unat q \<and>
     length (te_args e) \<le> EDGE_SR_ARGS_MAX \<and>
     unat (te_sends e) \<le> EDGE_MAX_RETRY + 1 \<and> (te_pending e \<longrightarrow> unat (te_sends e) \<le> EDGE_MAX_RETRY) \<and>
     (te_sends e = 0 \<longrightarrow> te_pending e \<and> \<not> te_received e)"

text \<open>
  The window of a ready session: the commands in flight are exactly the numbers handed out and
  not completed; everything left of the base is received, the base itself is not, and at most
  eight numbers are between base and next.
\<close>

definition window_ok :: "command_tracker \<Rightarrow> bool" where
  "window_ok t \<longleftrightarrow>
     unat (tr_base t) \<le> unat (tr_next t) \<and> unat (tr_next t) \<le> 256 \<and>
     unat (tr_next t) \<le> unat (tr_base t) + EDGE_SR_WINDOW_SIZE \<and>
     length (tr_entries t) \<le> EDGE_SR_WINDOW_SIZE \<and>
     (\<forall>q. q \<in> fst ` set (tr_entries t) \<longleftrightarrow> unat q < unat (tr_next t) \<and> \<not> tr_completed t ! unat q) \<and>
     (\<forall>i<unat (tr_base t). tr_received t ! i) \<and>
     (unat (tr_base t) < unat (tr_next t) \<longrightarrow> \<not> tr_received t ! unat (tr_base t)) \<and>
     (\<forall>i<256. unat (tr_next t) \<le> i \<longrightarrow> \<not> tr_received t ! i) \<and>
     (\<forall>i<256. tr_completed t ! i \<longrightarrow> tr_received t ! i) \<and>
     (\<forall>(q, e)\<in>set (tr_entries t). entry_ok t q e)"

definition opening_ok :: "command_tracker \<Rightarrow> bool" where
  "opening_ok t \<longleftrightarrow> tr_base t = 0 \<and> tr_next t = 0 \<and>
     tr_received t = replicate 256 False \<and> tr_completed t = replicate 256 False \<and>
     unat (tr_open_sends t) \<le> EDGE_MAX_RETRY + 1 \<and>
     (tr_open_pending t \<longrightarrow> unat (tr_open_sends t) \<le> EDGE_MAX_RETRY) \<and>
     (tr_open_sends t = 0 \<longrightarrow> tr_open_pending t)"

definition tracker_wf :: "command_tracker \<Rightarrow> bool" where
  "tracker_wf t \<longleftrightarrow>
     length (tr_received t) = 256 \<and> length (tr_completed t) = 256 \<and> length (tr_types t) = 256 \<and>
     smap_ok (tr_entries t) \<and>
     (tr_state t \<noteq> Ready \<longrightarrow> tr_entries t = []) \<and>
     (tr_state t = Opening \<longrightarrow> opening_ok t) \<and>
     (tr_state t = Ready \<longrightarrow> window_ok t)"

lemmas tracker_wf_defs = tracker_wf_def window_ok_def opening_ok_def

lemma new_tracker_wf: "tracker_wf new_tracker"
  by (simp add: tracker_wf_def new_tracker_def smap_ok_def)

lemma begin_session_wf:
  assumes "tracker_wf t" and "tr_entries t = []"
  shows "tracker_wf (snd (begin_session t s now a))"
  using assms by (auto simp: begin_session_def Let_def tracker_wf_def opening_ok_def smap_ok_def)

lemma begin_session_cleared_wf:
  assumes "tracker_wf t"
  shows "tracker_wf (snd (begin_session (t\<lparr>tr_entries := []\<rparr>) s now a))"
  using assms by (auto simp: begin_session_def Let_def tracker_wf_def opening_ok_def smap_ok_def)

lemma start_wf: "tracker_wf t \<Longrightarrow> tracker_wf (snd (start t s now))"
  by (simp add: start_def Let_def begin_session_cleared_wf)

lemma abort_session_wf: "tracker_wf t \<Longrightarrow> tracker_wf (snd (abort_session t q r now))"
  by (simp add: abort_session_def Let_def begin_session_cleared_wf)

lemma rollover_wf: "tracker_wf t \<Longrightarrow> tracker_wf (snd (rollover t now a))"
  by (simp add: rollover_def begin_session_wf)

text \<open>The base stops at the first number that is not received, or at the next number.\<close>

lemma advance_base_spec:
  assumes "unat (tr_base t) \<le> unat (tr_next t)"
  obtains b where "advance_base t = t\<lparr>tr_base := b\<rparr>" "unat (tr_base t) \<le> unat b" "unat b \<le> unat (tr_next t)"
    "\<forall>i. unat (tr_base t) \<le> i \<and> i < unat b \<longrightarrow> tr_received t ! i"
    "unat b < unat (tr_next t) \<longrightarrow> \<not> tr_received t ! unat b"
proof -
  have "\<exists>b. advance_base t = t\<lparr>tr_base := b\<rparr> \<and> unat (tr_base t) \<le> unat b \<and> unat b \<le> unat (tr_next t) \<and>
    (\<forall>i. unat (tr_base t) \<le> i \<and> i < unat b \<longrightarrow> tr_received t ! i) \<and>
    (unat b < unat (tr_next t) \<longrightarrow> \<not> tr_received t ! unat b)"
    using assms
  proof (induction t rule: advance_base.induct)
    case (1 t)
    show ?case
    proof (cases "tr_base t < tr_next t \<and> tr_received t ! unat (tr_base t)")
      case False
      then have "advance_base t = t\<lparr>tr_base := tr_base t\<rparr>" by (subst advance_base.simps) auto
      with False 1(2) show ?thesis by (intro exI [of _ "tr_base t"]) (auto simp: word_less_nat_alt)
    next
      case True
      let ?t = "t\<lparr>tr_base := tr_base t + 1\<rparr>"
      have lt: "unat (tr_base t) < unat (tr_next t)" using True by (simp add: word_less_nat_alt)
      moreover have "unat (tr_next t) < 65536" using unsigned_less [of "tr_next t"] by simp
      ultimately have s: "unat (tr_base t + 1) = Suc (unat (tr_base t))" by (intro unat_Suc_u16) linarith
      obtain b where b: "advance_base ?t = ?t\<lparr>tr_base := b\<rparr>" "Suc (unat (tr_base t)) \<le> unat b"
        "unat b \<le> unat (tr_next t)" "\<forall>i. Suc (unat (tr_base t)) \<le> i \<and> i < unat b \<longrightarrow> tr_received t ! i"
        "unat b < unat (tr_next t) \<longrightarrow> \<not> tr_received t ! unat b"
        using 1(1) [OF True] lt s by auto
      have "advance_base t = t\<lparr>tr_base := b\<rparr>" using True b(1) by (subst advance_base.simps) simp
      moreover have "tr_received t ! i" if "unat (tr_base t) \<le> i" "i < unat b" for i
        using that b(4) True by (cases "i = unat (tr_base t)") auto
      ultimately show ?thesis using b by (intro exI [of _ b]) auto
    qed
  qed
  then show ?thesis using that by blast
qed

lemma window_okD:
  assumes "window_ok t"
  shows "unat (tr_base t) \<le> unat (tr_next t)" "unat (tr_next t) \<le> 256"
    "unat (tr_next t) \<le> unat (tr_base t) + 8" "length (tr_entries t) \<le> 8"
    "q \<in> fst ` set (tr_entries t) \<longleftrightarrow> unat q < unat (tr_next t) \<and> \<not> tr_completed t ! unat q"
    "i < unat (tr_base t) \<Longrightarrow> tr_received t ! i"
    "unat (tr_base t) < unat (tr_next t) \<Longrightarrow> \<not> tr_received t ! unat (tr_base t)"
    "i < 256 \<Longrightarrow> unat (tr_next t) \<le> i \<Longrightarrow> \<not> tr_received t ! i"
    "i < 256 \<Longrightarrow> tr_completed t ! i \<Longrightarrow> tr_received t ! i"
    "(q, e) \<in> set (tr_entries t) \<Longrightarrow> entry_ok t q e"
  using assms unfolding window_ok_def by auto

lemma window_okI:
  assumes "unat (tr_base t) \<le> unat (tr_next t)" "unat (tr_next t) \<le> 256"
    "unat (tr_next t) \<le> unat (tr_base t) + 8" "length (tr_entries t) \<le> 8"
    "\<And>q. q \<in> fst ` set (tr_entries t) \<longleftrightarrow> unat q < unat (tr_next t) \<and> \<not> tr_completed t ! unat q"
    "\<And>i. i < unat (tr_base t) \<Longrightarrow> tr_received t ! i"
    "unat (tr_base t) < unat (tr_next t) \<Longrightarrow> \<not> tr_received t ! unat (tr_base t)"
    "\<And>i. i < 256 \<Longrightarrow> unat (tr_next t) \<le> i \<Longrightarrow> \<not> tr_received t ! i"
    "\<And>i. i < 256 \<Longrightarrow> tr_completed t ! i \<Longrightarrow> tr_received t ! i"
    "\<And>q e. (q, e) \<in> set (tr_entries t) \<Longrightarrow> entry_ok t q e"
  shows "window_ok t"
  using assms unfolding window_ok_def by auto

lemma tracker_wfD:
  assumes "tracker_wf t"
  shows "length (tr_received t) = 256" "length (tr_completed t) = 256" "length (tr_types t) = 256"
    "smap_ok (tr_entries t)" "tr_state t \<noteq> Ready \<Longrightarrow> tr_entries t = []"
    "tr_state t = Opening \<Longrightarrow> opening_ok t" "tr_state t = Ready \<Longrightarrow> window_ok t"
  using assms unfolding tracker_wf_def by auto

lemma unat_ucast_next: "unat (n :: u16) < 256 \<Longrightarrow> unat (ucast n :: u8) = unat n"
  by (simp add: unsigned_ucast_eq take_bit_nat_eq_self)

definition fresh_entry :: "u8 \<Rightarrow> u8 list \<Rightarrow> time_point \<Rightarrow> tracker_entry" where
  "fresh_entry type args now = \<lparr>te_type = type, te_args = args, te_queued_at = now, te_sent_at = 0,
     te_sends = 0, te_pending = True, te_received = False\<rparr>"

lemma submit_accept:
  fixes type :: u8 and now :: time_point
  assumes wf: "tracker_wf t" and can: "canSubmit t" and len: "length args \<le> EDGE_SR_ARGS_MAX"
  defines "q \<equiv> ucast (tr_next t) :: u8"
  defines "t' \<equiv> t\<lparr>tr_next := tr_next t + 1, tr_entries := smap_emplace q (fresh_entry type args now) (tr_entries t),
     tr_types := (tr_types t)[unat q := type]\<rparr>"
  shows "submit t type args now = (Some (dataSend t' q (fresh_entry type args now)), t')"
    and "smap_find (tr_entries t) q = None" and "unat q = unat (tr_next t)"
proof -
  have win: "window_ok t" and ok: "smap_ok (tr_entries t)" and n: "unat (tr_next t) < 256"
    using tracker_wfD [OF wf] can by (auto simp: canSubmit_def)
  show q: "unat q = unat (tr_next t)" using unat_ucast_next [OF n] by (simp add: q_def)
  have "q \<notin> fst ` set (tr_entries t)" using window_okD(5) [OF win, of q] q by simp
  then show none: "smap_find (tr_entries t) q = None" using smap.in_keys_iff [OF ok] by (simp add: smap.keys_def)
  have "smap_find (smap_emplace q (fresh_entry type args now) (tr_entries t)) q = Some (fresh_entry type args now)"
    using none ok by (simp add: smap.lookup_emplace)
  then show "submit t type args now = (Some (dataSend t' q (fresh_entry type args now)), t')"
    using can len by (simp add: submit_def Let_def t'_def fresh_entry_def q_def)
qed

lemma submit_wf:
  assumes wf: "tracker_wf t"
  shows "tracker_wf (snd (submit t type args now))"
proof (cases "canSubmit t \<and> length args \<le> EDGE_SR_ARGS_MAX")
  case False
  then have "submit t type args now = (None, t)" by (auto simp: submit_def)
  with wf show ?thesis by simp
next
  case True
  let ?e = "fresh_entry type args now" and ?q = "ucast (tr_next t) :: u8"
  let ?t = "t\<lparr>tr_next := tr_next t + 1, tr_entries := smap_emplace ?q ?e (tr_entries t),
     tr_types := (tr_types t)[unat ?q := type]\<rparr>"
  from True have s: "snd (submit t type args now) = ?t" and none: "smap_find (tr_entries t) ?q = None"
    and q: "unat ?q = unat (tr_next t)" using submit_accept [OF wf] by auto
  from True have can: "tr_state t = Ready" "unat (tr_next t) < 256"
    "unat (tr_next t) < unat (tr_base t) + 8" "length (tr_entries t) < 8" by (auto simp: canSubmit_def)
  note wfD = tracker_wfD [OF wf]
  have win: "window_ok t" using wfD(7) can(1) by simp
  note W = window_okD [OF win]
  have ok: "smap_ok (tr_entries ?t)" using wfD(4) by (simp add: smap.inv_emplace)
  have n': "unat (tr_next t + 1) = Suc (unat (tr_next t))" using can(2) by (intro unat_Suc_u16) simp
  have fresh: "\<not> tr_received t ! unat ?q" "\<not> tr_completed t ! unat ?q" using W(8,9) can(2) q by auto
  have len: "length (tr_entries ?t) \<le> 8" using smap.size_emplace [OF wfD(4) none] can(4) by simp
  have keys: "q \<in> fst ` set (tr_entries ?t) \<longleftrightarrow> unat q < unat (tr_next ?t) \<and> \<not> tr_completed ?t ! unat q" for q
  proof -
    have "fst ` set (tr_entries ?t) = insert ?q (fst ` set (tr_entries t))"
      using smap.keys_emplace [OF wfD(4)] by (simp add: smap.keys_def)
    moreover have "unat q = unat (tr_next t) \<Longrightarrow> q = ?q" using q by (metis word_unat_eq_iff)
    ultimately show ?thesis using W(5) [of q] fresh n' q by (auto simp: less_Suc_eq)
  qed
  have entries: "entry_ok ?t q e" if "(q, e) \<in> set (tr_entries ?t)" for q e
  proof (cases "q = ?q")
    case True
    with that have "e = ?e" using smap.emplace_itemD [OF wfD(4) none] by fastforce
    with True \<open>canSubmit t \<and> _\<close> fresh q can(2) wfD(3) show ?thesis by (simp add: entry_ok_def fresh_entry_def)
  next
    case False
    then have "(q, e) \<in> set (tr_entries t)" using that smap.emplace_itemD [OF wfD(4) none] by fastforce
    with False W(10) [of q e] show ?thesis
      by (auto simp: entry_ok_def nth_list_update word_unat_eq_iff)
  qed
  have base: "\<not> tr_received t ! unat (tr_base t)"
    using W(1,7) W(8) [of "unat (tr_next t)"] can(2) by (metis le_neq_implies_less order_refl)
  have "window_ok ?t"
    unfolding window_ok_def using W(1-4,6-9) can len keys entries fresh n' q base
    by auto
  with s ok wfD can(1) show ?thesis by (simp add: tracker_wf_def)
qed

lemma receive_seq_spec:
  assumes wf: "tracker_wf t" and ready: "tr_state t = Ready"
    and e: "smap_find (tr_entries t) q = Some e" and sent: "te_sends e \<noteq> 0"
  obtains b where "receive_seq t q = t\<lparr>tr_received := (tr_received t)[unat q := True],
      tr_entries := smap_assign q (e\<lparr>te_received := True\<rparr>) (tr_entries t), tr_base := b\<rparr>"
    "window_ok (receive_seq t q)"
proof -
  note wfD = tracker_wfD [OF wf]
  have win: "window_ok t" using wfD(7) ready by simp
  note W = window_okD [OF win]
  let ?t = "t\<lparr>tr_received := (tr_received t)[unat q := True],
      tr_entries := smap_assign q (e\<lparr>te_received := True\<rparr>) (tr_entries t)\<rparr>"
  obtain b where b: "advance_base ?t = ?t\<lparr>tr_base := b\<rparr>" "unat (tr_base t) \<le> unat b" "unat b \<le> unat (tr_next t)"
    "\<forall>i. unat (tr_base t) \<le> i \<and> i < unat b \<longrightarrow> tr_received ?t ! i"
    "unat b < unat (tr_next t) \<longrightarrow> \<not> tr_received ?t ! unat b"
    using advance_base_spec [of ?t] W(1) by auto
  have eq: "receive_seq t q = ?t\<lparr>tr_base := b\<rparr>" using e b(1) by (simp add: receive_seq_def Let_def)
  have mem: "(q, e) \<in> set (tr_entries t)" using smap.lookup_Some_iff [OF wfD(4)] e by blast
  then have "q \<in> fst ` set (tr_entries t)" by force
  then have q: "unat q < unat (tr_next t)" using W(5) by simp
  have old: "tr_received t ! i \<Longrightarrow> tr_received ?t ! i" for i
    by (cases "i = unat q") (use wfD(1) in auto)
  have left: "tr_received ?t ! i" if "i < unat b" for i
    using that W(6) [of i] b(4) old by (cases "i < unat (tr_base t)") auto
  have keys: "fst ` set (tr_entries ?t) = fst ` set (tr_entries t)"
    using smap.keys_assign [OF wfD(4)] by (simp add: smap.keys_def)
  have "length (tr_entries ?t) = length (tr_entries t)" by (simp add: smap_assign_def)
  moreover have entries: "entry_ok ?t q' e'" if "(q', e') \<in> set (tr_entries ?t)" for q' e'
  proof (cases "q' = q")
    case True
    with that have "e' = e\<lparr>te_received := True\<rparr>" using smap.assign_itemD [OF wfD(4) e] by fastforce
    with True W(10) [OF mem] sent wfD(1) show ?thesis by (auto simp: entry_ok_def)
  next
    case False
    then have "(q', e') \<in> set (tr_entries t)" using that smap.assign_itemD [OF wfD(4) e] by fastforce
    with False W(10) [of q' e'] show ?thesis by (auto simp: entry_ok_def nth_list_update word_unat_eq_iff)
  qed
  moreover have "entry_ok (?t\<lparr>tr_base := b\<rparr>) q' e' = entry_ok ?t q' e'" for q' e' by (simp add: entry_ok_def)
  ultimately have "window_ok (?t\<lparr>tr_base := b\<rparr>)"
  proof (intro window_okI, goal_cases)
    case (5 q') then show ?case using W(5) [of q'] keys by simp
  next
    case (6 i) then show ?case using left by simp
  next
    case (7) then show ?case using b(5) by simp
  next
    case (8 i) then show ?case using W(8) [of i] q by simp
  next
    case (9 i) then show ?case using W(9) [of i] old by simp
  qed (use W(2,3,4) b(2,3) in simp_all)
  with eq that show ?thesis by auto
qed

lemma receive_seq_wf:
  assumes "tracker_wf t" and "tr_state t = Ready" and "smap_find (tr_entries t) q = Some e" and "te_sends e \<noteq> 0"
  shows "tracker_wf (receive_seq t q)"
proof -
  obtain b where "receive_seq t q = t\<lparr>tr_received := (tr_received t)[unat q := True],
      tr_entries := smap_assign q (e\<lparr>te_received := True\<rparr>) (tr_entries t), tr_base := b\<rparr>"
    "window_ok (receive_seq t q)"
    using receive_seq_spec [OF assms] by blast
  with assms tracker_wfD [OF assms(1)] show ?thesis
    by (simp add: tracker_wf_def smap.inv_assign)
qed

text \<open>The tracker after a valid result of the command \<open>q\<close>, before the rollover test.\<close>

definition complete_seq :: "command_tracker \<Rightarrow> u8 \<Rightarrow> command_tracker" where
  "complete_seq t q = (let t = receive_seq t q
     in t\<lparr>tr_completed := (tr_completed t)[unat q := True], tr_entries := smap_erase q (tr_entries t)\<rparr>)"

lemma complete_seq_spec:
  assumes wf: "tracker_wf t" and ready: "tr_state t = Ready"
    and e: "smap_find (tr_entries t) q = Some e" and sent: "te_sends e \<noteq> 0"
  shows "tracker_wf (complete_seq t q)" and "tr_state (complete_seq t q) = Ready"
    and "tr_session (complete_seq t q) = tr_session t" and "tr_next (complete_seq t q) = tr_next t"
    and "set (tr_entries (complete_seq t q)) = {(k, v) \<in> set (tr_entries t). k \<noteq> q}"
    and "tr_completed (complete_seq t q) = (tr_completed t)[unat q := True]"
    and "tr_types (complete_seq t q) = tr_types t"
proof -
  note wfD = tracker_wfD [OF wf]
  obtain b where r: "receive_seq t q = t\<lparr>tr_received := (tr_received t)[unat q := True],
      tr_entries := smap_assign q (e\<lparr>te_received := True\<rparr>) (tr_entries t), tr_base := b\<rparr>"
    and win: "window_ok (receive_seq t q)"
    using receive_seq_spec [OF assms] by blast
  let ?r = "receive_seq t q" and ?c = "complete_seq t q"
  have c: "?c = ?r\<lparr>tr_completed := (tr_completed t)[unat q := True], tr_entries := smap_erase q (tr_entries ?r)\<rparr>"
    by (simp add: complete_seq_def Let_def r)
  have ok: "smap_ok (tr_entries ?r)" using wfD(4) by (simp add: r smap.inv_assign)
  have found: "smap_find (tr_entries ?r) q \<noteq> None" using e wfD(4) by (simp add: r smap.lookup_assign)
  show ent: "set (tr_entries ?c) = {(k, v) \<in> set (tr_entries t). k \<noteq> q}"
    using smap.set_items_erase [OF ok, of q] smap.set_items_assign [OF wfD(4) e] by (auto simp: c r)
  show "tr_state ?c = Ready" "tr_session ?c = tr_session t" "tr_next ?c = tr_next t"
    "tr_completed ?c = (tr_completed t)[unat q := True]" "tr_types ?c = tr_types t"
    using ready by (simp_all add: c r)
  note W = window_okD [OF win]
  have keys: "fst ` set (tr_entries ?c) = fst ` set (tr_entries ?r) - {q}"
    using smap.keys_erase [OF ok, of q] by (simp add: smap.keys_def c)
  have len: "length (tr_entries ?c) \<le> 8" using smap.size_erase [OF ok found] W(4) by (simp add: c)
  have rq: "tr_received ?r ! unat q" using wfD(1) by (simp add: r)
  have entries: "entry_ok ?c k v" if "(k, v) \<in> set (tr_entries ?c)" for k v
  proof -
    have "(k, v) \<in> set (tr_entries ?r)" using that smap.set_items_erase [OF ok, of q] by (auto simp: c)
    with W(10) show ?thesis by (auto simp: entry_ok_def c)
  qed
  have "window_ok ?c"
  proof (intro window_okI, goal_cases)
    case (5 k) then show ?case using W(5) [of k] keys wfD(2)
      by (auto simp: c r nth_list_update word_unat_eq_iff)
  next
    case (9 i) then show ?case using W(9) [of i] rq by (cases "i = unat q") (auto simp: c r)
  qed (use W(1-3,6-8) len entries in \<open>simp_all add: c r\<close>)
  then show "tracker_wf ?c" using wfD ready ok by (simp add: tracker_wf_def c r smap.inv_erase)
qed

lemma assign_entry_wf:
  assumes wf: "tracker_wf t" and ready: "tr_state t = Ready"
    and e: "smap_find (tr_entries t) q = Some e" and e': "entry_ok t q e'"
  shows "tracker_wf (t\<lparr>tr_entries := smap_assign q e' (tr_entries t)\<rparr>)"
proof -
  note wfD = tracker_wfD [OF wf]
  let ?t = "t\<lparr>tr_entries := smap_assign q e' (tr_entries t)\<rparr>"
  have win: "window_ok t" using wfD(7) ready by simp
  note W = window_okD [OF win]
  have keys: "fst ` set (tr_entries ?t) = fst ` set (tr_entries t)"
    using smap.keys_assign [OF wfD(4)] by (simp add: smap.keys_def)
  have "entry_ok ?t k v" if "(k, v) \<in> set (tr_entries ?t)" for k v
    using smap.assign_itemD [OF wfD(4) e, of k v e'] that e' W(10) [of k v]
    by (auto simp: entry_ok_def split: if_splits)
  moreover have "length (tr_entries ?t) \<le> 8" using W(4) by (simp add: smap_assign_def)
  ultimately have "window_ok ?t"
    using W(1-3,5-9) keys by (intro window_okI) simp_all
  with wfD ready show ?thesis by (simp add: tracker_wf_def smap.inv_assign)
qed

lemma unat_Suc_u32: "unat (x :: u32) < 4294967295 \<Longrightarrow> unat (x + 1) = Suc (unat x)"
  by (simp add: unat_word_ariths)

lemma onWritten_wf:
  assumes wf: "tracker_wf t"
  shows "tracker_wf (snd (onWritten t send ok now))"
proof -
  note wfD = tracker_wfD [OF wf]
  have opened: "tracker_wf (t\<lparr>tr_open_pending := False, tr_open_sends := tr_open_sends t + 1, tr_open_sent_at := now\<rparr>)"
    if "tr_state t = Opening" "tr_open_pending t"
    using wfD that by (auto simp: tracker_wf_def opening_ok_def unat_Suc_u32 word_unat_eq_iff)
  have failed: "tracker_wf (t\<lparr>tr_open_pending := False, tr_state := Failed\<rparr>)" if "tr_state t = Opening"
    using wfD that by (auto simp: tracker_wf_def)
  have written: "tracker_wf (t\<lparr>tr_entries := smap_assign q
      (e\<lparr>te_pending := False, te_sends := te_sends e + 1, te_sent_at := now\<rparr>) (tr_entries t)\<rparr>)"
    if "tr_state t = Ready" "smap_find (tr_entries t) q = Some e" "te_pending e" "\<not> te_received e" for q e
  proof (rule assign_entry_wf [OF wf that(1,2)])
    have "(q, e) \<in> set (tr_entries t)" using smap.lookup_Some_iff [OF wfD(4)] that(2) by blast
    then have ok: "entry_ok t q e" using window_okD(10) wfD(7) that(1) by blast
    then have s: "unat (te_sends e + 1) = Suc (unat (te_sends e))"
      using that(3) by (intro unat_Suc_u32) (simp add: entry_ok_def)
    then have "te_sends e + 1 \<noteq> 0" by (metis nat.distinct(1) unat_0)
    with ok s that(3,4) show "entry_ok t q (e\<lparr>te_pending := False, te_sends := te_sends e + 1, te_sent_at := now\<rparr>)"
      by (simp add: entry_ok_def)
  qed
  show ?thesis
    unfolding onWritten_def Let_def
    using wf opened failed written abort_session_wf [OF wf] by (auto split: option.split)
qed

lemma ready_wf:
  assumes wf: "tracker_wf t" and "tr_state t = Opening"
  shows "tracker_wf (t\<lparr>tr_state := Ready, tr_open_pending := False\<rparr>)"
proof -
  note wfD = tracker_wfD [OF wf]
  have "opening_ok t" "tr_entries t = []" using wfD assms(2) by auto
  then have "window_ok (t\<lparr>tr_state := Ready, tr_open_pending := False\<rparr>)"
    by (simp add: window_ok_def opening_ok_def)
  with wfD show ?thesis by (simp add: tracker_wf_def)
qed

lemma onOpenAck_wf:
  assumes wf: "tracker_wf t"
  shows "tracker_wf (snd (onOpenAck t p now))"
proof -
  note wfD = tracker_wfD [OF wf]
  have retry: "tracker_wf (t\<lparr>tr_session := s, tr_open_pending := True\<rparr>)"
    if "tr_state t = Opening" "unat (tr_open_sends t) \<le> EDGE_MAX_RETRY" for s
    using wfD that by (auto simp: tracker_wf_def opening_ok_def)
  have failed: "tracker_wf (t\<lparr>tr_state := Failed\<rparr>)" if "tr_state t = Opening"
    using wfD that by (auto simp: tracker_wf_def)
  show ?thesis
    unfolding onOpenAck_def Let_def using wf retry failed ready_wf [OF wf] by auto
qed

lemma onResult_eq:
  assumes "length p \<ge> 11" and "p ! 9 = tr_types t ! unat (p ! 8)" and "resultValid (p ! 9) p"
    and "\<not> tr_completed t ! unat (p ! 8)" and "smap_find (tr_entries t) (p ! 8) = Some e" and "te_sends e \<noteq> 0"
  shows "onResult t p now = rollover (complete_seq t (p ! 8)) now
    \<lparr>ta_send = [resultAck (complete_seq t (p ! 8)) (p ! 8)],
     ta_finished = [\<lparr>cc_seq = p ! 8, cc_type = te_type e, cc_result = drop 10 p, cc_error = []\<rparr>]\<rparr>"
  using assms by (simp add: onResult_def complete_seq_def Let_def push_send_def push_finished_def no_actions_def)

lemma onResult_cases:
  obtains (ignored) "onResult t p now = (no_actions, t)"
  | (repeated) "onResult t p now = (push_send (resultAck t (p ! 8)) no_actions, t)" "tr_completed t ! unat (p ! 8)"
  | (completed) e where "length p \<ge> 11" "p ! 9 = tr_types t ! unat (p ! 8)" "resultValid (p ! 9) p"
      "\<not> tr_completed t ! unat (p ! 8)" "smap_find (tr_entries t) (p ! 8) = Some e" "te_sends e \<noteq> 0"
  by (fastforce simp: onResult_def Let_def split: if_splits option.splits)

lemma onResult_wf:
  assumes "tracker_wf t" and "tr_state t = Ready"
  shows "tracker_wf (snd (onResult t p now))"
  using onResult_cases [of t p now]
proof cases
  case (completed e)
  with complete_seq_spec(1) [OF assms completed(5,6)] show ?thesis
    by (simp add: onResult_eq rollover_wf)
qed (use assms in auto)

lemma onFrame_wf:
  assumes "tracker_wf t"
  shows "tracker_wf (snd (onFrame t type p now))"
  unfolding onFrame_def
  using assms onOpenAck_wf [OF assms] onResult_wf [OF assms] receive_seq_wf [OF assms]
  by (auto split: option.split)

lemma resend_loop_eq:
  "resend_loop t now es a =
    (a\<lparr>ta_send := ta_send a @ map (\<lambda>(q, e). dataSend t q e) (filter (\<lambda>(q, e). needs_resend now e) es)\<rparr>,
     map (\<lambda>(q, e). (q, if needs_resend now e then e\<lparr>te_pending := True\<rparr> else e)) es)"
  by (induction t now es a rule: resend_loop.induct)
    (simp_all add: push_send_def dataSend_def Let_def)

lemma resend_loop_wf:
  assumes wf: "tracker_wf t" and ready: "tr_state t = Ready"
    and fine: "find (\<lambda>(q, e). entry_expired now e) (tr_entries t) = None"
  shows "tracker_wf (t\<lparr>tr_entries := snd (resend_loop t now (tr_entries t) a)\<rparr>)"
proof -
  note wfD = tracker_wfD [OF wf]
  let ?es = "map (\<lambda>(q, e). (q, if needs_resend now e then e\<lparr>te_pending := True\<rparr> else e)) (tr_entries t)"
  let ?t = "t\<lparr>tr_entries := ?es\<rparr>"
  note W = window_okD [OF wfD(7) [OF ready]]
  have fst: "map fst ?es = map fst (tr_entries t)" by auto
  then have keys: "fst ` set ?es = fst ` set (tr_entries t)" by (metis list.set_map)
  have "entry_ok ?t k v" if "(k, v) \<in> set ?es" for k v
  proof -
    from that obtain e where e: "(k, e) \<in> set (tr_entries t)"
      "v = (if needs_resend now e then e\<lparr>te_pending := True\<rparr> else e)" by auto
    have "\<not> entry_expired now e" using fine e(1) by (auto simp: find_None_iff)
    with W(10) [OF e(1)] e(2) show ?thesis
      by (auto simp: entry_ok_def entry_expired_def needs_resend_def)
  qed
  then have "window_ok ?t" using W(1-9) keys by (intro window_okI) simp_all
  moreover have "smap_ok ?es" using wfD(4) unfolding smap_ok_def fst .
  ultimately show ?thesis using wfD ready by (simp add: tracker_wf_def resend_loop_eq)
qed

lemma tracker_tick_wf:
  assumes wf: "tracker_wf t"
  shows "tracker_wf (snd (tracker_tick t now))"
proof -
  note wfD = tracker_wfD [OF wf]
  have failed: "tracker_wf (t\<lparr>tr_state := Failed\<rparr>)" if "tr_state t = Opening"
    using wfD that by (auto simp: tracker_wf_def)
  have retry: "tracker_wf (t\<lparr>tr_open_pending := True\<rparr>)"
    if "tr_state t = Opening" "unat (tr_open_sends t) \<le> EDGE_MAX_RETRY"
    using wfD that by (auto simp: tracker_wf_def opening_ok_def)
  show ?thesis
    unfolding tracker_tick_def Let_def
    using wf failed retry resend_loop_wf [OF wf, of now no_actions] abort_session_wf [OF wf]
    by (auto simp: case_prod_beta split: option.split)
qed

end
