(* ===== verification/Tracker_History.thy ===== *)
theory Tracker_History
  imports Command_Tracker Lts
begin

text \<open>
  Whole runs of the gateway's sender. Every call is a sequence of steps of a small specification
  (hand out a number, complete one command, end the session with everything in flight, or change
  nothing that matters), labelled with what the caller sees: commands accepted, commands
  completed, frames queued for the serial line.
\<close>

subsection \<open>Calls and events\<close>

datatype tracker_call =
    CStart u64 time_point
  | CSubmit u8 "u8 list" time_point
  | CFrame u8 "u8 list" time_point
  | CWritten command_send bool time_point
  | CTick time_point

datatype tracker_event =
    Accepted u64 u8 u8 "u8 list"
  | Completed u64 command_completion
  | Queued command_send

definition action_events :: "u64 \<Rightarrow> tracker_actions \<Rightarrow> tracker_event list" where
  "action_events s a = map (Completed s) (ta_finished a) @ map Queued (ta_send a)"

definition tracker_apply :: "command_tracker \<Rightarrow> tracker_call \<Rightarrow> tracker_event list \<times> command_tracker" where
  "tracker_apply t c =
    (case c of
       CStart s now \<Rightarrow> (let (a, t') = start t s now in (action_events (tr_session t) a, t'))
     | CSubmit type args now \<Rightarrow>
         (case submit t type args now of
            (None, t') \<Rightarrow> ([], t')
          | (Some send, t') \<Rightarrow> ([Accepted (tr_session t) (cs_seq send) type args, Queued send], t'))
     | CFrame type p now \<Rightarrow> (let (a, t') = onFrame t type p now in (action_events (tr_session t) a, t'))
     | CWritten send ok now \<Rightarrow> (let (a, t') = onWritten t send ok now in (action_events (tr_session t) a, t'))
     | CTick now \<Rightarrow> (let (a, t') = tracker_tick t now in (action_events (tr_session t) a, t')))"

fun tracker_run :: "command_tracker \<Rightarrow> tracker_call list \<Rightarrow> tracker_event list \<times> command_tracker" where
  "tracker_run t [] = ([], t)"
| "tracker_run t (c # cs) =
    (let (evs, t) = tracker_apply t c; (evs', t) = tracker_run t cs in (evs @ evs', t))"

lemma tracker_apply_wf: "tracker_wf t \<Longrightarrow> tracker_wf (snd (tracker_apply t c))"
  using start_wf [of t] submit_wf [of t] onFrame_wf [of t] onWritten_wf [of t] tracker_tick_wf [of t]
  by (cases c) (auto simp: tracker_apply_def case_prod_beta split: option.split prod.split)

lemma tracker_run_wf: "tracker_wf t \<Longrightarrow> tracker_wf (snd (tracker_run t cs))"
  by (induction cs arbitrary: t) (auto simp: Let_def case_prod_beta tracker_apply_wf)

subsection \<open>Frames the sender builds\<close>

definition command_payload :: "u64 \<Rightarrow> u8 \<Rightarrow> u8 \<Rightarrow> u8 list \<Rightarrow> u8 list" where
  "command_payload s q type args = u64_bytes s @ [q, type] @ args"

lemma write_replicate: "edge_u64_be_write (replicate (8 + m) 0) 0 v = u64_bytes v @ replicate m 0"
  by (simp add: edge_u64_be_write_eq [of _ 0 m])

lemma dataSend_payload: "cs_payload (dataSend t q e) = command_payload (tr_session t) q (te_type e) (te_args e)"
  using write_replicate [of 2 "tr_session t"]
  by (simp add: dataSend_def command_payload_def list_update_append numeral_2_eq_2)

lemma openSend_payload: "cs_payload (openSend t) = u64_bytes (tr_session t)"
  using write_replicate [of 0 "tr_session t"] by (simp add: openSend_def)

lemma resultAck_payload: "cs_payload (resultAck t q) = u64_bytes (tr_session t) @ [q]"
  using write_replicate [of 1 "tr_session t"] by (simp add: resultAck_def list_update_append)

text \<open>What a queued frame may be, in a tracker: an OPEN or RESULT_ACK, or a command in flight.\<close>

definition command_data :: "command_tracker \<Rightarrow> (u8 \<times> u8 \<times> u8 list) list" where
  "command_data t = map (\<lambda>(q, e). (q, te_type e, te_args e)) (tr_entries t)"

definition good_send :: "command_tracker \<Rightarrow> command_send \<Rightarrow> bool" where
  "good_send t s \<longleftrightarrow> cs_session s = tr_session t \<and>
     (cs_type s = EDGE_TYPE_SR_OPEN \<and> cs_payload s = u64_bytes (tr_session t) \<or>
      cs_type s = EDGE_TYPE_SR_RESULT_ACK \<and> cs_payload s = u64_bytes (tr_session t) @ [cs_seq s] \<or>
      cs_type s = EDGE_TYPE_SR_COMMAND \<and>
        (\<exists>type args. (cs_seq s, type, args) \<in> set (command_data t) \<and>
           cs_payload s = command_payload (tr_session t) (cs_seq s) type args))"

subsection \<open>Specification steps\<close>

inductive tk_step :: "tracker_call \<Rightarrow> command_tracker \<Rightarrow> tracker_event list \<Rightarrow> command_tracker \<Rightarrow> bool" where
  tk_same:
    "tr_session t' = tr_session t \<Longrightarrow> tr_next t' = tr_next t \<Longrightarrow> command_data t' = command_data t \<Longrightarrow>
     \<forall>s\<in>set ss. good_send t' s \<Longrightarrow> tk_step c t (map Queued ss) t'"
| tk_submit:
    "unat (tr_next t) < 256 \<Longrightarrow> q = ucast (tr_next t) \<Longrightarrow> tr_session t' = tr_session t \<Longrightarrow>
     tr_next t' = tr_next t + 1 \<Longrightarrow> set (command_data t') = insert (q, type, args) (set (command_data t)) \<Longrightarrow>
     distinct (map fst (command_data t')) \<Longrightarrow> good_send t' send \<Longrightarrow>
     tk_step c t [Accepted (tr_session t) q type args, Queued send] t'"
| tk_complete:
    "c = CFrame EDGE_TYPE_SR_RESULT p now \<Longrightarrow> edge_u64_be_read p 0 = tr_session t \<Longrightarrow>
     (p ! 8, p ! 9, args) \<in> set (command_data t) \<Longrightarrow> resultValid (p ! 9) p \<Longrightarrow> length p \<le> EDGE_PAYLOAD_MAX \<Longrightarrow>
     tr_session t' = tr_session t \<Longrightarrow> tr_next t' = tr_next t \<Longrightarrow>
     set (command_data t') = {d \<in> set (command_data t). fst d \<noteq> p ! 8} \<Longrightarrow>
     distinct (map fst (command_data t')) \<Longrightarrow> good_send t' send \<Longrightarrow>
     cs_type send = EDGE_TYPE_SR_RESULT_ACK \<Longrightarrow>
     tk_step c t [Completed (tr_session t)
        \<lparr>cc_seq = p ! 8, cc_type = p ! 9, cc_result = drop 10 p, cc_error = []\<rparr>, Queued send] t'"
| tk_reset:
    "fin = map (\<lambda>(q, type, args). \<lparr>cc_seq = q, cc_type = type, cc_result = [], cc_error = reason q\<rparr>) (command_data t) \<Longrightarrow>
     \<forall>q. reason q \<noteq> [] \<Longrightarrow> command_data t' = [] \<Longrightarrow>
     tr_session t < tr_session t' \<and> tr_next t' = 0 \<or>
       tr_session t' = tr_session t \<and> tr_next t' = tr_next t \<and> tr_state t' = Failed \<Longrightarrow>
     \<forall>s\<in>set ss. good_send t' s \<Longrightarrow>
     tk_step c t (map (Completed (tr_session t)) fin @ map Queued ss) t'"

abbreviation tk_steps :: "tracker_call \<Rightarrow> command_tracker \<Rightarrow> tracker_event list \<Rightarrow> command_tracker \<Rightarrow> bool" where
  "tk_steps c \<equiv> lts_steps (tk_step c)"

subsection \<open>The code takes only these steps\<close>

lemma less_plus_one_u64: "(s :: u64) \<noteq> - 1 \<Longrightarrow> s < s + 1"
proof -
  assume "s \<noteq> - 1"
  have "unat (- 1 :: u64) = 2 ^ 64 - 1" by (simp add: unsigned_minus_1_eq_mask mask_eq_exp_minus_1)
  moreover have "unat s \<noteq> unat (- 1 :: u64)" using \<open>s \<noteq> - 1\<close> by (metis word_unat_eq_iff)
  moreover have "unat s < 2 ^ 64" using unsigned_less [of s] by simp
  ultimately have "unat s + 1 < 2 ^ 64" by linarith
  then show ?thesis by (simp add: word_less_nat_alt unat_word_ariths)
qed

lemma good_openSend: "good_send t (openSend t)"
  by (simp add: good_send_def openSend_payload) (simp add: openSend_def)

lemma good_resultAck: "good_send t (resultAck t q)"
  by (simp add: good_send_def resultAck_payload) (simp add: resultAck_def)

lemma good_dataSend: "(q, e) \<in> set (tr_entries t) \<Longrightarrow> good_send t (dataSend t q e)"
proof -
  assume "(q, e) \<in> set (tr_entries t)"
  then have "(q, te_type e, te_args e) \<in> set (command_data t)" by (force simp: command_data_def)
  moreover have "cs_seq (dataSend t q e) = q" "cs_session (dataSend t q e) = tr_session t"
    "cs_type (dataSend t q e) = EDGE_TYPE_SR_COMMAND" by (simp_all add: dataSend_def)
  ultimately show ?thesis unfolding good_send_def dataSend_payload by auto
qed

lemma finish_entries_eq:
  "finish_entries r t = \<lparr>ta_send = [], ta_finished =
     map (\<lambda>(q, type, args). \<lparr>cc_seq = q, cc_type = type, cc_result = [], cc_error = r q\<rparr>) (command_data t)\<rparr>"
proof -
  have "foldl (\<lambda>a (seq, e). push_finished \<lparr>cc_seq = seq, cc_type = te_type e, cc_result = [], cc_error = r seq\<rparr> a) a es =
      a\<lparr>ta_finished := ta_finished a @ map (\<lambda>(q, e). \<lparr>cc_seq = q, cc_type = te_type e, cc_result = [], cc_error = r q\<rparr>) es\<rparr>"
    for a and es :: "(u8, tracker_entry) smap"
    by (induction es arbitrary: a) (auto simp: push_finished_def)
  then show ?thesis by (simp add: finish_entries_def no_actions_def command_data_def comp_def case_prod_beta)
qed

lemma begin_session_spec:
  assumes "tr_entries t = []"
  obtains ss t' where "begin_session t s now a = (a\<lparr>ta_send := ta_send a @ ss\<rparr>, t')"
    "command_data t' = []" "\<forall>x\<in>set ss. good_send t' x"
    "tr_session t < tr_session t' \<and> tr_next t' = 0 \<or> tr_session t' = tr_session t \<and> tr_next t' = tr_next t \<and> tr_state t' = Failed"
proof (cases "s \<le> tr_session t \<and> tr_session t = - 1")
  case True
  then have "begin_session t s now a = (a\<lparr>ta_send := ta_send a @ []\<rparr>, t\<lparr>tr_state := Failed\<rparr>)"
    by (simp add: begin_session_def)
  with assms show ?thesis by (intro that [of "[]" "t\<lparr>tr_state := Failed\<rparr>"]) (auto simp: command_data_def)
next
  case False
  let ?s = "if s \<le> tr_session t then tr_session t + 1 else s"
  let ?t = "t\<lparr>tr_session := ?s, tr_base := 0, tr_next := 0, tr_received := replicate 256 False,
    tr_completed := replicate 256 False, tr_types := replicate 256 0, tr_opening_at := now, tr_open_sends := 0,
    tr_open_pending := True, tr_state := Opening\<rparr>"
  have "begin_session t s now a = (a\<lparr>ta_send := ta_send a @ [openSend ?t]\<rparr>, ?t)"
    unfolding begin_session_def Let_def if_not_P [OF False] by (simp only: push_send_def)
  moreover have "tr_session t < ?s" using False less_plus_one_u64 by (auto simp: not_le)
  ultimately show ?thesis using assms good_openSend
    by (intro that [of "[openSend ?t]" ?t]) (auto simp: command_data_def)
qed

lemma reset_steps:
  assumes "\<forall>q. reason q \<noteq> []"
  shows "tk_step c t
    (action_events (tr_session t) (fst (begin_session (t\<lparr>tr_entries := []\<rparr>) s now (finish_entries reason t))))
    (snd (begin_session (t\<lparr>tr_entries := []\<rparr>) s now (finish_entries reason t)))"
proof -
  obtain ss t' where b: "begin_session (t\<lparr>tr_entries := []\<rparr>) s now (finish_entries reason t) =
      ((finish_entries reason t)\<lparr>ta_send := ta_send (finish_entries reason t) @ ss\<rparr>, t')"
    "command_data t' = []" "\<forall>x\<in>set ss. good_send t' x"
    "tr_session t < tr_session t' \<and> tr_next t' = 0 \<or> tr_session t' = tr_session t \<and> tr_next t' = tr_next t \<and> tr_state t' = Failed"
    using begin_session_spec [of "t\<lparr>tr_entries := []\<rparr>" s now "finish_entries reason t"] by auto
  have "tk_step c t (map (Completed (tr_session t)) (ta_finished (finish_entries reason t)) @ map Queued ss) t'"
    using assms b by (intro tk_reset) (auto simp: finish_entries_eq)
  with b(1) show ?thesis by (simp add: action_events_def finish_entries_eq)
qed

lemma rollover_steps:
  "case rollover t now a of (a', t') \<Rightarrow> \<exists>evs. tk_steps c t evs t' \<and>
     action_events s a' = action_events s a @ evs"
proof (cases "unat (tr_next t) = 256 \<and> tr_entries t = []")
  case False
  then show ?thesis using steps_refl [of "tk_step c" t] by (auto simp: rollover_def)
next
  case True
  obtain ss t' where b: "begin_session t (tr_session t) now a = (a\<lparr>ta_send := ta_send a @ ss\<rparr>, t')"
    "command_data t' = []" "\<forall>x\<in>set ss. good_send t' x"
    "tr_session t < tr_session t' \<and> tr_next t' = 0 \<or> tr_session t' = tr_session t \<and> tr_next t' = tr_next t \<and> tr_state t' = Failed"
    using begin_session_spec True by blast
  have "tk_step c t (map (Completed (tr_session t)) [] @ map Queued ss) t'"
    using b True by (intro tk_reset [of _ "\<lambda>q. ''x''"]) (auto simp: command_data_def)
  then have "tk_steps c t (map Queued ss) t'" using steps_single [of "tk_step c"] by simp
  with b(1) True show ?thesis by (auto simp: rollover_def action_events_def)
qed

lemma same_steps:
  assumes "tr_session t' = tr_session t" "tr_next t' = tr_next t" "command_data t' = command_data t"
    and "ta_finished a = []" "\<forall>s\<in>set (ta_send a). good_send t' s"
  shows "tk_steps c t (action_events (tr_session t) a) t'"
  using steps_single [of "tk_step c", OF tk_same [OF assms(1-3,5)]] assms(4) by (simp add: action_events_def)

definition refines_call :: "tracker_call \<Rightarrow> command_tracker \<Rightarrow> tracker_actions \<times> command_tracker \<Rightarrow> bool" where
  "refines_call c t r \<longleftrightarrow> tk_steps c t (action_events (tr_session t) (fst r)) (snd r)"

lemma refines_same:
  assumes "tr_session t' = tr_session t" "tr_next t' = tr_next t" "command_data t' = command_data t"
    and "ta_finished a = []" "\<forall>s\<in>set (ta_send a). good_send t' s"
  shows "refines_call c t (a, t')"
  using same_steps [OF assms] by (simp add: refines_call_def)

lemma no_actions_simps [simp]: "ta_send no_actions = []" "ta_finished no_actions = []"
  by (simp_all add: no_actions_def)

lemma push_send_simps [simp]:
  "ta_send (push_send s a) = ta_send a @ [s]" "ta_finished (push_send s a) = ta_finished a"
  by (simp_all add: push_send_def)

lemma refines_silent_call:
  "tr_session t' = tr_session t \<Longrightarrow> tr_next t' = tr_next t \<Longrightarrow> command_data t' = command_data t \<Longrightarrow>
   refines_call c t (no_actions, t')"
  by (rule refines_same) simp_all

lemma refines_nothing: "refines_call c t (no_actions, t)"
  by (rule refines_silent_call) simp_all

lemma abort_refines: "r \<noteq> [] \<Longrightarrow> refines_call c t (abort_session t q r now)"
  unfolding refines_call_def abort_session_def Let_def
  by (rule steps_single [of "tk_step c"], rule reset_steps) auto

lemma start_refines: "refines_call c t (start t s now)"
  unfolding refines_call_def start_def Let_def
  by (rule steps_single [of "tk_step c"], rule reset_steps) auto

lemma command_data_assign:
  assumes "smap_ok (tr_entries t)" and "smap_find (tr_entries t) q = Some e"
    and "te_type e' = te_type e" "te_args e' = te_args e"
  shows "map (\<lambda>(q, e). (q, te_type e, te_args e)) (smap_assign q e' (tr_entries t)) = command_data t"
proof -
  have "v = e" if "(q, v) \<in> set (tr_entries t)" for v
    using that assms(2) smap.lookup_Some_iff [OF assms(1), of q v] by simp
  with assms(3,4) show ?thesis by (auto simp: smap_assign_def command_data_def)
qed

lemma command_data_distinct: "tracker_wf t \<Longrightarrow> distinct (map fst (command_data t))"
  using smap.distinct_keys [OF tracker_wfD(4)] by (simp add: command_data_def comp_def case_prod_beta)

lemma receive_refines:
  assumes "tracker_wf t" "tr_state t = Ready" "smap_find (tr_entries t) q = Some e" "te_sends e \<noteq> 0"
  shows "refines_call c t (no_actions, receive_seq t q)"
proof -
  obtain b where "receive_seq t q = t\<lparr>tr_received := (tr_received t)[unat q := True],
      tr_entries := smap_assign q (e\<lparr>te_received := True\<rparr>) (tr_entries t), tr_base := b\<rparr>"
    using receive_seq_spec [OF assms] by blast
  with command_data_assign [OF tracker_wfD(4) [OF assms(1)] assms(3)] show ?thesis
    by (intro refines_silent_call) (auto simp: command_data_def)
qed

lemma onWritten_refines:
  assumes wf: "tracker_wf t"
  shows "refines_call c t (onWritten t send ok now)"
proof -
  have "command_data (t\<lparr>tr_entries := smap_assign q (e\<lparr>te_pending := False, te_sends := n, te_sent_at := now\<rparr>) (tr_entries t)\<rparr>) =
      command_data t" if "smap_find (tr_entries t) q = Some e" for q e n
    using command_data_assign [OF tracker_wfD(4) [OF wf] that] by (simp add: command_data_def)
  then show ?thesis
    unfolding onWritten_def Let_def
    by (auto intro!: refines_silent_call abort_refines simp: command_data_def split: option.split)
qed

lemma onOpenAck_refines:
  assumes wf: "tracker_wf t"
  shows "refines_call c t (onOpenAck t p now)"
proof -
  have bump: "refines_call c t (push_send (openSend t') no_actions, t')"
    if "tr_state t = Opening" "tr_session t \<le> hw" "hw \<noteq> - 1" "t' = t\<lparr>tr_session := hw + 1, tr_open_pending := True\<rparr>" for hw t'
  proof -
    have "tr_entries t = []" "tr_next t = 0" using tracker_wfD(5,6) [OF wf] that(1) by (auto simp: opening_ok_def)
    moreover have "tr_session t < hw + 1" using that(2) less_plus_one_u64 [OF that(3)] by (rule order.strict_trans1)
    ultimately have "tk_step c t (map (Completed (tr_session t)) [] @ map Queued [openSend t']) t'"
      using that(4) good_openSend by (intro tk_reset [of _ "\<lambda>q. ''x''"]) (auto simp: command_data_def)
    then show ?thesis using steps_single [of "tk_step c"] by (simp add: refines_call_def action_events_def)
  qed
  show ?thesis
    unfolding onOpenAck_def Let_def
    by (auto intro!: refines_silent_call bump simp: command_data_def)
qed

lemma onResult_refines:
  assumes wf: "tracker_wf t" and ready: "tr_state t = Ready"
    and c: "c = CFrame EDGE_TYPE_SR_RESULT p now" and s: "edge_u64_be_read p 0 = tr_session t" "length p \<le> EDGE_PAYLOAD_MAX"
  shows "refines_call c t (onResult t p now)"
  using onResult_cases [of t p now]
proof cases
  case ignored
  then show ?thesis by (simp add: refines_nothing)
next
  case repeated
  then show ?thesis using good_resultAck by (auto intro!: refines_same)
next
  case (completed e)
  let ?t = "complete_seq t (p ! 8)"
  let ?a = "\<lparr>ta_send = [resultAck ?t (p ! 8)],
     ta_finished = [\<lparr>cc_seq = p ! 8, cc_type = te_type e, cc_result = drop 10 p, cc_error = []\<rparr>]\<rparr>"
  note cs = complete_seq_spec [OF wf ready completed(5,6)]
  have mem: "(p ! 8, e) \<in> set (tr_entries t)"
    using smap.lookup_Some_iff [OF tracker_wfD(4) [OF wf]] completed(5) by blast
  then have type: "te_type e = p ! 9"
    using window_okD(10) [OF tracker_wfD(7) [OF wf ready]] completed(2) by (auto simp: entry_ok_def)
  have "(p ! 8, p ! 9, te_args e) \<in> set (command_data t)" using mem type by (force simp: command_data_def)
  moreover have "set (command_data ?t) = {d \<in> set (command_data t). fst d \<noteq> p ! 8}"
    using cs(5) by (auto simp: command_data_def)
  moreover have "cs_type (resultAck ?t (p ! 8)) = EDGE_TYPE_SR_RESULT_ACK" by (simp add: resultAck_def)
  ultimately have step: "tk_step c t (action_events (tr_session t) ?a) ?t"
    using tk_complete [OF c s(1) _ completed(3) s(2) cs(3,4) _ command_data_distinct [OF cs(1)] good_resultAck] type
    by (simp add: action_events_def)
  have "\<exists>evs. tk_steps c ?t evs (snd (rollover ?t now ?a)) \<and>
      action_events (tr_session t) (fst (rollover ?t now ?a)) = action_events (tr_session t) ?a @ evs"
    using rollover_steps [where t = ?t and now = now and a = ?a and c = c and s = "tr_session t"] by (simp add: case_prod_beta)
  then show ?thesis
    using steps_step [of "tk_step c", OF step] onResult_eq [OF completed]
    by (auto simp: refines_call_def)
qed

lemma onFrame_refines:
  assumes wf: "tracker_wf t"
  shows "refines_call (CFrame type p now) t (onFrame t type p now)"
  unfolding onFrame_def
  using refines_nothing onOpenAck_refines [OF wf] onResult_refines [OF wf] receive_refines [OF wf]
  by (auto split: option.split)

lemma submit_steps:
  assumes wf: "tracker_wf t"
  shows "tk_steps (CSubmit type args now) t (fst (tracker_apply t (CSubmit type args now)))
    (snd (tracker_apply t (CSubmit type args now)))"
proof (cases "canSubmit t \<and> length args \<le> EDGE_SR_ARGS_MAX")
  case False
  then have "submit t type args now = (None, t)" by (auto simp: submit_def)
  then show ?thesis by (simp add: tracker_apply_def steps_refl)
next
  case True
  let ?e = "fresh_entry type args now" and ?q = "ucast (tr_next t) :: u8"
  let ?t = "t\<lparr>tr_next := tr_next t + 1, tr_entries := smap_emplace ?q ?e (tr_entries t),
     tr_types := (tr_types t)[unat ?q := type]\<rparr>"
  note acc = submit_accept [OF wf, of args]
  have s: "submit t type args now = (Some (dataSend ?t ?q ?e), ?t)" and none: "smap_find (tr_entries t) ?q = None"
    using acc True by auto
  have items: "set (tr_entries ?t) = insert (?q, ?e) (set (tr_entries t))"
    using smap.set_items_emplace [OF tracker_wfD(4) [OF wf] none] by simp
  have wf': "tracker_wf ?t" using submit_wf [OF wf, of type args now] s by simp
  have "tk_step (CSubmit type args now) t [Accepted (tr_session t) ?q type args, Queued (dataSend ?t ?q ?e)] ?t"
  proof (rule tk_submit)
    show "set (command_data ?t) = insert (?q, type, args) (set (command_data t))"
      using items by (auto simp: command_data_def fresh_entry_def)
    show "good_send ?t (dataSend ?t ?q ?e)" using items by (intro good_dataSend) auto
  qed (use True command_data_distinct [OF wf'] in \<open>auto simp: canSubmit_def\<close>)
  then show ?thesis
    using s steps_single [of "tk_step (CSubmit type args now)"] by (simp add: tracker_apply_def dataSend_def)
qed

lemma tracker_tick_refines:
  assumes wf: "tracker_wf t"
  shows "refines_call c t (tracker_tick t now)"
proof -
  let ?r = "resend_loop t now (tr_entries t) no_actions"
  have "refines_call c t (fst ?r, t\<lparr>tr_entries := snd ?r\<rparr>)"
  proof (rule refines_same)
    let ?t = "t\<lparr>tr_entries := snd ?r\<rparr>"
    show data: "command_data ?t = command_data t"
      by (auto simp: command_data_def resend_loop_eq)
    have "good_send t (dataSend t q e)" if "(q, e) \<in> set (tr_entries t)" for q e
      using that by (rule good_dataSend)
    moreover have "good_send ?t s = good_send t s" for s using data by (simp add: good_send_def)
    ultimately show "\<forall>s\<in>set (ta_send (fst ?r)). good_send ?t s" by (auto simp: resend_loop_eq)
  qed (simp_all add: resend_loop_eq)
  moreover have "good_send t' (openSend t')" for t' by (rule good_openSend)
  ultimately show ?thesis
    unfolding tracker_tick_def Let_def
    by (auto intro!: refines_silent_call abort_refines refines_same
        simp: command_data_def case_prod_beta split: option.split)
qed

lemma tracker_apply_refines:
  assumes "tracker_wf t"
  shows "tk_steps c t (fst (tracker_apply t c)) (snd (tracker_apply t c))"
proof (cases c)
  case (CSubmit type args now)
  with submit_steps [OF assms] show ?thesis by simp
qed (use start_refines [of c t] onFrame_refines [OF assms] onWritten_refines [OF assms, of c]
    tracker_tick_refines [OF assms, of c] in
    \<open>simp_all add: tracker_apply_def refines_call_def case_prod_beta\<close>)

subsection \<open>The history invariant\<close>

definition accepted_seqs :: "u64 \<Rightarrow> tracker_event list \<Rightarrow> u8 list" where
  "accepted_seqs s H = concat (map (\<lambda>ev. case ev of Accepted s' q ty args \<Rightarrow> if s' = s then [q] else [] | _ \<Rightarrow> []) H)"

definition completed_keys :: "tracker_event list \<Rightarrow> (u64 \<times> u8) list" where
  "completed_keys H = concat (map (\<lambda>ev. case ev of Completed s c \<Rightarrow> [(s, cc_seq c)] | _ \<Rightarrow> []) H)"

lemma accepted_seqs_simps [simp]:
  "accepted_seqs s [] = []" "accepted_seqs s (H @ H') = accepted_seqs s H @ accepted_seqs s H'"
  "accepted_seqs s (Accepted s' q ty args # H) = (if s' = s then [q] else []) @ accepted_seqs s H"
  "accepted_seqs s (Completed s' c # H) = accepted_seqs s H"
  "accepted_seqs s (Queued x # H) = accepted_seqs s H"
  "accepted_seqs s (map Queued ss) = []" "accepted_seqs s (map (Completed s') cs) = []"
  by (simp_all add: accepted_seqs_def)

lemma completed_keys_simps [simp]:
  "completed_keys [] = []" "completed_keys (H @ H') = completed_keys H @ completed_keys H'"
  "completed_keys (Accepted s' q ty args # H) = completed_keys H"
  "completed_keys (Completed s' c # H) = (s', cc_seq c) # completed_keys H"
  "completed_keys (Queued x # H) = completed_keys H"
  "completed_keys (map Queued ss) = []"
  "completed_keys (map (Completed s') cs) = map (\<lambda>c. (s', cc_seq c)) cs"
  by (simp_all add: completed_keys_def comp_def)

definition t_order_ok :: "tracker_event list \<Rightarrow> command_tracker \<Rightarrow> bool" where
  "t_order_ok H t \<longleftrightarrow> unat (tr_next t) \<le> 256 \<and>
     accepted_seqs (tr_session t) H = map of_nat [0..<unat (tr_next t)] \<and>
     (\<forall>s>tr_session t. accepted_seqs s H = []) \<and>
     (\<forall>s<tr_session t. \<exists>k\<le>256. accepted_seqs s H = map of_nat [0..<k])"

definition t_complete_ok :: "tracker_event list \<Rightarrow> command_tracker \<Rightarrow> bool" where
  "t_complete_ok H t \<longleftrightarrow> distinct (map fst (command_data t)) \<and> distinct (completed_keys H) \<and>
     (\<forall>s q ty args. Accepted s q ty args \<in> set H \<longrightarrow>
        ((s, q) \<notin> set (completed_keys H) \<longleftrightarrow> s = tr_session t \<and> (q, ty, args) \<in> set (command_data t))) \<and>
     (\<forall>q ty args. (q, ty, args) \<in> set (command_data t) \<longrightarrow> Accepted (tr_session t) q ty args \<in> set H) \<and>
     (\<forall>s c. Completed s c \<in> set H \<longrightarrow> (\<exists>args. Accepted s (cc_seq c) (cc_type c) args \<in> set H))"

definition t_sends_ok :: "tracker_event list \<Rightarrow> bool" where
  "t_sends_ok H \<longleftrightarrow> (\<forall>x. Queued x \<in> set H \<longrightarrow> cs_type x = EDGE_TYPE_SR_COMMAND \<longrightarrow>
     (\<exists>ty args. Accepted (cs_session x) (cs_seq x) ty args \<in> set H \<and>
        cs_payload x = command_payload (cs_session x) (cs_seq x) ty args))"

definition t_success_ok :: "tracker_call list \<Rightarrow> tracker_event list \<Rightarrow> bool" where
  "t_success_ok C H \<longleftrightarrow> (\<forall>s c. Completed s c \<in> set H \<longrightarrow> cc_error c = [] \<longrightarrow>
     (\<exists>p now. CFrame EDGE_TYPE_SR_RESULT p now \<in> set C \<and> length p \<le> EDGE_PAYLOAD_MAX \<and>
        edge_u64_be_read p 0 = s \<and> p ! 8 = cc_seq c \<and> p ! 9 = cc_type c \<and>
        resultValid (p ! 9) p \<and> cc_result c = drop 10 p))"

definition thist_ok :: "tracker_call list \<Rightarrow> tracker_event list \<Rightarrow> command_tracker \<Rightarrow> bool" where
  "thist_ok C H t \<longleftrightarrow> t_order_ok H t \<and> t_complete_ok H t \<and> t_sends_ok H \<and> t_success_ok C H"

lemma t_complete_okI:
  assumes "distinct (map fst (command_data t))" "distinct (completed_keys H)"
    "\<And>s q ty args. Accepted s q ty args \<in> set H \<Longrightarrow>
       (s, q) \<notin> set (completed_keys H) \<longleftrightarrow> s = tr_session t \<and> (q, ty, args) \<in> set (command_data t)"
    "\<And>q ty args. (q, ty, args) \<in> set (command_data t) \<Longrightarrow> Accepted (tr_session t) q ty args \<in> set H"
    "\<And>s c. Completed s c \<in> set H \<Longrightarrow> \<exists>args. Accepted s (cc_seq c) (cc_type c) args \<in> set H"
  shows "t_complete_ok H t"
  using assms unfolding t_complete_ok_def by blast

lemma t_complete_okD:
  assumes "t_complete_ok H t"
  shows "distinct (map fst (command_data t))" "distinct (completed_keys H)"
    "Accepted s q ty args \<in> set H \<Longrightarrow>
       (s, q) \<notin> set (completed_keys H) \<longleftrightarrow> s = tr_session t \<and> (q, ty, args) \<in> set (command_data t)"
    "(q, ty, args) \<in> set (command_data t) \<Longrightarrow> Accepted (tr_session t) q ty args \<in> set H"
    "Completed s c \<in> set H \<Longrightarrow> \<exists>args. Accepted s (cc_seq c) (cc_type c) args \<in> set H"
  using assms unfolding t_complete_ok_def by blast+

lemma accepted_in_seqs: "Accepted s q ty args \<in> set H \<Longrightarrow> q \<in> set (accepted_seqs s H)"
  by (force simp: accepted_seqs_def)

lemma completed_key_iff: "(s, q) \<in> set (completed_keys H) \<longleftrightarrow> (\<exists>c. Completed s c \<in> set H \<and> cc_seq c = q)"
  by (force simp: completed_keys_def split: tracker_event.splits)

lemma completed_keyI: "Completed s c \<in> set H \<Longrightarrow> (s, cc_seq c) \<in> set (completed_keys H)"
  by (auto simp: completed_key_iff)

text \<open>A queued frame of the current tracker is a command that has been accepted.\<close>

lemma t_sends_ok_append:
  assumes "t_sends_ok H" and "t_complete_ok (H @ evs) t'" and "\<forall>x. Queued x \<in> set evs \<longrightarrow> good_send t' x"
  shows "t_sends_ok (H @ evs)"
  unfolding t_sends_ok_def
proof (intro allI impI)
  fix x
  assume x: "Queued x \<in> set (H @ evs)" "cs_type x = EDGE_TYPE_SR_COMMAND"
  show "\<exists>ty args. Accepted (cs_session x) (cs_seq x) ty args \<in> set (H @ evs) \<and>
      cs_payload x = command_payload (cs_session x) (cs_seq x) ty args"
  proof (cases "Queued x \<in> set H")
    case True
    with assms(1) x(2) show ?thesis unfolding t_sends_ok_def by (metis Un_iff set_append)
  next
    case False
    with x assms(3) have "good_send t' x" by auto
    with x(2) obtain ty args where "(cs_seq x, ty, args) \<in> set (command_data t')" "cs_session x = tr_session t'"
      "cs_payload x = command_payload (tr_session t') (cs_seq x) ty args"
      by (auto simp: good_send_def)
    with assms(2) show ?thesis unfolding t_complete_ok_def by metis
  qed
qed

lemma t_order_reset:
  assumes "t_order_ok H t"
    and "tr_session t < tr_session t' \<and> tr_next t' = 0 \<or>
      tr_session t' = tr_session t \<and> tr_next t' = tr_next t \<and> tr_state t' = Failed"
  shows "t_order_ok H t'"
proof (cases "tr_session t' = tr_session t")
  case True
  with assms show ?thesis by (auto simp: t_order_ok_def)
next
  case False
  then have lt: "tr_session t < tr_session t'" "tr_next t' = 0" using assms(2) by auto
  have "\<exists>k\<le>256. accepted_seqs s H = map of_nat [0..<k]" if "s < tr_session t'" for s
    using assms(1) unfolding t_order_ok_def
    by (metis le0 linorder_neqE list.simps(8) upt_0)
  with assms(1) lt show ?thesis by (auto simp: t_order_ok_def)
qed

lemma t_complete_same:
  assumes "t_complete_ok H t" and "tr_session t' = tr_session t" "command_data t' = command_data t"
  shows "t_complete_ok (H @ map Queued ss) t'"
proof (rule t_complete_okI, goal_cases)
  case (5 s c)
  then have "Completed s c \<in> set H" by auto
  from t_complete_okD(5) [OF assms(1) this] show ?case by auto
qed (use assms t_complete_okD [OF assms(1)] in auto)

lemma t_complete_submit:
  assumes ok: "t_complete_ok H t" and ord: "t_order_ok H t" and n: "unat (tr_next t) < 256" and q: "q = ucast (tr_next t)"
    and s: "tr_session t' = tr_session t"
    and data: "set (command_data t') = insert (q, ty, args) (set (command_data t))" "distinct (map fst (command_data t'))"
  shows "t_complete_ok (H @ [Accepted (tr_session t) q ty args, Queued x]) t'"
proof -
  have "of_nat (unat (tr_next t)) = q"
    using q n unat_ucast_next [of "tr_next t"] by (metis u8_of_nat_unat)
  have fresh: "q \<notin> set (accepted_seqs (tr_session t) H)"
  proof
    assume "q \<in> set (accepted_seqs (tr_session t) H)"
    then obtain k where k: "k < unat (tr_next t)" "q = of_nat k" using ord by (auto simp: t_order_ok_def)
    then have "unat q = k" using n by (simp add: unat_of_nat_u8)
    moreover have "unat q = unat (tr_next t)" using q n unat_ucast_next by simp
    ultimately show False using k(1) by simp
  qed
  then have new: "Accepted (tr_session t) q ty' args' \<notin> set H" for ty' args' using accepted_in_seqs by metis
  then have "(tr_session t, q) \<notin> set (completed_keys H)"
    using ok unfolding t_complete_ok_def completed_key_iff by metis
  show ?thesis
  proof (rule t_complete_okI, goal_cases)
    case (3 s' q' ty' args')
    then consider "s' = tr_session t \<and> q' = q \<and> ty' = ty \<and> args' = args" | "Accepted s' q' ty' args' \<in> set H" by auto
    then show ?case
    proof cases
      case 1
      with \<open>(tr_session t, q) \<notin> set (completed_keys H)\<close> s data show ?thesis by simp
    next
      case 2
      with new have "\<not> (s' = tr_session t \<and> q' = q)" by blast
      with t_complete_okD(3) [OF ok 2] s data show ?thesis by auto
    qed
  next
    case (5 s' c)
    then have "Completed s' c \<in> set H" by auto
    from t_complete_okD(5) [OF ok this] show ?case by auto
  qed (use s data t_complete_okD(2,4) [OF ok] in auto)
qed

lemma t_complete_one:
  assumes ok: "t_complete_ok H t" and mem: "(q, ty, args) \<in> set (command_data t)" and s: "tr_session t' = tr_session t"
    and data: "set (command_data t') = {d \<in> set (command_data t). fst d \<noteq> q}" "distinct (map fst (command_data t'))"
    and c: "cc_seq c = q" "cc_type c = ty"
  shows "t_complete_ok (H @ [Completed (tr_session t) c, Queued x]) t'"
proof -
  have acc: "Accepted (tr_session t) q ty args \<in> set H" using ok mem unfolding t_complete_ok_def by blast
  then have new: "(tr_session t, q) \<notin> set (completed_keys H)" using ok mem unfolding t_complete_ok_def by blast
  show ?thesis
  proof (rule t_complete_okI, goal_cases)
    case (3 s' q' ty' args')
    then have "Accepted s' q' ty' args' \<in> set H" by auto
    from t_complete_okD(3) [OF ok this] s data(1) c(1) show ?case by auto
  next
    case (4 q' ty' args')
    then have "(q', ty', args') \<in> set (command_data t)" using data(1) by auto
    from t_complete_okD(4) [OF ok this] s show ?case by simp
  next
    case (5 s' c')
    then consider "s' = tr_session t \<and> c' = c" | "Completed s' c' \<in> set H" by auto
    then show ?case using t_complete_okD(5) [OF ok] acc c by cases auto
  qed (use data(2) c(1) new t_complete_okD(2) [OF ok] in auto)
qed

lemma t_complete_reset:
  assumes ok: "t_complete_ok H t" and none: "command_data t' = []"
    and fin: "fin = map (\<lambda>(q, ty, args). \<lparr>cc_seq = q, cc_type = ty, cc_result = [], cc_error = r q\<rparr>) (command_data t)"
  shows "t_complete_ok (H @ map (Completed (tr_session t)) fin @ map Queued ss) t'"
proof -
  let ?s = "tr_session t"
  have keys: "map (\<lambda>c. (?s, cc_seq c)) fin = map (Pair ?s) (map fst (command_data t))"
    by (auto simp: fin)
  have acc: "Accepted ?s q ty args \<in> set H" "(?s, q) \<notin> set (completed_keys H)"
    if "(q, ty, args) \<in> set (command_data t)" for q ty args
    using ok that unfolding t_complete_ok_def by blast+
  have new: "set (map (Pair ?s) (map fst (command_data t))) \<inter> set (completed_keys H) = {}"
    using acc(2) by auto
  have "distinct (map (Pair ?s) (map fst (command_data t)))"
    using t_complete_okD(1) [OF ok] by (auto simp: distinct_map inj_on_def)
  then have dist: "distinct (completed_keys (H @ map (Completed ?s) fin @ map Queued ss))"
    using t_complete_okD(2) [OF ok] new by (simp only: completed_keys_simps keys distinct_append) auto
  show ?thesis
  proof (rule t_complete_okI [OF _ dist], goal_cases)
    case (2 s' q' ty' args')
    then have "Accepted s' q' ty' args' \<in> set H" by auto
    note acc' = t_complete_okD(3) [OF ok this]
    have "(s', q') \<in> set (completed_keys H) \<or> (s', q') \<in> set (map (Pair ?s) (map fst (command_data t)))"
      using acc' by force
    then have "(s', q') \<in> set (completed_keys (H @ map (Completed ?s) fin @ map Queued ss))"
      by (simp only: completed_keys_simps keys set_append) auto
    with none show ?case by simp
  next
    case (4 s' c')
    then consider "s' = ?s \<and> c' \<in> set fin" | "Completed s' c' \<in> set H" by auto
    then show ?case
    proof cases
      case 1
      then obtain args where "(cc_seq c', cc_type c', args) \<in> set (command_data t)" by (auto simp: fin)
      from acc(1) [OF this] 1 show ?thesis by auto
    next
      case 2
      from t_complete_okD(5) [OF ok this] show ?thesis by auto
    qed
  qed (use none in auto)
qed

lemma thist_step:
  assumes "tk_step c t evs t'" and ok: "thist_ok C H t" and c: "c \<in> set C"
  shows "thist_ok C (H @ evs) t'"
proof -
  have ord: "t_order_ok H t" and com: "t_complete_ok H t" and snd: "t_sends_ok H" and suc: "t_success_ok C H"
    using ok by (auto simp: thist_ok_def)
  have suc': "t_success_ok C (H @ evs)"
    if "\<And>s c'. Completed s c' \<in> set evs \<Longrightarrow> cc_error c' \<noteq> []"
    using suc that unfolding t_success_ok_def by auto
  show ?thesis
    using assms(1)
  proof (cases rule: tk_step.cases)
    case (tk_same ss)
    have com': "t_complete_ok (H @ evs) t'" using t_complete_same [OF com] tk_same by simp
    moreover have "t_order_ok (H @ evs) t'" using ord tk_same by (simp add: t_order_ok_def)
    moreover have "t_sends_ok (H @ evs)" using tk_same by (intro t_sends_ok_append [OF snd com']) auto
    ultimately show ?thesis using suc' tk_same by (auto simp: thist_ok_def)
  next
    case (tk_submit q ty args send)
    have com': "t_complete_ok (H @ evs) t'" using t_complete_submit [OF com ord] tk_submit by simp
    moreover have "t_order_ok (H @ evs) t'"
    proof -
      have "unat (tr_next t + 1) = Suc (unat (tr_next t))" using tk_submit(2) by (intro unat_Suc_u16) simp
      moreover have "q = of_nat (unat (tr_next t))"
        using tk_submit(2,3) unat_ucast_next [of "tr_next t"] by (metis u8_of_nat_unat)
      ultimately show ?thesis using ord tk_submit by (simp add: t_order_ok_def)
    qed
    moreover have "t_sends_ok (H @ evs)" using tk_submit by (intro t_sends_ok_append [OF snd com']) auto
    ultimately show ?thesis using suc' tk_submit by (auto simp: thist_ok_def)
  next
    case (tk_complete p now args send)
    have com': "t_complete_ok (H @ evs) t'"
      using t_complete_one [OF com tk_complete(4)] tk_complete by simp
    moreover have "t_order_ok (H @ evs) t'" using ord tk_complete by (simp add: t_order_ok_def)
    moreover have "t_sends_ok (H @ evs)" using tk_complete by (intro t_sends_ok_append [OF snd com']) auto
    moreover have "t_success_ok C (H @ evs)"
      using suc c tk_complete unfolding t_success_ok_def by auto
    ultimately show ?thesis by (simp add: thist_ok_def)
  next
    case (tk_reset fin r ss)
    have com': "t_complete_ok (H @ evs) t'" using t_complete_reset [OF com tk_reset(4,2)] tk_reset(1) by simp
    moreover have "t_order_ok H t'" by (rule t_order_reset [OF ord tk_reset(5)])
    then have "t_order_ok (H @ evs) t'" using tk_reset(1) by (simp add: t_order_ok_def)
    moreover have "t_sends_ok (H @ evs)" using tk_reset by (intro t_sends_ok_append [OF snd com']) auto
    moreover have "t_success_ok C (H @ evs)" using tk_reset by (intro suc') auto
    ultimately show ?thesis by (simp add: thist_ok_def)
  qed
qed

lemma thist_mono: "thist_ok C H t \<Longrightarrow> set C \<subseteq> set C' \<Longrightarrow> thist_ok C' H t"
  unfolding thist_ok_def t_success_ok_def by blast

lemma thist_call:
  assumes "tracker_wf t" and "thist_ok C H t" and "c \<in> set C"
  shows "thist_ok C (H @ fst (tracker_apply t c)) (snd (tracker_apply t c))"
  using steps_invariant [of "tk_step c", OF tracker_apply_refines [OF assms(1)],
      where P = "\<lambda>evs t. thist_ok C (H @ evs) t"] assms(2,3) thist_step [of c _ _ _ C]
  by (metis append.assoc append_Nil2)

lemma thist_run:
  assumes "tracker_wf t" and "thist_ok C H t"
  shows "thist_ok (C @ cs) (H @ fst (tracker_run t cs)) (snd (tracker_run t cs))"
  using assms
proof (induction cs arbitrary: t C H)
  case (Cons c cs)
  let ?r = "tracker_apply t c"
  have "thist_ok (C @ [c]) (H @ fst ?r) (snd ?r)"
    using Cons.prems(1) thist_mono [OF Cons.prems(2), of "C @ [c]"] by (intro thist_call) auto
  from Cons.IH [OF tracker_apply_wf [OF Cons.prems(1)] this] show ?case
    by (simp add: Let_def case_prod_beta)
qed simp

lemma thist_new: "thist_ok cs (fst (tracker_run new_tracker cs)) (snd (tracker_run new_tracker cs))"
proof -
  have "thist_ok [] [] new_tracker"
    by (simp add: thist_ok_def t_order_ok_def t_complete_ok_def t_sends_ok_def t_success_ok_def
        new_tracker_def command_data_def)
  from thist_run [OF new_tracker_wf this, of cs] show ?thesis by simp
qed

subsection \<open>Properties\<close>

text \<open>
  C15. The sender's invariant, after any sequence of calls: the arrays keep their sizes; in a ready session the
  base is at most the next number and at most eight below it, everything left of the base is received, and the base itself is
  not while it lies left of the next number; at most eight commands are in flight and they are exactly the numbers handed out and
  not completed - a command left of the base may be among them, received and waiting for its result - each transmitted at most
  four times. Outside a ready session nothing is in flight, and a handshake has an empty window and at most four transmissions of OPEN.
\<close>

theorem tracker_invariant: "tracker_wf (snd (tracker_run new_tracker calls))"
  by (rule tracker_run_wf [OF new_tracker_wf])

text \<open>
  C11. Every accepted command is completed exactly once or still in flight: after any sequence of
  calls no command (identified by session and number) has been completed twice, only accepted
  commands have been completed, and an accepted command has not been completed exactly if it is
  in flight in the current session.
\<close>

theorem accepted_commands_complete_exactly_once:
  fixes calls :: "tracker_call list"
  defines "H \<equiv> fst (tracker_run new_tracker calls)"
  defines "t \<equiv> snd (tracker_run new_tracker calls)"
  shows "distinct (completed_keys H) \<and>
    (\<forall>s q ty args. Accepted s q ty args \<in> set H \<longrightarrow>
       ((s, q) \<notin> set (completed_keys H)) = (s = tr_session t \<and> q \<in> fst ` set (tr_entries t))) \<and>
    (\<forall>s c. Completed s c \<in> set H \<longrightarrow> (\<exists>args. Accepted s (cc_seq c) (cc_type c) args \<in> set H))"
proof -
  have ok: "t_complete_ok H t" and ord: "t_order_ok H t"
    using thist_new [of calls] by (auto simp: thist_ok_def H_def t_def)
  have in_flight: "(s, q) \<notin> set (completed_keys H) \<longleftrightarrow> s = tr_session t \<and> q \<in> fst ` set (tr_entries t)"
    if acc: "Accepted s q ty args \<in> set H" for s q ty args
  proof
    assume "(s, q) \<notin> set (completed_keys H)"
    then show "s = tr_session t \<and> q \<in> fst ` set (tr_entries t)"
      using t_complete_okD(3) [OF ok acc] by (force simp: command_data_def)
  next
    assume r: "s = tr_session t \<and> q \<in> fst ` set (tr_entries t)"
    then obtain ty' args' where d: "(q, ty', args') \<in> set (command_data t)" by (force simp: command_data_def)
    from t_complete_okD(3) [OF ok t_complete_okD(4) [OF ok this]] d r show "(s, q) \<notin> set (completed_keys H)" by simp
  qed
  with t_complete_okD(2,5) [OF ok] show ?thesis by blast
qed

text \<open>
  Success means a result: a command is completed without an error only because a RESULT frame
  of its session, number and command type arrived whose result code and length are valid for that
  command, and the completion carries exactly the result bytes of the frame.
\<close>

theorem success_only_from_valid_result:
  assumes "Completed s c \<in> set (fst (tracker_run new_tracker calls))" and "cc_error c = []"
  shows "\<exists>p now. CFrame EDGE_TYPE_SR_RESULT p now \<in> set calls \<and>
    edge_u64_be_read p 0 = s \<and> p ! 8 = cc_seq c \<and> p ! 9 = cc_type c \<and> resultValid (cc_type c) p \<and>
    cc_result c = drop 10 p"
  using thist_new [of calls] assms unfolding thist_ok_def t_success_ok_def by metis

definition demo_calls :: "tracker_call list" where
  "demo_calls =
    [CStart 1 0,
     CWritten \<lparr>cs_type = EDGE_TYPE_SR_OPEN, cs_payload = [], cs_session = 1, cs_seq = 0, cs_attempt = 0\<rparr> True 1,
     CFrame EDGE_TYPE_SR_OPEN_ACK [0, 0, 0, 0, 0, 0, 0, 1, 0, 0, 0, 0, 0, 0, 0, 1, 0] 2,
     CSubmit EDGE_TYPE_SET_PERIOD [0, 5] 3,
     CWritten \<lparr>cs_type = EDGE_TYPE_SR_COMMAND, cs_payload = [], cs_session = 1, cs_seq = 0, cs_attempt = 0\<rparr> True 4,
     CFrame EDGE_TYPE_SR_RESULT [0, 0, 0, 0, 0, 0, 0, 1, 0, 0x22, 0] 5]"

lemma demo_calls_run:
  "filter (\<lambda>ev. case ev of Queued x \<Rightarrow> False | _ \<Rightarrow> True) (fst (tracker_run new_tracker demo_calls)) =
    [Accepted 1 0 0x22 [0, 5],
     Completed 1 \<lparr>cc_seq = 0, cc_type = 0x22, cc_result = [0], cc_error = []\<rparr>]"
  by code_simp

lemma demo_calls_completed:
  "Completed 1 \<lparr>cc_seq = 0, cc_type = 0x22, cc_result = [0], cc_error = []\<rparr>
    \<in> set (fst (tracker_run new_tracker demo_calls))"
proof -
  have "Completed 1 \<lparr>cc_seq = 0, cc_type = 0x22, cc_result = [0], cc_error = []\<rparr>
      \<in> set (filter (\<lambda>ev. case ev of Queued x \<Rightarrow> False | _ \<Rightarrow> True) (fst (tracker_run new_tracker demo_calls)))"
    unfolding demo_calls_run by simp
  then show ?thesis by simp
qed

theorem accepted_commands_complete_exactly_once_witness:
  "\<exists>args. Accepted 1 0 0x22 args \<in> set (fst (tracker_run new_tracker demo_calls)) \<and>
    (1, 0) \<in> set (completed_keys (fst (tracker_run new_tracker demo_calls))) \<and>
    \<not> (tr_session (snd (tracker_run new_tracker demo_calls)) = 1 \<and>
        0 \<in> fst ` set (tr_entries (snd (tracker_run new_tracker demo_calls))))"
proof -
  note complete = accepted_commands_complete_exactly_once [of demo_calls]
  from complete demo_calls_completed
  obtain args where acc: "Accepted 1 0 0x22 args \<in> set (fst (tracker_run new_tracker demo_calls))" by fastforce
  moreover have "(1, 0) \<in> set (completed_keys (fst (tracker_run new_tracker demo_calls)))" by code_simp
  ultimately show ?thesis using complete by (metis (no_types, lifting))
qed

theorem success_only_from_valid_result_witness:
  "\<exists>p now. CFrame EDGE_TYPE_SR_RESULT p now \<in> set demo_calls \<and> p ! 9 = 0x22 \<and> drop 10 p = [0]"
  using success_only_from_valid_result [OF demo_calls_completed] by auto

text \<open>
  Numbers are never reused: the commands accepted in one session carry the numbers 0, 1, 2, ...
  in order of submission, at most 256 of them.
\<close>

theorem sequence_numbers_in_order:
  "\<exists>k\<le>256. accepted_seqs s (fst (tracker_run new_tracker calls)) = map of_nat [0..<k]"
proof -
  let ?H = "fst (tracker_run new_tracker calls)" and ?t = "snd (tracker_run new_tracker calls)"
  have ord: "t_order_ok ?H ?t" using thist_new [of calls] by (simp add: thist_ok_def)
  consider "s = tr_session ?t" | "s < tr_session ?t" | "tr_session ?t < s" by (metis linorder_neqE)
  then show ?thesis
  proof cases
    case 1
    with ord show ?thesis by (auto simp: t_order_ok_def)
  next
    case 3
    with ord have "accepted_seqs s ?H = map of_nat [0..<0]" by (auto simp: t_order_ok_def)
    then show ?thesis by blast
  qed (use ord in \<open>auto simp: t_order_ok_def\<close>)
qed

lemma tk_step_session: "tk_step c t evs t' \<Longrightarrow> tr_session t \<le> tr_session t'"
  by (cases rule: tk_step.cases) auto

lemma tk_steps_session: "tk_steps c t evs t' \<Longrightarrow> tr_session t \<le> tr_session t'"
  by (induction rule: lts_steps.induct) (auto dest: tk_step_session)

lemma begin_session_ends:
  "tr_session t < tr_session (snd (begin_session t s now a)) \<or> tr_state (snd (begin_session t s now a)) = Failed"
  using less_plus_one_u64 [of "tr_session t"] by (auto simp: begin_session_def Let_def)

lemma abort_ends:
  "tr_session t < tr_session (snd (abort_session t q r now)) \<or> tr_state (snd (abort_session t q r now)) = Failed"
  using begin_session_ends [of "t\<lparr>tr_entries := []\<rparr>"] by (simp add: abort_session_def Let_def)

lemma start_ends:
  "tr_session t < tr_session (snd (start t s now)) \<or> tr_state (snd (start t s now)) = Failed"
  using begin_session_ends [of "t\<lparr>tr_entries := []\<rparr>"] by (simp add: start_def Let_def)

lemma begin_session_finished: "ta_finished (fst (begin_session t s now a)) = ta_finished a"
  by (simp add: begin_session_def Let_def)

lemma onResult_no_error: "\<forall>x\<in>set (ta_finished (fst (onResult t p now))). cc_error x = []"
  using onResult_cases [of t p now]
  by cases (auto simp: onResult_eq rollover_def begin_session_finished split: if_splits)

lemma onFrame_no_error: "\<forall>x\<in>set (ta_finished (fst (onFrame t type p now))). cc_error x = []"
  using onResult_no_error [of t p now]
  by (auto simp: onFrame_def onOpenAck_def Let_def split: option.splits)

text \<open>
  Sessions only grow: no call ever lowers the session, and whenever commands in flight are
  given up (completed with an error) the session is replaced by a strictly larger one or, at the
  largest 64-bit session, the tracker has failed; so a late frame of a given-up command never
  matches the session again.
\<close>

theorem given_up_commands_end_the_session:
  fixes t :: command_tracker and c :: tracker_call
  assumes "tracker_wf t"
  defines "t' \<equiv> snd (tracker_apply t c)"
  shows "tr_session t \<le> tr_session t' \<and>
    ((\<exists>s x. Completed s x \<in> set (fst (tracker_apply t c)) \<and> cc_error x \<noteq> []) \<longrightarrow>
       tr_session t < tr_session t' \<or> tr_state t' = Failed)"
proof
  show "tr_session t \<le> tr_session t'"
    using tk_steps_session [OF tracker_apply_refines [OF assms(1)]] by (simp add: t'_def)
  show "(\<exists>s x. Completed s x \<in> set (fst (tracker_apply t c)) \<and> cc_error x \<noteq> []) \<longrightarrow>
      tr_session t < tr_session t' \<or> tr_state t' = Failed"
  proof (cases c)
    case (CStart s now)
    then show ?thesis using start_ends [of t s now] by (simp add: t'_def tracker_apply_def case_prod_beta)
  next
    case (CSubmit ty args now)
    then show ?thesis by (auto simp: tracker_apply_def split: prod.splits option.splits)
  next
    case (CFrame ty p now)
    then show ?thesis using onFrame_no_error [of t ty p now]
      by (auto simp: tracker_apply_def case_prod_beta action_events_def)
  next
    case (CWritten x ok now)
    then show ?thesis using abort_ends [of t]
      by (auto simp: t'_def tracker_apply_def case_prod_beta action_events_def onWritten_def Let_def
          split: if_splits option.splits)
  next
    case (CTick now)
    then show ?thesis using abort_ends [of t]
      by (auto simp: t'_def tracker_apply_def case_prod_beta action_events_def tracker_tick_def Let_def
          resend_loop_eq split: if_splits option.splits)
  qed
qed

theorem given_up_commands_end_the_session_witness:
  "tr_session new_tracker \<le> tr_session (snd (tracker_apply new_tracker (CStart 1 0)))"
  using given_up_commands_end_the_session [OF new_tracker_wf] by blast

text \<open>
  C16. Deadlines: after a tick every command in flight is younger than ten seconds, every command
  in flight whose reception is not confirmed is younger than four seconds, and a handshake still
  in progress has been running for less than four seconds.
\<close>

theorem tick_enforces_deadlines:
  fixes now :: time_point
  assumes "tracker_wf t"
  defines "t' \<equiv> snd (tracker_tick t now)"
  shows "(\<forall>(q, e)\<in>set (tr_entries t'). now - te_queued_at e < Ms 10000 \<and>
      (te_received e \<or> now - te_queued_at e < Ms 4000)) \<and>
    (tr_state t' = Opening \<longrightarrow> now - tr_opening_at t' < Ms 4000)"
proof -
  have young: "now - te_queued_at e < Ms 10000 \<and> (te_received e \<or> now - te_queued_at e < Ms 4000)"
    if "find (\<lambda>(q, e). entry_expired now e) (tr_entries t) = None" "(q, e) \<in> set (tr_entries t)" for q e
    using that by (fastforce simp: find_None_iff entry_expired_def not_le)
  have "tr_entries (snd (abort_session t q r now)) = []"
    "tr_state (snd (abort_session t q r now)) = Opening \<Longrightarrow> tr_opening_at (snd (abort_session t q r now)) = now" for q r
    by (auto simp: abort_session_def begin_session_def Let_def)
  note aborted = this
  show ?thesis
  proof (cases "tr_state t = Ready")
    case False
    with tracker_wfD(5) [OF assms(1)] show ?thesis
      by (auto simp: t'_def tracker_tick_def Let_def Ms_def)
  next
    case True
    show ?thesis
    proof (cases "find (\<lambda>(q, e). entry_expired now e) (tr_entries t)")
      case None
      have t': "t' = t\<lparr>tr_entries := map (\<lambda>(q, e). (q, if needs_resend now e then e\<lparr>te_pending := True\<rparr> else e)) (tr_entries t)\<rparr>"
        using True None by (simp add: t'_def tracker_tick_def Let_def resend_loop_eq)
      have "now - te_queued_at e < Ms 10000 \<and> (te_received e \<or> now - te_queued_at e < Ms 4000)"
        if e: "(q, e) \<in> set (tr_entries t')" for q e
      proof -
        from e obtain d where d: "(q, d) \<in> set (tr_entries t)" "e = (if needs_resend now d then d\<lparr>te_pending := True\<rparr> else d)"
          by (auto simp: t')
        from young [OF None d(1)] d(2) show ?thesis by simp
      qed
      moreover have "tr_state t' = Ready" using True by (simp add: t')
      ultimately show ?thesis by auto
    next
      case (Some x)
      with True aborted show ?thesis by (cases x) (simp add: t'_def tracker_tick_def Ms_def)
    qed
  qed
qed

theorem tick_enforces_deadlines_witness:
  "tr_state (snd (tracker_tick (new_tracker\<lparr>tr_state := Opening, tr_open_pending := True\<rparr>) (Ms 4000))) \<noteq> Opening"
proof -
  let ?t = "new_tracker\<lparr>tr_state := Opening, tr_open_pending := True\<rparr>"
  have "tracker_wf ?t" by (simp add: tracker_wf_def opening_ok_def new_tracker_def smap_ok_def)
  moreover have "tr_state (snd (tracker_tick ?t (Ms 4000))) = Opening \<Longrightarrow>
      tr_opening_at (snd (tracker_tick ?t (Ms 4000))) = 0"
    by (simp add: tracker_tick_def new_tracker_def Let_def)
  ultimately show ?thesis using tick_enforces_deadlines [of ?t "Ms 4000"] by auto
qed

end
