(* ===== verification/Command_Link.thy ===== *)
theory Command_Link
  imports Tracker_History Edge_Sr_History
begin

text \<open>
  The command link end to end: the gateway's sender and the node's receiver over a serial line
  that may lose, delay, repeat and reorder frames. Whether a frame survives the line is decided by
  the frame parser; here any frame that one side has queued may reach the other any number of
  times, or never.
\<close>

subsection \<open>Joint runs\<close>

definition is_frame_call :: "tracker_call \<Rightarrow> bool" where
  "is_frame_call c \<longleftrightarrow> (\<exists>ty p now. c = CFrame ty p now)"

definition sr_uplink :: "u8 \<Rightarrow> bool" where
  "sr_uplink ty \<longleftrightarrow> ty = EDGE_TYPE_SR_RECEIVED \<or> ty = EDGE_TYPE_SR_RESULT \<or> ty = EDGE_TYPE_SR_OPEN_ACK"

inductive joint ::
    "'u edge_sr_hooks_t \<Rightarrow> edge_sr_node_t \<Rightarrow> 'u \<Rightarrow> tracker_call list \<Rightarrow> sr_input list \<Rightarrow> bool"
  for h m u where
  joint_nil: "joint h m u [] []"
| gateway_acts: "joint h m u C I \<Longrightarrow> \<not> is_frame_call c \<Longrightarrow> joint h m u (C @ [c]) I"
| gateway_hears: "joint h m u C I \<Longrightarrow> (s, Sent ty p) \<in> set (sr_history h (edge_sr_node_init m) u I) \<Longrightarrow>
    joint h m u (C @ [CFrame ty p now]) I"
| gateway_hears_other: "joint h m u C I \<Longrightarrow> \<not> sr_uplink ty \<Longrightarrow> joint h m u (C @ [CFrame ty p now]) I"
| node_ticks: "joint h m u C I \<Longrightarrow> joint h m u C (I @ [Tick])"
| node_hears: "joint h m u C I \<Longrightarrow> Queued x \<in> set (fst (tracker_run new_tracker C)) \<Longrightarrow>
    joint h m u C (I @ [FrameIn (cs_type x) (Some (cs_payload x))])"

lemma sr_history_grows: "set (sr_history h n u I) \<subseteq> set (sr_history h n u (I @ J))"
proof (induction I arbitrary: n u)
  case (Cons inp I)
  show ?case using Cons by (fastforce simp: Let_def split: prod.splits)
qed simp

lemma tracker_run_grows: "set (fst (tracker_run t C)) \<subseteq> set (fst (tracker_run t (C @ D)))"
proof (induction C arbitrary: t)
  case (Cons c C)
  show ?case using Cons by (fastforce simp: Let_def case_prod_beta)
qed simp

text \<open>What the gateway has heard from the receiver the receiver has sent, and conversely.\<close>

lemma joint_heard:
  assumes "joint h m u C I"
  shows "CFrame EDGE_TYPE_SR_RESULT p now \<in> set C \<Longrightarrow>
      \<exists>s. (s, Sent EDGE_TYPE_SR_RESULT p) \<in> set (sr_history h (edge_sr_node_init m) u I)"
    and "FrameIn EDGE_TYPE_SR_COMMAND (Some p) \<in> set I \<Longrightarrow>
      \<exists>x. Queued x \<in> set (fst (tracker_run new_tracker C)) \<and> cs_type x = EDGE_TYPE_SR_COMMAND \<and> cs_payload x = p"
proof -
  have "(\<forall>p now. CFrame EDGE_TYPE_SR_RESULT p now \<in> set C \<longrightarrow>
      (\<exists>s. (s, Sent EDGE_TYPE_SR_RESULT p) \<in> set (sr_history h (edge_sr_node_init m) u I))) \<and>
    (\<forall>p. FrameIn EDGE_TYPE_SR_COMMAND (Some p) \<in> set I \<longrightarrow>
      (\<exists>x. Queued x \<in> set (fst (tracker_run new_tracker C)) \<and> cs_type x = EDGE_TYPE_SR_COMMAND \<and> cs_payload x = p))"
    using assms
  proof induction
    case (gateway_acts C I c)
    then show ?case
      using tracker_run_grows [of new_tracker C "[c]"] by (auto simp: is_frame_call_def) blast+
  next
    case (gateway_hears C I s ty p now)
    then show ?case
      using tracker_run_grows [of new_tracker C "[CFrame ty p now]"] by auto blast+
  next
    case (gateway_hears_other C I ty p now)
    then show ?case
      using tracker_run_grows [of new_tracker C "[CFrame ty p now]"] by (auto simp: sr_uplink_def) blast+
  next
    case (node_ticks C I)
    then show ?case
      using sr_history_grows [of h "edge_sr_node_init m" u I "[Tick]"] by auto blast+
  next
    case (node_hears C I x)
    then show ?case
      using sr_history_grows [of h "edge_sr_node_init m" u I "[FrameIn (cs_type x) (Some (cs_payload x))]"]
      by auto blast+
  qed simp
  then show "CFrame EDGE_TYPE_SR_RESULT p now \<in> set C \<Longrightarrow>
      \<exists>s. (s, Sent EDGE_TYPE_SR_RESULT p) \<in> set (sr_history h (edge_sr_node_init m) u I)"
    and "FrameIn EDGE_TYPE_SR_COMMAND (Some p) \<in> set I \<Longrightarrow>
      \<exists>x. Queued x \<in> set (fst (tracker_run new_tracker C)) \<and> cs_type x = EDGE_TYPE_SR_COMMAND \<and> cs_payload x = p"
    by blast+
qed

lemma command_payload_fields:
  "edge_u64_be_read (command_payload s q ty args) 0 = s" "command_payload s q ty args ! 8 = q"
  "command_payload s q ty args ! 9 = ty" "drop 10 (command_payload s q ty args) = args"
  using edge_u64_be_read_bytes [of "[]" s "[q, ty] @ args"]
  by (simp_all add: command_payload_def nth_append)

lemma executed_was_accepted:
  assumes "joint h m u C I" and "hooks_ok h" and "node_memory_ok m"
    and "(s, Executed q ty args) \<in> set (sr_history h (edge_sr_node_init m) u I)"
  shows "Accepted s q ty args \<in> set (fst (tracker_run new_tracker C))"
proof -
  let ?H = "fst (tracker_run new_tracker C)"
  obtain n where "hist_ok I (sr_history h (edge_sr_node_init m) u I) n"
    using init_history [OF assms(2,3)] by blast
  then have "(s, q, ty, args) \<in> asked I" using assms(4) unfolding hist_ok_def content_ok_def by blast
  then obtain inp where "inp \<in> set I" "command_of inp = Some (s, q, ty, args)" by (auto simp: asked_def)
  from command_ofD [OF this(2)] this(1) obtain pl where "FrameIn EDGE_TYPE_SR_COMMAND (Some pl) \<in> set I"
    and pl: "edge_u64_be_read pl 0 = s" "pl ! 8 = q" "pl ! 9 = ty" "drop 10 pl = args" by blast
  from joint_heard(2) [OF assms(1) this(1)] obtain x where x: "Queued x \<in> set ?H"
    "cs_type x = EDGE_TYPE_SR_COMMAND" "cs_payload x = pl" by blast
  have "t_sends_ok ?H" using thist_new [of C] by (simp add: thist_ok_def)
  with x(1,2) obtain ty' args' where acc: "Accepted (cs_session x) (cs_seq x) ty' args' \<in> set ?H"
    "cs_payload x = command_payload (cs_session x) (cs_seq x) ty' args'"
    unfolding t_sends_ok_def by blast
  with x(3) pl show ?thesis by (auto simp: command_payload_fields)
qed

lemma success_was_executed:
  assumes "joint h m u C I" and "hooks_ok h" and "node_memory_ok m"
    and "Completed s c \<in> set (fst (tracker_run new_tracker C))" and "cc_error c = []"
  shows "\<exists>args p. (s, Executed (cc_seq c) (cc_type c) args) \<in> set (sr_history h (edge_sr_node_init m) u I) \<and>
    (s, Sent EDGE_TYPE_SR_RESULT p) \<in> set (sr_history h (edge_sr_node_init m) u I) \<and>
    p ! 8 = cc_seq c \<and> cc_result c = drop 10 p"
proof -
  let ?N = "sr_history h (edge_sr_node_init m) u I"
  have "t_success_ok C (fst (tracker_run new_tracker C))" using thist_new [of C] by (simp add: thist_ok_def)
  with assms(4,5) obtain p now where p: "CFrame EDGE_TYPE_SR_RESULT p now \<in> set C" "edge_u64_be_read p 0 = s"
    "p ! 8 = cc_seq c" "p ! 9 = cc_type c" "cc_result c = drop 10 p"
    unfolding t_success_ok_def by blast
  from joint_heard(1) [OF assms(1) p(1)] obtain s' where s': "(s', Sent EDGE_TYPE_SR_RESULT p) \<in> set ?N" by blast
  obtain n where "hist_ok I ?N n" using init_history [OF assms(2,3)] by blast
  with s' have "s' = s" "\<exists>a. (s', Executed (p ! 8) (p ! 9) a) \<in> set ?N"
    using p(2) unfolding hist_ok_def results_ok_def by blast+
  with s' p show ?thesis by auto
qed

lemma filter_eq_distinct: "distinct xs \<Longrightarrow> x \<in> set xs \<Longrightarrow> filter ((=) x) xs = [x]"
  by (induction xs) (auto simp: filter_empty_conv)

lemma distinct_of_nat_u8:
  assumes "k \<le> 256"
  shows "distinct (map (of_nat :: nat \<Rightarrow> u8) [0..<k])"
proof -
  have "inj_on (of_nat :: nat \<Rightarrow> u8) {0..<k}"
  proof (rule inj_onI)
    fix i j
    assume "i \<in> {0..<k}" "j \<in> {0..<k}" "(of_nat i :: u8) = of_nat j"
    with assms show "i = j" by (metis atLeastLessThan_iff order_less_le_trans unat_of_nat_u8)
  qed
  then show ?thesis by (simp add: distinct_map)
qed

lemma executed_once:
  assumes "hooks_ok h" and "node_memory_ok m"
    and "(s, Executed q ty args) \<in> set (sr_history h (edge_sr_node_init m) u I)"
  shows "filter ((=) q) (executed_seqs s (sr_history h (edge_sr_node_init m) u I)) = [q]"
proof -
  let ?N = "sr_history h (edge_sr_node_init m) u I"
  obtain n where n: "node_wf n" "hist_ok I ?N n" using init_history [OF assms(1,2)] by blast
  have "\<exists>k\<le>256. executed_seqs s ?N = map of_nat [0..<k]"
    using n node_wfD(2) [OF n(1)] executed_in_seqs [OF assms(3)] unfolding hist_ok_def order_ok_def
    by (metis empty_iff linorder_neqE list.set(1))
  then have "distinct (executed_seqs s ?N)" using distinct_of_nat_u8 by auto
  then show ?thesis using executed_in_seqs [OF assms(3)] by (rule filter_eq_distinct)
qed

subsection \<open>A concrete run\<close>

definition link_calls :: "tracker_call list" where
  "link_calls = demo_calls"

definition link_inputs :: "sr_input list" where
  "link_inputs = [FrameIn EDGE_TYPE_SR_OPEN (Some [0, 0, 0, 0, 0, 0, 0, 1]),
     FrameIn EDGE_TYPE_SR_COMMAND (Some [0, 0, 0, 0, 0, 0, 0, 1, 0, 0x22, 0, 5])]"

lemma queued_open:
  "Queued \<lparr>cs_type = EDGE_TYPE_SR_OPEN, cs_payload = [0, 0, 0, 0, 0, 0, 0, 1], cs_session = 1, cs_seq = 0, cs_attempt = 0\<rparr>
    \<in> set (fst (tracker_run new_tracker (take 2 demo_calls)))"
  by code_simp

lemma queued_command:
  "Queued \<lparr>cs_type = EDGE_TYPE_SR_COMMAND, cs_payload = [0, 0, 0, 0, 0, 0, 0, 1, 0, 0x22, 0, 5], cs_session = 1,
      cs_seq = 0, cs_attempt = 0\<rparr> \<in> set (fst (tracker_run new_tracker (take 5 demo_calls)))"
  by code_simp

lemma link_open:
  "sr_history plain_hooks (edge_sr_node_init blank_node) () (take 1 link_inputs) =
    [(1, Sent 9 [0, 0, 0, 0, 0, 0, 0, 1, 0, 0, 0, 0, 0, 0, 0, 1, 0])]"
  by code_simp

lemma link_history:
  "sr_history plain_hooks (edge_sr_node_init blank_node) () link_inputs =
    [(1, Sent 9 [0, 0, 0, 0, 0, 0, 0, 1, 0, 0, 0, 0, 0, 0, 0, 1, 0]),
     (1, Sent 7 [0, 0, 0, 0, 0, 0, 0, 1, 0]),
     (1, Executed 0 0x22 [0, 5]),
     (1, Sent 8 [0, 0, 0, 0, 0, 0, 0, 1, 0, 0x22, 0])]"
  by code_simp

lemma link_run: "joint plain_hooks blank_node () link_calls link_inputs"
proof -
  let ?J = "joint plain_hooks blank_node ()"
  have "?J (take 1 demo_calls) []"
    using gateway_acts [OF joint_nil, of "CStart 1 0"] by (simp add: demo_calls_def is_frame_call_def)
  then have "?J (take 2 demo_calls) []"
    using gateway_acts [of plain_hooks blank_node "()" "take 1 demo_calls" "[]" "demo_calls ! 1"]
    by (simp add: demo_calls_def is_frame_call_def)
  from node_hears [OF this queued_open] have "?J (take 2 demo_calls) (take 1 link_inputs)"
    by (simp add: link_inputs_def)
  then have "?J (take 3 demo_calls) (take 1 link_inputs)"
    using gateway_hears [of plain_hooks blank_node "()" "take 2 demo_calls" "take 1 link_inputs" 1
        EDGE_TYPE_SR_OPEN_ACK "[0, 0, 0, 0, 0, 0, 0, 1, 0, 0, 0, 0, 0, 0, 0, 1, 0]" 2] link_open
    by (simp add: demo_calls_def)
  then have "?J (take 4 demo_calls) (take 1 link_inputs)"
    using gateway_acts [of plain_hooks blank_node "()" "take 3 demo_calls" "take 1 link_inputs" "demo_calls ! 3"]
    by (simp add: demo_calls_def is_frame_call_def)
  then have "?J (take 5 demo_calls) (take 1 link_inputs)"
    using gateway_acts [of plain_hooks blank_node "()" "take 4 demo_calls" "take 1 link_inputs" "demo_calls ! 4"]
    by (simp add: demo_calls_def is_frame_call_def)
  from node_hears [OF this queued_command] have "?J (take 5 demo_calls) link_inputs"
    by (simp add: link_inputs_def)
  then show ?thesis
    using gateway_hears [of plain_hooks blank_node "()" "take 5 demo_calls" link_inputs 1
        EDGE_TYPE_SR_RESULT "[0, 0, 0, 0, 0, 0, 0, 1, 0, 0x22, 0]" 5] link_history
    by (simp add: demo_calls_def link_calls_def)
qed

end
