(* ===== verification/Frame_Codec.thy ===== *)
theory Frame_Codec
  imports Edge_Frame
begin

text \<open>
  \<^verbatim>\<open>gateway/protocol/FrameCodec.{h,cpp}\<close>: the C++ side of the shared encoder and parser.

  \<open>buildFrame\<close> checks the size before it narrows it to a byte and lets the C encoder fill a local
  array, whose unspecified initial contents are zeros here; \<open>buildFrame_eq\<close> shows that none of
  them is returned. A \<^verbatim>\<open>FrameParser\<close> is a C parser whose \<^verbatim>\<open>user\<close> pointer is the object
  itself; the trampoline reads the handler through it, so the handler is part of the parser's context,
  beside the world \<open>'w\<close> that the handler acts on.
\<close>

record Frame =
  f_type :: u8
  f_payload :: "u8 list"

definition buildFrame :: "u8 \<Rightarrow> u8 list \<Rightarrow> u8 list" where
  "buildFrame type payload =
    (if length payload > EDGE_PAYLOAD_MAX then []
     else case edge_frame_encode type (if payload = [] then None else Some payload)
            (of_nat (length payload)) (Some (replicate EDGE_FRAME_MAX 0)) of
            (n, Some buf) \<Rightarrow> take (unat n) buf
          | (n, None) \<Rightarrow> [])"

record 'w frame_user =
  fu_on_frame :: "(Frame \<Rightarrow> 'w \<Rightarrow> 'w) option"
  fu_world :: 'w

type_synonym 'w frame_parser = "'w frame_user edge_parser_t"

definition trampoline :: "u8 \<Rightarrow> u8 list \<Rightarrow> 'w frame_user \<Rightarrow> 'w frame_user" where
  "trampoline type payload self =
    (case fu_on_frame self of
       None \<Rightarrow> self
     | Some cb \<Rightarrow> self\<lparr>fu_world := cb \<lparr>f_type = type, f_payload = payload\<rparr> (fu_world self)\<rparr>)"

text \<open>The members are value-initialised (\<^verbatim>\<open>parser_{}\<close>) and there is no handler yet.\<close>

definition new_frame_parser :: "'w \<Rightarrow> 'w frame_parser" where
  "new_frame_parser w = edge_parser_init
    \<lparr>p_state = EDGE_ST_WAIT_HDR0, p_len = 0, p_type = 0, p_payload = replicate EDGE_PAYLOAD_MAX 0,
     p_received = 0, p_crc = 0, p_crc_lo = 0, p_crc_hi = 0, p_on_frame = None,
     p_user = \<lparr>fu_on_frame = None, fu_world = w\<rparr>,
     p_stats = \<lparr>frames_ok = 0, len_err = 0, crc_err = 0, resync = 0\<rparr>\<rparr>
    (Some trampoline) \<lparr>fu_on_frame = None, fu_world = w\<rparr>"

definition setOnFrame :: "(Frame \<Rightarrow> 'w \<Rightarrow> 'w) option \<Rightarrow> 'w frame_parser \<Rightarrow> 'w frame_parser" where
  "setOnFrame cb p = p\<lparr>p_user := (p_user p)\<lparr>fu_on_frame := cb\<rparr>\<rparr>"

definition feed_byte :: "'w frame_parser \<Rightarrow> u8 \<Rightarrow> 'w frame_parser" where
  "feed_byte p byte = edge_parser_feed p byte"

definition feed :: "'w frame_parser \<Rightarrow> u8 list \<Rightarrow> 'w frame_parser" where
  "feed p buf = edge_parser_feed_buf p (Some buf)"

definition resetStream :: "'w frame_parser \<Rightarrow> 'w frame_parser" where
  "resetStream p = edge_parser_reset p"

definition stats :: "'w frame_parser \<Rightarrow> edge_parser_stats_t" where
  "stats p = p_stats p"

subsection \<open>Lemmas\<close>

lemma buildFrame_eq: "buildFrame t pl = (if length pl \<le> EDGE_PAYLOAD_MAX then wire_frame t pl else [])"
proof (cases "length pl \<le> EDGE_PAYLOAD_MAX")
  case True
  have "edge_frame_encode t (if pl = [] then None else Some pl) (of_nat (length pl)) (Some (replicate EDGE_FRAME_MAX 0)) =
      (of_nat (length pl + 6), Some (wire_frame t pl @ drop (length pl + 6) (replicate EDGE_FRAME_MAX 0)))"
    by (rule edge_frame_encode_ok [where rest = "[]"]) (use True in auto)
  moreover have "unat (of_nat (length pl + 6) :: u8) = length pl + 6"
    using True by (intro unat_of_nat_u8) simp
  ultimately show ?thesis using True by (simp add: buildFrame_def del: of_nat_add)
qed (simp add: buildFrame_def)

lemma buildFrame_empty_iff: "buildFrame t pl = [] \<longleftrightarrow> EDGE_PAYLOAD_MAX < length pl"
  by (auto simp: buildFrame_eq wire_frame_def)

lemma feed_append: "feed p (xs @ ys) = feed (feed p xs) ys"
  by (simp add: feed_def edge_parser_feed_buf_def)

lemma feed_Nil [simp]: "feed p [] = p"
  by (simp add: feed_def edge_parser_feed_buf_def)

text \<open>A parser that keeps its trampoline and a handler: what a \<^verbatim>\<open>FrameParser\<close> is between calls.\<close>

definition frame_parser_ok :: "'w frame_parser \<Rightarrow> bool" where
  "frame_parser_ok p \<longleftrightarrow> parser_wf p \<and> p_on_frame p = Some trampoline"

lemma frame_parser_ok_new: "frame_parser_ok (new_frame_parser w)"
  by (simp add: frame_parser_ok_def new_frame_parser_def parser_wf_init) (simp add: edge_parser_init_def)

lemma frame_parser_ok_setOnFrame: "frame_parser_ok p \<Longrightarrow> frame_parser_ok (setOnFrame cb p)"
  by (auto simp: frame_parser_ok_def setOnFrame_def parser_wf_def split: edge_state_t.splits)

lemma frame_parser_ok_feed: "frame_parser_ok p \<Longrightarrow> frame_parser_ok (feed p bs)"
  by (simp add: frame_parser_ok_def feed_def edge_parser_feed_buf_def parser_wf_feeds)

lemma frame_parser_ok_resetStream: "frame_parser_ok p \<Longrightarrow> frame_parser_ok (resetStream p)"
  by (auto simp: frame_parser_ok_def resetStream_def edge_parser_reset_def parser_wf_def split: edge_state_t.splits)

lemmas frame_parser_ok_simps =
  frame_parser_ok_new frame_parser_ok_setOnFrame frame_parser_ok_feed frame_parser_ok_resetStream

lemma foldl_trampoline:
  "fu_on_frame u = Some cb \<Longrightarrow>
   foldl (\<lambda>w (t, pl). trampoline t pl w) u fs =
     u\<lparr>fu_world := foldl (\<lambda>w (t, pl). cb \<lparr>f_type = t, f_payload = pl\<rparr> w) (fu_world u) fs\<rparr>"
  by (induction fs arbitrary: u) (auto simp: trampoline_def)

end
