(* ===== verification/Posix.thy ===== *)
theory Posix
  imports Prelude
begin

text \<open>
  The system calls the gateway makes on a descriptor. A descriptor carries the answers the kernel
  will give, as two lists consumed one answer per call, and the bytes the kernel has accepted so far.
  An exhausted list answers \<^verbatim>\<open>EAGAIN\<close>: nothing more to read, or no room to write, until the next
  readiness event. A read returns at most as many bytes as asked for, a write accepts at most the
  bytes offered, whatever the answer list says; an end of file is a read of no bytes.
\<close>

datatype errno = EINTR | EAGAIN | EWOULDBLOCK | Errno int

datatype read_result = Read_bytes "u8 list" | Read_error errno

datatype write_result = Write_count nat | Write_error errno

record descriptor =
  d_reads :: "read_result list"
  d_writes :: "write_result list"
  d_written :: "u8 list"

definition open_descriptor :: "read_result list \<Rightarrow> write_result list \<Rightarrow> descriptor" where
  "open_descriptor rs ws = \<lparr>d_reads = rs, d_writes = ws, d_written = []\<rparr>"

definition sys_read :: "nat \<Rightarrow> descriptor \<Rightarrow> read_result \<times> descriptor" where
  "sys_read cnt d =
    (case d_reads d of
       [] \<Rightarrow> (Read_error EAGAIN, d)
     | Read_bytes bs # rs \<Rightarrow> (Read_bytes (take cnt bs), d\<lparr>d_reads := rs\<rparr>)
     | Read_error e # rs \<Rightarrow> (Read_error e, d\<lparr>d_reads := rs\<rparr>))"

definition sys_write :: "u8 list \<Rightarrow> descriptor \<Rightarrow> write_result \<times> descriptor" where
  "sys_write bytes d =
    (case d_writes d of
       [] \<Rightarrow> (Write_error EAGAIN, d)
     | Write_count n # ws \<Rightarrow>
         let n = min n (length bytes)
         in (Write_count n, d\<lparr>d_writes := ws, d_written := d_written d @ take n bytes\<rparr>)
     | Write_error e # ws \<Rightarrow> (Write_error e, d\<lparr>d_writes := ws\<rparr>))"

lemma open_descriptor_simps [simp]:
  "d_reads (open_descriptor rs ws) = rs" "d_writes (open_descriptor rs ws) = ws" "d_written (open_descriptor rs ws) = []"
  by (simp_all add: open_descriptor_def)

text \<open>A call that answers anything but \<^verbatim>\<open>EAGAIN\<close> has used up an answer.\<close>

lemma sys_read_progress: "sys_read k d = (r, d') \<Longrightarrow> r \<noteq> Read_error EAGAIN \<Longrightarrow> length (d_reads d') < length (d_reads d)"
  by (auto simp: sys_read_def split: list.splits read_result.splits)

lemma sys_write_progress: "sys_write bs d = (r, d') \<Longrightarrow> r \<noteq> Write_error EAGAIN \<Longrightarrow> length (d_writes d') < length (d_writes d)"
  by (auto simp: sys_write_def Let_def split: list.splits write_result.splits)

lemma sys_write_count:
  "sys_write bs d = (Write_count n, d') \<Longrightarrow> n \<le> length bs \<and> d_written d' = d_written d @ take n bs"
  by (auto simp: sys_write_def Let_def split: list.splits write_result.splits)

lemma sys_write_error: "sys_write bs d = (Write_error e, d') \<Longrightarrow> d_written d' = d_written d"
  by (auto simp: sys_write_def Let_def split: list.splits write_result.splits)

text \<open>What a loop over short writes has written so far, one write further.\<close>

lemma drop_take_split: "a + n \<le> k \<Longrightarrow> drop a (take k xs) = take n (drop a xs) @ drop (a + n) (take k xs)"
  using append_take_drop_id [of n "drop a (take k xs)"] by (simp add: take_drop min_absorb1 add.commute)

end
