(* ===== verification/Node_Link.thy ===== *)
theory Node_Link
  imports Frame_Codec Posix
begin

text \<open>
  \<^verbatim>\<open>gateway/link/NodeLink.{h,cpp}\<close>: the non-blocking serial link. Reading drains the kernel buffer
  into the frame parser; writing keeps a queue of frames with the offset a short write has reached.

  The handlers of a frame, of its completion and of its cancellation are closures of the layer above. A
  queued frame carries the names of its closures (\<open>'c\<close>, \<open>'p\<close>), and \<open>link_handlers\<close> says what calling
  one does: it changes the state \<open>'u\<close> of that layer and makes calls of \<^verbatim>\<open>send\<close>, which is what the
  header allows a handler to do; \<^verbatim>\<open>flushOutput\<close> and \<^verbatim>\<open>reopen\<close> are not reentered. The result of
  \<^verbatim>\<open>send\<close> depends on its arguments only, so a handler loses nothing by not seeing it.

  Two fields of the world exist for the statements only: \<open>lw_accepted\<close> lists the frames \<^verbatim>\<open>send\<close> has
  queued, \<open>lw_done\<close> the writes that have left the queue, with the result their handler was called with.
\<close>

subsection \<open>Data\<close>

datatype speed_t = B9600 | B19200 | B38400 | B57600 | B115200

definition toBaud :: "int \<Rightarrow> speed_t" where
  "toBaud baud =
    (if baud = 9600 then B9600
     else if baud = 19200 then B19200
     else if baud = 38400 then B38400
     else if baud = 57600 then B57600
     else if baud = 115200 then B115200
     else B115200)"

record ('c, 'p) PendingWrite =
  pw_frame :: "u8 list"
  pw_offset :: nat
  pw_on_complete :: "'c option"
  pw_can_send :: "'p option"

record ('c, 'p) send_request =
  rq_type :: u8
  rq_payload :: "u8 list"
  rq_on_complete :: "'c option"
  rq_can_send :: "'p option"

record ('u, 'c, 'p) link_world =
  lw_output :: "('c, 'p) PendingWrite list"
  lw_user :: 'u
  lw_accepted :: "('c, 'p) send_request list"
  lw_done :: "(('c, 'p) PendingWrite \<times> bool) list"

record ('u, 'c, 'p) link_handlers =
  run_complete :: "'c \<Rightarrow> bool \<Rightarrow> 'u \<Rightarrow> 'u \<times> ('c, 'p) send_request list"
  run_can_send :: "'p \<Rightarrow> 'u \<Rightarrow> bool"

record ('u, 'c, 'p) node_link =
  nl_baud :: speed_t
  nl_port :: descriptor
  nl_parser :: "('u, 'c, 'p) link_world frame_parser"

definition nl_world :: "('u, 'c, 'p) node_link \<Rightarrow> ('u, 'c, 'p) link_world" where
  "nl_world l = fu_world (p_user (nl_parser l))"

definition set_world :: "('u, 'c, 'p) link_world \<Rightarrow> ('u, 'c, 'p) node_link \<Rightarrow> ('u, 'c, 'p) node_link" where
  "set_world w l = l\<lparr>nl_parser := (nl_parser l)\<lparr>p_user := (p_user (nl_parser l))\<lparr>fu_world := w\<rparr>\<rparr>\<rparr>"

subsection \<open>Operations\<close>

text \<open>\<^verbatim>\<open>send\<close>, as seen by the parts of the link that handlers may touch, and on the link.\<close>

definition send_world ::
    "('c, 'p) send_request \<Rightarrow> ('u, 'c, 'p) link_world \<Rightarrow> bool \<times> ('u, 'c, 'p) link_world" where
  "send_world r w =
    (let frame = buildFrame (rq_type r) (rq_payload r)
     in if frame = [] then (False, w)
        else (True, w\<lparr>lw_output := lw_output w @ [\<lparr>pw_frame = frame, pw_offset = 0,
                pw_on_complete = rq_on_complete r, pw_can_send = rq_can_send r\<rparr>],
              lw_accepted := lw_accepted w @ [r]\<rparr>))"

definition send :: "('c, 'p) send_request \<Rightarrow> ('u, 'c, 'p) node_link \<Rightarrow> bool \<times> ('u, 'c, 'p) node_link" where
  "send r l = (case send_world r (nl_world l) of (ok, w) \<Rightarrow> (ok, set_world w l))"

text \<open>The effect of a handler call: the new state above, then its calls of \<^verbatim>\<open>send\<close> in order.\<close>

definition perform ::
    "'u \<times> ('c, 'p) send_request list \<Rightarrow> ('u, 'c, 'p) link_world \<Rightarrow> ('u, 'c, 'p) link_world" where
  "perform ur w = foldl (\<lambda>w r. snd (send_world r w)) (w\<lparr>lw_user := fst ur\<rparr>) (snd ur)"

definition notify ::
    "('u, 'c, 'p) link_handlers \<Rightarrow> ('c, 'p) PendingWrite \<Rightarrow> bool \<Rightarrow>
     ('u, 'c, 'p) link_world \<Rightarrow> ('u, 'c, 'p) link_world" where
  "notify h pw sent w =
    (let w = w\<lparr>lw_done := lw_done w @ [(pw, sent)]\<rparr>
     in case pw_on_complete pw of
          None \<Rightarrow> w
        | Some c \<Rightarrow> perform (run_complete h c sent (lw_user w)) w)"

definition completeFront ::
    "('u, 'c, 'p) link_handlers \<Rightarrow> bool \<Rightarrow> ('u, 'c, 'p) link_world \<Rightarrow> ('u, 'c, 'p) link_world" where
  "completeFront h sent w =
    (case lw_output w of
       [] \<Rightarrow> w
     | pw # rest \<Rightarrow> notify h pw sent (w\<lparr>lw_output := rest\<rparr>))"

definition discardOutput ::
    "('u, 'c, 'p) link_handlers \<Rightarrow> ('u, 'c, 'p) link_world \<Rightarrow> ('u, 'c, 'p) link_world" where
  "discardOutput h w =
    foldl (\<lambda>w pw. notify h pw False w) (w\<lparr>lw_output := []\<rparr>) (lw_output w)"

text \<open>
  The loop of \<^verbatim>\<open>flushOutput\<close>. It ends when the queue is empty, the kernel would block, or a write
  fails; handlers that keep queueing frames that are then cancelled would keep it busy for ever, so it
  is a partial function.
\<close>

partial_function (option) flush_loop ::
    "('u, 'c, 'p) link_handlers \<Rightarrow> descriptor \<Rightarrow> ('u, 'c, 'p) link_world \<Rightarrow>
     (descriptor \<times> ('u, 'c, 'p) link_world) option" where
  "flush_loop h port w =
    (case lw_output w of
       [] \<Rightarrow> Some (port, w)
     | pending # rest \<Rightarrow>
         if pw_offset pending = 0 \<and>
            (case pw_can_send pending of None \<Rightarrow> False | Some p \<Rightarrow> \<not> run_can_send h p (lw_user w))
         then flush_loop h port (completeFront h False w)
         else
           (case sys_write (drop (pw_offset pending) (pw_frame pending)) port of
              (Write_count n, port) \<Rightarrow>
                if n > 0 then
                  let pending = pending\<lparr>pw_offset := pw_offset pending + n\<rparr>;
                      w = w\<lparr>lw_output := pending # rest\<rparr>
                  in if pw_offset pending = length (pw_frame pending)
                     then flush_loop h port (completeFront h True w)
                     else flush_loop h port w
                else Some (port, discardOutput h w)
            | (Write_error e, port) \<Rightarrow>
                if e = EINTR then flush_loop h port w
                else if e = EAGAIN \<or> e = EWOULDBLOCK then Some (port, w)
                else Some (port, discardOutput h w)))"

definition flushOutput ::
    "('u, 'c, 'p) link_handlers \<Rightarrow> ('u, 'c, 'p) node_link \<Rightarrow> ('u, 'c, 'p) node_link option" where
  "flushOutput h l =
    map_option (\<lambda>(port, w). set_world w (l\<lparr>nl_port := port\<rparr>)) (flush_loop h (nl_port l) (nl_world l))"

definition hasPendingOutput :: "('u, 'c, 'p) node_link \<Rightarrow> bool" where
  "hasPendingOutput l \<longleftrightarrow> lw_output (nl_world l) \<noteq> []"

function drain_loop ::
    "descriptor \<Rightarrow> ('u, 'c, 'p) link_world frame_parser \<Rightarrow>
     descriptor \<times> ('u, 'c, 'p) link_world frame_parser" where
  "drain_loop port p =
    (case sys_read 256 port of
       (Read_error e, port') \<Rightarrow> if e = EINTR then drain_loop port' p else (port', p)
     | (Read_bytes bs, port') \<Rightarrow> if bs = [] then (port', p) else drain_loop port' (feed p bs))"
  by pat_completeness auto
termination
  by (relation "measure (\<lambda>(port, p). length (d_reads port))") (auto dest: sys_read_progress [OF sym])

declare drain_loop.simps [simp del]

definition drainAndParse :: "('u, 'c, 'p) node_link \<Rightarrow> ('u, 'c, 'p) node_link" where
  "drainAndParse l =
    (case drain_loop (nl_port l) (nl_parser l) of (port, p) \<Rightarrow> l\<lparr>nl_port := port, nl_parser := p\<rparr>)"

definition setFrameHandler ::
    "(Frame \<Rightarrow> 'u \<Rightarrow> 'u \<times> ('c, 'p) send_request list) \<Rightarrow> ('u, 'c, 'p) node_link \<Rightarrow> ('u, 'c, 'p) node_link" where
  "setFrameHandler cb l =
    l\<lparr>nl_parser := setOnFrame (Some (\<lambda>f w. perform (cb f (lw_user w)) w)) (nl_parser l)\<rparr>"

text \<open>
  The constructor and \<^verbatim>\<open>reopen\<close>; opening and configuring the port is \<^verbatim>\<open>SerialPort\<close>, whose
  outcome is an argument: the error it throws, or the new descriptor.
\<close>

definition new_node_link :: "string + descriptor \<Rightarrow> int \<Rightarrow> 'u \<Rightarrow> string + ('u, 'c, 'p) node_link" where
  "new_node_link port baud u =
    (case port of
       Inl e \<Rightarrow> Inl e
     | Inr d \<Rightarrow> Inr \<lparr>nl_baud = toBaud baud, nl_port = d,
         nl_parser = new_frame_parser \<lparr>lw_output = [], lw_user = u, lw_accepted = [], lw_done = []\<rparr>\<rparr>)"

definition reopen ::
    "('u, 'c, 'p) link_handlers \<Rightarrow> string + descriptor \<Rightarrow> int \<Rightarrow> ('u, 'c, 'p) node_link \<Rightarrow>
     string option \<times> ('u, 'c, 'p) node_link" where
  "reopen h fresh baud l =
    (case fresh of
       Inl e \<Rightarrow> (Some e, l)
     | Inr d \<Rightarrow>
         let l = l\<lparr>nl_port := d\<rparr>;
             l = l\<lparr>nl_baud := toBaud baud\<rparr>;
             l = l\<lparr>nl_parser := resetStream (nl_parser l)\<rparr>;
             l = set_world (discardOutput h (nl_world l)) l
         in (None, l))"

subsection \<open>The output queue\<close>

text \<open>The bytes of a frame the kernel has accepted, and what \<^verbatim>\<open>send\<close> makes of a request.\<close>

definition wire_bytes :: "('c, 'p) PendingWrite \<Rightarrow> u8 list" where
  "wire_bytes pw = take (pw_offset pw) (pw_frame pw)"

definition asked_as :: "('c, 'p) PendingWrite \<Rightarrow> u8 list \<times> 'c option \<times> 'p option" where
  "asked_as pw = (pw_frame pw, pw_on_complete pw, pw_can_send pw)"

definition request_as :: "('c, 'p) send_request \<Rightarrow> u8 list \<times> 'c option \<times> 'p option" where
  "request_as r = (buildFrame (rq_type r) (rq_payload r), rq_on_complete r, rq_can_send r)"

text \<open>
  The invariant of the queue, while the writes \<open>mid\<close> have been taken off it but their handlers have not
  been called yet: everything \<^verbatim>\<open>send\<close> accepted is, in order, done, being taken off, or queued; the bytes
  on the line of the current port are those of the frames done after the first \<open>k\<close>, which were done
  before it was opened, in the same order; only
  the first frame has a part on the line; a frame is reported as sent exactly when all of it is.
\<close>

definition queue_inv :: "nat \<Rightarrow> descriptor \<Rightarrow> ('c, 'p) PendingWrite list \<Rightarrow> ('u, 'c, 'p) link_world \<Rightarrow> bool" where
  "queue_inv k port mid w \<longleftrightarrow>
    map asked_as (map fst (lw_done w) @ mid @ lw_output w) = map request_as (lw_accepted w) \<and>
    k \<le> length (lw_done w) \<and>
    d_written port = concat (map wire_bytes (map fst (drop k (lw_done w)) @ mid @ lw_output w)) \<and>
    (\<forall>pw\<in>set (tl (mid @ lw_output w)). pw_offset pw = 0) \<and>
    (\<forall>pw\<in>set (lw_output w). pw_offset pw < length (pw_frame pw)) \<and>
    (\<forall>(pw, sent)\<in>set (lw_done w). pw_offset pw \<le> length (pw_frame pw) \<and>
       (sent \<longleftrightarrow> pw_offset pw = length (pw_frame pw))) \<and>
    (\<forall>r\<in>set (lw_accepted w). length (rq_payload r) \<le> EDGE_PAYLOAD_MAX)"

lemma queue_invI:
  assumes "map asked_as (map fst (lw_done w) @ mid @ lw_output w) = map request_as (lw_accepted w)"
    and "k \<le> length (lw_done w)"
    and "d_written port = concat (map wire_bytes (map fst (drop k (lw_done w)) @ mid @ lw_output w))"
    and "\<forall>pw\<in>set (tl (mid @ lw_output w)). pw_offset pw = 0"
    and "\<forall>pw\<in>set (lw_output w). pw_offset pw < length (pw_frame pw)"
    and "\<forall>(pw, sent)\<in>set (lw_done w). pw_offset pw \<le> length (pw_frame pw) \<and>
       (sent \<longleftrightarrow> pw_offset pw = length (pw_frame pw))"
    and "\<forall>r\<in>set (lw_accepted w). length (rq_payload r) \<le> EDGE_PAYLOAD_MAX"
  shows "queue_inv k port mid w"
  using assms unfolding queue_inv_def by blast

lemma queue_invD:
  assumes "queue_inv k port mid w"
  shows "k \<le> length (lw_done w)"
    and "d_written port = concat (map wire_bytes (map fst (drop k (lw_done w)) @ mid @ lw_output w))"
    and "map asked_as (map fst (lw_done w) @ mid @ lw_output w) = map request_as (lw_accepted w)"
    and "\<forall>pw\<in>set (tl (mid @ lw_output w)). pw_offset pw = 0"
    and "\<forall>pw\<in>set (lw_output w). pw_offset pw < length (pw_frame pw)"
    and "\<forall>(pw, sent)\<in>set (lw_done w). pw_offset pw \<le> length (pw_frame pw) \<and>
       (sent \<longleftrightarrow> pw_offset pw = length (pw_frame pw))"
    and "\<forall>r\<in>set (lw_accepted w). length (rq_payload r) \<le> EDGE_PAYLOAD_MAX"
  using assms unfolding queue_inv_def by blast+

lemma set_tl_snoc: "set (tl (xs @ [x])) \<subseteq> insert x (set (tl xs))"
  by (cases xs) auto

lemma queue_inv_send:
  assumes "queue_inv k port mid w"
  shows "queue_inv k port mid (snd (send_world r w))"
proof (cases "buildFrame (rq_type r) (rq_payload r) = []")
  case True
  with assms show ?thesis by (simp add: send_world_def)
next
  case False
  let ?pw = "\<lparr>pw_frame = buildFrame (rq_type r) (rq_payload r), pw_offset = 0,
    pw_on_complete = rq_on_complete r, pw_can_send = rq_can_send r\<rparr>"
  have w: "snd (send_world r w) = w\<lparr>lw_output := lw_output w @ [?pw], lw_accepted := lw_accepted w @ [r]\<rparr>"
    using False by (simp add: send_world_def Let_def)
  note inv = queue_invD [OF assms]
  show ?thesis unfolding w
  proof (rule queue_invI, goal_cases)
    case 1
    from inv(3) show ?case by (simp add: asked_as_def request_as_def)
  next
    case 3
    from inv(2) show ?case by (simp add: wire_bytes_def)
  next
    case 4
    from inv(4) set_tl_snoc [of "mid @ lw_output w" ?pw] show ?case by fastforce
  qed (use inv False in \<open>auto simp: buildFrame_empty_iff\<close>)
qed

lemma queue_inv_user: "queue_inv k port mid (w\<lparr>lw_user := u\<rparr>) = queue_inv k port mid w"
  by (simp add: queue_inv_def)

lemma queue_inv_sends:
  "queue_inv k port mid w \<Longrightarrow> queue_inv k port mid (foldl (\<lambda>w r. snd (send_world r w)) w rs)"
  by (induction rs arbitrary: w) (simp_all add: queue_inv_send)

lemma queue_inv_perform: "queue_inv k port mid w \<Longrightarrow> queue_inv k port mid (perform ur w)"
  unfolding perform_def by (rule queue_inv_sends) (simp only: queue_inv_user)

lemma queue_inv_notify:
  assumes "queue_inv k port (pw # mid) w" and "pw_offset pw \<le> length (pw_frame pw)"
    and "sent \<longleftrightarrow> pw_offset pw = length (pw_frame pw)"
  shows "queue_inv k port mid (notify h pw sent w)"
proof -
  let ?w = "w\<lparr>lw_done := lw_done w @ [(pw, sent)]\<rparr>"
  note inv = queue_invD [OF assms(1)]
  have "queue_inv k port mid ?w"
  proof (intro queue_invI, goal_cases)
    case 4
    with inv(4) show ?case by (cases "mid @ lw_output w") auto
  qed (use inv assms in simp_all)
  then show ?thesis by (auto simp: notify_def Let_def queue_inv_perform split: option.splits)
qed

lemma queue_inv_notifies:
  "queue_inv k port mid w \<Longrightarrow> \<forall>pw\<in>set mid. pw_offset pw < length (pw_frame pw) \<Longrightarrow>
   queue_inv k port [] (foldl (\<lambda>w pw. notify h pw False w) w mid)"
proof (induction mid arbitrary: w)
  case (Cons pw mid)
  then have "queue_inv k port mid (notify h pw False w)" by (intro queue_inv_notify) auto
  with Cons show ?case by simp
qed simp

lemma queue_inv_take_all: "queue_inv k port [] w \<Longrightarrow> queue_inv k port (lw_output w) (w\<lparr>lw_output := []\<rparr>)"
  by (simp add: queue_inv_def)

lemma queue_inv_unsent: "queue_inv k port mid w \<Longrightarrow> \<forall>pw\<in>set (lw_output w). pw_offset pw < length (pw_frame pw)"
  by (simp add: queue_inv_def)

lemma queue_inv_discard: "queue_inv k port [] w \<Longrightarrow> queue_inv k port [] (discardOutput h w)"
  unfolding discardOutput_def by (intro queue_inv_notifies queue_inv_take_all queue_inv_unsent)

lemma queue_inv_take:
  assumes "queue_inv k port [] w" and "lw_output w = pw # rest"
  shows "queue_inv k port [pw] (w\<lparr>lw_output := rest\<rparr>)"
  using queue_invD [OF assms(1)] assms(2) by (intro queue_invI) simp_all

lemma queue_inv_cancel:
  assumes "queue_inv k port [] w" and "lw_output w = pw # rest"
  shows "queue_inv k port [] (completeFront h False w)"
proof -
  have "pw_offset pw < length (pw_frame pw)" using queue_inv_unsent [OF assms(1)] assms(2) by simp
  with queue_inv_take [OF assms] have "queue_inv k port [] (notify h pw False (w\<lparr>lw_output := rest\<rparr>))"
    by (intro queue_inv_notify) auto
  with assms(2) show ?thesis by (simp add: completeFront_def)
qed

lemma queue_inv_wrote:
  assumes "queue_inv k port [] w" and "lw_output w = pw # rest"
    and "sys_write (drop (pw_offset pw) (pw_frame pw)) port = (Write_count n, port')"
  defines "pw' \<equiv> pw\<lparr>pw_offset := pw_offset pw + n\<rparr>"
  shows "queue_inv k port' [pw'] (w\<lparr>lw_output := rest\<rparr>) \<and> pw_offset pw' \<le> length (pw_frame pw')"
proof -
  note inv = queue_invD [OF assms(1)]
  have n: "n \<le> length (pw_frame pw) - pw_offset pw"
    "d_written port' = d_written port @ take n (drop (pw_offset pw) (pw_frame pw))"
    using sys_write_count [OF assms(3)] by simp_all
  have zero: "\<forall>x\<in>set rest. pw_offset x = 0" using inv assms(2) by simp
  then have "concat (map wire_bytes rest) = []" by (simp add: wire_bytes_def)
  with inv(2) n(2) assms(2)
  have "d_written port' = concat (map wire_bytes (map fst (drop k (lw_done w)) @ pw' # rest))"
    by (simp add: wire_bytes_def pw'_def take_add)
  with inv assms(2) zero have "queue_inv k port' [pw'] (w\<lparr>lw_output := rest\<rparr>)"
    by (intro queue_invI) (simp_all add: asked_as_def pw'_def)
  with inv(5) n(1) assms(2) show ?thesis by (auto simp: pw'_def)
qed

lemma queue_inv_put_back:
  assumes "queue_inv k port [pw] (w\<lparr>lw_output := rest\<rparr>)" and "pw_offset pw < length (pw_frame pw)"
  shows "queue_inv k port [] (w\<lparr>lw_output := pw # rest\<rparr>)"
  using queue_invD [OF assms(1)] assms(2) by (intro queue_invI) simp_all

lemma queue_inv_written: "queue_inv k port mid w \<Longrightarrow> d_written port' = d_written port \<Longrightarrow> queue_inv k port' mid w"
  by (simp add: queue_inv_def)

text \<open>One turn of the loop: it goes on with a new port and world (\<open>Inl\<close>) or returns them (\<open>Inr\<close>).\<close>

definition skips :: "('u, 'c, 'p) link_handlers \<Rightarrow> ('c, 'p) PendingWrite \<Rightarrow> 'u \<Rightarrow> bool" where
  "skips h pw u \<longleftrightarrow> pw_offset pw = 0 \<and>
     (case pw_can_send pw of None \<Rightarrow> False | Some p \<Rightarrow> \<not> run_can_send h p u)"

definition flush_turn ::
    "('u, 'c, 'p) link_handlers \<Rightarrow> descriptor \<Rightarrow> ('u, 'c, 'p) link_world \<Rightarrow>
     (descriptor \<times> ('u, 'c, 'p) link_world) + (descriptor \<times> ('u, 'c, 'p) link_world)" where
  "flush_turn h port w =
    (case lw_output w of
       [] \<Rightarrow> Inr (port, w)
     | pw # rest \<Rightarrow>
         if skips h pw (lw_user w) then Inl (port, completeFront h False w)
         else
           (case sys_write (drop (pw_offset pw) (pw_frame pw)) port of
              (Write_count n, port) \<Rightarrow>
                let pw = pw\<lparr>pw_offset := pw_offset pw + n\<rparr>
                in if n = 0 then Inr (port, discardOutput h w)
                   else if pw_offset pw = length (pw_frame pw) then Inl (port, notify h pw True (w\<lparr>lw_output := rest\<rparr>))
                   else Inl (port, w\<lparr>lw_output := pw # rest\<rparr>)
            | (Write_error e, port) \<Rightarrow>
                if e = EINTR then Inl (port, w)
                else if e = EAGAIN \<or> e = EWOULDBLOCK then Inr (port, w)
                else Inr (port, discardOutput h w)))"

lemma flush_body_eq:
  "(case lw_output w of
       [] \<Rightarrow> Some (port, w)
     | pending # rest \<Rightarrow>
         if pw_offset pending = 0 \<and>
            (case pw_can_send pending of None \<Rightarrow> False | Some p \<Rightarrow> \<not> run_can_send h p (lw_user w))
         then loop h port (completeFront h False w)
         else
           (case sys_write (drop (pw_offset pending) (pw_frame pending)) port of
              (Write_count n, port) \<Rightarrow>
                if n > 0 then
                  let pending = pending\<lparr>pw_offset := pw_offset pending + n\<rparr>;
                      w = w\<lparr>lw_output := pending # rest\<rparr>
                  in if pw_offset pending = length (pw_frame pending)
                     then loop h port (completeFront h True w)
                     else loop h port w
                else Some (port, discardOutput h w)
            | (Write_error e, port) \<Rightarrow>
                if e = EINTR then loop h port w
                else if e = EAGAIN \<or> e = EWOULDBLOCK then Some (port, w)
                else Some (port, discardOutput h w))) =
   (case flush_turn h port w of Inl (port, w) \<Rightarrow> loop h port w | Inr r \<Rightarrow> Some r)"
  by (auto simp: flush_turn_def skips_def Let_def completeFront_def split: list.split prod.split write_result.split)

lemma flush_loop_unfold:
  "flush_loop h port w = (case flush_turn h port w of Inl (port, w) \<Rightarrow> flush_loop h port w | Inr r \<Rightarrow> Some r)"
  by (subst flush_loop.simps) (rule flush_body_eq)

lemma flush_loop_invariant:
  assumes "flush_loop h port w = Some r" and "P port w"
    and turn: "\<And>port w port' w'. P port w \<Longrightarrow>
      flush_turn h port w = Inl (port', w') \<or> flush_turn h port w = Inr (port', w') \<Longrightarrow> P port' w'"
  shows "P (fst r) (snd r)"
proof -
  have "h' = h \<longrightarrow> P port w \<longrightarrow> P (fst r) (snd r)" if "flush_loop h' port w = Some r" for h'
  proof (rule flush_loop.raw_induct
      [where P = "\<lambda>h' port w r. h' = h \<longrightarrow> P port w \<longrightarrow> P (fst r) (snd r)", OF _ that], goal_cases)
    case (1 loop h' port w r)
    note body = 1(2) [unfolded flush_body_eq]
    show ?case
    proof (cases "flush_turn h' port w")
      case (Inl s)
      with body have "loop h' (fst s) (snd s) = Some r" by (simp add: case_prod_beta)
      from 1(1) [OF this] Inl turn [of port w "fst s" "snd s"] show ?thesis by auto
    next
      case (Inr s)
      with body turn [of port w "fst s" "snd s"] show ?thesis by auto
    qed
  qed
  with assms(1,2) show ?thesis by blast
qed

lemma queue_inv_turn:
  assumes inv: "queue_inv k port [] w"
    and turn: "flush_turn h port w = Inl (port', w') \<or> flush_turn h port w = Inr (port', w')"
  shows "queue_inv k port' [] w'"
proof (cases "lw_output w")
  case Nil
  with inv turn show ?thesis by (simp add: flush_turn_def)
next
  case (Cons pw rest)
  obtain res port1 where sys: "sys_write (drop (pw_offset pw) (pw_frame pw)) port = (res, port1)"
    by (cases "sys_write (drop (pw_offset pw) (pw_frame pw)) port")
  show ?thesis
  proof (cases res)
    case (Write_count n)
    let ?pw = "pw\<lparr>pw_offset := pw_offset pw + n\<rparr>"
    note wrote = queue_inv_wrote [OF inv Cons sys [unfolded Write_count]]
    show ?thesis
    proof (cases "skips h pw (lw_user w)")
      case True
      with turn Cons have "port' = port \<and> w' = completeFront h False w" by (auto simp: flush_turn_def)
      with queue_inv_cancel [OF inv Cons] show ?thesis by simp
    next
      case False
      show ?thesis
      proof (cases "n = 0")
        case True
        with turn Cons sys Write_count False have "port' = port1 \<and> w' = discardOutput h w"
          by (simp add: flush_turn_def)
        moreover have "queue_inv k port1 [] w"
          using inv by (rule queue_inv_written) (use True sys_write_count [OF sys [unfolded Write_count]] in simp)
        ultimately show ?thesis by (simp add: queue_inv_discard)
      next
        case n: False
        show ?thesis
        proof (cases "pw_offset ?pw = length (pw_frame ?pw)")
          case True
          with turn Cons sys Write_count False n
          have "port' = port1 \<and> w' = notify h ?pw True (w\<lparr>lw_output := rest\<rparr>)"
            by (simp add: flush_turn_def)
          with True wrote show ?thesis using queue_inv_notify [of k port1 ?pw "[]"] by simp
        next
          case part: False
          with turn Cons sys Write_count False n have "port' = port1 \<and> w' = w\<lparr>lw_output := ?pw # rest\<rparr>"
            by (simp add: flush_turn_def)
          with part wrote show ?thesis using queue_inv_put_back [of k port1 ?pw rest w] by simp
        qed
      qed
    qed
  next
    case (Write_error e)
    with sys_write_error [OF sys [unfolded Write_error]] inv have "queue_inv k port1 [] w"
      by (blast intro: queue_inv_written)
    with turn Cons sys Write_error queue_inv_cancel [OF inv Cons, of h] show ?thesis
      by (cases "skips h pw (lw_user w)"; cases e) (auto simp: flush_turn_def queue_inv_discard)
  qed
qed

lemma queue_inv_flush:
  assumes "flush_loop h port w = Some r" and "queue_inv k port [] w"
  shows "queue_inv k (fst r) [] (snd r)"
  using assms by (rule flush_loop_invariant [where P = "\<lambda>port w. queue_inv k port [] w"]) (rule queue_inv_turn)

subsection \<open>Runs of a link\<close>

text \<open>
  What happens to a link: calls of its operations, and answers of the kernel that become available
  (bytes arrive, room to write appears). A port that is opened has accepted no bytes yet.
\<close>

datatype ('u, 'c, 'p) link_op =
    LSend "('c, 'p) send_request"
  | LFlush
  | LDrain
  | LKernel "read_result list" "write_result list"
  | LReopen "string + read_result list \<times> write_result list" int
  | LHandler "Frame \<Rightarrow> 'u \<Rightarrow> 'u \<times> ('c, 'p) send_request list"

fun link_apply ::
    "('u, 'c, 'p) link_handlers \<Rightarrow> ('u, 'c, 'p) link_op \<Rightarrow> ('u, 'c, 'p) node_link \<Rightarrow> ('u, 'c, 'p) node_link option" where
  "link_apply h (LSend r) l = Some (snd (send r l))"
| "link_apply h LFlush l = flushOutput h l"
| "link_apply h LDrain l = Some (drainAndParse l)"
| "link_apply h (LKernel rs ws) l =
     Some (l\<lparr>nl_port := (nl_port l)\<lparr>d_reads := d_reads (nl_port l) @ rs, d_writes := d_writes (nl_port l) @ ws\<rparr>\<rparr>)"
| "link_apply h (LReopen port baud) l =
     Some (snd (reopen h (map_sum id (case_prod open_descriptor) port) baud l))"
| "link_apply h (LHandler cb) l = Some (setFrameHandler cb l)"

fun link_ops ::
    "('u, 'c, 'p) link_handlers \<Rightarrow> ('u, 'c, 'p) link_op list \<Rightarrow> ('u, 'c, 'p) node_link \<Rightarrow> ('u, 'c, 'p) node_link option" where
  "link_ops h [] l = Some l"
| "link_ops h (x # xs) l = Option.bind (link_apply h x l) (link_ops h xs)"

definition fresh_link :: "int \<Rightarrow> 'u \<Rightarrow> ('u, 'c, 'p) node_link" where
  "fresh_link baud u = (case new_node_link (Inr (open_descriptor [] [])) baud u of Inr l \<Rightarrow> l)"

text \<open>The handler of a link only performs calls of \<^verbatim>\<open>send\<close>; the parser is one of the codec.\<close>

definition handler_ok :: "('u, 'c, 'p) node_link \<Rightarrow> bool" where
  "handler_ok l \<longleftrightarrow> frame_parser_ok (nl_parser l) \<and>
    (case fu_on_frame (p_user (nl_parser l)) of
       None \<Rightarrow> True
     | Some g \<Rightarrow> \<exists>cb. g = (\<lambda>f w. perform (cb f (lw_user w)) w))"

definition link_inv :: "nat \<Rightarrow> ('u, 'c, 'p) node_link \<Rightarrow> bool" where
  "link_inv k l \<longleftrightarrow> handler_ok l \<and> queue_inv k (nl_port l) [] (nl_world l)"

lemma nl_world_simps [simp]:
  "nl_world (set_world w l) = w" "nl_port (set_world w l) = nl_port l"
  "nl_world (l\<lparr>nl_port := d\<rparr>) = nl_world l" "nl_world (l\<lparr>nl_baud := b\<rparr>) = nl_world l"
  "handler_ok (l\<lparr>nl_port := d\<rparr>) = handler_ok l" "handler_ok (l\<lparr>nl_baud := b\<rparr>) = handler_ok l"
  by (simp_all add: nl_world_def set_world_def handler_ok_def)

lemma parser_wf_user [simp]: "parser_wf (p\<lparr>p_user := u\<rparr>) = parser_wf p"
  by (cases "p_state p") (simp_all add: parser_wf_def)

lemma handler_ok_set_world [simp]: "handler_ok (set_world w l) = handler_ok l"
  by (simp add: handler_ok_def set_world_def frame_parser_ok_def)

text \<open>A byte either leaves the parser's context alone or hands it one frame.\<close>

lemma feed_user_cases:
  "p_user (edge_parser_feed p b) = p_user p \<or>
   (\<exists>cb t pl. p_on_frame p = Some cb \<and> p_user (edge_parser_feed p b) = cb t pl (p_user p))"
  by (auto simp: edge_parser_feed_def edge_parser_deliver_def edge_parser_resync_def edge_parser_reset_def Let_def
      split: edge_state_t.splits option.splits)

definition handler_keeps :: "('w \<Rightarrow> bool) \<Rightarrow> 'w frame_parser \<Rightarrow> bool" where
  "handler_keeps P p \<longleftrightarrow>
    (case fu_on_frame (p_user p) of None \<Rightarrow> True | Some g \<Rightarrow> \<forall>f w. P w \<longrightarrow> P (g f w))"

lemma feed_byte_user:
  assumes "p_on_frame p = Some trampoline" and "P (fu_world (p_user p))" and "handler_keeps P p"
  shows "P (fu_world (p_user (edge_parser_feed p b))) \<and>
    fu_on_frame (p_user (edge_parser_feed p b)) = fu_on_frame (p_user p)"
  using feed_user_cases [of p b]
proof
  assume "\<exists>cb t pl. p_on_frame p = Some cb \<and> p_user (edge_parser_feed p b) = cb t pl (p_user p)"
  with assms(1) obtain t pl where "p_user (edge_parser_feed p b) = trampoline t pl (p_user p)" by auto
  with assms(2,3) show ?thesis by (cases "fu_on_frame (p_user p)") (simp_all add: trampoline_def handler_keeps_def)
qed (use assms in simp)

lemma feed_user_invariant:
  assumes "p_on_frame p = Some trampoline" and "P (fu_world (p_user p))"
    and "handler_keeps P p"
  shows "P (fu_world (p_user (feed p bs))) \<and> fu_on_frame (p_user (feed p bs)) = fu_on_frame (p_user p)"
  unfolding feed_def edge_parser_feed_buf_def option.case using assms
proof (induction bs arbitrary: p)
  case (Cons b bs)
  note b = feed_byte_user [where P = P and b = b, OF Cons.prems]
  have "P (fu_world (p_user (foldl edge_parser_feed (edge_parser_feed p b) bs))) \<and>
      fu_on_frame (p_user (foldl edge_parser_feed (edge_parser_feed p b) bs)) = fu_on_frame (p_user (edge_parser_feed p b))"
    by (rule Cons.IH) (use b Cons.prems in \<open>simp_all add: handler_keeps_def\<close>)
  with b show ?case by simp
qed simp

lemma drain_loop_invariant:
  assumes "frame_parser_ok p" and "P (fu_world (p_user p))"
    and "handler_keeps P p"
    and "drain_loop port p = (port', p')"
  shows "frame_parser_ok p' \<and> P (fu_world (p_user p')) \<and>
    fu_on_frame (p_user p') = fu_on_frame (p_user p) \<and> d_written port' = d_written port"
  using assms
proof (induction port p rule: drain_loop.induct)
  case (1 port p)
  obtain r port1 where sys: "sys_read 256 port = (r, port1)" by (cases "sys_read 256 port")
  then have written: "d_written port1 = d_written port"
    by (auto simp: sys_read_def split: list.splits read_result.splits)
  show ?case
  proof (cases r)
    case (Read_bytes bs)
    show ?thesis
    proof (cases "bs = []")
      case True
      with 1 sys Read_bytes written show ?thesis by (subst (asm) (3) drain_loop.simps) simp
    next
      case False
      have "p_on_frame p = Some trampoline" using "1.prems"(1) by (simp add: frame_parser_ok_def)
      from feed_user_invariant [where P = P, OF this "1.prems"(2,3), of bs]
      have f: "P (fu_world (p_user (feed p bs)))" "fu_on_frame (p_user (feed p bs)) = fu_on_frame (p_user p)" by auto
      have "drain_loop port1 (feed p bs) = (port', p')"
        using "1.prems"(4) sys Read_bytes False by (subst (asm) drain_loop.simps) simp
      moreover have "handler_keeps P (feed p bs)" using f(2) "1.prems"(3) by (simp add: handler_keeps_def)
      ultimately show ?thesis
        using "1.IH"(1) [OF sys [symmetric] Read_bytes False frame_parser_ok_feed [OF "1.prems"(1)] f(1)] f written
        by auto
    qed
  next
    case (Read_error e)
    show ?thesis
    proof (cases "e = EINTR")
      case True
      then have "drain_loop port1 p = (port', p')"
        using "1.prems"(4) sys Read_error by (subst (asm) drain_loop.simps) simp
      from "1.IH"(2) [OF sys [symmetric] Read_error True "1.prems"(1-3) this] written show ?thesis by auto
    next
      case False
      then have "port' = port1 \<and> p' = p"
        using "1.prems"(4) sys Read_error by (subst (asm) drain_loop.simps) simp
      with "1.prems" written show ?thesis by simp
    qed
  qed
qed

text \<open>Every operation keeps the invariant; reopening starts a new line.\<close>

lemma handler_keeps_queue:
  assumes "handler_ok l"
  shows "handler_keeps (queue_inv k port []) (nl_parser l)"
proof (cases "fu_on_frame (p_user (nl_parser l))")
  case (Some g)
  with assms obtain cb where "g = (\<lambda>f w. perform (cb f (lw_user w)) w)" by (auto simp: handler_ok_def)
  with Some show ?thesis by (simp add: handler_keeps_def queue_inv_perform)
qed (simp add: handler_keeps_def)

lemma link_inv_send: "link_inv k l \<Longrightarrow> link_inv k (snd (send r l))"
  by (simp add: link_inv_def send_def case_prod_beta queue_inv_send)

lemma link_inv_flush: "link_inv k l \<Longrightarrow> flushOutput h l = Some l' \<Longrightarrow> link_inv k l'"
  using queue_inv_flush [of h "nl_port l" "nl_world l" _ k] by (auto simp: link_inv_def flushOutput_def)

lemma link_inv_drain:
  assumes "link_inv k l"
  shows "link_inv k (drainAndParse l)"
proof -
  obtain port p where d: "drain_loop (nl_port l) (nl_parser l) = (port, p)" by fastforce
  have "frame_parser_ok p \<and> queue_inv k (nl_port l) [] (fu_world (p_user p)) \<and>
      fu_on_frame (p_user p) = fu_on_frame (p_user (nl_parser l)) \<and> d_written port = d_written (nl_port l)"
    by (rule drain_loop_invariant [OF _ _ _ d])
      (use assms in \<open>auto simp: link_inv_def handler_ok_def nl_world_def intro: handler_keeps_queue [unfolded handler_ok_def]\<close>)
  with assms d show ?thesis
    by (auto simp: link_inv_def drainAndParse_def handler_ok_def nl_world_def intro: queue_inv_written)
qed

definition unstarted :: "('u, 'c, 'p) link_world \<Rightarrow> bool" where
  "unstarted w \<longleftrightarrow> (\<forall>pw\<in>set (lw_output w). pw_offset pw = 0)"

lemma unstarted_simps [simp]:
  "unstarted (w\<lparr>lw_done := d\<rparr>) = unstarted w" "unstarted (w\<lparr>lw_user := u\<rparr>) = unstarted w"
  "unstarted (w\<lparr>lw_output := []\<rparr>)"
  by (simp_all add: unstarted_def)

lemma unstarted_send: "unstarted w \<Longrightarrow> unstarted (snd (send_world r w))"
  by (auto simp: unstarted_def send_world_def Let_def)

lemma unstarted_sends: "unstarted w \<Longrightarrow> unstarted (foldl (\<lambda>w r. snd (send_world r w)) w rs)"
  by (induction rs arbitrary: w) (simp_all add: unstarted_send)

lemma unstarted_notify: "unstarted w \<Longrightarrow> unstarted (notify h pw sent w)"
  by (auto simp: notify_def perform_def Let_def unstarted_sends split: option.splits)

lemma unstarted_notifies: "unstarted w \<Longrightarrow> unstarted (foldl (\<lambda>w pw. notify h pw False w) w pws)"
  by (induction pws arbitrary: w) (simp_all add: unstarted_notify)

lemma unstarted_discard: "unstarted (discardOutput h w)"
  by (simp add: discardOutput_def unstarted_notifies)

lemma queue_inv_new_port:
  assumes "queue_inv k port [] w" and "unstarted w" and "d_written port' = []"
  shows "queue_inv (length (lw_done w)) port' [] w"
  using queue_invD [OF assms(1)] assms(2,3)
  by (intro queue_invI; cases "lw_output w") (simp_all add: unstarted_def wire_bytes_def)

lemma link_inv_reopen:
  assumes "link_inv k l" and "\<And>d. fresh = Inr d \<Longrightarrow> d_written d = []"
  shows "\<exists>k. link_inv k (snd (reopen h fresh baud l))"
proof (cases fresh)
  case (Inr d)
  let ?w = "discardOutput h (nl_world l)"
  have "queue_inv (length (lw_done ?w)) d [] ?w"
    using assms Inr by (intro queue_inv_new_port unstarted_discard queue_inv_discard) (auto simp: link_inv_def)
  moreover have "nl_world (l\<lparr>nl_port := d, nl_baud := toBaud baud, nl_parser := resetStream (nl_parser l)\<rparr>) = nl_world l"
    by (simp add: nl_world_def resetStream_def edge_parser_reset_def)
  moreover have "handler_ok (l\<lparr>nl_port := d, nl_baud := toBaud baud, nl_parser := resetStream (nl_parser l)\<rparr>)"
    using assms(1) frame_parser_ok_resetStream [of "nl_parser l"]
    by (simp add: link_inv_def handler_ok_def) (simp add: resetStream_def edge_parser_reset_def)
  ultimately show ?thesis using Inr by (auto simp: reopen_def Let_def link_inv_def)
qed (use assms in \<open>auto simp: reopen_def\<close>)

lemma link_inv_apply:
  assumes "link_inv k l" and "link_apply h x l = Some l'"
  shows "\<exists>k'. link_inv k' l' \<and> ((\<nexists>port baud. x = LReopen port baud) \<longrightarrow> k' = k)"
proof (cases x)
  case (LReopen port baud)
  have "\<exists>k. link_inv k (snd (reopen h (map_sum id (case_prod open_descriptor) port) baud l))"
    using assms(1) by (rule link_inv_reopen) (cases port; auto)
  with assms(2) LReopen show ?thesis by auto
next
  case (LKernel rs ws)
  with assms show ?thesis by (auto simp: link_inv_def intro: queue_inv_written)
next
  case (LHandler cb)
  have "handler_ok (setFrameHandler cb l)"
    using assms(1) frame_parser_ok_setOnFrame [of "nl_parser l"]
    by (simp add: link_inv_def handler_ok_def setFrameHandler_def) (auto simp: setOnFrame_def)
  moreover have "nl_world (setFrameHandler cb l) = nl_world l" "nl_port (setFrameHandler cb l) = nl_port l"
    by (simp_all add: nl_world_def setFrameHandler_def setOnFrame_def)
  ultimately show ?thesis using LHandler assms by (auto simp: link_inv_def)
qed (use assms link_inv_send link_inv_drain link_inv_flush in auto)

lemma link_inv_ops:
  assumes "link_inv k l" and "link_ops h xs l = Some l'"
  shows "\<exists>k'. link_inv k' l' \<and> ((\<forall>port baud. LReopen port baud \<notin> set xs) \<longrightarrow> k' = k)"
  using assms
proof (induction xs arbitrary: k l)
  case (Cons x xs)
  then obtain l1 where l1: "link_apply h x l = Some l1" "link_ops h xs l1 = Some l'" by (auto simp: bind_eq_Some_conv)
  from link_inv_apply [OF Cons.prems(1) l1(1)] obtain k1 where k1: "link_inv k1 l1"
    "(\<nexists>port baud. x = LReopen port baud) \<longrightarrow> k1 = k" by blast
  from Cons.IH [OF k1(1) l1(2)] k1(2) show ?case by auto
qed auto

lemma link_inv_fresh: "link_inv 0 (fresh_link baud u)"
  by (simp add: fresh_link_def new_node_link_def link_inv_def handler_ok_def frame_parser_ok_new nl_world_def)
    (simp add: new_frame_parser_def edge_parser_init_def queue_inv_def)

subsection \<open>Flushing returns\<close>

lemma length_sends: "length (lw_output (foldl (\<lambda>w r. snd (send_world r w)) w rs)) \<le> length (lw_output w) + length rs"
proof (induction rs arbitrary: w)
  case (Cons r rs)
  have "length (lw_output (snd (send_world r w))) \<le> Suc (length (lw_output w))" by (simp add: send_world_def Let_def)
  with Cons [of "snd (send_world r w)"] show ?case by simp
qed simp

lemma user_sends: "lw_user (foldl (\<lambda>w r. snd (send_world r w)) w rs) = lw_user w"
  by (induction rs arbitrary: w) (simp_all add: send_world_def Let_def)

lemma cancel_potential:
  assumes "\<And>c u. pot (fst (run_complete h c False u)) + length (snd (run_complete h c False u)) \<le> pot u"
    and "lw_output w = pw # rest"
  shows "pot (lw_user (completeFront h False w)) + length (lw_output (completeFront h False w)) <
    pot (lw_user w) + length (lw_output w)"
proof (cases "pw_on_complete pw")
  case (Some c)
  let ?w = "w\<lparr>lw_output := rest, lw_done := lw_done w @ [(pw, False)]\<rparr>"
    and ?r = "run_complete h c False (lw_user w)"
  have w: "completeFront h False w = perform ?r ?w" using Some assms(2) by (simp add: completeFront_def notify_def)
  have "lw_user (perform ?r ?w) = fst ?r" by (simp add: perform_def user_sends)
  moreover have "length (lw_output (perform ?r ?w)) \<le> length rest + length (snd ?r)"
    unfolding perform_def using length_sends [of "?w\<lparr>lw_user := fst ?r\<rparr>" "snd ?r"] by simp
  ultimately show ?thesis using assms(1) [of c "lw_user w"] assms(2) unfolding w by simp
qed (simp add: completeFront_def notify_def assms(2))

lemma flush_turn_progress:
  assumes "\<And>c u. pot (fst (run_complete h c False u)) + length (snd (run_complete h c False u)) \<le> pot u"
    and "flush_turn h port w = Inl (port', w')"
  shows "((port', w'), (port, w)) \<in>
    inv_image (less_than <*lex*> less_than) (\<lambda>(port, w). (length (d_writes port), pot (lw_user w) + length (lw_output w)))"
proof (cases "lw_output w")
  case Nil
  with assms(2) show ?thesis by (simp add: flush_turn_def)
next
  case (Cons pw rest)
  obtain res port1 where sys: "sys_write (drop (pw_offset pw) (pw_frame pw)) port = (res, port1)"
    by (cases "sys_write (drop (pw_offset pw) (pw_frame pw)) port")
  show ?thesis
  proof (cases "skips h pw (lw_user w)")
    case True
    with assms(2) Cons have "port' = port \<and> w' = completeFront h False w" by (auto simp: flush_turn_def)
    with cancel_potential [OF assms(1) Cons] show ?thesis by simp
  next
    case False
    with assms(2) Cons sys have "port' = port1 \<and> res \<noteq> Write_error EAGAIN"
      by (cases res) (auto simp: flush_turn_def Let_def split: if_splits)
    with sys_write_progress [OF sys] show ?thesis by simp
  qed
qed

lemma flush_loop_returns:
  assumes "\<And>c u. pot (fst (run_complete h c False u)) + length (snd (run_complete h c False u)) \<le> pot u"
  shows "\<exists>r. flush_loop h (fst s) (snd s) = Some r"
proof (induction s rule: wf_induct_rule [OF wf_inv_image [OF wf_lex_prod [OF wf_less_than wf_less_than]],
      of "\<lambda>(port, w). (length (d_writes port), pot (lw_user w) + length (lw_output w))"])
  case (1 s)
  show ?case
  proof (cases "flush_turn h (fst s) (snd s)")
    case (Inl s')
    with flush_turn_progress [OF assms, of "fst s" "snd s" "fst s'" "snd s'"] 1 [of s']
    have "\<exists>r. flush_loop h (fst s') (snd s') = Some r" by simp
    with Inl show ?thesis by (simp add: flush_loop_unfold [of h "fst s"] case_prod_beta)
  qed (simp add: flush_loop_unfold [of h "fst s"])
qed

subsection \<open>Reading\<close>

text \<open>The bytes one call of \<^verbatim>\<open>drainAndParse\<close> gets from the kernel.\<close>

fun read_data :: "read_result list \<Rightarrow> u8 list" where
  "read_data [] = []"
| "read_data (Read_error e # rs) = (if e = EINTR then read_data rs else [])"
| "read_data (Read_bytes bs # rs) = (if bs = [] then [] else take 256 bs @ read_data rs)"

lemma drain_loop_feed: "snd (drain_loop port p) = feed p (read_data (d_reads port))"
proof (induction port p rule: drain_loop.induct)
  case (1 port p)
  show ?case
  proof (cases "d_reads port")
    case Nil
    then show ?thesis by (subst drain_loop.simps) (simp add: sys_read_def)
  next
    case (Cons r rs)
    show ?thesis
    proof (cases r)
      case (Read_bytes bs)
      with 1(1) [of "Read_bytes (take 256 bs)" "port\<lparr>d_reads := rs\<rparr>" "take 256 bs"] Cons show ?thesis
        by (subst drain_loop.simps) (simp add: sys_read_def feed_append)
    next
      case (Read_error e)
      with 1(2) [of "Read_error e" "port\<lparr>d_reads := rs\<rparr>" e] Cons show ?thesis
        by (subst drain_loop.simps) (simp add: sys_read_def)
    qed
  qed
qed

lemma read_data_chunks:
  "\<forall>c\<in>set cs. c \<noteq> [] \<and> length c \<le> 256 \<Longrightarrow> read_data (map Read_bytes cs) = concat cs"
  by (induction cs) auto

subsection \<open>Properties\<close>

text \<open>
  C12. The line carries whole frames in order: after any sequence of sends, flushes, reads, changes of
  the port and kernel answers, the frames \<^verbatim>\<open>send\<close> has accepted are, in order, those that have left the
  queue followed by those still in it, with their handlers. The bytes written since the port was opened
  are those of these frames one after the other: short writes never repeat, skip or interleave bytes,
  and only the first queued frame may be partly on the line. A frame is reported as sent exactly when
  all of its bytes are.
\<close>

theorem link_writes_frames_in_order:
  fixes h :: "('u, 'c, 'p) link_handlers"
  assumes "link_ops h ops (fresh_link baud u) = Some l"
  defines "w \<equiv> nl_world l"
  shows "\<exists>before since. lw_done w = before @ since \<and>
    map (\<lambda>pw. (pw_frame pw, pw_on_complete pw, pw_can_send pw)) (map fst (lw_done w) @ lw_output w) =
      map (\<lambda>r. (buildFrame (rq_type r) (rq_payload r), rq_on_complete r, rq_can_send r)) (lw_accepted w) \<and>
    d_written (nl_port l) =
      concat (map (\<lambda>pw. take (pw_offset pw) (pw_frame pw)) (map fst since @ lw_output w)) \<and>
    (\<forall>pw\<in>set (tl (lw_output w)). pw_offset pw = 0) \<and>
    (\<forall>(pw, sent)\<in>set (lw_done w). sent \<longleftrightarrow> pw_offset pw = length (pw_frame pw)) \<and>
    ((\<forall>port baud. LReopen port baud \<notin> set ops) \<longrightarrow> before = [])"
proof -
  obtain k where "link_inv k l" and k: "(\<forall>port baud. LReopen port baud \<notin> set ops) \<longrightarrow> k = 0"
    using link_inv_ops [OF link_inv_fresh assms(1)] by blast
  then have q: "queue_inv k (nl_port l) [] w" by (simp add: link_inv_def w_def)
  note inv = queue_invD [OF q, unfolded append_Nil wire_bytes_def [abs_def] asked_as_def [abs_def] request_as_def [abs_def]]
  show ?thesis
    by (rule exI [of _ "take k (lw_done w)"], rule exI [of _ "drop k (lw_done w)"])
      (use inv k in \<open>auto\<close>)
qed

text \<open>A line with handlers that record the results, for concrete runs.\<close>

definition demo_handlers :: "(bool list, unit, unit) link_handlers" where
  "demo_handlers = \<lparr>run_complete = (\<lambda>c ok u. (u @ [ok], [])), run_can_send = (\<lambda>p u. True)\<rparr>"

definition demo_request :: "u8 \<Rightarrow> (unit, unit) send_request" where
  "demo_request b = \<lparr>rq_type = EDGE_TYPE_HEARTBEAT, rq_payload = [b], rq_on_complete = Some (), rq_can_send = None\<rparr>"

definition demo_ops :: "(bool list, unit, unit) link_op list" where
  "demo_ops = [LSend (demo_request 7), LKernel [] [Write_count 3, Write_error EINTR, Write_count 9], LFlush]"

definition demo_link :: "(bool list, unit, unit) node_link" where
  "demo_link = (case link_ops demo_handlers demo_ops (fresh_link 9600 []) of Some l \<Rightarrow> l | None \<Rightarrow> fresh_link 9600 [])"

declare flush_loop.simps [code]

lemma demo_run: "link_ops demo_handlers demo_ops (fresh_link 9600 []) = Some demo_link"
proof -
  have "\<not> Option.is_none (link_ops demo_handlers demo_ops (fresh_link 9600 []))" by code_simp
  then show ?thesis by (auto simp: demo_link_def Option.is_none_def)
qed

lemma demo_link_state:
  "d_written (nl_port demo_link) = wire_frame EDGE_TYPE_HEARTBEAT [7] \<and> lw_output (nl_world demo_link) = [] \<and>
   map snd (lw_done (nl_world demo_link)) = [True] \<and> lw_user (nl_world demo_link) = [True] \<and>
   map rq_payload (lw_accepted (nl_world demo_link)) = [[7]] \<and>
   map rq_type (lw_accepted (nl_world demo_link)) = [EDGE_TYPE_HEARTBEAT]"
  by code_simp

theorem link_writes_frames_in_order_witness:
  "\<exists>since. d_written (nl_port demo_link) =
     concat (map (\<lambda>pw. take (pw_offset pw) (pw_frame pw)) (map fst since @ lw_output (nl_world demo_link))) \<and>
   since = lw_done (nl_world demo_link)"
proof -
  have "\<forall>port baud. LReopen port baud \<notin> set demo_ops" by (simp add: demo_ops_def)
  with link_writes_frames_in_order [OF demo_run] show ?thesis by auto
qed

text \<open>
  C14. Flushing returns: if a handler that is told that its frame was cancelled queues no more frames than
  some quantity of its state goes down by (in particular if it queues none), then \<^verbatim>\<open>flushOutput\<close>
  returns, whatever the kernel answers.
\<close>

theorem flush_returns:
  fixes h :: "('u, 'c, 'p) link_handlers" and pot :: "'u \<Rightarrow> nat"
  assumes "\<And>c u. pot (fst (run_complete h c False u)) + length (snd (run_complete h c False u)) \<le> pot u"
  shows "\<exists>l'. flushOutput h l = Some l'"
  using flush_loop_returns [of pot h "(nl_port l, nl_world l)", OF assms]
  by (auto simp: flushOutput_def)

theorem flush_returns_witness: "\<exists>l'. flushOutput demo_handlers demo_link = Some l'"
  by (rule flush_returns [where pot = "\<lambda>u. 0"]) (simp add: demo_handlers_def)

text \<open>
  C13. From queue to handler: frames queued on one link, all of them sent and none left in the queue,
  reach the frame handler of a link that reads the same bytes, whatever the sizes of the reads: the
  handler is called once per frame, in the order of the sends, with type and payload as they were given
  to \<^verbatim>\<open>send\<close>, and no error is counted.
\<close>

theorem link_transports_frames:
  fixes h :: "('u, 'c, 'p) link_handlers" and cb :: "Frame \<Rightarrow> 'v \<Rightarrow> 'v \<times> ('d, 'q) send_request list"
    and v :: 'v and baud' :: int and chunks :: "u8 list list" and l :: "('u, 'c, 'p) node_link"
  assumes "link_ops h ops (fresh_link baud u) = Some l" and "\<forall>port baud. LReopen port baud \<notin> set ops"
    and "\<not> hasPendingOutput l" and "\<forall>(pw, sent)\<in>set (lw_done (nl_world l)). sent"
    and "concat chunks = d_written (nl_port l)" and "\<forall>c\<in>set chunks. c \<noteq> [] \<and> length c \<le> 256"
  defines "receiver \<equiv> drainAndParse ((setFrameHandler cb (fresh_link baud' v))
      \<lparr>nl_port := open_descriptor (map Read_bytes chunks) []\<rparr>)"
  defines "frames \<equiv> map (\<lambda>r. \<lparr>f_type = rq_type r, f_payload = rq_payload r\<rparr>) (lw_accepted (nl_world l))"
  shows "nl_world receiver = foldl (\<lambda>w f. perform (cb f (lw_user w)) w) (nl_world (fresh_link baud' v)) frames \<and>
    stats (nl_parser receiver) = \<lparr>frames_ok = of_nat (length frames), len_err = 0, crc_err = 0, resync = 0\<rparr>"
proof -
  let ?rs = "lw_accepted (nl_world l)" and ?p = "nl_parser (setFrameHandler cb (fresh_link baud' v))"
  let ?items = "map (\<lambda>r. ([] :: u8 list, rq_type r, rq_payload r)) ?rs"
  have "link_inv 0 l" using link_inv_ops [OF link_inv_fresh assms(1)] assms(2) by auto
  then have q: "queue_inv 0 (nl_port l) [] (nl_world l)" by (simp add: link_inv_def)
  note inv = queue_invD [OF q]
  have full: "\<forall>pw\<in>set (map fst (lw_done (nl_world l))). wire_bytes pw = pw_frame pw"
    using inv(6) assms(4) by (fastforce simp: wire_bytes_def)
  have out: "lw_output (nl_world l) = []" using assms(3) by (simp add: hasPendingOutput_def)
  have asked: "map pw_frame (map fst (lw_done (nl_world l))) = map (\<lambda>r. buildFrame (rq_type r) (rq_payload r)) ?rs"
    using arg_cong [OF inv(3), of "map fst"] out by (simp add: asked_as_def request_as_def comp_def)
  have "d_written (nl_port l) = concat (map pw_frame (map fst (lw_done (nl_world l))))"
    using inv(2) out full by (metis append_Nil2 drop0 map_cong self_append_conv2)
  also have "\<dots> = concat (map (\<lambda>(noise, f). noise @ encoded f) ?items)"
    unfolding asked using inv(7) by (intro arg_cong [of _ _ concat]) (simp add: buildFrame_eq encoded_eq)
  finally have data: "read_data (map Read_bytes chunks) = concat (map (\<lambda>(noise, f). noise @ encoded f) ?items)"
    using read_data_chunks [OF assms(6)] assms(5) by simp
  have p: "p_state ?p = EDGE_ST_WAIT_HDR0" "length (p_payload ?p) = EDGE_PAYLOAD_MAX" "p_on_frame ?p = Some trampoline"
    "p_stats ?p = \<lparr>frames_ok = 0, len_err = 0, crc_err = 0, resync = 0\<rparr>"
    "p_user ?p = \<lparr>fu_on_frame = Some (\<lambda>f w. perform (cb f (lw_user w)) w), fu_world = nl_world (fresh_link baud' v)\<rparr>"
    by (simp_all add: setFrameHandler_def setOnFrame_def fresh_link_def new_node_link_def new_frame_parser_def
        edge_parser_init_def nl_world_def)
  have "\<forall>(noise, f)\<in>set ?items. EDGE_HDR0 \<notin> set noise \<and> length (snd f) \<le> EDGE_PAYLOAD_MAX" using inv(7) by auto
  note fed = feed_noisy_stream [OF p(1-3) this]
  have par: "nl_parser receiver = foldl edge_parser_feed ?p (concat (map (\<lambda>(noise, f). noise @ encoded f) ?items))"
    using drain_loop_feed [of "open_descriptor (map Read_bytes chunks) []" ?p] data
    by (simp add: receiver_def drainAndParse_def case_prod_beta feed_def edge_parser_feed_buf_def)
  have on: "fu_on_frame (p_user ?p) = Some (\<lambda>f w. perform (cb f (lw_user w)) w)" by (simp only: p(5)) simp
  have "p_user (nl_parser receiver) = foldl (\<lambda>u (t, pl). trampoline t pl u) (p_user ?p) (map snd ?items)"
    unfolding par by (rule fed [THEN conjunct2, THEN conjunct1])
  also note foldl_trampoline [OF on]
  finally have "p_user (nl_parser receiver) = (p_user ?p)\<lparr>fu_world :=
      foldl (\<lambda>w (t, pl). perform (cb \<lparr>f_type = t, f_payload = pl\<rparr> (lw_user w)) w) (fu_world (p_user ?p)) (map snd ?items)\<rparr>" .
  then have "nl_world receiver =
      foldl (\<lambda>w (t, pl). perform (cb \<lparr>f_type = t, f_payload = pl\<rparr> (lw_user w)) w) (nl_world (fresh_link baud' v)) (map snd ?items)"
    using p(5) by (simp add: nl_world_def [of receiver])
  moreover have "stats (nl_parser receiver) = \<lparr>frames_ok = of_nat (length ?items), len_err = 0, crc_err = 0, resync = 0\<rparr>"
    unfolding stats_def par using fed [THEN conjunct2, THEN conjunct2] p(4) by simp
  ultimately show ?thesis by (simp add: frames_def foldl_map comp_def)
qed

theorem link_transports_frames_witness:
  "lw_user (nl_world (drainAndParse ((setFrameHandler (\<lambda>f fs. (fs @ [f], [] :: (unit, unit) send_request list)) (fresh_link 9600 []))
      \<lparr>nl_port := open_descriptor (map Read_bytes [take 2 (wire_frame EDGE_TYPE_HEARTBEAT [7]), drop 2 (wire_frame EDGE_TYPE_HEARTBEAT [7])]) []\<rparr>))) =
    [\<lparr>f_type = EDGE_TYPE_HEARTBEAT, f_payload = [7]\<rparr>]"
proof -
  let ?chunks = "[take 2 (wire_frame EDGE_TYPE_HEARTBEAT [7]), drop 2 (wire_frame EDGE_TYPE_HEARTBEAT [7])]"
  have "\<forall>port baud. LReopen port baud \<notin> set demo_ops" by (simp add: demo_ops_def)
  moreover have "\<not> hasPendingOutput demo_link" using demo_link_state by (simp add: hasPendingOutput_def)
  moreover have "\<forall>(pw, sent)\<in>set (lw_done (nl_world demo_link)). sent"
    using demo_link_state by (auto simp: map_eq_Cons_conv)
  moreover have "concat ?chunks = d_written (nl_port demo_link)" using demo_link_state by simp
  moreover have "\<forall>c\<in>set ?chunks. c \<noteq> [] \<and> length c \<le> 256" by (simp add: wire_frame_def frame_body_def)
  moreover have "map (\<lambda>r. \<lparr>f_type = rq_type r, f_payload = rq_payload r\<rparr>) (lw_accepted (nl_world demo_link)) =
      [\<lparr>f_type = EDGE_TYPE_HEARTBEAT, f_payload = [7]\<rparr>]"
    using demo_link_state by (auto simp: map_eq_Cons_conv)
  moreover have "lw_user (nl_world (fresh_link 9600 us)) = us" for us :: "Frame list"
    by (simp add: nl_world_def fresh_link_def new_node_link_def new_frame_parser_def edge_parser_init_def)
  ultimately show ?thesis
    using link_transports_frames [OF demo_run, of ?chunks
        "\<lambda>f fs. (fs @ [f], [] :: (unit, unit) send_request list)" 9600 "[]"]
    by (simp add: perform_def)
qed

end
