(* ===== verification/Fifo.thy ===== *)
theory Fifo
  imports Prelude
begin

text \<open>
  The contract of the gateway's queues: a producer offers elements, which the queue may refuse, a
  consumer takes them, and closing stops further elements but keeps those inside. The client's lemmas
  are proved here once, for every sequence of operations; the thread-safe queue and the task executor
  provide the operations.
\<close>

datatype 'p fifo_op = Put 'p | Get | Close

locale fifo =
  fixes items :: "'q \<Rightarrow> 'a list"
    and closed :: "'q \<Rightarrow> bool"
    and val :: "'p \<Rightarrow> 'a"
    and put :: "'p \<Rightarrow> 'q \<Rightarrow> bool \<times> 'q"
    and get :: "'q \<Rightarrow> 'a option \<times> 'q"
    and close :: "'q \<Rightarrow> 'q"
  assumes put_accepted: "put p q = (True, q') \<Longrightarrow> \<not> closed q \<and> items q' = items q @ [val p] \<and> closed q' = closed q"
    and put_refused: "put p q = (False, q') \<Longrightarrow> q' = q"
    and get_empty: "items q = [] \<Longrightarrow> get q = (None, q)"
    and get_first: "items q = x # xs \<Longrightarrow> \<exists>q'. get q = (Some x, q') \<and> items q' = xs \<and> closed q' = closed q"
    and close_closed: "closed (close q)"
    and close_items: "items (close q) = items q"
begin

text \<open>A run: the elements accepted, the elements delivered, and the final queue.\<close>

fun fifo_run :: "'p fifo_op list \<Rightarrow> 'q \<Rightarrow> 'a list \<times> 'a list \<times> 'q" where
  "fifo_run [] q = ([], [], q)"
| "fifo_run (Put p # ops) q =
    (case put p q of (ok, q) \<Rightarrow> case fifo_run ops q of (a, d, q) \<Rightarrow> ((if ok then val p # a else a), d, q))"
| "fifo_run (Get # ops) q =
    (case get q of (r, q) \<Rightarrow> case fifo_run ops q of (a, d, q) \<Rightarrow> (a, (case r of None \<Rightarrow> d | Some x \<Rightarrow> x # d), q))"
| "fifo_run (Close # ops) q = fifo_run ops (close q)"

lemma fifo_exact:
  "fifo_run ops q = (a, d, q') \<Longrightarrow> items q @ a = d @ items q'"
proof (induction ops arbitrary: q a d)
  case (Cons op ops)
  show ?case
  proof (cases op)
    case (Put p)
    obtain ok q1 a1 d1 where run: "put p q = (ok, q1)" "fifo_run ops q1 = (a1, d1, q')"
      and eq: "a = (if ok then val p # a1 else a1)" "d = d1"
      using Cons.prems Put by (auto split: prod.splits)
    from Cons.IH [OF run(2)] run(1) eq show ?thesis
      by (cases ok) (auto dest: put_accepted put_refused)
  next
    case Get
    obtain r q1 d1 where run: "get q = (r, q1)" "fifo_run ops q1 = (a, d1, q')"
      and eq: "d = (case r of None \<Rightarrow> d1 | Some x \<Rightarrow> x # d1)"
      using Cons.prems Get by (auto split: prod.splits)
    note IH = Cons.IH [OF run(2)]
    show ?thesis
    proof (cases "items q")
      case Nil
      with get_empty [OF this] run IH eq show ?thesis by simp
    next
      case (Cons x xs)
      from get_first [OF this] run(1) have "r = Some x" "items q1 = xs" by auto
      with IH eq Cons show ?thesis by simp
    qed
  next
    case Close
    with Cons.IH [of "close q"] Cons.prems show ?thesis by (simp add: close_items)
  qed
qed simp

lemma closed_stays: "closed q \<Longrightarrow> fifo_run ops q = (a, d, q') \<Longrightarrow> a = [] \<and> closed q'"
proof (induction ops arbitrary: q a d)
  case (Cons op ops)
  show ?case
  proof (cases op)
    case (Put p)
    obtain ok q1 a1 d1 where run: "put p q = (ok, q1)" "fifo_run ops q1 = (a1, d1, q')"
      and eq: "a = (if ok then val p # a1 else a1)"
      using Cons.prems(2) Put by (auto split: prod.splits)
    have "\<not> ok" using put_accepted [of p q q1] run(1) Cons.prems(1) by auto
    with put_refused [of p q q1] run(1) have "q1 = q" by auto
    with Cons.IH [OF _ run(2)] Cons.prems(1) eq \<open>\<not> ok\<close> show ?thesis by simp
  next
    case Get
    obtain r q1 d1 where run: "get q = (r, q1)" "fifo_run ops q1 = (a, d1, q')"
      using Cons.prems(2) Get by (auto split: prod.splits)
    have "closed q1"
      using get_empty [of q] get_first [of q] run(1) Cons.prems(1) by (cases "items q") auto
    with Cons.IH [OF _ run(2)] show ?thesis by simp
  next
    case Close
    with Cons.IH [of "close q"] Cons.prems show ?thesis by (simp add: close_closed)
  qed
qed simp

text \<open>After closing, as many takes as there are elements deliver all of them in order.\<close>

lemma drains: "length (items q) \<le> n \<Longrightarrow>
  \<exists>q'. fifo_run (replicate n Get) q = ([], items q, q') \<and> items q' = []"
proof (induction n arbitrary: q)
  case (Suc n)
  show ?case
  proof (cases "items q")
    case Nil
    with Suc.IH [of q] get_empty [OF this] show ?thesis by auto
  next
    case (Cons x xs)
    from get_first [OF this] obtain q1 where "get q = (Some x, q1)" "items q1 = xs" by auto
    with Suc.IH [of q1] Suc.prems Cons show ?thesis by auto
  qed
qed simp

end

end
