(* ===== verification/Thread_Safe_Queue.thy ===== *)
theory Thread_Safe_Queue
  imports Fifo Lts
begin

text \<open>
  \<^verbatim>\<open>gateway/core/concurrent/ThreadSafeQueue.h\<close>: a bounded queue behind a mutex and two condition
  variables. Every access happens inside the mutex, so an operation is one atomic step from the point
  where its condition holds: a blocking operation is \<open>None\<close> while its wait predicate is false. The
  threads blocked on the condition variables are modelled below.
\<close>

record 'a ThreadSafeQueue =
  tsq_queue :: "'a list"
  tsq_shutdown :: bool
  tsq_capacity :: nat

definition new_queue :: "nat \<Rightarrow> 'a ThreadSafeQueue" where
  "new_queue capacity = \<lparr>tsq_queue = [], tsq_shutdown = False, tsq_capacity = capacity\<rparr>"

text \<open>The predicates the condition variables wait for.\<close>

definition not_full :: "'a ThreadSafeQueue \<Rightarrow> bool" where
  "not_full q \<longleftrightarrow> tsq_capacity q = 0 \<or> length (tsq_queue q) < tsq_capacity q \<or> tsq_shutdown q"

definition not_empty :: "'a ThreadSafeQueue \<Rightarrow> bool" where
  "not_empty q \<longleftrightarrow> tsq_queue q \<noteq> [] \<or> tsq_shutdown q"

definition push :: "'a \<Rightarrow> 'a ThreadSafeQueue \<Rightarrow> (bool \<times> 'a ThreadSafeQueue) option" where
  "push v q =
    (if \<not> not_full q then None
     else if tsq_shutdown q then Some (False, q)
     else Some (True, q\<lparr>tsq_queue := tsq_queue q @ [v]\<rparr>))"

text \<open>\<open>expired\<close>: the time limit of \<^verbatim>\<open>wait_for\<close> has passed.\<close>

definition push_for :: "bool \<Rightarrow> 'a \<Rightarrow> 'a ThreadSafeQueue \<Rightarrow> (bool \<times> 'a ThreadSafeQueue) option" where
  "push_for expired v q =
    (let ready = not_full q
     in if \<not> ready \<and> \<not> expired then None
        else if \<not> ready \<or> tsq_shutdown q then Some (False, q)
        else Some (True, q\<lparr>tsq_queue := tsq_queue q @ [v]\<rparr>))"

definition try_push :: "'a \<Rightarrow> 'a ThreadSafeQueue \<Rightarrow> bool \<times> 'a ThreadSafeQueue" where
  "try_push v q =
    (if tsq_shutdown q then (False, q)
     else if tsq_capacity q \<noteq> 0 \<and> length (tsq_queue q) \<ge> tsq_capacity q then (False, q)
     else (True, q\<lparr>tsq_queue := tsq_queue q @ [v]\<rparr>))"

definition pop :: "'a ThreadSafeQueue \<Rightarrow> ('a option \<times> 'a ThreadSafeQueue) option" where
  "pop q =
    (if \<not> not_empty q then None
     else case tsq_queue q of
            [] \<Rightarrow> Some (None, q)
          | v # vs \<Rightarrow> Some (Some v, q\<lparr>tsq_queue := vs\<rparr>))"

definition try_pop :: "'a ThreadSafeQueue \<Rightarrow> 'a option \<times> 'a ThreadSafeQueue" where
  "try_pop q =
    (case tsq_queue q of
       [] \<Rightarrow> (None, q)
     | v # vs \<Rightarrow> (Some v, q\<lparr>tsq_queue := vs\<rparr>))"

definition is_empty :: "'a ThreadSafeQueue \<Rightarrow> bool" where
  "is_empty q \<longleftrightarrow> tsq_queue q = []"

definition queue_size :: "'a ThreadSafeQueue \<Rightarrow> nat" where
  "queue_size q = length (tsq_queue q)"

definition shutdown :: "'a ThreadSafeQueue \<Rightarrow> 'a ThreadSafeQueue" where
  "shutdown q = q\<lparr>tsq_shutdown := True\<rparr>"

lemmas tsq_defs = push_def push_for_def try_push_def pop_def try_pop_def shutdown_def not_full_def not_empty_def

text \<open>The queue is a FIFO with \<^verbatim>\<open>try_push\<close>, and so it is with the blocking push, an offer that may fail.\<close>

interpretation tsq: fifo tsq_queue tsq_shutdown id try_push try_pop shutdown
  by unfold_locales (auto simp: tsq_defs split: if_splits list.splits)

interpretation tsq_wait: fifo tsq_queue tsq_shutdown snd
    "\<lambda>(expired, v) q. case push_for expired v q of None \<Rightarrow> (False, q) | Some r \<Rightarrow> r" try_pop shutdown
  by unfold_locales (auto simp: tsq_defs split: if_splits list.splits option.splits)

subsection \<open>Threads on the condition variables\<close>

text \<open>
  Threads that use one queue. A consumer that finds the queue empty sleeps on \<^verbatim>\<open>not_empty_cv_\<close>; a
  notification, or a spurious wake-up, makes it a woken consumer, which gets the mutex at some later time
  and looks at the queue again. Producers on \<^verbatim>\<open>not_full_cv_\<close> are the same. \<^verbatim>\<open>push\<close> and \<^verbatim>\<open>pop\<close>
  notify after they have released the mutex, so the notification is a step of its own.
\<close>

record 'a monitor =
  mo_queue :: "'a ThreadSafeQueue"
  mo_consumers :: nat
  mo_woken_consumers :: nat
  mo_producers :: nat
  mo_woken_producers :: nat
  mo_notify_not_empty :: nat
  mo_notify_not_full :: nat

datatype 'a tsq_event = Pushed 'a | Popped 'a

definition start_monitor :: "nat \<Rightarrow> 'a monitor" where
  "start_monitor capacity = \<lparr>mo_queue = new_queue capacity, mo_consumers = 0, mo_woken_consumers = 0,
     mo_producers = 0, mo_woken_producers = 0, mo_notify_not_empty = 0, mo_notify_not_full = 0\<rparr>"

text \<open>What a finished push or pop leaves behind: its event and a notification to deliver.\<close>

definition after_push :: "'a \<Rightarrow> bool \<times> 'a ThreadSafeQueue \<Rightarrow> 'a monitor \<Rightarrow> 'a tsq_event list \<times> 'a monitor" where
  "after_push v r m =
    (if fst r then ([Pushed v], m\<lparr>mo_queue := snd r, mo_notify_not_empty := mo_notify_not_empty m + 1\<rparr>)
     else ([], m\<lparr>mo_queue := snd r\<rparr>))"

definition after_pop :: "'a option \<times> 'a ThreadSafeQueue \<Rightarrow> 'a monitor \<Rightarrow> 'a tsq_event list \<times> 'a monitor" where
  "after_pop r m =
    (case fst r of
       Some v \<Rightarrow> ([Popped v], m\<lparr>mo_queue := snd r, mo_notify_not_full := mo_notify_not_full m + 1\<rparr>)
     | None \<Rightarrow> ([], m\<lparr>mo_queue := snd r\<rparr>))"

inductive tsq_step :: "'a monitor \<Rightarrow> 'a tsq_event list \<Rightarrow> 'a monitor \<Rightarrow> bool" where
  push_runs: "push v (mo_queue m) = Some r \<Longrightarrow> after_push v r m = (evs, m') \<Longrightarrow> tsq_step m evs m'"
| push_for_runs: "push_for expired v (mo_queue m) = Some r \<Longrightarrow> after_push v r m = (evs, m') \<Longrightarrow> tsq_step m evs m'"
| push_sleeps: "push v (mo_queue m) = None \<Longrightarrow> tsq_step m [] (m\<lparr>mo_producers := mo_producers m + 1\<rparr>)"
| try_push_runs: "after_push v (try_push v (mo_queue m)) m = (evs, m') \<Longrightarrow> tsq_step m evs m'"
| pop_runs: "pop (mo_queue m) = Some r \<Longrightarrow> after_pop r m = (evs, m') \<Longrightarrow> tsq_step m evs m'"
| pop_sleeps: "pop (mo_queue m) = None \<Longrightarrow> tsq_step m [] (m\<lparr>mo_consumers := mo_consumers m + 1\<rparr>)"
| try_pop_runs: "after_pop (try_pop (mo_queue m)) m = (evs, m') \<Longrightarrow> tsq_step m evs m'"
| consumer_wakes: "mo_consumers m = Suc k \<Longrightarrow>
    tsq_step m [] (m\<lparr>mo_consumers := k, mo_woken_consumers := mo_woken_consumers m + 1\<rparr>)"
| producer_wakes: "mo_producers m = Suc k \<Longrightarrow>
    tsq_step m [] (m\<lparr>mo_producers := k, mo_woken_producers := mo_woken_producers m + 1\<rparr>)"
| woken_consumer_runs: "mo_woken_consumers m = Suc k \<Longrightarrow> pop (mo_queue m) = Some r \<Longrightarrow>
    after_pop r (m\<lparr>mo_woken_consumers := k\<rparr>) = (evs, m') \<Longrightarrow> tsq_step m evs m'"
| woken_consumer_sleeps: "mo_woken_consumers m = Suc k \<Longrightarrow> pop (mo_queue m) = None \<Longrightarrow>
    tsq_step m [] (m\<lparr>mo_woken_consumers := k, mo_consumers := mo_consumers m + 1\<rparr>)"
| woken_producer_runs: "mo_woken_producers m = Suc k \<Longrightarrow> push_for expired v (mo_queue m) = Some r \<Longrightarrow>
    after_push v r (m\<lparr>mo_woken_producers := k\<rparr>) = (evs, m') \<Longrightarrow> tsq_step m evs m'"
| woken_producer_sleeps: "mo_woken_producers m = Suc k \<Longrightarrow> push v (mo_queue m) = None \<Longrightarrow>
    tsq_step m [] (m\<lparr>mo_woken_producers := k, mo_producers := mo_producers m + 1\<rparr>)"
| notify_consumer: "mo_notify_not_empty m = Suc k \<Longrightarrow> mo_consumers m = Suc c \<Longrightarrow>
    tsq_step m [] (m\<lparr>mo_notify_not_empty := k, mo_consumers := c, mo_woken_consumers := mo_woken_consumers m + 1\<rparr>)"
| notify_no_consumer: "mo_notify_not_empty m = Suc k \<Longrightarrow> mo_consumers m = 0 \<Longrightarrow>
    tsq_step m [] (m\<lparr>mo_notify_not_empty := k\<rparr>)"
| notify_producer: "mo_notify_not_full m = Suc k \<Longrightarrow> mo_producers m = Suc c \<Longrightarrow>
    tsq_step m [] (m\<lparr>mo_notify_not_full := k, mo_producers := c, mo_woken_producers := mo_woken_producers m + 1\<rparr>)"
| notify_no_producer: "mo_notify_not_full m = Suc k \<Longrightarrow> mo_producers m = 0 \<Longrightarrow>
    tsq_step m [] (m\<lparr>mo_notify_not_full := k\<rparr>)"
| shutdown_runs: "tsq_step m [] (m\<lparr>mo_queue := shutdown (mo_queue m), mo_consumers := 0, mo_producers := 0,
    mo_woken_consumers := mo_woken_consumers m + mo_consumers m,
    mo_woken_producers := mo_woken_producers m + mo_producers m\<rparr>)"

text \<open>
  The invariant: sleepers exist only while the queue is open; for every element in the queue that a
  sleeping consumer could take there is a woken consumer or a notification under way, and for every free
  place a sleeping producer could use there is a woken producer or a notification under way.
\<close>

definition monitor_ok :: "nat \<Rightarrow> 'a monitor \<Rightarrow> bool" where
  "monitor_ok capacity m \<longleftrightarrow>
    tsq_capacity (mo_queue m) = capacity \<and>
    (capacity \<noteq> 0 \<longrightarrow> length (tsq_queue (mo_queue m)) \<le> capacity) \<and>
    (mo_consumers m \<noteq> 0 \<longrightarrow> \<not> tsq_shutdown (mo_queue m) \<and>
       length (tsq_queue (mo_queue m)) \<le> mo_woken_consumers m + mo_notify_not_empty m) \<and>
    (mo_producers m \<noteq> 0 \<longrightarrow> \<not> tsq_shutdown (mo_queue m) \<and> capacity \<noteq> 0 \<and>
       capacity \<le> length (tsq_queue (mo_queue m)) + mo_woken_producers m + mo_notify_not_full m)"

definition pushed :: "'a tsq_event list \<Rightarrow> 'a list" where
  "pushed evs = List.map_filter (\<lambda>e. case e of Pushed v \<Rightarrow> Some v | Popped v \<Rightarrow> None) evs"

definition popped :: "'a tsq_event list \<Rightarrow> 'a list" where
  "popped evs = List.map_filter (\<lambda>e. case e of Pushed v \<Rightarrow> None | Popped v \<Rightarrow> Some v) evs"

lemma pushed_append [simp]: "pushed (xs @ ys) = pushed xs @ pushed ys"
  by (simp add: pushed_def List.map_filter_def)

lemma popped_append [simp]: "popped (xs @ ys) = popped xs @ popped ys"
  by (simp add: popped_def List.map_filter_def)

lemma pushed_popped_simps [simp]:
  "pushed [] = []" "pushed [Pushed v] = [v]" "pushed [Popped v] = []"
  "popped [] = []" "popped [Pushed v] = []" "popped [Popped v] = [v]"
  by (simp_all add: pushed_def popped_def List.map_filter_def)

text \<open>The pushes and pops do one of two things to the queue.\<close>

definition pushes :: "'a \<Rightarrow> bool \<times> 'a ThreadSafeQueue \<Rightarrow> 'a ThreadSafeQueue \<Rightarrow> bool" where
  "pushes v r q \<longleftrightarrow> r = (False, q) \<or> (r = (True, q\<lparr>tsq_queue := tsq_queue q @ [v]\<rparr>) \<and> \<not> tsq_shutdown q \<and>
     (tsq_capacity q = 0 \<or> length (tsq_queue q) < tsq_capacity q))"

definition pops :: "'a option \<times> 'a ThreadSafeQueue \<Rightarrow> 'a ThreadSafeQueue \<Rightarrow> bool" where
  "pops r q \<longleftrightarrow> (tsq_queue q = [] \<and> r = (None, q)) \<or>
     (\<exists>v vs. tsq_queue q = v # vs \<and> r = (Some v, q\<lparr>tsq_queue := vs\<rparr>))"

lemma push_effects:
  "push v q = Some r \<Longrightarrow> pushes v r q" "push_for expired v q = Some r \<Longrightarrow> pushes v r q" "pushes v (try_push v q) q"
  by (auto simp: pushes_def tsq_defs Let_def split: if_splits)

lemma pop_effects: "pop q = Some r \<Longrightarrow> pops r q" "pops (try_pop q) q"
  by (auto simp: pops_def tsq_defs split: if_splits list.splits)

lemma woken_pusher_effect:
  "push_for expired v q = Some r \<Longrightarrow> \<not> fst r \<Longrightarrow> tsq_shutdown q \<or> (tsq_capacity q \<noteq> 0 \<and> tsq_capacity q \<le> length (tsq_queue q))"
  by (auto simp: tsq_defs Let_def split: if_splits)

lemma blocked: "push v q = None \<Longrightarrow> \<not> tsq_shutdown q \<and> tsq_capacity q \<noteq> 0 \<and> tsq_capacity q \<le> length (tsq_queue q)"
  "pop q = None \<Longrightarrow> \<not> tsq_shutdown q \<and> tsq_queue q = []"
  by (auto simp: tsq_defs split: if_splits list.splits)

lemma monitor_ok_push:
  assumes "monitor_ok c m" and "pushes v r (mo_queue m)" and "after_push v r m = (evs, m')"
  shows "monitor_ok c m'"
  using assms by (auto simp: pushes_def after_push_def monitor_ok_def)

lemma monitor_ok_pop:
  assumes "monitor_ok c m" and "pops r (mo_queue m)" and "after_pop r m = (evs, m')"
  shows "monitor_ok c m'"
  using assms by (auto simp: pops_def after_pop_def monitor_ok_def)

lemma monitor_ok_woken_push:
  assumes "monitor_ok c m" and "mo_woken_producers m = Suc k" and "push_for expired v (mo_queue m) = Some r"
    and "after_push v r (m\<lparr>mo_woken_producers := k\<rparr>) = (evs, m')"
  shows "monitor_ok c m'"
proof (cases "fst r")
  case True
  with push_effects(2) [OF assms(3)] assms(1,2,4) show ?thesis
    by (auto simp: pushes_def after_push_def monitor_ok_def)
next
  case False
  with push_effects(2) [OF assms(3)] woken_pusher_effect [OF assms(3)] assms(1,2,4) show ?thesis
    by (auto simp: pushes_def after_push_def monitor_ok_def)
qed

lemma monitor_ok_woken_pop:
  assumes "monitor_ok c m" and "mo_woken_consumers m = Suc k" and "pop (mo_queue m) = Some r"
    and "after_pop r (m\<lparr>mo_woken_consumers := k\<rparr>) = (evs, m')"
  shows "monitor_ok c m'"
  using pop_effects(1) [OF assms(3)] assms by (auto simp: pops_def after_pop_def monitor_ok_def)

lemma monitor_ok_step:
  assumes "tsq_step m evs m'" and "monitor_ok c m"
  shows "monitor_ok c m'"
  using assms
proof (induction rule: tsq_step.induct)
  case (push_sleeps v m)
  with blocked(1) [OF this(1)] show ?case by (auto simp: monitor_ok_def)
next
  case (pop_sleeps m)
  with blocked(2) [OF this(1)] show ?case by (auto simp: monitor_ok_def)
next
  case (woken_consumer_sleeps m k)
  with blocked(2) [OF this(2)] show ?case by (auto simp: monitor_ok_def)
next
  case (woken_producer_sleeps m k v)
  with blocked(1) [OF this(2)] show ?case by (auto simp: monitor_ok_def)
next
  case (shutdown_runs m)
  then show ?case by (auto simp: monitor_ok_def shutdown_def)
next
  case (push_runs v m r evs m')
  from monitor_ok_push [OF this(3) push_effects(1) [OF this(1)] this(2)] show ?case .
next
  case (push_for_runs expired v m r evs m')
  from monitor_ok_push [OF this(3) push_effects(2) [OF this(1)] this(2)] show ?case .
next
  case (try_push_runs v m evs m')
  from monitor_ok_push [OF this(2) push_effects(3) this(1)] show ?case .
next
  case (pop_runs m r evs m')
  from monitor_ok_pop [OF this(3) pop_effects(1) [OF this(1)] this(2)] show ?case .
next
  case (try_pop_runs m evs m')
  from monitor_ok_pop [OF this(2) pop_effects(2) this(1)] show ?case .
next
  case (woken_consumer_runs m k r evs m')
  from monitor_ok_woken_pop [OF this(4,1-3)] show ?case .
next
  case (woken_producer_runs m k expired v r evs m')
  from monitor_ok_woken_push [OF this(4,1-3)] show ?case .
qed (auto simp: monitor_ok_def)

text \<open>What one step does to the elements.\<close>

lemma after_push_fifo:
  "pushes v r q \<Longrightarrow> after_push v r m = (evs, m') \<Longrightarrow>
   tsq_queue q @ pushed evs = popped evs @ tsq_queue (mo_queue m') \<and>
   (tsq_shutdown q \<longrightarrow> pushed evs = [] \<and> tsq_shutdown (mo_queue m'))"
  by (auto simp: pushes_def after_push_def)

lemma after_pop_fifo:
  "pops r q \<Longrightarrow> after_pop r m = (evs, m') \<Longrightarrow>
   tsq_queue q @ pushed evs = popped evs @ tsq_queue (mo_queue m') \<and>
   (tsq_shutdown q \<longrightarrow> pushed evs = [] \<and> tsq_shutdown (mo_queue m'))"
  by (auto simp: pops_def after_pop_def)

lemma fifo_step:
  assumes "tsq_step m evs m'"
  shows "tsq_queue (mo_queue m) @ pushed evs = popped evs @ tsq_queue (mo_queue m') \<and>
    (tsq_shutdown (mo_queue m) \<longrightarrow> pushed evs = [] \<and> tsq_shutdown (mo_queue m'))"
  using assms
proof (induction rule: tsq_step.induct)
  case (push_runs v m r evs m')
  from after_push_fifo [OF push_effects(1) [OF this(1)] this(2)] show ?case .
next
  case (push_for_runs expired v m r evs m')
  from after_push_fifo [OF push_effects(2) [OF this(1)] this(2)] show ?case .
next
  case (try_push_runs v m evs m')
  from after_push_fifo [OF push_effects(3) this] show ?case .
next
  case (pop_runs m r evs m')
  from after_pop_fifo [OF pop_effects(1) [OF this(1)] this(2)] show ?case .
next
  case (try_pop_runs m evs m')
  from after_pop_fifo [OF pop_effects(2) this] show ?case .
next
  case (woken_consumer_runs m k r evs m')
  from after_pop_fifo [OF pop_effects(1) [OF this(2)] this(3)] show ?case .
next
  case (woken_producer_runs m k expired v r evs m')
  from after_push_fifo [OF push_effects(2) [OF this(2)] this(3)] show ?case .
qed (simp_all add: shutdown_def)

definition queue_history :: "nat \<Rightarrow> 'a tsq_event list \<Rightarrow> 'a monitor \<Rightarrow> bool" where
  "queue_history c evs m \<longleftrightarrow> monitor_ok c m \<and> pushed evs = popped evs @ tsq_queue (mo_queue m)"

lemma queue_history_reachable:
  assumes "lts_steps tsq_step (start_monitor c) evs m"
  shows "queue_history c evs m"
  using assms
proof (rule steps_invariant)
  show "queue_history c [] (start_monitor c)"
    by (simp add: queue_history_def monitor_ok_def start_monitor_def new_queue_def)
  show "queue_history c (evs0 @ evs) s'" if "queue_history c evs0 s" "tsq_step s evs s'" for s evs0 evs s'
    using that monitor_ok_step [OF that(2)] fifo_step [OF that(2)] by (auto simp: queue_history_def)
qed

subsection \<open>Properties\<close>

text \<open>
  C28. The queue under any interleaving of its users: the elements the consumers have received, followed
  by those in the queue, are the elements the producers had accepted, in order (nothing is lost, repeated
  or reordered), and a bounded queue never holds more than its capacity.
\<close>

theorem queue_is_fifo_under_interleaving:
  assumes "lts_steps tsq_step (start_monitor c) evs m"
  shows "pushed evs = popped evs @ tsq_queue (mo_queue m) \<and>
    (c \<noteq> 0 \<longrightarrow> length (tsq_queue (mo_queue m)) \<le> c)"
  using queue_history_reachable [OF assms] by (simp add: queue_history_def monitor_ok_def)

lemma demo_monitor_run:
  "lts_steps tsq_step (start_monitor 1) [Pushed x, Popped x]
    ((start_monitor 1)\<lparr>mo_notify_not_empty := 1, mo_notify_not_full := 1\<rparr>)"
proof -
  let ?m = "(start_monitor 1)\<lparr>mo_queue := (new_queue 1)\<lparr>tsq_queue := [x]\<rparr>, mo_notify_not_empty := 1\<rparr>"
  have "tsq_step (start_monitor 1) [Pushed x] ?m"
    by (rule try_push_runs [of x]) (simp add: start_monitor_def new_queue_def try_push_def after_push_def)
  moreover have "tsq_step ?m [Popped x] ((start_monitor 1)\<lparr>mo_notify_not_empty := 1, mo_notify_not_full := 1\<rparr>)"
    by (rule try_pop_runs) (simp add: start_monitor_def new_queue_def try_pop_def after_pop_def)
  ultimately show ?thesis using steps_step [where R = tsq_step, OF _ steps_single] by fastforce
qed

theorem queue_is_fifo_under_interleaving_witness:
  "pushed [Pushed (5 :: nat), Popped 5] = popped [Pushed 5, Popped 5] @
     tsq_queue (mo_queue ((start_monitor 1)\<lparr>mo_notify_not_empty := 1, mo_notify_not_full := 1\<rparr>))"
  using queue_is_fifo_under_interleaving [OF demo_monitor_run [of "5 :: nat"]] by simp

text \<open>
  C29. No wake-up is lost: whenever consumers sleep and none of them has been woken and no notification
  is under way, there is nothing for them to do (the queue is empty and open); whenever producers sleep in
  that way, the queue is full and open. So no thread sleeps for ever beside an element or a free place,
  and after \<^verbatim>\<open>shutdown\<close> nobody sleeps.
\<close>

theorem queue_loses_no_wakeup:
  assumes "lts_steps tsq_step (start_monitor c) evs m"
  shows "(mo_consumers m \<noteq> 0 \<and> mo_woken_consumers m = 0 \<and> mo_notify_not_empty m = 0 \<longrightarrow> \<not> not_empty (mo_queue m)) \<and>
    (mo_producers m \<noteq> 0 \<and> mo_woken_producers m = 0 \<and> mo_notify_not_full m = 0 \<longrightarrow> \<not> not_full (mo_queue m)) \<and>
    (tsq_shutdown (mo_queue m) \<longrightarrow> mo_consumers m = 0 \<and> mo_producers m = 0)"
  using queue_history_reachable [OF assms]
  by (auto simp: queue_history_def monitor_ok_def not_empty_def not_full_def)

theorem queue_loses_no_wakeup_witness:
  "\<not> not_empty (mo_queue ((start_monitor 1 :: nat monitor)\<lparr>mo_consumers := 1\<rparr>))"
proof -
  have "tsq_step (start_monitor 1) [] ((start_monitor 1 :: nat monitor)\<lparr>mo_consumers := mo_consumers (start_monitor 1 :: nat monitor) + 1\<rparr>)"
    by (rule pop_sleeps) (simp add: pop_def not_empty_def start_monitor_def new_queue_def)
  then have "lts_steps tsq_step (start_monitor 1) [] ((start_monitor 1 :: nat monitor)\<lparr>mo_consumers := 1\<rparr>)"
    using steps_single [where R = tsq_step] by (fastforce simp: start_monitor_def)
  from queue_loses_no_wakeup [OF this] show ?thesis by (simp add: start_monitor_def)
qed

end
