(* ===== verification/Thread_Pool.thy ===== *)
theory Thread_Pool
  imports Thread_Safe_Queue "HOL-Library.Multiset"
begin

text \<open>
  \<^verbatim>\<open>gateway/core/concurrent/ThreadPool.h\<close>: a fixed number of workers on one unbounded queue. A task is a value; running
  it never throws out of the worker, since a packaged task keeps its exception for the future. A worker is a machine with
  the program points of its loop; the steps of workers and callers interleave in any order.
\<close>

datatype 'a pool_worker = Pw_waiting | Pw_running 'a | Pw_exited

record 'a thread_pool =
  tp_queue :: "'a ThreadSafeQueue"
  tp_workers :: "'a pool_worker list"

datatype 'a pool_event = Task_submitted 'a | Task_refused 'a | Task_executed 'a

definition new_pool :: "nat \<Rightarrow> 'a thread_pool" where
  "new_pool n = \<lparr>tp_queue = new_queue 0, tp_workers = replicate n Pw_waiting\<rparr>"

text \<open>A task that the queue refuses is destroyed, which its future shows as a broken promise.\<close>

definition pool_submit :: "'a \<Rightarrow> 'a thread_pool \<Rightarrow> ('a pool_event list \<times> 'a thread_pool) option" where
  "pool_submit task p =
    (case push task (tp_queue p) of
       None \<Rightarrow> None
     | Some (ok, q) \<Rightarrow> Some ([if ok then Task_submitted task else Task_refused task], p\<lparr>tp_queue := q\<rparr>))"

definition workerLoop :: "nat \<Rightarrow> 'a thread_pool \<Rightarrow> ('a pool_event list \<times> 'a thread_pool) option" where
  "workerLoop i p =
    (if i \<ge> length (tp_workers p) then None
     else case tp_workers p ! i of
            Pw_waiting \<Rightarrow>
              (case pop (tp_queue p) of
                 None \<Rightarrow> None
               | Some (None, q) \<Rightarrow> Some ([], p\<lparr>tp_queue := q, tp_workers := (tp_workers p)[i := Pw_exited]\<rparr>)
               | Some (Some task, q) \<Rightarrow> Some ([], p\<lparr>tp_queue := q, tp_workers := (tp_workers p)[i := Pw_running task]\<rparr>))
          | Pw_running task \<Rightarrow> Some ([Task_executed task], p\<lparr>tp_workers := (tp_workers p)[i := Pw_waiting]\<rparr>)
          | Pw_exited \<Rightarrow> None)"

text \<open>The destructor closes the queue, then waits until every worker has returned.\<close>

definition pool_shutdown :: "'a thread_pool \<Rightarrow> 'a thread_pool" where
  "pool_shutdown p = p\<lparr>tp_queue := shutdown (tp_queue p)\<rparr>"

definition pool_joined :: "'a thread_pool \<Rightarrow> bool" where
  "pool_joined p \<longleftrightarrow> (\<forall>w\<in>set (tp_workers p). w = Pw_exited)"

inductive pool_step :: "'a thread_pool \<Rightarrow> 'a pool_event list \<Rightarrow> 'a thread_pool \<Rightarrow> bool" where
  pool_submit_step: "pool_submit task p = Some (evs, p') \<Longrightarrow> pool_step p evs p'"
| pool_worker_step: "workerLoop i p = Some (evs, p') \<Longrightarrow> pool_step p evs p'"
| pool_shutdown_step: "pool_step p [] (pool_shutdown p)"

subsection \<open>Lemmas\<close>

fun submitted_tasks :: "'a pool_event list \<Rightarrow> 'a list" where
  "submitted_tasks [] = []"
| "submitted_tasks (Task_submitted t # evs) = t # submitted_tasks evs"
| "submitted_tasks (_ # evs) = submitted_tasks evs"

fun executed_tasks :: "'a pool_event list \<Rightarrow> 'a list" where
  "executed_tasks [] = []"
| "executed_tasks (Task_executed t # evs) = t # executed_tasks evs"
| "executed_tasks (_ # evs) = executed_tasks evs"

fun running_of :: "'a pool_worker \<Rightarrow> 'a multiset" where
  "running_of (Pw_running t) = {#t#}"
| "running_of _ = {#}"

definition running_tasks_of :: "'a thread_pool \<Rightarrow> 'a multiset" where
  "running_tasks_of p = (\<Sum>w\<leftarrow>tp_workers p. running_of w)"

lemma pool_lists_append [simp]:
  "submitted_tasks (evs @ evs') = submitted_tasks evs @ submitted_tasks evs'"
  "executed_tasks (evs @ evs') = executed_tasks evs @ executed_tasks evs'"
  by (induction evs rule: submitted_tasks.induct; simp) (induction evs rule: executed_tasks.induct; simp)

text \<open>A sum over the workers after one of them has changed.\<close>

lemma sum_list_updated:
  fixes f :: "'b \<Rightarrow> 'm :: comm_monoid_add"
  assumes "i < length ws"
  shows "(\<Sum>w\<leftarrow>ws[i := v]. f w) + f (ws ! i) = (\<Sum>w\<leftarrow>ws. f w) + f v"
  using assms
proof (induction ws arbitrary: i)
  case (Cons w ws)
  then show ?case by (cases i) (auto simp: ac_simps)
qed simp

definition pool_inv :: "nat \<Rightarrow> 'a pool_event list \<Rightarrow> 'a thread_pool \<Rightarrow> bool" where
  "pool_inv n evs p \<longleftrightarrow>
    mset (submitted_tasks evs) = mset (executed_tasks evs) + running_tasks_of p + mset (tsq_queue (tp_queue p)) \<and>
    length (tp_workers p) = n \<and> tsq_capacity (tp_queue p) = 0 \<and>
    (Pw_exited \<in> set (tp_workers p) \<longrightarrow> tsq_shutdown (tp_queue p) \<and> tsq_queue (tp_queue p) = [])"

lemma workerLoop_cases:
  assumes "workerLoop i p = Some (evs, p')"
  obtains (exits) "i < length (tp_workers p)" "tp_workers p ! i = Pw_waiting" "tsq_queue (tp_queue p) = []" "tsq_shutdown (tp_queue p)" "evs = []"
      "p' = p\<lparr>tp_workers := (tp_workers p)[i := Pw_exited]\<rparr>"
  | (takes) t ts where "i < length (tp_workers p)" "tp_workers p ! i = Pw_waiting" "tsq_queue (tp_queue p) = t # ts" "evs = []"
      "p' = p\<lparr>tp_queue := (tp_queue p)\<lparr>tsq_queue := ts\<rparr>, tp_workers := (tp_workers p)[i := Pw_running t]\<rparr>"
  | (executes) t where "i < length (tp_workers p)" "tp_workers p ! i = Pw_running t" "evs = [Task_executed t]"
      "p' = p\<lparr>tp_workers := (tp_workers p)[i := Pw_waiting]\<rparr>"
  using assms by (auto simp: workerLoop_def pop_def not_empty_def split: if_splits pool_worker.splits list.splits)

lemma pool_worker_inv:
  assumes "workerLoop i p = Some (evs, p')" and "pool_inv n evs0 p"
  shows "pool_inv n (evs0 @ evs) p'"
  using assms(1)
proof (cases rule: workerLoop_cases)
  case exits
  with assms(2) sum_list_updated [of i "tp_workers p" running_of Pw_exited] show ?thesis
    by (auto simp: pool_inv_def running_tasks_of_def)
next
  case (takes t ts)
  have "Pw_exited \<notin> set ((tp_workers p)[i := Pw_running t])"
    using assms(2) takes(3) set_update_subset_insert [of "tp_workers p" i "Pw_running t"] by (auto simp: pool_inv_def)
  with assms(2) takes sum_list_updated [of i "tp_workers p" running_of "Pw_running t"] show ?thesis
    by (auto simp: pool_inv_def running_tasks_of_def)
next
  case (executes t)
  have "Pw_exited \<in> set ((tp_workers p)[i := Pw_waiting]) \<Longrightarrow> Pw_exited \<in> set (tp_workers p)"
    using set_update_subset_insert [of "tp_workers p" i "Pw_waiting"] by auto
  with assms(2) executes sum_list_updated [of i "tp_workers p" running_of Pw_waiting] show ?thesis
    by (auto simp: pool_inv_def running_tasks_of_def)
qed

lemma pool_step_inv:
  assumes "pool_step p evs p'" and "pool_inv n evs0 p"
  shows "pool_inv n (evs0 @ evs) p'"
  using assms(1)
proof cases
  case (pool_submit_step task)
  with assms(2) show ?thesis
    by (auto simp: pool_submit_def push_def not_full_def pool_inv_def running_tasks_of_def split: if_splits)
next
  case (pool_worker_step i)
  from pool_worker_inv [OF this assms(2)] show ?thesis .
next
  case pool_shutdown_step
  with assms(2) show ?thesis by (simp add: pool_shutdown_def shutdown_def pool_inv_def running_tasks_of_def)
qed

lemma pool_inv_reachable:
  assumes "lts_steps pool_step (new_pool n) evs p"
  shows "pool_inv n evs p"
proof (rule steps_invariant [OF assms])
  show "pool_inv n [] (new_pool n)" 
    by (induction n) (simp_all add: pool_inv_def new_pool_def new_queue_def running_tasks_of_def)
qed (rule pool_step_inv)

subsection \<open>Properties\<close>

text \<open>
  The pool runs every accepted task exactly once: at any time the submitted tasks are, with their multiplicities, those
  executed, those being run and those waiting; and when the destructor of a pool with at least one worker has joined its
  workers, all of them have been executed. A pool without workers executes nothing.
\<close>

theorem pool_executes_each_task_once:
  assumes "lts_steps pool_step (new_pool n) evs p"
  shows "mset (submitted_tasks evs) = mset (executed_tasks evs) + running_tasks_of p + mset (tsq_queue (tp_queue p)) \<and>
    (pool_joined p \<and> n > 0 \<longrightarrow> mset (submitted_tasks evs) = mset (executed_tasks evs)) \<and>
    (n = 0 \<longrightarrow> running_tasks_of p = {#})"
proof -
  note inv = pool_inv_reachable [OF assms, unfolded pool_inv_def]
  have "running_tasks_of p = {#}" if "pool_joined p"
  proof -
    have "(\<Sum>w\<leftarrow>ws. running_of w) = {#}" if "\<forall>w\<in>set ws. w = Pw_exited" for ws :: "'a pool_worker list"
      using that by (induction ws) auto
    with that show ?thesis by (simp add: pool_joined_def running_tasks_of_def)
  qed
  moreover have "tsq_queue (tp_queue p) = []" if "pool_joined p" "n > 0"
    using inv that by (cases "tp_workers p") (auto simp: pool_joined_def)
  ultimately show ?thesis using inv by (auto simp: running_tasks_of_def)
qed

text \<open>
  The destructor returns: after the queue was closed, as long as a worker has not returned some worker can go on, and every
  step of a worker brings the end nearer.
\<close>

fun worker_left :: "'a pool_worker \<Rightarrow> nat" where
  "worker_left Pw_waiting = 1"
| "worker_left (Pw_running t) = 2"
| "worker_left Pw_exited = 0"

definition pool_left :: "'a thread_pool \<Rightarrow> nat" where
  "pool_left p = 2 * length (tsq_queue (tp_queue p)) + (\<Sum>w\<leftarrow>tp_workers p. worker_left w)"

theorem pool_destructor_returns:
  assumes "tsq_shutdown (tp_queue p)" and "\<not> pool_joined p"
  shows "(\<exists>i evs p'. workerLoop i p = Some (evs, p')) \<and>
    (\<forall>i evs p'. workerLoop i p = Some (evs, p') \<longrightarrow> pool_left p' < pool_left p \<and> tsq_shutdown (tp_queue p'))"
proof -
  from assms(2) obtain i where i: "i < length (tp_workers p)" "tp_workers p ! i \<noteq> Pw_exited"
    by (auto simp: pool_joined_def in_set_conv_nth)
  then have "\<exists>evs p'. workerLoop i p = Some (evs, p')"
    using assms(1) by (auto simp: workerLoop_def pop_def not_empty_def split: pool_worker.splits list.splits)
  moreover have "pool_left p' < pool_left p \<and> tsq_shutdown (tp_queue p')" if "workerLoop i p = Some (evs, p')" for i evs p'
    using that
  proof (cases rule: workerLoop_cases)
    case exits
    with sum_list_updated [of i "tp_workers p" worker_left Pw_exited] assms(1) show ?thesis by (simp add: pool_left_def)
  next
    case (takes t ts)
    with sum_list_updated [of i "tp_workers p" worker_left "Pw_running t"] assms(1) show ?thesis by (simp add: pool_left_def)
  next
    case (executes t)
    with sum_list_updated [of i "tp_workers p" worker_left Pw_waiting] assms(1) show ?thesis by (simp add: pool_left_def)
  qed
  ultimately show ?thesis by blast
qed

end
