(* ===== verification/Cpp_String.thy ===== *)
theory Cpp_String
  imports Prelude
begin

text \<open>
  The part of \<^verbatim>\<open>std::string\<close> and of the C library's number conversions that the gateway uses. A string
  is the list of its bytes as characters; positions are \<open>nat option\<close>, \<open>None\<close> for \<^verbatim>\<open>npos\<close>.
\<close>

definition find_char :: "char \<Rightarrow> string \<Rightarrow> nat \<Rightarrow> nat option" where
  "find_char c s pos = find (\<lambda>i. s ! i = c) [pos..<length s]"

definition find_last_char :: "char \<Rightarrow> string \<Rightarrow> nat option" where
  "find_last_char c s = find (\<lambda>i. s ! i = c) (rev [0..<length s])"

definition find_first_not_of :: "string \<Rightarrow> string \<Rightarrow> nat option" where
  "find_first_not_of cs s = find (\<lambda>i. s ! i \<notin> set cs) [0..<length s]"

definition find_last_not_of :: "string \<Rightarrow> string \<Rightarrow> nat option" where
  "find_last_not_of cs s = find (\<lambda>i. s ! i \<notin> set cs) (rev [0..<length s])"

definition substr :: "string \<Rightarrow> nat \<Rightarrow> nat \<Rightarrow> string" where
  "substr s pos n = take n (drop pos s)"

definition bytes :: "nat list \<Rightarrow> string" where
  "bytes ns = map char_of ns"

text \<open>\<^verbatim>\<open>std::to_string\<close> of an unsigned and of a signed integer.\<close>

fun digits_rev :: "nat \<Rightarrow> string" where
  "digits_rev n = (if n < 10 then [char_of (48 + n)] else char_of (48 + n mod 10) # digits_rev (n div 10))"

declare digits_rev.simps [simp del]

definition to_string :: "nat \<Rightarrow> string" where
  "to_string n = rev (digits_rev n)"

definition int_to_string :: "int \<Rightarrow> string" where
  "int_to_string i = (if i < 0 then CHR ''-'' # to_string (nat (- i)) else to_string (nat i))"

definition is_digit :: "char \<Rightarrow> bool" where
  "is_digit c \<longleftrightarrow> 48 \<le> (of_char c :: nat) \<and> (of_char c :: nat) \<le> 57"

definition digit_val :: "char \<Rightarrow> nat" where
  "digit_val c = of_char c - 48"

definition digits_val :: "string \<Rightarrow> nat" where
  "digits_val ds = foldl (\<lambda>n c. 10 * n + digit_val c) 0 ds"

text \<open>
  \<^verbatim>\<open>strtol\<close> in base ten, with a 64-bit \<^verbatim>\<open>long\<close>: white space, an optional sign, digits; the result is
  clamped to the range of \<^verbatim>\<open>long\<close>. It returns the value and how many characters were used, none if
  there is no digit. A C string ends at its first NUL.
\<close>

definition is_space :: "char \<Rightarrow> bool" where
  "is_space c \<longleftrightarrow> c \<in> {CHR '' '', CHR 0x09, CHR 0x0A, CHR 0x0B, CHR 0x0C, CHR 0x0D}"

definition LONG_MAX :: int where "LONG_MAX = 9223372036854775807"
definition LONG_MIN :: int where "LONG_MIN = - 9223372036854775808"

definition c_str :: "string \<Rightarrow> string" where
  "c_str s = takeWhile (\<lambda>c. c \<noteq> CHR 0x00) s"

definition strtol :: "string \<Rightarrow> int \<times> nat" where
  "strtol s =
    (let s = c_str s;
         spaces = takeWhile is_space s;
         rest = dropWhile is_space s;
         sign = (case rest of c # _ \<Rightarrow> c = CHR ''-'' | [] \<Rightarrow> False);
         signed = (case rest of c # _ \<Rightarrow> c = CHR ''-'' \<or> c = CHR ''+'' | [] \<Rightarrow> False);
         body = (if signed then tl rest else rest);
         ds = takeWhile is_digit body;
         v = (if sign then - int (digits_val ds) else int (digits_val ds))
     in if ds = [] then (0, 0)
        else (max LONG_MIN (min LONG_MAX v), length spaces + (if signed then 1 else 0) + length ds))"

subsection \<open>Lemmas\<close>

lemma of_char_digit: "n < 10 \<Longrightarrow> (of_char (char_of (48 + n) :: char) :: nat) = 48 + n"
  by simp

lemma is_digit_digit [simp]: "(n :: nat) < 10 \<Longrightarrow> is_digit (char_of (48 + n))"
  by (simp add: is_digit_def)

lemma digit_val_digit [simp]: "(n :: nat) < 10 \<Longrightarrow> digit_val (char_of (48 + n)) = n"
  by (simp add: digit_val_def)

lemma digits_rev_digits: "\<forall>c\<in>set (digits_rev n). is_digit c"
  by (induction n rule: digits_rev.induct) (subst digits_rev.simps, auto)

lemma to_string_digits: "c \<in> set (to_string n) \<Longrightarrow> is_digit c"
  using digits_rev_digits by (simp add: to_string_def)

lemma to_string_nonempty [simp]: "to_string n \<noteq> []"
  by (subst to_string_def, subst digits_rev.simps) simp

lemma digits_val_snoc: "digits_val (ds @ [c]) = 10 * digits_val ds + digit_val c"
  by (simp add: digits_val_def)

lemma digits_val_to_string: "digits_val (to_string n) = n"
proof (induction n rule: digits_rev.induct)
  case (1 n)
  show ?case
  proof (cases "n < 10")
    case True
    then have "to_string n = [char_of (48 + n)]" by (simp add: to_string_def digits_rev.simps)
    with True show ?thesis by (simp add: digits_val_def)
  next
    case False
    have "to_string n = to_string (n div 10) @ [char_of (48 + n mod 10)]"
      unfolding to_string_def using False by (subst digits_rev.simps) simp
    with 1 False show ?thesis by (simp only: digits_val_snoc) simp
  qed
qed

lemma to_string_inj: "to_string m = to_string n \<longleftrightarrow> m = n"
  by (metis digits_val_to_string)

lemma takeWhile_all: "\<forall>c\<in>set s. P c \<Longrightarrow> takeWhile P s = s"
  by (simp add: takeWhile_eq_all_conv)

lemma digit_facts: "is_digit c \<Longrightarrow> c \<noteq> CHR 0x00 \<and> \<not> is_space c \<and> c \<noteq> CHR ''-'' \<and> c \<noteq> CHR ''+''"
  by (auto simp: is_digit_def is_space_def)

text \<open>A string of digits is read back as its value, if that is in the range of \<^verbatim>\<open>long\<close>.\<close>

lemma strtol_digits:
  assumes "ds \<noteq> []" and "\<forall>c\<in>set ds. is_digit c" and "int (digits_val ds) \<le> LONG_MAX"
  shows "strtol ds = (int (digits_val ds), length ds)"
proof -
  obtain d ds' where ds: "ds = d # ds'" using assms(1) by (cases ds) auto
  have "c_str ds = ds" unfolding c_str_def using assms(2) digit_facts by (intro takeWhile_all) auto
  moreover have "\<not> is_space d" "d \<noteq> CHR ''-''" "d \<noteq> CHR ''+''" using assms(2) ds digit_facts by auto
  moreover have "takeWhile is_digit ds = ds" using assms(2) by (rule takeWhile_all)
  moreover have "- 9223372036854775808 \<le> int (digits_val ds)" by linarith
  ultimately show ?thesis using assms(3) by (simp add: strtol_def ds LONG_MAX_def LONG_MIN_def)
qed

text \<open>When all of a string is used it is white space, a sign and digits, and the value is theirs.\<close>

lemma strtol_complete:
  assumes "strtol s = (v, length s)" and "s \<noteq> []"
  shows "\<exists>spaces sign ds. s = spaces @ sign @ ds \<and> (\<forall>c\<in>set spaces. is_space c) \<and>
    sign \<in> {[], ''+'', ''-''} \<and> ds \<noteq> [] \<and> (\<forall>c\<in>set ds. is_digit c) \<and>
    v = max LONG_MIN (min LONG_MAX ((if sign = ''-'' then -1 else 1) * int (digits_val ds)))"
proof -
  let ?s = "c_str s"
  define rest where "rest = dropWhile is_space ?s"
  define signed where "signed \<longleftrightarrow> (case rest of c # _ \<Rightarrow> c = CHR ''-'' \<or> c = CHR ''+'' | [] \<Rightarrow> False)"
  define body where "body = (if signed then tl rest else rest)"
  define sign where "sign = (if signed then [hd rest] else [])"
  let ?ds = "takeWhile is_digit body" and ?sp = "takeWhile is_space ?s"
  have split: "?s = ?sp @ sign @ body"
  proof -
    have "sign @ body = rest" by (cases rest) (simp_all add: body_def sign_def signed_def)
    then show ?thesis by (simp add: rest_def)
  qed
  have neg: "(case rest of c # _ \<Rightarrow> c = CHR ''-'' | [] \<Rightarrow> False) \<longleftrightarrow> sign = ''-''"
    by (cases rest) (auto simp: sign_def signed_def)
  have st: "strtol s = (if ?ds = [] then (0, 0) else
      (max LONG_MIN (min LONG_MAX ((if sign = ''-'' then -1 else 1) * int (digits_val ?ds))), length ?sp + length sign + length ?ds))"
    unfolding strtol_def Let_def rest_def [symmetric] neg body_def signed_def [symmetric] by (auto simp: sign_def)
  have ne: "?ds \<noteq> []" using st assms by (auto split: if_splits)
  then have len: "length ?sp + length sign + length ?ds = length s" using st assms(1) by simp
  have le: "length ?s \<le> length s" by (simp add: c_str_def length_takeWhile_le)
  have "length ?s = length ?sp + length sign + length body" by (subst split) simp
  then have "length body = length ?ds" "length ?s = length s"
    using len le length_takeWhile_le [of is_digit body] by linarith+
  then have "?ds = body" "?s = s"
    by (metis takeWhile_eq_take take_all order_refl, metis c_str_def takeWhile_eq_take take_all order_refl)
  with split have "s = ?sp @ sign @ ?ds" by metis
  moreover have "sign \<in> {[], ''+'', ''-''}" by (cases rest) (auto simp: sign_def signed_def)
  moreover have "\<forall>c\<in>set ?sp. is_space c" "\<forall>c\<in>set ?ds. is_digit c" by (auto dest: set_takeWhileD)
  ultimately show ?thesis using st ne assms(1) by (metis prod.inject)
qed

subsection \<open>Blanks at both ends\<close>

text \<open>The white space that \<^verbatim>\<open>find_first_not_of(" \\t\\r\\n")\<close> skips, and a string without it at its ends.\<close>

definition blanks :: string where
  "blanks = [CHR '' '', CHR 0x09, CHR 0x0D, CHR 0x0A]"

lemma length_takeWhile_lt: "\<not> (\<forall>c\<in>set s. P c) \<Longrightarrow> length (takeWhile P s) < length s"
  by (induction s) auto

lemma find_upt_takeWhile:
  "find (\<lambda>i. \<not> P (s ! i)) [0..<length s] = (if \<forall>c\<in>set s. P c then None else Some (length (takeWhile P s)))"
proof (cases "\<forall>c\<in>set s. P c")
  case True
  then show ?thesis by (auto simp: find_None_iff)
next
  case False
  let ?k = "length (takeWhile P s)"
  have k: "?k < length s" using False by (rule length_takeWhile_lt)
  then have "\<not> P (s ! ?k)" by (rule nth_length_takeWhile)
  moreover have "P (s ! i)" if "i < ?k" for i using that by (metis nth_mem set_takeWhileD takeWhile_nth)
  ultimately have "find (\<lambda>i. \<not> P (s ! i)) [0..<length s] = Some ?k"
    using k by (auto simp: find_Some_iff intro!: exI [of _ ?k])
  with False show ?thesis by simp
qed

lemma rev_upt_nth: "rev [0..<n] = map (\<lambda>i. n - 1 - i) [0..<n]"
  by (rule nth_equalityI) (simp_all add: rev_nth)

lemma find_map: "find P (map f xs) = map_option f (find (\<lambda>x. P (f x)) xs)"
  by (induction xs) auto

lemma find_rev_upt_takeWhile:
  "find (\<lambda>i. \<not> P (s ! i)) (rev [0..<length s]) =
    (if \<forall>c\<in>set s. P c then None else Some (length s - 1 - length (takeWhile P (rev s))))"
proof -
  have "find (\<lambda>i. \<not> P (s ! i)) (rev [0..<length s]) =
      map_option (\<lambda>i. length s - 1 - i) (find (\<lambda>i. \<not> P (s ! (length s - 1 - i))) [0..<length s])"
    by (simp only: rev_upt_nth find_map)
  also have "find (\<lambda>i. \<not> P (s ! (length s - 1 - i))) [0..<length s] = find (\<lambda>i. \<not> P (rev s ! i)) [0..<length (rev s)]"
    by (rule find_cong) (auto simp: rev_nth)
  also note find_upt_takeWhile
  finally show ?thesis by (simp add: if_distrib)
qed

definition strip :: "string \<Rightarrow> string" where
  "strip s = rev (dropWhile (\<lambda>c. c \<in> set blanks) (rev (dropWhile (\<lambda>c. c \<in> set blanks) s)))"

lemma takeWhile_rev_dropWhile:
  "\<not> (\<forall>c\<in>set s. P c) \<Longrightarrow> takeWhile P (rev (dropWhile P s)) = takeWhile P (rev s)"
proof -
  assume "\<not> (\<forall>c\<in>set s. P c)"
  then have "\<exists>c\<in>set (rev (dropWhile P s)). \<not> P c"
    by (metis dropWhile_eq_Nil_conv hd_dropWhile hd_in_set set_rev)
  then have "takeWhile P (rev (dropWhile P s) @ rev (takeWhile P s)) = takeWhile P (rev (dropWhile P s))"
    by (auto simp: takeWhile_append1)
  then show ?thesis by (metis rev_append takeWhile_dropWhile_id)
qed

lemma strip_blank:
  "\<forall>c\<in>set raw. c \<in> set blanks \<Longrightarrow> find_first_not_of blanks raw = None \<and> strip raw = []"
proof
  assume all: "\<forall>c\<in>set raw. c \<in> set blanks"
  then show "find_first_not_of blanks raw = None"
    by (simp add: find_first_not_of_def find_upt_takeWhile [of "\<lambda>c. c \<in> set blanks"])
  from all have "dropWhile (\<lambda>c. c \<in> set blanks) raw = []" by simp
  then show "strip raw = []" by (simp only: strip_def) simp
qed

lemma strip_found:
  assumes "\<not> (\<forall>c\<in>set raw. c \<in> set blanks)"
  shows "\<exists>b e. find_first_not_of blanks raw = Some b \<and> find_last_not_of blanks raw = Some e \<and>
    substr raw b (e - b + 1) = strip raw \<and> strip raw \<noteq> []"
proof -
  let ?P = "\<lambda>c. c \<in> set blanks"
  let ?l = "length (takeWhile ?P raw)" and ?r = "length (takeWhile ?P (rev raw))"
  have ne: "dropWhile ?P raw \<noteq> []" using assms by auto
  have r: "takeWhile ?P (rev (dropWhile ?P raw)) = takeWhile ?P (rev raw)" by (rule takeWhile_rev_dropWhile [OF assms])
  have d: "dropWhile ?P raw = drop ?l raw" by (simp add: dropWhile_eq_drop)
  have "dropWhile ?P (rev (dropWhile ?P raw)) = drop ?r (rev (drop ?l raw))"
    by (metis d dropWhile_eq_drop r)
  then have t: "strip raw = take (length raw - ?l - ?r) (drop ?l raw)"
    by (simp add: strip_def drop_rev)
  have "?r < length (dropWhile ?P raw)"
  proof -
    have "\<not> (\<forall>c\<in>set (rev (dropWhile ?P raw)). ?P c)" using ne by (metis hd_dropWhile hd_in_set set_rev)
    then have "length (takeWhile ?P (rev (dropWhile ?P raw))) < length (rev (dropWhile ?P raw))"
      by (rule length_takeWhile_lt)
    then show ?thesis by (simp add: r)
  qed
  then have lt: "?l + ?r < length raw" by (simp add: d)
  then have cnt: "length raw - 1 - ?r - ?l + 1 = length raw - ?l - ?r" by simp
  have "strip raw \<noteq> []" using t lt by simp
  moreover have "find_first_not_of blanks raw = Some ?l" "find_last_not_of blanks raw = Some (length raw - 1 - ?r)"
    using assms unfolding find_first_not_of_def find_last_not_of_def
      find_upt_takeWhile [of ?P] find_rev_upt_takeWhile [of ?P] by (simp_all only: if_False)
  moreover have "substr raw ?l (length raw - 1 - ?r - ?l + 1) = strip raw"
    unfolding substr_def cnt t ..
  ultimately show ?thesis by blast
qed

lemma trimmed: "\<exists>l r. raw = l @ strip raw @ r \<and> (\<forall>c\<in>set l. c \<in> set blanks) \<and> (\<forall>c\<in>set r. c \<in> set blanks)"
proof -
  let ?P = "\<lambda>c. c \<in> set blanks"
  let ?m = "dropWhile ?P raw"
  have "rev ?m = takeWhile ?P (rev ?m) @ dropWhile ?P (rev ?m)" by simp
  then have "?m = strip raw @ rev (takeWhile ?P (rev ?m))" by (metis rev_append rev_rev_ident strip_def)
  then have "raw = takeWhile ?P raw @ strip raw @ rev (takeWhile ?P (rev ?m))" by (metis takeWhile_dropWhile_id)
  moreover have "\<forall>c\<in>set (takeWhile ?P raw). ?P c" "\<forall>c\<in>set (rev (takeWhile ?P (rev ?m))). ?P c"
    by (auto dest: set_takeWhileD)
  ultimately show ?thesis by blast
qed

lemma blank_is_space: "c \<in> set blanks \<Longrightarrow> is_space c"
  by (auto simp: blanks_def is_space_def)

lemma space_not_nul: "is_space c \<Longrightarrow> c \<noteq> CHR 0x00"
  by (auto simp: is_space_def)

lemma sign_not_blank: "\<not> is_space (CHR ''+'')" "\<not> is_space (CHR ''-'')"
  by (simp_all add: is_space_def)

lemma number_not_blank:
  assumes "c \<in> set (sign @ ds)" and "sign \<in> {[], ''+'', ''-''}" and "\<forall>c\<in>set ds. is_digit c"
  shows "c \<noteq> CHR 0x00 \<and> \<not> is_space c"
proof (cases "c \<in> set ds")
  case True
  with assms(3) have "is_digit c" by blast
  then show ?thesis using digit_facts by blast
next
  case False
  with assms(1,2) have "c = CHR ''+'' \<or> c = CHR ''-''" by auto
  then show ?thesis using sign_not_blank by auto
qed

lemma strtol_eval:
  assumes "\<forall>c\<in>set sp. is_space c" and sign: "sign \<in> {[], ''+'', ''-''}" and "ds \<noteq> []" and "\<forall>c\<in>set ds. is_digit c"
  defines "v \<equiv> (if sign = ''-'' then - int (digits_val ds) else int (digits_val ds))"
  assumes "LONG_MIN \<le> v" and "v \<le> LONG_MAX"
  shows "strtol (sp @ sign @ ds) = (v, length (sp @ sign @ ds))"
proof -
  obtain d ds' where ds: "ds = d # ds'" using assms(3) by (cases ds) auto
  have d: "\<not> is_space d" "d \<noteq> CHR ''-''" "d \<noteq> CHR ''+''" using assms(4) ds digit_facts by auto
  have nul: "\<forall>c\<in>set (sp @ sign @ ds). c \<noteq> CHR 0x00"
    using assms(1) number_not_blank [OF _ sign assms(4)] space_not_nul by auto
  then have c: "c_str (sp @ sign @ ds) = sp @ sign @ ds" unfolding c_str_def by (rule takeWhile_all)
  have sp: "takeWhile is_space (sp @ sign @ ds) = sp" "dropWhile is_space (sp @ sign @ ds) = sign @ ds"
    using assms(1) sign d(1) sign_not_blank ds by (auto simp: takeWhile_append2 dropWhile_append2)
  have dig: "takeWhile is_digit ds = ds" using assms(4) by (rule takeWhile_all)
  have clamp: "max LONG_MIN (min LONG_MAX v) = v" using assms(6,7) by simp
  consider "sign = []" | "sign = ''+''" | "sign = ''-''" using sign by auto
  then show ?thesis
    using assms(3) d dig clamp unfolding strtol_def Let_def c sp v_def by cases (simp_all add: ds)
qed

text \<open>\<^verbatim>\<open>std::stoi\<close>: the value and the characters used; it throws if there is no 32-bit \<^verbatim>\<open>int\<close>.\<close>

definition stoi :: "string \<Rightarrow> (int \<times> nat) option" where
  "stoi s =
    (case strtol s of
       (v, used) \<Rightarrow> if used = 0 \<or> v < - 2147483648 \<or> v > 2147483647 then None else Some (v, used))"

lemma stoi_int_to_string:
  assumes "- 2147483648 \<le> i" and "i \<le> 2147483647"
  shows "stoi (int_to_string i) = Some (i, length (int_to_string i))"
proof -
  define sign :: string where "sign = (if i < 0 then ''-'' else [])"
  define ds where "ds = to_string (nat \<bar>i\<bar>)"
  have eq: "int_to_string i = [] @ sign @ ds" by (simp add: int_to_string_def sign_def ds_def)
  have v: "(if sign = ''-'' then - int (digits_val ds) else int (digits_val ds)) = i"
    by (simp add: sign_def ds_def digits_val_to_string)
  have "strtol ([] @ sign @ ds) = (i, length ([] @ sign @ ds))"
    using strtol_eval [of "[]" sign ds, unfolded v] to_string_digits assms
    by (auto simp: sign_def ds_def LONG_MIN_def LONG_MAX_def)
  with assms show ?thesis unfolding eq stoi_def by (simp add: ds_def)
qed

end
