(* ===== verification/Number.thy ===== *)
theory Number
  imports Complex_Main Cpp_String
begin

text \<open>
  \<^verbatim>\<open>gateway/core/format/Number.h\<close>: the text of a measured value. A finite \<^verbatim>\<open>double\<close> is the rational number
  it stands for. \<^verbatim>\<open>snprintf\<close> with \<^verbatim>\<open>%.1f\<close> rounds that number to the nearest tenth, ties to the even one;
  it succeeds, and at most 31 characters fit the buffer.
\<close>

datatype double = Finite rat | NotFinite

definition round_half_even :: "rat \<Rightarrow> nat" where
  "round_half_even q =
    (let n = nat \<lfloor>q\<rfloor>; d = q - of_nat n
     in if d < 1 / 2 then n else if d > 1 / 2 then n + 1 else if even n then n else n + 1)"

definition printf_1f :: "rat \<Rightarrow> string" where
  "printf_1f v =
    (let t = round_half_even (10 * \<bar>v\<bar>)
     in (if v < 0 then ''-'' else []) @ to_string (t div 10) @ ''.'' @ to_string (t mod 10))"

definition formatValue :: "double \<Rightarrow> string" where
  "formatValue v =
    (case v of
       NotFinite \<Rightarrow> ''0''
     | Finite q \<Rightarrow>
         let s = take 31 (printf_1f q)
         in case find_char (CHR ''.'') s 0 of
              None \<Rightarrow> s
            | Some dot \<Rightarrow>
                let last = (case find_last_not_of ''0'' s of None \<Rightarrow> dot | Some i \<Rightarrow> i);
                    last = (if last = dot then dot - 1 else last)
                in take (last + 1) s)"

subsection \<open>Tenths\<close>

text \<open>The decimal text of \<open>k\<close> tenths, without a trailing zero.\<close>

definition tenths_text :: "nat \<Rightarrow> string" where
  "tenths_text k = to_string (k div 10) @ (if k mod 10 = 0 then [] else ''.'' @ to_string (k mod 10))"

lemma round_half_even_near:
  assumes "\<bar>q - of_nat k\<bar> < 1 / 2" and "0 \<le> q"
  shows "round_half_even q = k"
proof (cases "of_nat k \<le> q")
  case True
  then have "\<lfloor>q\<rfloor> = int k" using assms(1) by (intro floor_unique) auto
  then show ?thesis using assms(1) True by (simp add: round_half_even_def Let_def)
next
  case False
  then have k: "0 < k" using assms(2) by (cases k) auto
  then have "\<lfloor>q\<rfloor> = int k - 1" using assms(1) False by (intro floor_unique) auto
  then have "nat \<lfloor>q\<rfloor> = k - 1" by simp
  moreover have "(of_nat (k - 1) :: rat) = of_nat k - 1" using k by (simp add: of_nat_diff)
  ultimately show ?thesis using assms(1) False k by (simp add: round_half_even_def Let_def)
qed

lemma printf_1f_near:
  assumes "\<bar>v - of_nat k / 10\<bar> < 1 / 20" and "0 \<le> v"
  shows "printf_1f v = to_string (k div 10) @ ''.'' @ to_string (k mod 10)"
proof -
  have "round_half_even (10 * \<bar>v\<bar>) = k"
    by (rule round_half_even_near) (use assms in \<open>auto simp: abs_if field_simps split: if_splits\<close>)
  with assms(2) show ?thesis by (simp add: printf_1f_def)
qed

lemma to_string_digit: "n < 10 \<Longrightarrow> to_string n = [char_of (48 + n)]"
  by (simp add: to_string_def digits_rev.simps)

lemma digit_not_dot: "is_digit c \<Longrightarrow> c \<noteq> CHR ''.''"
  by (auto simp: is_digit_def)

lemma find_char_append:
  assumes "c \<notin> set xs"
  shows "find_char c (xs @ c # ys) 0 = Some (length xs)"
  using assms unfolding find_char_def find_Some_iff
  by (intro exI [of _ "length xs"]) (auto simp: nth_append in_set_conv_nth)

lemma find_last_not_of_snoc: "c \<notin> set cs \<Longrightarrow> find_last_not_of cs (xs @ [c]) = Some (length xs)"
  by (simp add: find_last_not_of_def)

lemma find_last_not_of_snoc_in:
  assumes "c \<in> set cs" and "d \<notin> set cs"
  shows "find_last_not_of cs (xs @ [d, c]) = Some (length xs)"
  using assms by (simp add: find_last_not_of_def nth_append)

lemma format_tenths:
  assumes "\<bar>v - of_nat k / 10\<bar> < 1 / 20" and "0 \<le> v" and "length (to_string (k div 10)) \<le> 29"
  shows "formatValue (Finite v) = tenths_text k"
proof -
  let ?a = "to_string (k div 10)" and ?d = "char_of (48 + k mod 10) :: char"
  have m: "k mod 10 < 10" by simp
  have s: "take 31 (printf_1f v) = ?a @ [CHR ''.'', ?d]"
    using assms(3) to_string_digit [OF m] by (simp add: printf_1f_near [OF assms(1,2)])
  have "CHR ''.'' \<notin> set ?a" using to_string_digits digit_not_dot by blast
  then have dot: "find_char (CHR ''.'') (?a @ [CHR ''.'', ?d]) 0 = Some (length ?a)" by (rule find_char_append)
  have a: "length ?a \<noteq> 0" by simp
  show ?thesis
  proof (cases "k mod 10 = 0")
    case True
    moreover have "char_of (48 :: nat) = CHR ''0''" by code_simp
    ultimately have "?d = CHR ''0''" by simp
    then have "find_last_not_of ''0'' (?a @ [CHR ''.'', ?d]) = Some (length ?a)"
      by (intro find_last_not_of_snoc_in) simp_all
    with True a dot show ?thesis
      by (simp add: formatValue_def s tenths_text_def Let_def)
  next
    case False
    have "?d \<noteq> CHR ''0''"
    proof
      assume "?d = CHR ''0''"
      then have "digit_val ?d = digit_val (CHR ''0'')" by simp
      with False m show False by (simp add: digit_val_def)
    qed
    then have "find_last_not_of ''0'' ((?a @ [CHR ''.'']) @ [?d]) = Some (length (?a @ [CHR ''.'']))"
      by (intro find_last_not_of_snoc) simp
    with False to_string_digit [OF m] show ?thesis
      by (simp add: formatValue_def s dot tenths_text_def Let_def)
  qed
qed

lemma length_digits_rev: "n < 10 ^ k \<Longrightarrow> 0 < k \<Longrightarrow> length (digits_rev n) \<le> k"
proof (induction n arbitrary: k rule: digits_rev.induct)
  case (1 n)
  show ?case
  proof (cases "n < 10")
    case True
    with "1.prems" show ?thesis by (subst digits_rev.simps) simp
  next
    case False
    obtain j where k: "k = Suc j" using "1.prems"(2) by (cases k) auto
    with False "1.prems"(1) have j: "0 < j" by (cases j) auto
    have "n div 10 < 10 ^ j" using "1.prems"(1) k by (simp add: less_mult_imp_div_less mult.commute)
    from "1.IH" [OF False this j] show ?thesis using False k by (subst digits_rev.simps) simp
  qed
qed

lemma length_to_string: "n < 10 ^ k \<Longrightarrow> 0 < k \<Longrightarrow> length (to_string n) \<le> k"
  by (simp add: to_string_def length_digits_rev)

lemma split_at:
  "c \<notin> set xs \<Longrightarrow> takeWhile (\<lambda>x. x \<noteq> c) (xs @ c # ys) = xs"
  "c \<notin> set xs \<Longrightarrow> dropWhile (\<lambda>x. x \<noteq> c) (xs @ c # ys) = c # ys"
  "c \<notin> set xs \<Longrightarrow> takeWhile (\<lambda>x. x \<noteq> c) xs = xs"
  "c \<notin> set xs \<Longrightarrow> dropWhile (\<lambda>x. x \<noteq> c) xs = []"
  by (induction xs) auto

lemma tenths_text_inj:
  assumes "tenths_text j = tenths_text k"
  shows "j = k"
proof -
  have nodot: "CHR ''.'' \<notin> set (to_string n)" for n using to_string_digits digit_not_dot by blast
  have split: "takeWhile (\<lambda>c. c \<noteq> CHR ''.'') (tenths_text n) = to_string (n div 10)"
    "dropWhile (\<lambda>c. c \<noteq> CHR ''.'') (tenths_text n) = (if n mod 10 = 0 then [] else ''.'' @ to_string (n mod 10))" for n
    by (simp_all add: tenths_text_def nodot split_at)
  from split(1) [of j] split(1) [of k] assms have "j div 10 = k div 10" by (simp add: to_string_inj)
  moreover from split(2) [of j] split(2) [of k] assms have "j mod 10 = k mod 10"
    by (auto simp: to_string_inj split: if_splits)
  ultimately show ?thesis by (metis div_mult_mod_eq)
qed

end
