(* ===== verification/Telemetry_Decoder.thy ===== *)
theory Telemetry_Decoder
  imports Frame_Codec Number
begin

text \<open>
  \<^verbatim>\<open>gateway/pipeline/TelemetryDecoder.{h,cpp}\<close>: a telemetry frame becomes a list of readings. The
  quotients are exact here; \<^verbatim>\<open>double\<close> division rounds them, by far less than the half tenth that
  \<open>format_tenths\<close> allows, so the printed texts are the same. Log messages are left out.
\<close>

definition EDGE_TEMP_SCALE :: rat where "EDGE_TEMP_SCALE = 10"
definition EDGE_HUMI_SCALE :: rat where "EDGE_HUMI_SCALE = 10"

record Reading =
  rd_device :: string
  rd_value :: double

definition reading :: "string \<Rightarrow> rat \<Rightarrow> Reading" where
  "reading device value = \<lparr>rd_device = device, rd_value = Finite value\<rparr>"

definition u16_value :: "u16 \<Rightarrow> rat" where
  "u16_value v = of_nat (unat v)"

definition decodeTelemetry :: "Frame \<Rightarrow> Reading list" where
  "decodeTelemetry f =
    (let p = f_payload f
     in if \<not> edge_payload_len_ok (f_type f) (of_nat (length p)) then []
        else if f_type f = EDGE_TYPE_DHT11 then
          (let temperature = u16_value (edge_u16_be_read p 0) / EDGE_TEMP_SCALE;
               humidity = u16_value (edge_u16_be_read p 2) / EDGE_HUMI_SCALE
           in [reading ''temperature'' temperature, reading ''humidity'' humidity])
        else if f_type f = EDGE_TYPE_BH1750 then
          [reading ''illuminance'' (u16_value (edge_u16_be_read p 0))]
        else if f_type f = EDGE_TYPE_STATUS then
          (let st = p ! 0
           in [reading ''status_dht11'' (if st AND EDGE_STATUS_BIT_DHT11 \<noteq> 0 then 1 else 0),
               reading ''status_bh1750'' (if st AND EDGE_STATUS_BIT_BH1750 \<noteq> 0 then 1 else 0)])
        else if f_type f = EDGE_TYPE_HEARTBEAT then []
        else [])"

subsection \<open>Properties\<close>

text \<open>What the gateway publishes of a reading: its device and the text of its value.\<close>

definition reading_text :: "Reading \<Rightarrow> string \<times> string" where
  "reading_text r = (rd_device r, formatValue (rd_value r))"

lemma nat_text:
  assumes "n < 65536"
  shows "formatValue (Finite (of_nat n / 10)) = tenths_text n" "formatValue (Finite (of_nat n)) = to_string n"
proof -
  have len: "k < 10 ^ 5 \<Longrightarrow> length (to_string k) \<le> 29" for k using length_to_string [of k 5] by simp
  show "formatValue (Finite (of_nat n / 10)) = tenths_text n"
    using assms by (intro format_tenths len) simp_all
  have "formatValue (Finite (of_nat n)) = tenths_text (10 * n)"
    using assms by (intro format_tenths len) simp_all
  then show "formatValue (Finite (of_nat n)) = to_string n" by (simp add: tenths_text_def)
qed

lemma u16_text:
  "formatValue (Finite (u16_value v / 10)) = tenths_text (unat v)"
  "formatValue (Finite (u16_value v)) = to_string (unat v)"
  unfolding u16_value_def using unsigned_less [of v] by (intro nat_text, simp)+

lemma flag_text: "formatValue (Finite 1) = ''1''" "formatValue (Finite 0) = ''0''"
proof -
  have "to_string 1 = ''1''" "to_string 0 = ''0''" by code_simp+
  then show "formatValue (Finite 1) = ''1''" "formatValue (Finite 0) = ''0''"
    using nat_text(2) [of 1] nat_text(2) [of 0] by simp_all
qed

lemma payload_len_ok:
  "length p \<le> EDGE_PAYLOAD_MAX \<Longrightarrow> edge_payload_len_ok ty (of_nat (length p)) \<longleftrightarrow>
     0 \<le> edge_min_payload_len ty \<and> edge_min_payload_len ty \<le> int (length p)"
  by (simp add: edge_payload_len_ok_def Let_def unat_of_nat_u8)

text \<open>The decoder on a payload of legal size, with its length check evaluated.\<close>

lemma decode_eq:
  assumes "length p \<le> EDGE_PAYLOAD_MAX"
  shows "decodeTelemetry \<lparr>f_type = ty, f_payload = p\<rparr> =
    (if edge_min_payload_len ty < 0 \<or> int (length p) < edge_min_payload_len ty then []
     else if ty = EDGE_TYPE_DHT11 then
       [reading ''temperature'' (u16_value (edge_u16_be_read p 0) / 10), reading ''humidity'' (u16_value (edge_u16_be_read p 2) / 10)]
     else if ty = EDGE_TYPE_BH1750 then [reading ''illuminance'' (u16_value (edge_u16_be_read p 0))]
     else if ty = EDGE_TYPE_STATUS then
       [reading ''status_dht11'' (if bit (p ! 0) 0 then 1 else 0), reading ''status_bh1750'' (if bit (p ! 0) 1 then 1 else 0)]
     else [])"
proof -
  have "st AND 1 \<noteq> 0 \<longleftrightarrow> bit st 0" "st AND 2 \<noteq> 0 \<longleftrightarrow> bit st 1" for st :: u8
    using bit_iff_and_push_bit_not_eq_0 [of st 0] bit_iff_and_push_bit_not_eq_0 [of st 1] by simp_all
  then show ?thesis
    unfolding decodeTelemetry_def Let_def Frame.select_convs payload_len_ok [OF assms]
      EDGE_TEMP_SCALE_def EDGE_HUMI_SCALE_def by (simp add: not_le)
qed

lemma reading_texts:
  "reading_text (reading d (u16_value v / 10)) = (d, tenths_text (unat v))"
  "reading_text (reading d (u16_value v)) = (d, to_string (unat v))"
  "reading_text (reading d (if b then 1 else 0)) = (d, if b then ''1'' else ''0'')"
  by (simp_all add: reading_text_def reading_def u16_text flag_text)

text \<open>
  C39. Telemetry arrives as it was measured: a frame with the node's sixteen-bit numbers (temperature and
  humidity in tenths, brightness, or the status bits), alone or with anything appended up to the longest payload a frame can
  have, is published under the fixed device names with exactly these numbers as decimal texts; frames that are too short,
  heartbeats and frames of every other type give no reading.
\<close>

theorem telemetry_text_exact:
  fixes t h b :: u16 and st ty :: u8 and after_th after_b after_st pl :: "u8 list"
  assumes "length (u16_bytes t @ u16_bytes h @ after_th) \<le> EDGE_PAYLOAD_MAX" and "length (u16_bytes b @ after_b) \<le> EDGE_PAYLOAD_MAX"
    and "length (st # after_st) \<le> EDGE_PAYLOAD_MAX" and "length pl \<le> EDGE_PAYLOAD_MAX"
  defines "texts \<equiv> \<lambda>type payload. map reading_text (decodeTelemetry \<lparr>f_type = type, f_payload = payload\<rparr>)"
  shows "texts EDGE_TYPE_DHT11 (u16_bytes t @ u16_bytes h @ after_th) =
      [(''temperature'', tenths_text (unat t)), (''humidity'', tenths_text (unat h))] \<and>
    texts EDGE_TYPE_BH1750 (u16_bytes b @ after_b) = [(''illuminance'', to_string (unat b))] \<and>
    texts EDGE_TYPE_STATUS (st # after_st) =
      [(''status_dht11'', if bit st 0 then ''1'' else ''0''), (''status_bh1750'', if bit st 1 then ''1'' else ''0'')] \<and>
    (ty \<notin> {EDGE_TYPE_DHT11, EDGE_TYPE_BH1750, EDGE_TYPE_STATUS} \<longrightarrow> texts ty pl = []) \<and>
    (length pl < nat (edge_min_payload_len ty) \<longrightarrow> texts ty pl = [])"
proof (intro conjI)
  have "edge_u16_be_read (u16_bytes t @ u16_bytes h @ after_th) 0 = t"
    using edge_u16_be_read_bytes [of "[]" t "u16_bytes h @ after_th"] by simp
  moreover have "edge_u16_be_read (u16_bytes t @ u16_bytes h @ after_th) 2 = h"
    using edge_u16_be_read_bytes [of "u16_bytes t" h after_th] by simp
  ultimately show "texts EDGE_TYPE_DHT11 (u16_bytes t @ u16_bytes h @ after_th) =
      [(''temperature'', tenths_text (unat t)), (''humidity'', tenths_text (unat h))]"
    using decode_eq [OF assms(1)] by (simp add: texts_def edge_min_payload_len_def reading_texts)
  have "edge_u16_be_read (u16_bytes b @ after_b) 0 = b"
    using edge_u16_be_read_bytes [of "[]" b after_b] by simp
  then show "texts EDGE_TYPE_BH1750 (u16_bytes b @ after_b) = [(''illuminance'', to_string (unat b))]"
    using decode_eq [OF assms(2)] by (simp add: texts_def edge_min_payload_len_def reading_texts)
  show "texts EDGE_TYPE_STATUS (st # after_st) =
      [(''status_dht11'', if bit st 0 then ''1'' else ''0''), (''status_bh1750'', if bit st 1 then ''1'' else ''0'')]"
    using decode_eq [OF assms(3)] by (simp add: texts_def edge_min_payload_len_def reading_texts)
  show "ty \<notin> {EDGE_TYPE_DHT11, EDGE_TYPE_BH1750, EDGE_TYPE_STATUS} \<longrightarrow> texts ty pl = []"
    using assms(4) by (simp add: texts_def decode_eq)
  show "length pl < nat (edge_min_payload_len ty) \<longrightarrow> texts ty pl = []"
    using assms(4) by (auto simp: texts_def decode_eq)
qed

theorem telemetry_text_exact_witness:
  "map reading_text (decodeTelemetry \<lparr>f_type = EDGE_TYPE_DHT11, f_payload = [0, 235, 1, 144] @ replicate 59 7\<rparr>) =
    [(''temperature'', ''23.5''), (''humidity'', ''40'')]"
proof -
  have "u16_bytes 235 @ u16_bytes 400 @ replicate 59 7 = [0, 235, 1, 144] @ replicate 59 7" "tenths_text (unat (235 :: u16)) = ''23.5''"
    "tenths_text (unat (400 :: u16)) = ''40''"
    by code_simp+
  with telemetry_text_exact [of 235 400 "replicate 59 7" 0 "[]" 0 "[]" "[]"] show ?thesis by simp
qed

end
