(* ===== verification/Telemetry_Pipeline.thy ===== *)
theory Telemetry_Pipeline
  imports Telemetry_Decoder Thread_Safe_Queue
begin

text \<open>
  \<^verbatim>\<open>gateway/pipeline/TelemetryPipeline.{h,cpp}\<close>: a bounded job queue in front of one writer thread. The
  writer takes a first job, waiting for it, joins the jobs that are already there into one transaction, and
  treats a change of the database as the end of a transaction.

  Connections (\<open>'d\<close>) and the notifications of a change (\<open>'n\<close>) are names; calls of \<^verbatim>\<open>insertBatch\<close> and of
  the notifications are the events of a step. The writer's loop is a machine whose turns begin where the
  code takes a job from the queue; producers' calls happen between its turns in any order.
\<close>

record DataRow =
  dr_device :: string
  dr_value :: double
  dr_ts :: int

datatype ('d, 'n) Job = Batch "DataRow list" | SwapDb 'd "'n option"

definition kQueueCapacity :: nat where "kQueueCapacity = 1024"
definition kMaxRowsPerTxn :: nat where "kMaxRowsPerTxn = 256"

datatype writer_pc = WaitPop | TryPop | Exited

record ('d, 'n) pipeline =
  pl_queue :: "('d, 'n) Job ThreadSafeQueue"
  pl_pc :: writer_pc
  pl_rows :: "DataRow list"
  pl_db :: 'd

datatype ('d, 'n) pipe_event = Submitted "('d, 'n) Job" | Inserted 'd "DataRow list" | Applied 'n

definition new_pipeline :: "'d \<Rightarrow> ('d, 'n) pipeline" where
  "new_pipeline db = \<lparr>pl_queue = new_queue kQueueCapacity, pl_pc = WaitPop, pl_rows = [], pl_db = db\<rparr>"

subsection \<open>Producers\<close>

definition batch_of :: "Reading list \<Rightarrow> int \<Rightarrow> DataRow list" where
  "batch_of readings ts = map (\<lambda>r. \<lparr>dr_device = rd_device r, dr_value = rd_value r, dr_ts = ts\<rparr>) readings"

text \<open>A call that puts a job into the queue shows it as an event.\<close>

definition put_job ::
    "('d, 'n) Job \<Rightarrow> bool \<times> ('d, 'n) Job ThreadSafeQueue \<Rightarrow> ('d, 'n) pipeline \<Rightarrow>
     bool \<times> ('d, 'n) pipe_event list \<times> ('d, 'n) pipeline" where
  "put_job j r p = (fst r, if fst r then [Submitted j] else [], p\<lparr>pl_queue := snd r\<rparr>)"

definition pipeline_submit ::
    "Reading list \<Rightarrow> int \<Rightarrow> ('d, 'n) pipeline \<Rightarrow> bool \<times> ('d, 'n) pipe_event list \<times> ('d, 'n) pipeline" where
  "pipeline_submit readings ts p =
    (if readings = [] then (True, [], p)
     else let b = Batch (batch_of readings ts) in put_job b (try_push b (pl_queue p)) p)"

definition swapDatabase ::
    "bool \<Rightarrow> 'd \<Rightarrow> 'n option \<Rightarrow> ('d, 'n) pipeline \<Rightarrow>
     (bool \<times> ('d, 'n) pipe_event list \<times> ('d, 'n) pipeline) option" where
  "swapDatabase expired db on_applied p =
    map_option (\<lambda>r. put_job (SwapDb db on_applied) r p) (push_for expired (SwapDb db on_applied) (pl_queue p))"

definition pipeline_shutdown :: "('d, 'n) pipeline \<Rightarrow> ('d, 'n) pipeline" where
  "pipeline_shutdown p = p\<lparr>pl_queue := shutdown (pl_queue p)\<rparr>"

subsection \<open>The writer\<close>

definition insert_rows :: "('d, 'n) pipeline \<Rightarrow> ('d, 'n) pipe_event list \<times> ('d, 'n) pipeline" where
  "insert_rows p =
    (if pl_rows p \<noteq> [] then ([Inserted (pl_db p) (pl_rows p)], p\<lparr>pl_rows := []\<rparr>) else ([], p))"

text \<open>The end of the inner loop: the code after it, and back to the blocking wait.\<close>

definition end_batch :: "('d, 'n) pipeline \<Rightarrow> ('d, 'n) pipe_event list \<times> ('d, 'n) pipeline" where
  "end_batch p = (case insert_rows p of (evs, p) \<Rightarrow> (evs, p\<lparr>pl_pc := WaitPop\<rparr>))"

definition handle_job :: "('d, 'n) Job \<Rightarrow> ('d, 'n) pipeline \<Rightarrow> ('d, 'n) pipe_event list \<times> ('d, 'n) pipeline" where
  "handle_job job p =
    (case job of
       SwapDb db on_applied \<Rightarrow>
         (case insert_rows p of (evs, p) \<Rightarrow>
            let p = p\<lparr>pl_db := db\<rparr>;
                evs = evs @ (case on_applied of None \<Rightarrow> [] | Some n \<Rightarrow> [Applied n])
            in case end_batch p of (evs', p) \<Rightarrow> (evs @ evs', p))
     | Batch b \<Rightarrow>
         let p = p\<lparr>pl_rows := pl_rows p @ b\<rparr>
         in if length (pl_rows p) \<ge> kMaxRowsPerTxn then end_batch p
            else ([], p\<lparr>pl_pc := TryPop\<rparr>))"

definition writer_turn :: "('d, 'n) pipeline \<Rightarrow> (('d, 'n) pipe_event list \<times> ('d, 'n) pipeline) option" where
  "writer_turn p =
    (case pl_pc p of
       WaitPop \<Rightarrow>
         (case pop (pl_queue p) of
            None \<Rightarrow> None
          | Some (None, q) \<Rightarrow> Some ([], p\<lparr>pl_queue := q, pl_pc := Exited\<rparr>)
          | Some (Some job, q) \<Rightarrow> Some (handle_job job (p\<lparr>pl_queue := q\<rparr>)))
     | TryPop \<Rightarrow>
         (case try_pop (pl_queue p) of
            (None, q) \<Rightarrow> Some (end_batch (p\<lparr>pl_queue := q\<rparr>))
          | (Some job, q) \<Rightarrow> Some (handle_job job (p\<lparr>pl_queue := q\<rparr>)))
     | Exited \<Rightarrow> None)"

inductive pipe_step :: "('d, 'n) pipeline \<Rightarrow> ('d, 'n) pipe_event list \<Rightarrow> ('d, 'n) pipeline \<Rightarrow> bool" where
  submit_step: "pipeline_submit readings ts p = (ok, evs, p') \<Longrightarrow> pipe_step p evs p'"
| swap_step: "swapDatabase expired db n p = Some (ok, evs, p') \<Longrightarrow> pipe_step p evs p'"
| shutdown_step: "pipe_step p [] (pipeline_shutdown p)"
| writer_step: "writer_turn p = Some (evs, p') \<Longrightarrow> pipe_step p evs p'"

subsection \<open>What the jobs mean\<close>

text \<open>
  The abstract behaviour: jobs are carried out one at a time; a row goes to the connection in force. The
  trace of a job list, and the trace of what the writer did.
\<close>

datatype ('d, 'n) entry = Row 'd DataRow | Notify 'n

fun spec_trace :: "'d \<Rightarrow> ('d, 'n) Job list \<Rightarrow> ('d, 'n) entry list" where
  "spec_trace db [] = []"
| "spec_trace db (Batch b # jobs) = map (Row db) b @ spec_trace db jobs"
| "spec_trace db (SwapDb db' n # jobs) = (case n of None \<Rightarrow> [] | Some n \<Rightarrow> [Notify n]) @ spec_trace db' jobs"

fun event_trace :: "('d, 'n) pipe_event \<Rightarrow> ('d, 'n) entry list" where
  "event_trace (Submitted j) = []"
| "event_trace (Inserted db rows) = map (Row db) rows"
| "event_trace (Applied n) = [Notify n]"

definition trace :: "('d, 'n) pipe_event list \<Rightarrow> ('d, 'n) entry list" where
  "trace evs = concat (map event_trace evs)"

definition submitted :: "('d, 'n) pipe_event list \<Rightarrow> ('d, 'n) Job list" where
  "submitted evs = List.map_filter (\<lambda>e. case e of Submitted j \<Rightarrow> Some j | _ \<Rightarrow> None) evs"

lemma trace_simps [simp]:
  "trace [] = []" "trace (e # evs) = event_trace e @ trace evs" "trace (evs @ evs') = trace evs @ trace evs'"
  by (simp_all add: trace_def)

lemma submitted_simps [simp]:
  "submitted [] = []" "submitted (Submitted j # evs) = j # submitted evs"
  "submitted (Inserted db rows # evs) = submitted evs" "submitted (Applied n # evs) = submitted evs"
  "submitted (evs @ evs') = submitted evs @ submitted evs'"
  by (simp_all add: submitted_def List.map_filter_def)

text \<open>The connection in force after a list of jobs.\<close>

fun db_after :: "'d \<Rightarrow> ('d, 'n) Job list \<Rightarrow> 'd" where
  "db_after db [] = db"
| "db_after db (Batch b # jobs) = db_after db jobs"
| "db_after db (SwapDb db' n # jobs) = db_after db' jobs"

lemma spec_trace_append: "spec_trace db (js @ ks) = spec_trace db js @ spec_trace (db_after db js) ks"
  by (induction db js rule: spec_trace.induct) simp_all

text \<open>What remains to be written: the rows collected and the jobs in the queue.\<close>

definition to_do :: "('d, 'n) pipeline \<Rightarrow> ('d, 'n) entry list" where
  "to_do p = map (Row (pl_db p)) (pl_rows p) @ spec_trace (pl_db p) (tsq_queue (pl_queue p))"

definition pipe_inv :: "'d \<Rightarrow> ('d, 'n) pipe_event list \<Rightarrow> ('d, 'n) pipeline \<Rightarrow> bool" where
  "pipe_inv db evs p \<longleftrightarrow>
    spec_trace db (submitted evs) = trace evs @ to_do p \<and>
    db_after db (submitted evs) = db_after (pl_db p) (tsq_queue (pl_queue p)) \<and>
    (pl_pc p \<noteq> TryPop \<longrightarrow> pl_rows p = []) \<and>
    (pl_pc p = Exited \<longrightarrow> tsq_queue (pl_queue p) = [] \<and> tsq_shutdown (pl_queue p)) \<and>
    tsq_capacity (pl_queue p) = kQueueCapacity \<and> length (tsq_queue (pl_queue p)) \<le> kQueueCapacity"

lemma end_batch_eq:
  "end_batch p = (if pl_rows p = [] then [] else [Inserted (pl_db p) (pl_rows p)], p\<lparr>pl_rows := [], pl_pc := WaitPop\<rparr>)"
  by (cases "pl_rows p") (simp_all add: end_batch_def insert_rows_def)

lemma handle_job_effect:
  assumes "handle_job j p = (evs, p')"
  shows "trace evs @ map (Row (pl_db p')) (pl_rows p') =
      map (Row (pl_db p)) (pl_rows p) @ spec_trace (pl_db p) [j] \<and>
    pl_db p' = db_after (pl_db p) [j] \<and> submitted evs = [] \<and> pl_queue p' = pl_queue p \<and>
    pl_pc p' \<noteq> Exited \<and> (pl_pc p' \<noteq> TryPop \<longrightarrow> pl_rows p' = [])"
  using assms
  by (auto simp: handle_job_def end_batch_eq insert_rows_def Let_def split: Job.splits option.splits if_splits prod.splits)
lemma pipe_inv_job:
  assumes inv: "pipe_inv db evs0 p" and q: "tsq_queue (pl_queue p) = j # js"
    and h: "handle_job j (p\<lparr>pl_queue := (pl_queue p)\<lparr>tsq_queue := js\<rparr>\<rparr>) = (evs, p')"
  shows "pipe_inv db (evs0 @ evs) p'"
proof -
  let ?p = "p\<lparr>pl_queue := (pl_queue p)\<lparr>tsq_queue := js\<rparr>\<rparr>"
  note eff = handle_job_effect [OF h]
  have "to_do p = map (Row (pl_db ?p)) (pl_rows ?p) @ spec_trace (pl_db ?p) [j] @ spec_trace (db_after (pl_db ?p) [j]) js"
    using q spec_trace_append [of "pl_db p" "[j]" js] by (simp add: to_do_def)
  moreover have "to_do p' = map (Row (pl_db p')) (pl_rows p') @ spec_trace (pl_db p') js" using eff by (simp add: to_do_def)
  ultimately have "to_do p = trace evs @ to_do p'" using eff by (metis append.assoc)
  moreover have "db_after (pl_db p) (j # js) = db_after (db_after (pl_db p) [j]) js" by (cases j) simp_all
  ultimately show ?thesis using inv q eff by (auto simp: pipe_inv_def)
qed

lemma pipe_inv_put:
  assumes inv: "pipe_inv db evs0 p" and r: "pushes j r (pl_queue p)" and put: "put_job j r p = (ok, evs, p')"
  shows "pipe_inv db (evs0 @ evs) p'"
proof (cases "fst r")
  case True
  with r put have p': "p' = p\<lparr>pl_queue := (pl_queue p)\<lparr>tsq_queue := tsq_queue (pl_queue p) @ [j]\<rparr>\<rparr>" "evs = [Submitted j]"
    and room: "\<not> tsq_shutdown (pl_queue p)" "tsq_capacity (pl_queue p) = 0 \<or> length (tsq_queue (pl_queue p)) < tsq_capacity (pl_queue p)"
    by (auto simp: pushes_def put_job_def)
  have db: "db_after d (js @ [j]) = db_after (db_after d js) [j]" for d js
    by (induction d js rule: spec_trace.induct) simp_all
  have "kQueueCapacity \<noteq> 0" by (simp add: kQueueCapacity_def)
  with inv room show ?thesis
    by (auto simp: pipe_inv_def p' to_do_def spec_trace_append db)
next
  case False
  with r put have "p' = p" "evs = []" by (auto simp: pushes_def put_job_def)
  with inv show ?thesis by simp
qed

lemma pipe_inv_writer:
  assumes inv: "pipe_inv db evs0 p" and turn: "writer_turn p = Some (evs, p')"
  shows "pipe_inv db (evs0 @ evs) p'"
proof (cases "pl_pc p")
  case WaitPop
  show ?thesis
  proof (cases "tsq_queue (pl_queue p)")
    case Nil
    with turn WaitPop have "evs = []" "p' = p\<lparr>pl_pc := Exited\<rparr>" "tsq_shutdown (pl_queue p)"
      by (auto simp: writer_turn_def pop_def not_empty_def split: if_splits)
    with inv WaitPop Nil show ?thesis by (simp add: pipe_inv_def to_do_def)
  next
    case (Cons j js)
    with turn WaitPop have "handle_job j (p\<lparr>pl_queue := (pl_queue p)\<lparr>tsq_queue := js\<rparr>\<rparr>) = (evs, p')"
      by (auto simp: writer_turn_def pop_def not_empty_def)
    with inv Cons show ?thesis by (rule pipe_inv_job)
  qed
next
  case TryPop
  show ?thesis
  proof (cases "tsq_queue (pl_queue p)")
    case Nil
    with turn TryPop have "(evs, p') = end_batch p" by (simp add: writer_turn_def try_pop_def)
    with inv TryPop Nil show ?thesis by (auto simp: pipe_inv_def end_batch_eq to_do_def)
  next
    case (Cons j js)
    with turn TryPop have "handle_job j (p\<lparr>pl_queue := (pl_queue p)\<lparr>tsq_queue := js\<rparr>\<rparr>) = (evs, p')"
      by (auto simp: writer_turn_def try_pop_def)
    with inv Cons show ?thesis by (rule pipe_inv_job)
  qed
next
  case Exited
  with turn show ?thesis by (simp add: writer_turn_def)
qed

lemma pipe_inv_step:
  assumes "pipe_step p evs p'" and "pipe_inv db evs0 p"
  shows "pipe_inv db (evs0 @ evs) p'"
  using assms
proof (cases rule: pipe_step.cases)
  case (submit_step readings ts ok)
  show ?thesis
  proof (cases "readings = []")
    case False
    with submit_step have "put_job (Batch (batch_of readings ts)) (try_push (Batch (batch_of readings ts)) (pl_queue p)) p = (ok, evs, p')"
      by (simp add: pipeline_submit_def Let_def)
    from pipe_inv_put [OF assms(2) push_effects(3) this] show ?thesis .
  qed (use submit_step assms in \<open>simp add: pipeline_submit_def\<close>)
next
  case (swap_step expired d n ok)
  then obtain r where "push_for expired (SwapDb d n) (pl_queue p) = Some r" "put_job (SwapDb d n) r p = (ok, evs, p')"
    by (auto simp: swapDatabase_def)
  from pipe_inv_put [OF assms(2) push_effects(2) [OF this(1)] this(2)] show ?thesis .
next
  case shutdown_step
  with assms(2) show ?thesis by (auto simp: pipe_inv_def to_do_def pipeline_shutdown_def shutdown_def)
next
  case writer_step
  from pipe_inv_writer [OF assms(2) this] show ?thesis .
qed

lemma pipe_inv_reachable:
  assumes "lts_steps pipe_step (new_pipeline db) evs p"
  shows "pipe_inv db evs p"
  using assms
proof (rule steps_invariant)
  show "pipe_inv db [] (new_pipeline db)"
    by (simp add: pipe_inv_def new_pipeline_def new_queue_def to_do_def)
qed (rule pipe_inv_step)

text \<open>After the queue has been closed the writer finishes: the number of turns is bounded.\<close>

fun writer_turns :: "nat \<Rightarrow> ('d, 'n) pipeline \<Rightarrow> ('d, 'n) pipeline" where
  "writer_turns 0 p = p"
| "writer_turns (Suc k) p = (case writer_turn p of None \<Rightarrow> p | Some (evs, p') \<Rightarrow> writer_turns k p')"

definition turns_left :: "('d, 'n) pipeline \<Rightarrow> nat" where
  "turns_left p = 2 * length (tsq_queue (pl_queue p)) + (case pl_pc p of WaitPop \<Rightarrow> 1 | TryPop \<Rightarrow> 2 | Exited \<Rightarrow> 0)"

lemma writer_turn_shutdown:
  assumes "tsq_shutdown (pl_queue p)" and "pl_pc p \<noteq> Exited"
  shows "\<exists>evs p'. writer_turn p = Some (evs, p') \<and> tsq_shutdown (pl_queue p') \<and> turns_left p' < turns_left p"
proof (cases "tsq_queue (pl_queue p)")
  case Nil
  with assms show ?thesis
    by (cases "pl_pc p") (auto simp: writer_turn_def pop_def try_pop_def not_empty_def turns_left_def end_batch_eq)
next
  case (Cons j js)
  let ?p = "p\<lparr>pl_queue := (pl_queue p)\<lparr>tsq_queue := js\<rparr>\<rparr>"
  obtain evs p' where h: "handle_job j ?p = (evs, p')" by (cases "handle_job j ?p")
  note eff = handle_job_effect [OF h]
  have "writer_turn p = Some (evs, p')"
    using assms Cons h by (cases "pl_pc p") (auto simp: writer_turn_def pop_def try_pop_def not_empty_def)
  moreover have "turns_left p' < turns_left p"
    using assms(2) Cons eff by (cases "pl_pc p"; cases "pl_pc p'") (simp_all add: turns_left_def)
  ultimately show ?thesis using assms eff by auto
qed

lemma writer_finishes:
  "tsq_shutdown (pl_queue p) \<Longrightarrow> turns_left p \<le> k \<Longrightarrow> pl_pc (writer_turns k p) = Exited"
proof (induction k arbitrary: p)
  case 0
  then show ?case by (cases "pl_pc p") (simp_all add: turns_left_def)
next
  case (Suc k)
  show ?case
  proof (cases "pl_pc p = Exited")
    case True
    then show ?thesis by (simp add: writer_turn_def)
  next
    case False
    from writer_turn_shutdown [OF Suc.prems(1) this] obtain evs p' where
      "writer_turn p = Some (evs, p')" "tsq_shutdown (pl_queue p')" "turns_left p' < turns_left p" by blast
    with Suc show ?thesis by simp
  qed
qed

subsection \<open>Properties\<close>

text \<open>
  The pipeline implements its jobs: whatever the interleaving of producers, database changes,
  shutdown and the writer, what the writer has stored and notified is a prefix of what the accepted jobs,
  carried out one at a time, store and notify, in the same order and into the same databases; the rest is
  waiting in the writer's rows and in the queue, of at most 1024 jobs. Once the writer has exited, all of it
  has been stored: no row is lost, repeated, reordered, or written to a database other than the one in
  force at its place in the order of acceptance.
\<close>

theorem pipeline_stores_accepted_rows:
  assumes "lts_steps pipe_step (new_pipeline db) evs p"
  shows "spec_trace db (submitted evs) =
      trace evs @ map (Row (pl_db p)) (pl_rows p) @ spec_trace (pl_db p) (tsq_queue (pl_queue p)) \<and>
    length (tsq_queue (pl_queue p)) \<le> kQueueCapacity \<and>
    (pl_pc p = Exited \<longrightarrow> trace evs = spec_trace db (submitted evs))"
  using pipe_inv_reachable [OF assms] by (auto simp: pipe_inv_def to_do_def)

definition demo_reading :: Reading where
  "demo_reading = \<lparr>rd_device = ''t'', rd_value = NotFinite\<rparr>"

definition demo_pipeline :: "(nat, unit) pipeline" where
  "demo_pipeline = snd (snd (pipeline_submit [demo_reading] 7 (new_pipeline 0)))"

lemma demo_pipeline_run:
  "lts_steps pipe_step (new_pipeline 0) [Submitted (Batch (batch_of [demo_reading] 7))] demo_pipeline"
proof -
  have "pipeline_submit [demo_reading] 7 (new_pipeline 0 :: (nat, unit) pipeline) =
      (True, [Submitted (Batch (batch_of [demo_reading] 7))], demo_pipeline)"
    by (simp add: demo_pipeline_def pipeline_submit_def put_job_def try_push_def new_pipeline_def new_queue_def
        kQueueCapacity_def Let_def)
  from steps_single [where R = pipe_step, OF submit_step [OF this]] show ?thesis .
qed

theorem pipeline_stores_accepted_rows_witness:
  "spec_trace 0 (submitted [Submitted (Batch (batch_of [demo_reading] 7)) :: (nat, unit) pipe_event]) =
    [Row 0 \<lparr>dr_device = ''t'', dr_value = NotFinite, dr_ts = 7\<rparr>] \<and>
   length (tsq_queue (pl_queue demo_pipeline)) \<le> kQueueCapacity"
proof -
  from pipeline_stores_accepted_rows [OF demo_pipeline_run] show ?thesis
    by (simp add: batch_of_def demo_reading_def)
qed

text \<open>
  The destructor returns: once the queue has been closed, the writer exits after at most two turns per
  waiting job and two more, and then nothing is left unwritten.
\<close>

theorem writer_exits_after_shutdown:
  assumes "lts_steps pipe_step (new_pipeline db) evs p"
  shows "\<exists>k \<le> 2 * length (tsq_queue (pl_queue p)) + 2. pl_pc (writer_turns k (pipeline_shutdown p)) = Exited"
proof -
  let ?p = "pipeline_shutdown p"
  have "pl_pc (writer_turns (turns_left ?p) ?p) = Exited"
    by (rule writer_finishes) (simp_all add: pipeline_shutdown_def shutdown_def)
  moreover have "turns_left ?p \<le> 2 * length (tsq_queue (pl_queue p)) + 2"
    by (cases "pl_pc p") (simp_all add: turns_left_def pipeline_shutdown_def shutdown_def)
  ultimately show ?thesis by blast
qed

theorem writer_exits_after_shutdown_witness:
  "\<exists>k \<le> 4. pl_pc (writer_turns k (pipeline_shutdown (demo_pipeline :: (nat, unit) pipeline))) = Exited"
proof -
  have "length (tsq_queue (pl_queue demo_pipeline)) = 1"
    by (simp add: demo_pipeline_def pipeline_submit_def put_job_def try_push_def new_pipeline_def new_queue_def
        kQueueCapacity_def Let_def)
  with writer_exits_after_shutdown [OF demo_pipeline_run] show ?thesis by simp
qed

end
