(* ===== verification/Command_Translator.thy ===== *)
theory Command_Translator
  imports Edge_Proto Cpp_String
begin

text \<open>
  \<^verbatim>\<open>gateway/cloud/CommandTranslator.{h,cpp}\<close>: an MQTT message becomes a command of the protocol or a
  rejection with a text. The texts are UTF-8; the bytes outside ASCII are written as numbers.
\<close>

record DownCmd =
  dc_type :: u8
  dc_arg :: "u8 list"

record TranslateResult =
  tr_ok :: bool
  tr_cmd :: DownCmd
  tr_error :: string

definition translate_fail :: "string \<Rightarrow> TranslateResult" where
  "translate_fail why = \<lparr>tr_ok = False, tr_cmd = \<lparr>dc_type = 0, dc_arg = []\<rparr>, tr_error = why\<rparr>"

definition translate_ok :: "u8 \<Rightarrow> u8 list \<Rightarrow> TranslateResult" where
  "translate_ok type arg = \<lparr>tr_ok = True, tr_cmd = \<lparr>dc_type = type, dc_arg = arg\<rparr>, tr_error = []\<rparr>"

definition parseStrictInt :: "string \<Rightarrow> int option" where
  "parseStrictInt raw =
    (case find_first_not_of blanks raw of
       None \<Rightarrow> None
     | Some begin_pos \<Rightarrow>
         (case find_last_not_of blanks raw of
            None \<Rightarrow> None
          | Some end_pos \<Rightarrow>
              let s = substr raw begin_pos (end_pos - begin_pos + 1)
              in case strtol s of
                   (v, used) \<Rightarrow> if used \<noteq> length s then None else Some v))"

definition quote :: string where
  "quote = [CHR 0x27]"

definition bad_integer :: "string \<Rightarrow> string" where
  "bad_integer payload = ''set_period '' @ bytes [0xE5, 0x8F, 0x82, 0xE6, 0x95, 0xB0, 0xE4, 0xB8, 0x8D, 0xE6, 0x98, 0xAF, 0xE5, 0x90, 0x88, 0xE6, 0xB3, 0x95, 0xE6, 0x95, 0xB4, 0xE6, 0x95, 0xB0] @ '': '' @ bytes [0x27] @ payload @ quote"

definition out_of_range :: "string \<Rightarrow> string" where
  "out_of_range payload = ''set_period '' @ bytes [0xE8, 0xB6, 0x85, 0xE8, 0x8C, 0x83, 0xE5, 0x9B, 0xB4] @ '': '' @ payload @ '' ('' @ bytes [0xE5, 0x85, 0x81, 0xE8, 0xAE, 0xB8] @ '' '' @
     to_string EDGE_PERIOD_MIN_S @ ''..'' @ to_string EDGE_PERIOD_MAX_S @ '' '' @ bytes [0xE7, 0xA7, 0x92] @ '')''"

definition unknown_command :: "string \<Rightarrow> string" where
  "unknown_command name = bytes [0xE6, 0x9C, 0xAA, 0xE7, 0x9F, 0xA5, 0xE5, 0x91, 0xBD, 0xE4, 0xBB, 0xA4] @ '': '' @ bytes [0x27] @ name @ quote"

definition command_name :: "string \<Rightarrow> string" where
  "command_name topic =
    (case find_last_char (CHR ''/'') topic of None \<Rightarrow> topic | Some pos \<Rightarrow> drop (pos + 1) topic)"

definition translateCommand :: "string \<Rightarrow> string \<Rightarrow> TranslateResult" where
  "translateCommand topic payload =
    (let name = command_name topic
     in if name = ''query_light'' then translate_ok EDGE_TYPE_QUERY_LIGHT []
        else if name = ''query_th'' then translate_ok EDGE_TYPE_QUERY_TH []
        else if name = ''set_period'' then
          (case parseStrictInt payload of
             None \<Rightarrow> translate_fail (bad_integer payload)
           | Some period \<Rightarrow>
               if period < int EDGE_PERIOD_MIN_S \<or> period > int EDGE_PERIOD_MAX_S
               then translate_fail (out_of_range payload)
               else translate_ok EDGE_TYPE_SET_PERIOD (edge_u16_be_write [0, 0] 0 (word_of_int period)))
        else translate_fail (unknown_command name))"

lemma parseStrictInt_trim:
  "parseStrictInt raw =
    (let s = strip raw in if s = [] then None else case strtol s of (v, used) \<Rightarrow> if used \<noteq> length s then None else Some v)"
proof (cases "\<forall>c\<in>set raw. c \<in> set blanks")
  case True
  then show ?thesis by (simp add: parseStrictInt_def strip_blank)
next
  case False
  from strip_found [OF this] obtain b e where "find_first_not_of blanks raw = Some b"
    "find_last_not_of blanks raw = Some e" "substr raw b (e - b + 1) = strip raw" "strip raw \<noteq> []" by blast
  then show ?thesis by (simp add: parseStrictInt_def Let_def)
qed

subsection \<open>What is accepted\<close>

lemma trim_number:
  assumes "\<forall>c\<in>set sp. is_space c" and "\<forall>c\<in>set post. c \<in> set blanks" and "sign \<in> {[], ''+''}"
    and "ds \<noteq> []" and "\<forall>c\<in>set ds. is_digit c"
  shows "\<exists>sp'. strip (sp @ sign @ ds @ post) = sp' @ sign @ ds \<and> (\<forall>c\<in>set sp'. is_space c)"
proof -
  let ?P = "\<lambda>c. c \<in> set blanks"
  have num: "\<forall>c\<in>set (sign @ ds). \<not> ?P c"
    using number_not_blank [of _ sign ds] assms(3,5) blank_is_space by blast
  obtain n ns where n: "sign @ ds = n # ns" using assms(4) by (cases "sign @ ds") auto
  have "dropWhile ?P (sp @ (sign @ ds) @ post) = dropWhile ?P sp @ (sign @ ds) @ post"
  proof -
    have "\<not> ?P n" using num n by (metis list.set_intros(1))
    then have "dropWhile ?P ((n # ns) @ post) = (n # ns) @ post" by simp
    then show ?thesis using n by (cases "\<forall>c\<in>set sp. ?P c") (auto simp: dropWhile_append)
  qed
  then have "strip (sp @ sign @ ds @ post) = rev (dropWhile ?P (rev post @ rev (sign @ ds) @ rev (dropWhile ?P sp)))"
    by (simp add: strip_def)
  also have "dropWhile ?P (rev post @ rev (sign @ ds) @ rev (dropWhile ?P sp)) = rev (sign @ ds) @ rev (dropWhile ?P sp)"
  proof -
    obtain m ms where m: "rev (sign @ ds) = m # ms" using assms(4) by (cases "rev (sign @ ds)") auto
    then have "\<not> ?P m" using num by (metis list.set_intros(1) set_rev)
    then show ?thesis unfolding m using assms(2) by (subst dropWhile_append2) auto
  qed
  finally have "strip (sp @ sign @ ds @ post) = dropWhile ?P sp @ sign @ ds" by simp
  then show ?thesis using assms(1) by (meson set_dropWhileD)
qed

text \<open>The payloads that are a positive number: white space, an optional plus, digits, blanks.\<close>

definition numeral_payload :: "string \<Rightarrow> nat \<Rightarrow> bool" where
  "numeral_payload raw n \<longleftrightarrow> (\<exists>sp sign ds post. raw = sp @ sign @ ds @ post \<and> (\<forall>c\<in>set sp. is_space c) \<and>
     (\<forall>c\<in>set post. c \<in> set blanks) \<and> sign \<in> {[], ''+''} \<and> ds \<noteq> [] \<and> (\<forall>c\<in>set ds. is_digit c) \<and> digits_val ds = n)"

lemma parse_positive:
  assumes "0 < v" and "v < LONG_MAX"
  shows "parseStrictInt raw = Some v \<longleftrightarrow> numeral_payload raw (nat v)"
proof
  assume "parseStrictInt raw = Some v"
  then have ne: "strip raw \<noteq> []" and st: "strtol (strip raw) = (v, length (strip raw))"
    by (auto simp: parseStrictInt_trim Let_def split: if_splits prod.splits)
  from strtol_complete [OF st ne] obtain sp sign ds where t: "strip raw = sp @ sign @ ds"
    "\<forall>c\<in>set sp. is_space c" "sign \<in> {[], ''+'', ''-''}" "ds \<noteq> []" "\<forall>c\<in>set ds. is_digit c"
    "v = max LONG_MIN (min LONG_MAX ((if sign = ''-'' then -1 else 1) * int (digits_val ds)))" by blast
  have sign: "sign \<noteq> ''-''" using t(6) assms(1) by (auto simp: LONG_MIN_def LONG_MAX_def)
  then have "digits_val ds = nat v" using t(6) assms by (auto simp: LONG_MIN_def LONG_MAX_def)
  moreover obtain l r where "raw = l @ strip raw @ r" "\<forall>c\<in>set l. c \<in> set blanks" "\<forall>c\<in>set r. c \<in> set blanks"
    using trimmed by blast
  moreover from this(1) t(1) have "raw = (l @ sp) @ sign @ ds @ r" by (metis append.assoc)
  moreover from \<open>\<forall>c\<in>set l. c \<in> set blanks\<close> t(2) have "\<forall>c\<in>set (l @ sp). is_space c"
    using blank_is_space by auto
  ultimately show "numeral_payload raw (nat v)"
    unfolding numeral_payload_def using t(3-5) sign by blast
next
  assume "numeral_payload raw (nat v)"
  then obtain sp sign ds post where raw: "raw = sp @ sign @ ds @ post" and sp: "\<forall>c\<in>set sp. is_space c"
    and post: "\<forall>c\<in>set post. c \<in> set blanks" and sign: "sign \<in> {[], ''+''}" and ds: "ds \<noteq> []" "\<forall>c\<in>set ds. is_digit c"
    and val: "digits_val ds = nat v" unfolding numeral_payload_def by blast
  from trim_number [OF sp post sign ds] obtain sp' where t: "strip raw = sp' @ sign @ ds" "\<forall>c\<in>set sp'. is_space c"
    unfolding raw by blast
  have "strtol (strip raw) = (v, length (strip raw))"
  proof -
    have s: "sign \<in> {[], ''+'', ''-''}" "sign \<noteq> ''-''" using sign by auto
    have v: "(if sign = ''-'' then - int (digits_val ds) else int (digits_val ds)) = v" using s(2) val assms(1) by simp
    from strtol_eval [OF t(2) s(1) ds, unfolded v] assms show ?thesis unfolding t(1) by (simp add: LONG_MIN_def)
  qed
  then show "parseStrictInt raw = Some v" using ds by (simp add: parseStrictInt_trim t(1))
qed

lemma period_bytes:
  assumes "n \<le> EDGE_PERIOD_MAX_S"
  shows "edge_u16_be_read (edge_u16_be_write [0, 0] 0 (of_nat n)) 0 = of_nat n"
  using edge_u16_be_read_bytes [of "[]" "of_nat n" "[]"] by (simp add: edge_u16_be_write_eq)

subsection \<open>Properties\<close>

text \<open>
  What a \<^verbatim>\<open>set_period\<close> message means: it is accepted exactly if the payload is a decimal number from
  1 to 65535 (white space in front, an optional plus sign, blanks behind, nothing else), and then the
  command carries two bytes that read back as that number and pass the node's own check; every other
  payload, of whatever length, is rejected.
\<close>

theorem set_period_accepts_exactly:
  fixes topic payload :: string
  assumes "command_name topic = ''set_period''"
  defines "r \<equiv> translateCommand topic payload"
  shows "(tr_ok r \<longleftrightarrow> (\<exists>n. EDGE_PERIOD_MIN_S \<le> n \<and> n \<le> EDGE_PERIOD_MAX_S \<and> numeral_payload payload n)) \<and>
    (tr_ok r \<longrightarrow> dc_type (tr_cmd r) = EDGE_TYPE_SET_PERIOD \<and> length (dc_arg (tr_cmd r)) = 2 \<and>
       numeral_payload payload (unat (edge_u16_be_read (dc_arg (tr_cmd r)) 0)) \<and>
       edge_period_s_valid (edge_u16_be_read (dc_arg (tr_cmd r)) 0))"
proof -
  have pos: "parseStrictInt payload = Some (int n) \<longleftrightarrow> numeral_payload payload n" if "1 \<le> n" "n \<le> 65535" for n
    using parse_positive [of "int n" payload] that by (simp add: LONG_MAX_def)
  have r: "r = (case parseStrictInt payload of None \<Rightarrow> translate_fail (bad_integer payload)
      | Some period \<Rightarrow> if period < 1 \<or> period > 65535 then translate_fail (out_of_range payload)
          else translate_ok EDGE_TYPE_SET_PERIOD (edge_u16_be_write [0, 0] 0 (word_of_int period)))"
    using assms(1) by (simp add: r_def translateCommand_def split: option.split)
  show ?thesis
  proof (cases "\<exists>n. 1 \<le> n \<and> n \<le> 65535 \<and> parseStrictInt payload = Some (int n)")
    case True
    then obtain n where n: "1 \<le> n" "n \<le> 65535" "parseStrictInt payload = Some (int n)" by blast
    then have rn: "r = translate_ok EDGE_TYPE_SET_PERIOD (edge_u16_be_write [0, 0] 0 (of_nat n))" by (simp add: r)
    have "unat (of_nat n :: u16) = n" using n by (intro unat_of_nat_u16) simp
    moreover have "edge_period_s_valid (of_nat n)"
      using n \<open>unat (of_nat n :: u16) = n\<close> by (simp add: edge_period_s_valid_def)
    ultimately show ?thesis
      using n pos [OF n(1,2)] period_bytes [of n] by (auto simp: rn translate_ok_def edge_u16_be_write_eq)
  next
    case False
    then have "\<not> tr_ok r"
    proof (cases "parseStrictInt payload")
      case (Some v)
      have "v < 1 \<or> v > 65535"
      proof (rule ccontr)
        assume "\<not> (v < 1 \<or> v > 65535)"
        then have "1 \<le> nat v" "nat v \<le> 65535" "int (nat v) = v" by auto
        with False Some show False by metis
      qed
      with Some show ?thesis by (simp add: r translate_fail_def)
    qed (simp add: r translate_fail_def)
    moreover have "\<not> (\<exists>n. 1 \<le> n \<and> n \<le> 65535 \<and> numeral_payload payload n)" using False pos by blast
    ultimately show ?thesis by auto
  qed
qed

theorem set_period_accepts_exactly_witness:
  "tr_ok (translateCommand ''gateway/cmd/set_period'' '' +05 '')"
proof -
  have name: "command_name ''gateway/cmd/set_period'' = ''set_period''" by code_simp
  have "numeral_payload '' +05 '' 5"
    unfolding numeral_payload_def
    by (rule exI [of _ "'' ''"], rule exI [of _ "''+''"], rule exI [of _ "''05''"], rule exI [of _ "'' ''"])
      (simp add: digits_val_def digit_val_def is_digit_def is_space_def blanks_def)
  with set_period_accepts_exactly [OF name, of "'' +05 ''"] show ?thesis by force
qed

end
