(* ===== verification/Task_Executor.thy ===== *)
theory Task_Executor
  imports Fifo
begin

text \<open>
  \<^verbatim>\<open>gateway/core/concurrent/TaskExecutor.h\<close>: a bounded mailbox with one worker. Ordinary tasks are
  refused at \<^verbatim>\<open>capacity\<close>; completions of work already accepted may also use \<^verbatim>\<open>reserve\<close>. A task is a
  value; what running it does is the business of the owner of the executor. An exception of a task is
  caught by the worker, which goes on with the next one.
\<close>

record 'a TaskExecutor =
  te_capacity :: nat
  te_reserve :: nat
  te_tasks :: "'a list"
  te_closed :: bool

definition new_executor :: "nat \<Rightarrow> nat \<Rightarrow> 'a TaskExecutor" where
  "new_executor capacity reserve = \<lparr>te_capacity = capacity, te_reserve = reserve, te_tasks = [], te_closed = False\<rparr>"

definition post :: "'a \<Rightarrow> bool \<Rightarrow> 'a TaskExecutor \<Rightarrow> bool \<times> 'a TaskExecutor" where
  "post task completion e =
    (let limit = te_capacity e + (if completion then te_reserve e else 0)
     in if te_closed e \<or> length (te_tasks e) \<ge> limit then (False, e)
        else (True, e\<lparr>te_tasks := te_tasks e @ [task]\<rparr>))"

text \<open>
  The worker's wait and take: blocked (\<open>None\<close>) while the executor is open and empty, otherwise the next
  task, or the end of the worker when it is closed and empty.
\<close>

definition take_task :: "'a TaskExecutor \<Rightarrow> ('a option \<times> 'a TaskExecutor) option" where
  "take_task e =
    (if \<not> (te_closed e \<or> te_tasks e \<noteq> []) then None
     else case te_tasks e of
            [] \<Rightarrow> Some (None, e)
          | task # tasks \<Rightarrow> Some (Some task, e\<lparr>te_tasks := tasks\<rparr>))"

definition close_executor :: "'a TaskExecutor \<Rightarrow> 'a TaskExecutor" where
  "close_executor e = e\<lparr>te_closed := True\<rparr>"

text \<open>The worker's loop on a closed executor, and \<^verbatim>\<open>stop\<close>: close, then wait for the worker.\<close>

function run_closed :: "('a \<Rightarrow> 'w \<Rightarrow> 'w) \<Rightarrow> 'a TaskExecutor \<Rightarrow> 'w \<Rightarrow> 'a TaskExecutor \<times> 'w" where
  "run_closed run e w =
    (case take_task e of
       Some (Some task, e') \<Rightarrow> run_closed run e' (run task w)
     | _ \<Rightarrow> (e, w))"
  by pat_completeness auto
termination
  by (relation "measure (\<lambda>(run, e, w). length (te_tasks e))")
    (auto simp: take_task_def split: if_splits list.splits)

declare run_closed.simps [simp del]

definition stop_executor :: "('a \<Rightarrow> 'w \<Rightarrow> 'w) \<Rightarrow> 'a TaskExecutor \<Rightarrow> 'w \<Rightarrow> 'a TaskExecutor \<times> 'w" where
  "stop_executor run e w = run_closed run (close_executor e) w"

lemmas te_defs = post_def take_task_def close_executor_def

interpretation te: fifo te_tasks te_closed fst "\<lambda>(task, completion). post task completion"
    "\<lambda>e. case take_task e of None \<Rightarrow> (None, e) | Some r \<Rightarrow> r" close_executor
  by unfold_locales (auto simp: te_defs Let_def split: if_splits list.splits prod.splits)

lemma run_closed_eq: "te_closed e \<Longrightarrow> run_closed run e w = (e\<lparr>te_tasks := []\<rparr>, fold run (te_tasks e) w)"
proof (induction run e w rule: run_closed.induct)
  case (1 run e w)
  show ?case
  proof (cases "te_tasks e")
    case Nil
    with 1(2) show ?thesis by (subst run_closed.simps) (simp add: take_task_def)
  next
    case (Cons task tasks)
    with 1(2) have t: "take_task e = Some (Some task, e\<lparr>te_tasks := tasks\<rparr>)" by (simp add: take_task_def)
    from 1(1) [OF t refl refl] 1(2) Cons show ?thesis by (subst run_closed.simps) (simp add: t)
  qed
qed

text \<open>Posting: a completion is accepted whenever an ordinary task is, and up to the reserve beyond.\<close>

lemma post_accepted:
  "fst (post task completion e) \<longleftrightarrow> \<not> te_closed e \<and>
     length (te_tasks e) < te_capacity e + (if completion then te_reserve e else 0)"
  by (auto simp: post_def Let_def)

lemma post_cases:
  "post task completion e =
    (if fst (post task completion e) then (True, e\<lparr>te_tasks := te_tasks e @ [task]\<rparr>) else (False, e))"
  by (auto simp: post_def Let_def)

subsection \<open>Properties\<close>

text \<open>
  The mailbox: whatever the order of posts, takes and closing, the tasks handed to the worker followed
  by those still waiting are the accepted tasks in order; after closing nothing is accepted any more; and
  \<^verbatim>\<open>stop\<close> runs exactly the tasks that were waiting, in order, and leaves none.
\<close>

theorem executor_runs_tasks_in_order:
  fixes ops :: "('a \<times> bool) fifo_op list" and e e' :: "'a TaskExecutor"
  assumes "te.fifo_run ops e = (accepted, taken, e')"
  shows "te_tasks e @ accepted = taken @ te_tasks e' \<and>
    (te_closed e \<longrightarrow> accepted = [] \<and> te_closed e') \<and>
    stop_executor run e' w = (e'\<lparr>te_tasks := [], te_closed := True\<rparr>, fold run (te_tasks e') w)"
  using te.fifo_exact [OF assms] te.closed_stays [OF _ assms]
  by (simp add: stop_executor_def run_closed_eq close_executor_def)

theorem executor_runs_tasks_in_order_witness:
  "stop_executor (\<lambda>t w. w @ [t]) ((new_executor 2 1)\<lparr>te_tasks := [5 :: nat]\<rparr>) [4] =
    ((new_executor 2 1)\<lparr>te_tasks := [], te_closed := True\<rparr>, [4, 5])"
proof -
  have "te.fifo_run [Put (5, False)] (new_executor 2 1) = ([5], [], (new_executor 2 1)\<lparr>te_tasks := [5 :: nat]\<rparr>)"
    by (simp add: te.fifo_run.simps post_def new_executor_def)
  from executor_runs_tasks_in_order [OF this, of "\<lambda>t w. w @ [t]" "[4]"] show ?thesis by simp
qed

end
