(* ===== verification/Config.thy ===== *)
theory Config
  imports Cpp_String
begin

text \<open>
  \<^verbatim>\<open>gateway/core/config/Config.{h,cpp}\<close>: the key=value file, its validation, and the published snapshot
  with reload. The file's content is an argument, \<open>None\<close> if it cannot be opened. Exceptions are the left
  side of a sum; warnings are left out.
\<close>

definition kMaxReportN :: int where "kMaxReportN = 1000"

record Config =
  log_level :: int
  idle_timeout :: int
  report_n :: int
  serial_path :: string
  serial_baud :: int
  mqtt_host :: string
  db_path :: string
  mqtt_keepalive :: int
  mqtt_port :: int
  http_port :: int

definition default_config :: Config where
  "default_config = \<lparr>log_level = 1, idle_timeout = 5, report_n = 10, serial_path = ''/tmp/ttyV0'',
     serial_baud = 115200, mqtt_host = ''localhost'', db_path = ''/tmp/gateway.db'', mqtt_keepalive = 60,
     mqtt_port = 1883, http_port = 8888\<rparr>"

subsection \<open>Parsing\<close>

definition trim :: "string \<Rightarrow> string" where
  "trim s =
    (case find_first_not_of blanks s of
       None \<Rightarrow> []
     | Some b \<Rightarrow> (case find_last_not_of blanks s of
                    None \<Rightarrow> []
                  | Some e \<Rightarrow> substr s b (e - b + 1)))"

definition sq :: string where "sq = [CHR 0x27]"

definition toInt :: "string \<Rightarrow> string \<Rightarrow> string + int" where
  "toInt val key =
    (case stoi val of
       Some (v, pos) \<Rightarrow> if pos \<noteq> length val then Inl (''config '' @ sq @ key @ sq @ '' invalid int value: '' @ sq @ val @ sq)
                        else Inr v
     | None \<Rightarrow> Inl (''config '' @ sq @ key @ sq @ '' invalid int value: '' @ sq @ val @ sq))"

definition set_key :: "string \<Rightarrow> string \<Rightarrow> Config \<Rightarrow> string + Config" where
  "set_key key val c =
    (if key = ''log_level'' then map_sum id (\<lambda>v. c\<lparr>log_level := v\<rparr>) (toInt val key)
     else if key = ''idle_timeout'' then map_sum id (\<lambda>v. c\<lparr>idle_timeout := v\<rparr>) (toInt val key)
     else if key = ''report_n'' then map_sum id (\<lambda>v. c\<lparr>report_n := v\<rparr>) (toInt val key)
     else if key = ''mqtt_keepalive'' then map_sum id (\<lambda>v. c\<lparr>mqtt_keepalive := v\<rparr>) (toInt val key)
     else if key = ''serial_baud'' then map_sum id (\<lambda>v. c\<lparr>serial_baud := v\<rparr>) (toInt val key)
     else if key = ''mqtt_port'' then map_sum id (\<lambda>v. c\<lparr>mqtt_port := v\<rparr>) (toInt val key)
     else if key = ''http_port'' then map_sum id (\<lambda>v. c\<lparr>http_port := v\<rparr>) (toInt val key)
     else if key = ''serial_path'' then Inr (c\<lparr>serial_path := val\<rparr>)
     else if key = ''mqtt_host'' then Inr (c\<lparr>mqtt_host := val\<rparr>)
     else if key = ''db_path'' then Inr (c\<lparr>db_path := val\<rparr>)
     else Inr c)"

definition parse_line :: "string \<Rightarrow> Config \<Rightarrow> string + Config" where
  "parse_line line c =
    (let t = trim line
     in if t = [] \<or> t ! 0 = CHR ''#'' then Inr c
        else case find_char (CHR ''='') t 0 of
               None \<Rightarrow> Inr c
             | Some eq \<Rightarrow>
                 let key = trim (substr t 0 eq);
                     val = trim (drop (eq + 1) t);
                     val = (case find_char (CHR ''#'') val 0 of
                              None \<Rightarrow> val
                            | Some hash \<Rightarrow> trim (substr val 0 hash))
                 in set_key key val c)"

text \<open>\<^verbatim>\<open>std::getline\<close> until the end of the file: a last line without a newline counts, an empty one does not.\<close>

fun getlines :: "string \<Rightarrow> string \<Rightarrow> string list" where
  "getlines cur [] = (if cur = [] then [] else [cur])"
| "getlines cur (c # cs) = (if c = CHR 0x0A then cur # getlines [] cs else getlines (cur @ [c]) cs)"

fun parse_lines :: "string list \<Rightarrow> Config \<Rightarrow> string + Config" where
  "parse_lines [] c = Inr c"
| "parse_lines (line # lines) c = (case parse_line line c of Inl e \<Rightarrow> Inl e | Inr c \<Rightarrow> parse_lines lines c)"

definition parseFile :: "string \<Rightarrow> string option \<Rightarrow> string + Config" where
  "parseFile path file =
    (case file of
       None \<Rightarrow> Inl (''cannot open config file: '' @ path)
     | Some text \<Rightarrow> parse_lines (getlines [] text) default_config)"

subsection \<open>Validation and publication\<close>

definition port_ok :: "int \<Rightarrow> bool" where
  "port_ok p \<longleftrightarrow> \<not> (p < 1 \<or> p > 65535)"

definition validate :: "Config \<Rightarrow> bool" where
  "validate c \<longleftrightarrow>
    port_ok (mqtt_port c) \<and> port_ok (http_port c) \<and>
    \<not> idle_timeout c \<le> 0 \<and>
    \<not> (report_n c \<le> 0 \<or> report_n c > kMaxReportN) \<and>
    \<not> mqtt_keepalive c < 0 \<and>
    \<not> serial_baud c \<le> 0 \<and>
    serial_path c \<noteq> [] \<and> db_path c \<noteq> [] \<and> mqtt_host c \<noteq> []"

record ConfigManager =
  cm_path :: string
  cm_current :: "Config option"
  cm_startup :: "Config option"

record ReloadResult =
  rl_ok :: bool
  serial_rebuild_required :: bool
  mqtt_rebuild_required :: bool
  db_swap_required :: bool

definition see_log :: string where
  "see_log = '' ('' @ bytes [0xE5, 0x85, 0xB7, 0xE4, 0xBD, 0x93, 0xE5, 0x93, 0xAA, 0xE4, 0xB8, 0x80, 0xE9, 0xA1, 0xB9, 0xE8, 0xA7, 0x81, 0xE4, 0xB8, 0x8A, 0xE9, 0x9D, 0xA2, 0xE7, 0x9A, 0x84] @ '' WARN '' @ bytes [0xE6, 0x97, 0xA5, 0xE5, 0xBF, 0x97] @ '')''"

definition config_init :: "string \<Rightarrow> string option \<Rightarrow> ConfigManager \<Rightarrow> string + ConfigManager" where
  "config_init path file m =
    (case parseFile path file of
       Inl e \<Rightarrow> Inl e
     | Inr cfg \<Rightarrow>
         if \<not> validate cfg then Inl (''config validation failed: '' @ path @ see_log)
         else Inr (m\<lparr>cm_path := path, cm_startup := Some cfg, cm_current := Some cfg\<rparr>))"

definition failed_reload :: ReloadResult where
  "failed_reload = \<lparr>rl_ok = False, serial_rebuild_required = False, mqtt_rebuild_required = False, db_swap_required = False\<rparr>"

text \<open>\<^verbatim>\<open>reload\<close> is called after \<^verbatim>\<open>init\<close> (it asserts a current snapshot); the file is the one of \<open>cm_path\<close>.\<close>

definition reload :: "string option \<Rightarrow> ConfigManager \<Rightarrow> ReloadResult \<times> ConfigManager" where
  "reload file m =
    (case parseFile (cm_path m) file of
       Inl e \<Rightarrow> (failed_reload, m)
     | Inr fresh \<Rightarrow>
         if \<not> validate fresh then (failed_reload, m)
         else
           (case (cm_startup m, cm_current m) of
              (Some startup, Some old) \<Rightarrow>
                let fresh = fresh\<lparr>mqtt_port := mqtt_port startup\<rparr>;
                    fresh = fresh\<lparr>http_port := http_port startup\<rparr>
                in (\<lparr>rl_ok = True,
                     serial_rebuild_required = (serial_path old \<noteq> serial_path fresh \<or> serial_baud old \<noteq> serial_baud fresh),
                     mqtt_rebuild_required = (mqtt_host old \<noteq> mqtt_host fresh \<or> mqtt_keepalive old \<noteq> mqtt_keepalive fresh),
                     db_swap_required = (db_path old \<noteq> db_path fresh)\<rparr>,
                    m\<lparr>cm_current := Some fresh\<rparr>)
            | _ \<Rightarrow> (failed_reload, m)))"

subsection \<open>Lemmas\<close>

lemma trim_strip: "trim s = strip s"
proof (cases "\<forall>c\<in>set s. c \<in> set blanks")
  case True
  from strip_blank [OF this] show ?thesis by (simp add: trim_def)
next
  case False
  from strip_found [OF this] obtain b e where "find_first_not_of blanks s = Some b"
    "find_last_not_of blanks s = Some e" "substr s b (e - b + 1) = strip s" by blast
  then show ?thesis by (simp add: trim_def)
qed

lemma strip_id:
  assumes "s = [] \<or> (hd s \<notin> set blanks \<and> last s \<notin> set blanks)"
  shows "strip s = s"
proof (cases "s = []")
  case False
  obtain c cs where s: "s = c # cs" using False by (cases s) auto
  obtain d ds where r: "rev s = d # ds" using False by (cases "rev s") auto
  have "d = last s" using r by (metis hd_rev list.sel(1))
  then have "dropWhile (\<lambda>c. c \<in> set blanks) (rev s) = rev s" using assms False unfolding r by simp
  moreover have "dropWhile (\<lambda>c. c \<in> set blanks) s = s" using assms False s by simp
  ultimately show ?thesis by (simp only: strip_def rev_rev_ident)
qed (simp add: strip_def)

lemma find_char_None: "find_char c s 0 = None \<longleftrightarrow> c \<notin> set s"
  by (auto simp: find_char_def find_None_iff in_set_conv_nth)

lemma find_char_first:
  assumes "c \<notin> set xs"
  shows "find_char c (xs @ c # ys) 0 = Some (length xs)"
  using assms unfolding find_char_def find_Some_iff
  by (intro exI [of _ "length xs"]) (auto simp: nth_append in_set_conv_nth)

text \<open>Values that the syntax can express: no comment sign, no newline, no blanks at the ends.\<close>

definition clean :: "string \<Rightarrow> bool" where
  "clean s \<longleftrightarrow> CHR ''#'' \<notin> set s \<and> CHR 0x0A \<notin> set s \<and> (s = [] \<or> (hd s \<notin> set blanks \<and> last s \<notin> set blanks))"

definition clean_key :: "string \<Rightarrow> bool" where
  "clean_key k \<longleftrightarrow> k \<noteq> [] \<and> CHR ''='' \<notin> set k \<and> CHR ''#'' \<notin> set k \<and> CHR 0x0A \<notin> set k \<and> hd k \<notin> set blanks \<and> last k \<notin> set blanks"

lemma parse_clean_line:
  assumes "clean_key k" and "clean v"
  shows "parse_line (k @ ''='' @ v) c = set_key k v c"
proof -
  have eq: "CHR ''='' \<notin> set blanks" by (simp add: blanks_def)
  have "hd (k @ ''='' @ v) \<notin> set blanks" using assms(1) by (simp add: clean_key_def)
  moreover have "last (k @ ''='' @ v) \<notin> set blanks" using assms(2) eq by (cases "v = []") (simp_all add: clean_def)
  ultimately have t: "trim (k @ ''='' @ v) = k @ ''='' @ v" by (simp add: trim_strip strip_id)
  have "(k @ ''='' @ v) ! 0 \<noteq> CHR ''#''" using assms(1) by (cases k) (auto simp: clean_key_def)
  moreover have "find_char (CHR ''='') (k @ ''='' @ v) 0 = Some (length k)"
    using find_char_first [of "CHR ''=''" k v] assms(1) by (simp add: clean_key_def)
  moreover have "trim k = k" "trim v = v"
    using assms by (simp_all add: trim_strip strip_id clean_key_def clean_def)
  moreover have "find_char (CHR ''#'') v 0 = None" using assms(2) by (simp add: find_char_None clean_def)
  ultimately show ?thesis
    unfolding parse_line_def t using assms(1) by (simp add: Let_def substr_def)
qed

lemma toInt_int_to_string:
  "- 2147483648 \<le> i \<Longrightarrow> i \<le> 2147483647 \<Longrightarrow> toInt (int_to_string i) key = Inr i"
  by (simp add: toInt_def stoi_int_to_string)

lemma clean_int: "clean (int_to_string i)"
proof -
  have d: "c \<in> set (to_string n) \<Longrightarrow> is_digit c" for c n by (rule to_string_digits)
  have nb: "is_digit c \<Longrightarrow> c \<notin> set blanks \<and> c \<noteq> CHR ''#'' \<and> c \<noteq> CHR 0x0A" for c
    using digit_facts [of c] blank_is_space [of c] by (auto simp: is_digit_def)
  have ends: "hd (to_string n) \<in> set (to_string n)" "last (to_string n) \<in> set (to_string n)" for n by simp_all
  have minus: "CHR ''-'' \<notin> set blanks" by (simp add: blanks_def)
  show ?thesis
    using nb [OF d] nb [OF d [OF ends(1)]] nb [OF d [OF ends(2)]] minus
    by (auto simp: clean_def int_to_string_def)
qed

lemma getlines_newline: "CHR 0x0A \<notin> set l \<Longrightarrow> getlines cur (l @ CHR 0x0A # rest) = (cur @ l) # getlines [] rest"
  by (induction l arbitrary: cur) auto

lemma getlines_unlines:
  "\<forall>l\<in>set ls. CHR 0x0A \<notin> set l \<Longrightarrow> getlines [] (concat (map (\<lambda>l. l @ [CHR 0x0A]) ls)) = ls"
  by (induction ls) (simp_all add: getlines_newline)

subsection \<open>Properties\<close>

text \<open>A configuration as a file, and the values a file can express.\<close>

definition config_lines :: "Config \<Rightarrow> string list" where
  "config_lines c =
    [''log_level='' @ int_to_string (log_level c), ''idle_timeout='' @ int_to_string (idle_timeout c),
     ''report_n='' @ int_to_string (report_n c), ''serial_path='' @ serial_path c,
     ''serial_baud='' @ int_to_string (serial_baud c), ''mqtt_host='' @ mqtt_host c, ''db_path='' @ db_path c,
     ''mqtt_keepalive='' @ int_to_string (mqtt_keepalive c), ''mqtt_port='' @ int_to_string (mqtt_port c),
     ''http_port='' @ int_to_string (http_port c)]"

definition print_config :: "Config \<Rightarrow> string" where
  "print_config c = concat (map (\<lambda>l. l @ [CHR 0x0A]) (config_lines c))"

definition int32 :: "int \<Rightarrow> bool" where
  "int32 i \<longleftrightarrow> - 2147483648 \<le> i \<and> i \<le> 2147483647"

definition expressible :: "Config \<Rightarrow> bool" where
  "expressible c \<longleftrightarrow> int32 (log_level c) \<and> int32 (idle_timeout c) \<and> int32 (report_n c) \<and> int32 (serial_baud c) \<and>
     int32 (mqtt_keepalive c) \<and> int32 (mqtt_port c) \<and> int32 (http_port c) \<and>
     clean (serial_path c) \<and> clean (mqtt_host c) \<and> clean (db_path c)"

lemma parse_int_line:
  assumes "clean_key k" and "int32 i"
  shows "parse_line (k @ ''='' @ int_to_string i) c = set_key k (int_to_string i) c" and "toInt (int_to_string i) key = Inr i"
  using parse_clean_line [OF assms(1) clean_int] assms(2) by (simp_all add: toInt_int_to_string int32_def)

lemma config_keys_clean:
  "clean_key ''log_level''" "clean_key ''idle_timeout''" "clean_key ''report_n''" "clean_key ''serial_path''"
  "clean_key ''serial_baud''" "clean_key ''mqtt_host''" "clean_key ''db_path''" "clean_key ''mqtt_keepalive''"
  "clean_key ''mqtt_port''" "clean_key ''http_port''"
  by (simp_all add: clean_key_def blanks_def)

lemma config_lines_clean: "expressible c \<Longrightarrow> \<forall>l\<in>set (config_lines c). CHR 0x0A \<notin> set l"
  using clean_int by (auto simp: config_lines_def expressible_def clean_def)

text \<open>
  Round trip of the configuration file: a configuration whose numbers are 32-bit integers and whose
  texts have no comment sign, newline or outer blanks, written out as key=value lines, is read back
  unchanged, whatever the defaults are.
\<close>

theorem config_roundtrip:
  assumes "expressible c"
  shows "parseFile path (Some (print_config c)) = Inr c"
proof -
  have lines: "getlines [] (print_config c) = config_lines c"
    unfolding print_config_def by (rule getlines_unlines [OF config_lines_clean [OF assms]])
  note keys = config_keys_clean
  note e = assms [unfolded expressible_def]
  have text_lines: "parse_line (''serial_path='' @ serial_path c) d = set_key ''serial_path'' (serial_path c) d"
    "parse_line (''mqtt_host='' @ mqtt_host c) d = set_key ''mqtt_host'' (mqtt_host c) d"
    "parse_line (''db_path='' @ db_path c) d = set_key ''db_path'' (db_path c) d" for d
    using parse_clean_line [OF keys(4), of "serial_path c" d] parse_clean_line [OF keys(6), of "mqtt_host c" d]
      parse_clean_line [OF keys(7), of "db_path c" d] e by simp_all
  have int_lines: "parse_line (''log_level='' @ int_to_string (log_level c)) d = Inr (d\<lparr>log_level := log_level c\<rparr>)"
    "parse_line (''idle_timeout='' @ int_to_string (idle_timeout c)) d = Inr (d\<lparr>idle_timeout := idle_timeout c\<rparr>)"
    "parse_line (''report_n='' @ int_to_string (report_n c)) d = Inr (d\<lparr>report_n := report_n c\<rparr>)"
    "parse_line (''serial_baud='' @ int_to_string (serial_baud c)) d = Inr (d\<lparr>serial_baud := serial_baud c\<rparr>)"
    "parse_line (''mqtt_keepalive='' @ int_to_string (mqtt_keepalive c)) d = Inr (d\<lparr>mqtt_keepalive := mqtt_keepalive c\<rparr>)"
    "parse_line (''mqtt_port='' @ int_to_string (mqtt_port c)) d = Inr (d\<lparr>mqtt_port := mqtt_port c\<rparr>)"
    "parse_line (''http_port='' @ int_to_string (http_port c)) d = Inr (d\<lparr>http_port := http_port c\<rparr>)" for d
    using parse_int_line(1) [OF keys(1), of "log_level c" d] parse_int_line(1) [OF keys(2), of "idle_timeout c" d]
      parse_int_line(1) [OF keys(3), of "report_n c" d] parse_int_line(1) [OF keys(5), of "serial_baud c" d]
      parse_int_line(1) [OF keys(8), of "mqtt_keepalive c" d] parse_int_line(1) [OF keys(9), of "mqtt_port c" d]
      parse_int_line(1) [OF keys(10), of "http_port c" d] e
    by (simp_all add: parse_int_line(2) [OF keys(1)] set_key_def)
  show ?thesis
    unfolding parseFile_def option.case lines config_lines_def
    by (simp add: text_lines int_lines set_key_def default_config_def del: append.simps)
qed

theorem config_roundtrip_witness: "parseFile ''gw.conf'' (Some (print_config default_config)) = Inr default_config"
proof -
  have "expressible default_config"
    by (simp add: expressible_def default_config_def int32_def clean_def blanks_def)
  then show ?thesis by (rule config_roundtrip)
qed

text \<open>
  C38. Whatever is published is valid: after a successful \<^verbatim>\<open>init\<close> and any number of reloads, whatever the
  file contains each time, the current snapshot exists, satisfies every check of \<^verbatim>\<open>validate\<close>, and has the
  ports of the start; a reload that fails leaves the snapshot as it was, and a reload that succeeds asks
  for a rebuild exactly of the resources whose settings changed.
\<close>

theorem config_always_valid:
  fixes m0 m :: ConfigManager and files :: "string option list" and latest :: "string option"
  assumes "config_init path start m0 = Inr m"
  defines "m' \<equiv> fold (\<lambda>content m. snd (reload content m)) files m"
  shows "\<exists>c s. cm_current m' = Some c \<and> cm_startup m' = Some s \<and> cm_startup m' = cm_startup m \<and> validate c \<and>
    mqtt_port c = mqtt_port s \<and> http_port c = http_port s \<and>
    (case reload latest m' of (r, m'') \<Rightarrow>
       if rl_ok r then \<exists>c'. cm_current m'' = Some c' \<and> validate c' \<and>
           (serial_rebuild_required r \<longleftrightarrow> (serial_path c, serial_baud c) \<noteq> (serial_path c', serial_baud c')) \<and>
           (mqtt_rebuild_required r \<longleftrightarrow> (mqtt_host c, mqtt_keepalive c) \<noteq> (mqtt_host c', mqtt_keepalive c')) \<and>
           (db_swap_required r \<longleftrightarrow> db_path c \<noteq> db_path c')
       else m'' = m')"
proof -
  define good where "good m1 \<longleftrightarrow> (\<exists>c s. cm_current m1 = Some c \<and> cm_startup m1 = Some s \<and>
      cm_startup m1 = cm_startup m \<and> validate c \<and> validate s \<and> mqtt_port c = mqtt_port s \<and> http_port c = http_port s)"
    for m1 :: ConfigManager
  have "good m" using assms(1) by (auto simp: good_def config_init_def split: sum.splits if_splits)
  moreover have step: "good (snd (reload content m1))" if "good m1" for content m1
    using that by (auto simp: good_def reload_def Let_def validate_def split: sum.splits)
  ultimately have "good m'" unfolding m'_def
    by (induction files arbitrary: m rule: rev_induct) (simp_all add: step)
  then show ?thesis
    by (auto simp: good_def reload_def failed_reload_def Let_def validate_def split: sum.splits)
qed

theorem config_always_valid_witness:
  "\<exists>c. cm_current (snd (reload (Some ''report_n=0'')
      \<lparr>cm_path = ''gw.conf'', cm_current = Some default_config, cm_startup = Some default_config\<rparr>)) = Some c \<and> validate c"
proof -
  have "config_init ''gw.conf'' (Some []) \<lparr>cm_path = [], cm_current = None, cm_startup = None\<rparr> =
      Inr \<lparr>cm_path = ''gw.conf'', cm_current = Some default_config, cm_startup = Some default_config\<rparr>"
    by (simp add: config_init_def parseFile_def validate_def default_config_def port_ok_def kMaxReportN_def)
  from config_always_valid [OF this, of "[Some ''report_n=0'']" None] show ?thesis by auto
qed

end
