(* ===== verification/Http_Text.thy ===== *)
theory Http_Text
  imports Number Telemetry_Pipeline Config
begin

text \<open>
  The text functions of the HTTP interface, from \<^verbatim>\<open>gateway/app/GatewayCore.cpp\<close> (URL decoding, JSON)
  and \<^verbatim>\<open>gateway/io/http/HttpServer.{h,cpp}\<close> (static pages, the report size). The pages are generated
  at build time, so their contents are an argument.
\<close>

record HttpRequest =
  hq_method :: string
  hq_target :: string

record HttpResponse =
  hr_status :: nat
  hr_content_type :: string
  hr_body :: string

record web_assets =
  kIndexHtml :: string
  kUplotJs :: string
  kUplotCss :: string

definition json :: "nat \<Rightarrow> string \<Rightarrow> HttpResponse" where
  "json status body = \<lparr>hr_status = status, hr_content_type = ''application/json'', hr_body = body\<rparr>"

subsection \<open>URL decoding\<close>

definition hex_digit :: "char \<Rightarrow> nat option" where
  "hex_digit c =
    (let n = of_char c :: nat
     in if 48 \<le> n \<and> n \<le> 57 then Some (n - 48)
        else if 97 \<le> n \<and> n \<le> 102 then Some (n - 97 + 10)
        else if 65 \<le> n \<and> n \<le> 70 then Some (n - 65 + 10)
        else None)"

definition put_char :: "char \<Rightarrow> string option \<Rightarrow> string option" where
  "put_char c rest = (if c = CHR 0x00 then None else map_option ((#) c) rest)"

fun decodeUrl :: "string \<Rightarrow> string option" where
  "decodeUrl [] = Some []"
| "decodeUrl (c # rest) =
    (if c = CHR ''%'' then
       (case rest of
          a # b # rest' \<Rightarrow>
            (case (hex_digit a, hex_digit b) of
               (Some hi, Some lo) \<Rightarrow> put_char (char_of (16 * hi + lo)) (decodeUrl rest')
             | _ \<Rightarrow> None)
        | _ \<Rightarrow> None)
     else if c = CHR ''+'' then put_char (CHR '' '') (decodeUrl rest)
     else put_char c (decodeUrl rest))"

subsection \<open>JSON\<close>

definition hex_chars :: string where
  "hex_chars = ''0123456789abcdef''"

definition escape_char :: "char \<Rightarrow> string" where
  "escape_char ch =
    (let c = of_char ch :: nat
     in if ch = CHR 0x22 \<or> ch = CHR 0x5C then [CHR 0x5C, ch]
        else if c < 32 then [CHR 0x5C, CHR ''u'', CHR ''0'', CHR ''0'', hex_chars ! (c div 16), hex_chars ! (c mod 16)]
        else [ch])"

definition escapeJson :: "string \<Rightarrow> string" where
  "escapeJson text = concat (map escape_char text)"

definition dq :: string where "dq = [CHR 0x22]"

definition json_error :: "nat \<Rightarrow> string \<Rightarrow> HttpResponse" where
  "json_error status msg = json status (''{'' @ dq @ ''error'' @ dq @ '':'' @ dq @ msg @ dq @ ''}'')"

definition row_json :: "DataRow \<Rightarrow> string" where
  "row_json row = ''{'' @ dq @ ''device_id'' @ dq @ '':'' @ dq @ escapeJson (dr_device row) @ dq @ '','' @ dq @ ''value'' @ dq @ '':'' @
     formatValue (dr_value row) @ '','' @ dq @ ''ts'' @ dq @ '':'' @ int_to_string (dr_ts row) @ ''}''"

definition rowsToJson :: "DataRow list \<Rightarrow> string" where
  "rowsToJson rows =
    foldl (\<lambda>body row. (if length body > 1 then body @ '','' else body) @ row_json row) ''['' rows @ '']''"

subsection \<open>Pages and parameters\<close>

definition staticHttpResponse :: "web_assets \<Rightarrow> string \<Rightarrow> HttpResponse option" where
  "staticHttpResponse assets path =
    (if path = ''/'' then
       Some \<lparr>hr_status = 200, hr_content_type = ''text/html; charset=utf-8'', hr_body = kIndexHtml assets\<rparr>
     else if path = ''/uplot.js'' then
       Some \<lparr>hr_status = 200, hr_content_type = ''application/javascript'', hr_body = kUplotJs assets\<rparr>
     else if path = ''/uplot.css'' then
       Some \<lparr>hr_status = 200, hr_content_type = ''text/css'', hr_body = kUplotCss assets\<rparr>
     else None)"

definition clampReportN :: "string \<Rightarrow> int \<Rightarrow> int" where
  "clampReportN raw default_n =
    (let fallback = max 1 (min kMaxReportN default_n)
     in if raw = [] then fallback
        else case stoi raw of
               None \<Rightarrow> fallback
             | Some (n, _) \<Rightarrow> if n < 1 \<or> n > kMaxReportN then fallback else n)"

subsection \<open>Reading the JSON back\<close>

text \<open>
  A reader of JSON string literals after the opening quote: the text up to the closing quote, and what
  follows it. Control characters are not allowed inside; an escape is a quote, a backslash, or four
  hexadecimal digits of a code below 256.
\<close>

fun hex_value :: "string \<Rightarrow> nat option" where
  "hex_value [] = Some 0"
| "hex_value (c # cs) =
    (case (hex_digit c, hex_value cs) of (Some d, Some n) \<Rightarrow> Some (d * 16 ^ length cs + n) | _ \<Rightarrow> None)"

function json_string :: "string \<Rightarrow> (string \<times> string) option" where
  "json_string s =
    (case s of
       [] \<Rightarrow> None
     | c # rest \<Rightarrow>
         if c = CHR 0x22 then Some ([], rest)
         else if c = CHR 0x5C then
           (case rest of
              [] \<Rightarrow> None
            | e # r \<Rightarrow>
                if e = CHR 0x22 \<or> e = CHR 0x5C then map_option (\<lambda>(t, r). (e # t, r)) (json_string r)
                else if e = CHR ''u'' then
                  (case hex_value (take 4 r) of
                     Some n \<Rightarrow> if length r < 4 \<or> n \<ge> 256 then None
                               else map_option (\<lambda>(t, r). (char_of n # t, r)) (json_string (drop 4 r))
                   | None \<Rightarrow> None)
                else None)
         else if (of_char c :: nat) < 32 then None
         else map_option (\<lambda>(t, r). (c # t, r)) (json_string rest))"
  by pat_completeness auto
termination
  by (relation "measure length") auto

declare json_string.simps [simp del]

lemma hex_digit_chars: "n < 16 \<Longrightarrow> hex_digit (hex_chars ! n) = Some n"
proof -
  assume "n < 16"
  then have "n \<in> set [0..<16]" by simp
  moreover have "\<forall>n\<in>set [0..<16]. hex_digit (hex_chars ! n) = Some n" by code_simp
  ultimately show ?thesis by blast
qed

lemma json_escape_char:
  "json_string (escape_char c @ rest) = map_option (\<lambda>(t, r). (c # t, r)) (json_string rest)"
proof -
  let ?n = "of_char c :: nat"
  consider "c = CHR 0x22 \<or> c = CHR 0x5C" | "\<not> (c = CHR 0x22 \<or> c = CHR 0x5C)" "?n < 32"
    | "\<not> (c = CHR 0x22 \<or> c = CHR 0x5C)" "\<not> ?n < 32" by blast
  then show ?thesis
  proof cases
    case 1
    then show ?thesis by (subst json_string.simps) (auto simp: escape_char_def Let_def)
  next
    case 2
    have e: "escape_char c = [CHR 0x5C, CHR ''u'', CHR ''0'', CHR ''0'', hex_chars ! (?n div 16), hex_chars ! (?n mod 16)]"
      using 2 by (simp add: escape_char_def Let_def)
    have zero: "hex_digit (CHR ''0'') = Some 0" by code_simp
    have "hex_value [CHR ''0'', CHR ''0'', hex_chars ! (?n div 16), hex_chars ! (?n mod 16)] = Some (?n div 16 * 16 + ?n mod 16)"
      using 2(2) by (simp add: hex_digit_chars zero)
    then have h: "hex_value [CHR ''0'', CHR ''0'', hex_chars ! (?n div 16), hex_chars ! (?n mod 16)] = Some ?n"
      by (simp only: div_mult_mod_eq)
    have "char_of ?n = c" by simp
    then show ?thesis unfolding e using 2(2) h by (subst json_string.simps) simp
  next
    case 3
    then show ?thesis by (subst json_string.simps) (simp add: escape_char_def Let_def)
  qed
qed

lemma json_escape: "json_string (escapeJson s @ CHR 0x22 # rest) = Some (s, rest)"
proof (induction s)
  case Nil
  show ?case by (subst json_string.simps) (simp add: escapeJson_def)
next
  case (Cons c s)
  have "escapeJson (c # s) @ CHR 0x22 # rest = escape_char c @ (escapeJson s @ CHR 0x22 # rest)"
    by (simp add: escapeJson_def)
  with Cons show ?case by (simp add: json_escape_char)
qed

fun join :: "string \<Rightarrow> string list \<Rightarrow> string" where
  "join sep [] = []"
| "join sep [s] = s"
| "join sep (s # t # ts) = s @ sep @ join sep (t # ts)"

lemma length_row_json: "0 < length (row_json row)"
  by (simp add: row_json_def)

lemma rows_loop:
  "1 < length body \<Longrightarrow>
   foldl (\<lambda>body row. (if length body > 1 then body @ '','' else body) @ row_json row) body rows =
     body @ concat (map (\<lambda>row. '','' @ row_json row) rows)"
proof (induction rows arbitrary: body)
  case (Cons row rows)
  have "1 < length (body @ '','' @ row_json row)" using Cons.prems by (cases body) auto
  from Cons.IH [OF this] Cons.prems show ?case by simp
qed simp

lemma join_Cons: "join sep (s # ts) = s @ concat (map (\<lambda>t. sep @ t) ts)"
  by (induction ts arbitrary: s) auto

subsection \<open>Properties\<close>

text \<open>
  C40. The answer to a query is well-formed whatever the stored texts are: it is the list of the rows'
  objects, separated by commas, in brackets, and in each object the device name is a string literal that
  a JSON reader reads back as exactly the stored name, with the rest of the object after it; no stored
  character can end the literal early. The report size that is asked for is always from 1 to 1000.
\<close>

theorem json_answer_is_safe:
  fixes rows :: "DataRow list" and row :: DataRow and raw :: string and n :: int
  shows "rowsToJson rows = ''['' @ join '','' (map row_json rows) @ '']'' \<and>
    (\<exists>rest. row_json row = ''{'' @ dq @ ''device_id'' @ dq @ '':'' @ dq @ escapeJson (dr_device row) @ CHR 0x22 # rest \<and>
       json_string (escapeJson (dr_device row) @ CHR 0x22 # rest) = Some (dr_device row, rest)) \<and>
    1 \<le> clampReportN raw n \<and> clampReportN raw n \<le> 1000"
proof (intro conjI)
  show "rowsToJson rows = ''['' @ join '','' (map row_json rows) @ '']''"
  proof (cases rows)
    case Nil
    then show ?thesis by (simp add: rowsToJson_def)
  next
    case (Cons row rest)
    have "1 < length (''['' @ row_json row)" using length_row_json [of row] by simp
    from rows_loop [OF this, of rest] Cons show ?thesis
      by (simp add: rowsToJson_def join_Cons comp_def)
  qed
  show "\<exists>rest. row_json row = ''{'' @ dq @ ''device_id'' @ dq @ '':'' @ dq @ escapeJson (dr_device row) @ CHR 0x22 # rest \<and>
       json_string (escapeJson (dr_device row) @ CHR 0x22 # rest) = Some (dr_device row, rest)"
    unfolding json_escape by (simp add: row_json_def dq_def)
  show "1 \<le> clampReportN raw n" "clampReportN raw n \<le> 1000"
    by (auto simp: clampReportN_def kMaxReportN_def Let_def split: option.splits)
qed

end
