(* ===== verification/Gateway_Core.thy ===== *)
theory Gateway_Core
  imports Command_Tracker Command_Translator Task_Executor Http_Text Lts
begin

text \<open>
  \<^verbatim>\<open>gateway/app/GatewayCore.{h,cpp}\<close>: the owner of the application state. Network threads post events
  into its mailbox; one thread carries them out. Every MQTT command takes a credit when it is admitted and
  gives it back when its answer has been published.

  The lambdas the application passes in (submitting a command to the node's reactor, publishing, the
  database, the configuration) are arguments: their result of one call is a field of \<open>core_env\<close>, and
  the call itself is an event. Names stand for reply closures (\<open>'r\<close>) and database connections (\<open>'d\<close>).
  The counters are integers, so that giving back a credit that was never taken would show as a negative
  number.
\<close>

subsection \<open>State\<close>

definition kMaxCommands :: int where "kMaxCommands = 512"
definition kMaxQueries :: int where "kMaxQueries = 32"

datatype 'r core_task =
    HandleMqtt string string
  | HandleTelemetry Frame int
  | HandleHttp HttpRequest 'r
  | HandleFinished u64 command_completion
  | Reject u64 string
  | QueryDone "DataRow list" bool 'r
  | Barrier

datatype ('d, 'r) query_task = Query 'd string int 'r

record ('d, 'r) gateway_core =
  gc_admitted :: int
  gc_accepting :: bool
  gc_next_id :: u64
  gc_pending :: "u64 set"
  gc_queries :: int
  gc_core :: "'r core_task TaskExecutor"
  gc_queries_executor :: "('d, 'r) query_task TaskExecutor"
  gc_stopped :: bool

definition new_core :: "('d, 'r) gateway_core" where
  "new_core = \<lparr>gc_admitted = 0, gc_accepting = True, gc_next_id = 1, gc_pending = {}, gc_queries = 0,
     gc_core = new_executor 1024 (nat kMaxCommands + nat kMaxQueries + 8),
     gc_queries_executor = new_executor (nat kMaxQueries) 0, gc_stopped = False\<rparr>"

text \<open>The results of the application's lambdas during one task.\<close>

record 'd core_env =
  en_submit :: bool
  en_publish :: bool
  en_database :: "'d option"
  en_report_n :: int
  en_assets :: web_assets

datatype 'r core_event =
    Publish string string nat
  | CommandAnswer string string
  | SubmitCommand u64 DownCmd
  | StoreReadings "Reading list" int
  | ReplyHttp 'r HttpResponse

subsection \<open>Entry points of the network threads\<close>

definition releaseCommand :: "('d, 'r) gateway_core \<Rightarrow> ('d, 'r) gateway_core" where
  "releaseCommand s = s\<lparr>gc_admitted := gc_admitted s - 1\<rparr>"

definition post_core :: "'r core_task \<Rightarrow> bool \<Rightarrow> ('d, 'r) gateway_core \<Rightarrow> bool \<times> ('d, 'r) gateway_core" where
  "post_core t completion s = (case post t completion (gc_core s) of (ok, e) \<Rightarrow> (ok, s\<lparr>gc_core := e\<rparr>))"

text \<open>\<^verbatim>\<open>mqttMessage\<close> takes its credit in one atomic step and posts in another.\<close>

definition mqtt_admit :: "string \<Rightarrow> string \<Rightarrow> ('d, 'r) gateway_core \<Rightarrow> bool \<times> ('d, 'r) gateway_core" where
  "mqtt_admit topic payload s =
    (if \<not> gc_accepting s \<or> length topic > 256 \<or> length payload > 4096 then (False, s)
     else if gc_admitted s \<ge> kMaxCommands then (False, s)
     else (True, s\<lparr>gc_admitted := gc_admitted s + 1\<rparr>))"

definition mqtt_post :: "string \<Rightarrow> string \<Rightarrow> ('d, 'r) gateway_core \<Rightarrow> bool \<times> ('d, 'r) gateway_core" where
  "mqtt_post topic payload s =
    (case post_core (HandleMqtt topic payload) False s of
       (True, s) \<Rightarrow> (True, s)
     | (False, s) \<Rightarrow> (False, releaseCommand s))"

definition mqttMessage :: "string \<Rightarrow> string \<Rightarrow> ('d, 'r) gateway_core \<Rightarrow> bool \<times> ('d, 'r) gateway_core" where
  "mqttMessage topic payload s =
    (case mqtt_admit topic payload s of
       (False, s) \<Rightarrow> (False, s)
     | (True, s) \<Rightarrow> mqtt_post topic payload s)"

definition telemetry :: "Frame \<Rightarrow> int \<Rightarrow> ('d, 'r) gateway_core \<Rightarrow> bool \<times> ('d, 'r) gateway_core" where
  "telemetry frame received_at s =
    (if \<not> gc_accepting s then (False, s) else post_core (HandleTelemetry frame received_at) False s)"

definition httpRequest :: "HttpRequest \<Rightarrow> 'r \<Rightarrow> ('d, 'r) gateway_core \<Rightarrow> bool \<times> ('d, 'r) gateway_core" where
  "httpRequest request reply s =
    (if \<not> gc_accepting s then (False, s) else post_core (HandleHttp request reply) False s)"

definition commandFinished :: "u64 \<Rightarrow> command_completion \<Rightarrow> ('d, 'r) gateway_core \<Rightarrow> bool \<times> ('d, 'r) gateway_core" where
  "commandFinished ident result s = post_core (HandleFinished ident result) True s"

definition commandRejected :: "u64 \<Rightarrow> string \<Rightarrow> ('d, 'r) gateway_core \<Rightarrow> bool \<times> ('d, 'r) gateway_core" where
  "commandRejected ident error s = post_core (Reject ident error) True s"

subsection \<open>Handlers\<close>

text \<open>A publication that is accepted keeps the credit until it has been made; a refused one gives it back.\<close>

definition publishCommand ::
    "'d core_env \<Rightarrow> string \<Rightarrow> string \<Rightarrow> ('d, 'r) gateway_core \<Rightarrow> 'r core_event list \<times> ('d, 'r) gateway_core" where
  "publishCommand env topic payload s =
    ([CommandAnswer topic payload], if \<not> en_publish env then releaseCommand s else s)"

definition reject ::
    "'d core_env \<Rightarrow> u64 \<Rightarrow> string \<Rightarrow> ('d, 'r) gateway_core \<Rightarrow> 'r core_event list \<times> ('d, 'r) gateway_core" where
  "reject env ident error s =
    (if ident \<notin> gc_pending s then ([], s)
     else publishCommand env ''gateway/ack/rejected'' error (s\<lparr>gc_pending := gc_pending s - {ident}\<rparr>))"

definition handleMqtt ::
    "'d core_env \<Rightarrow> string \<Rightarrow> string \<Rightarrow> ('d, 'r) gateway_core \<Rightarrow> 'r core_event list \<times> ('d, 'r) gateway_core" where
  "handleMqtt env topic payload s =
    (let translated = translateCommand topic payload
     in if \<not> tr_ok translated then publishCommand env ''gateway/ack/rejected'' (tr_error translated) s
        else
          let ident = gc_next_id s;
              s = s\<lparr>gc_next_id := gc_next_id s + 1\<rparr>;
              s = s\<lparr>gc_pending := insert ident (gc_pending s)\<rparr>
          in case (if en_submit env then ([], s) else reject env ident ''gateway_busy'' s) of
               (evs, s) \<Rightarrow> (SubmitCommand ident (tr_cmd translated) # evs, s))"

definition handleTelemetry ::
    "Frame \<Rightarrow> int \<Rightarrow> ('d, 'r) gateway_core \<Rightarrow> 'r core_event list \<times> ('d, 'r) gateway_core" where
  "handleTelemetry frame received_at s =
    (let readings = decodeTelemetry frame
     in (map (\<lambda>r. Publish (''gateway/up/'' @ rd_device r) (formatValue (rd_value r)) 0) readings @
         [StoreReadings readings received_at], s))"

text \<open>The answer to a finished command: the last part of the topic and the text.\<close>

definition finished_answer :: "command_completion \<Rightarrow> string \<times> string" where
  "finished_answer result =
    (let seq = to_string (unat (cc_seq result)); bytes = cc_result result
     in if cc_error result \<noteq> [] then (''gateway/ack/'' @ seq, cc_error result)
        else if bytes = [] then (''gateway/ack/'' @ seq, ''invalid_result'')
        else if bytes ! 0 \<noteq> EDGE_RC_OK then (''gateway/ack/'' @ seq, ''err,'' @ to_string (unat (bytes ! 0)))
        else if cc_type result = EDGE_TYPE_QUERY_TH \<and> length bytes = 5 then
          (let t = Finite (u16_value (edge_u16_be_read bytes 1) / EDGE_TEMP_SCALE);
               h = Finite (u16_value (edge_u16_be_read bytes 3) / EDGE_HUMI_SCALE)
           in (''gateway/resp/'' @ seq, ''ok,'' @ formatValue t @ '','' @ formatValue h))
        else if cc_type result = EDGE_TYPE_QUERY_LIGHT \<and> length bytes = 3 then
          (''gateway/resp/'' @ seq, ''ok,'' @ to_string (unat (edge_u16_be_read bytes 1)))
        else if cc_type result = EDGE_TYPE_SET_PERIOD \<and> length bytes = 1 then (''gateway/ack/'' @ seq, ''ok'')
        else (''gateway/ack/'' @ seq, ''invalid_result''))"

definition handleFinished ::
    "'d core_env \<Rightarrow> u64 \<Rightarrow> command_completion \<Rightarrow> ('d, 'r) gateway_core \<Rightarrow> 'r core_event list \<times> ('d, 'r) gateway_core" where
  "handleFinished env ident result s =
    (if ident \<notin> gc_pending s then ([], s)
     else case finished_answer result of
            (topic, payload) \<Rightarrow> publishCommand env topic payload (s\<lparr>gc_pending := gc_pending s - {ident}\<rparr>))"

text \<open>The query string: parts between ampersands, a part with an equals sign is a parameter.\<close>

function parse_params :: "string \<Rightarrow> (string \<rightharpoonup> string) \<Rightarrow> (string \<rightharpoonup> string) option" where
  "parse_params s params =
    (if s = [] then Some params
     else
       let part = takeWhile (\<lambda>c. c \<noteq> CHR ''&'') s;
           rest = drop (length part + 1) s
       in case find_char (CHR ''='') part 0 of
            None \<Rightarrow> parse_params rest params
          | Some eq \<Rightarrow>
              (case (decodeUrl (take eq part), decodeUrl (drop (eq + 1) part)) of
                 (Some key, Some val) \<Rightarrow> parse_params rest (params(key \<mapsto> val))
               | _ \<Rightarrow> None))"
  by pat_completeness auto
termination
  by (relation "measure (\<lambda>(s, params). length s)") auto

declare parse_params.simps [simp del]

definition param :: "(string \<rightharpoonup> string) \<Rightarrow> string \<Rightarrow> string" where
  "param params key = (case params key of None \<Rightarrow> [] | Some v \<Rightarrow> v)"

text \<open>The query itself: one of \<^verbatim>\<open>kMaxQueries\<close> places, the database of the moment, the second executor.\<close>

definition submit_query ::
    "'d core_env \<Rightarrow> string \<Rightarrow> int \<Rightarrow> 'r \<Rightarrow> ('d, 'r) gateway_core \<Rightarrow> 'r core_event list \<times> ('d, 'r) gateway_core" where
  "submit_query env device n reply s =
    (if gc_queries s \<ge> kMaxQueries then ([ReplyHttp reply (json_error 503 ''query queue full'')], s)
     else case en_database env of
            None \<Rightarrow> ([ReplyHttp reply (json_error 503 ''database unavailable'')], s)
          | Some db \<Rightarrow>
              let s = s\<lparr>gc_queries := gc_queries s + 1\<rparr>
              in case post (Query db device n reply) False (gc_queries_executor s) of
                   (True, e) \<Rightarrow> ([], s\<lparr>gc_queries_executor := e\<rparr>)
                 | (False, e) \<Rightarrow>
                     ([ReplyHttp reply (json_error 503 ''query queue full'')],
                      s\<lparr>gc_queries_executor := e, gc_queries := gc_queries s - 1\<rparr>))"

definition handleHttp ::
    "'d core_env \<Rightarrow> HttpRequest \<Rightarrow> 'r \<Rightarrow> ('d, 'r) gateway_core \<Rightarrow> 'r core_event list \<times> ('d, 'r) gateway_core" where
  "handleHttp env request reply s =
    (if hq_method request \<noteq> ''GET'' \<and> hq_method request \<noteq> ''HEAD'' then
       ([ReplyHttp reply (json_error 405 ''method not allowed'')], s)
     else
       let qmark = find_char (CHR ''?'') (hq_target request) 0;
           path = (case qmark of None \<Rightarrow> hq_target request | Some i \<Rightarrow> take i (hq_target request))
       in case staticHttpResponse (en_assets env) path of
            Some response \<Rightarrow> ([ReplyHttp reply response], s)
          | None \<Rightarrow>
              if path \<noteq> ''/api/data'' then ([ReplyHttp reply (json_error 404 ''not found'')], s)
              else
                (case (case qmark of None \<Rightarrow> Some Map.empty
                       | Some i \<Rightarrow> parse_params (drop (i + 1) (hq_target request)) Map.empty) of
                   None \<Rightarrow> ([ReplyHttp reply (json_error 400 ''invalid query encoding'')], s)
                 | Some params \<Rightarrow>
                     let device = param params ''dev''
                     in if device = [] then ([ReplyHttp reply (json_error 400 ''missing dev param'')], s)
                        else
                          let n = clampReportN (param params ''n'') (en_report_n env)
                          in submit_query env device n reply s))"

definition handleQueryDone ::
    "DataRow list \<Rightarrow> bool \<Rightarrow> 'r \<Rightarrow> ('d, 'r) gateway_core \<Rightarrow> 'r core_event list \<times> ('d, 'r) gateway_core" where
  "handleQueryDone rows ok reply s =
    ([ReplyHttp reply (if ok then json 200 (rowsToJson rows) else json_error 500 ''query failed'')],
     s\<lparr>gc_queries := gc_queries s - 1\<rparr>)"

subsection \<open>The two workers\<close>

definition run_task ::
    "'d core_env \<Rightarrow> 'r core_task \<Rightarrow> ('d, 'r) gateway_core \<Rightarrow> 'r core_event list \<times> ('d, 'r) gateway_core" where
  "run_task env t s =
    (case t of
       HandleMqtt topic payload \<Rightarrow> handleMqtt env topic payload s
     | HandleTelemetry frame received_at \<Rightarrow> handleTelemetry frame received_at s
     | HandleHttp request reply \<Rightarrow> handleHttp env request reply s
     | HandleFinished ident result \<Rightarrow> handleFinished env ident result s
     | Reject ident error \<Rightarrow> reject env ident error s
     | QueryDone rows ok reply \<Rightarrow> handleQueryDone rows ok reply s
     | Barrier \<Rightarrow> ([], s))"

definition core_turn :: "'d core_env \<Rightarrow> ('d, 'r) gateway_core \<Rightarrow> ('r core_event list \<times> ('d, 'r) gateway_core) option" where
  "core_turn env s =
    (case take_task (gc_core s) of
       Some (Some t, e) \<Rightarrow> Some (run_task env t (s\<lparr>gc_core := e\<rparr>))
     | _ \<Rightarrow> None)"

text \<open>A query is answered by \<open>answer\<close>: the rows, or \<open>None\<close> if the database threw.\<close>

definition query_turn ::
    "('d \<Rightarrow> string \<Rightarrow> int \<Rightarrow> DataRow list option) \<Rightarrow> ('d, 'r) gateway_core \<Rightarrow> (bool \<times> ('d, 'r) gateway_core) option" where
  "query_turn answer s =
    (case take_task (gc_queries_executor s) of
       Some (Some (Query db device n reply), e) \<Rightarrow>
         let rows = answer db device n;
             done_task = (case rows of None \<Rightarrow> QueryDone [] False reply | Some rs \<Rightarrow> QueryDone rs True reply)
         in Some (post_core done_task True (s\<lparr>gc_queries_executor := e\<rparr>))
     | _ \<Rightarrow> None)"

text \<open>\<^verbatim>\<open>stop\<close>, in the order of the code: refuse new work and post the barrier, stop the queries, stop the core.\<close>

definition stop_begin :: "('d, 'r) gateway_core \<Rightarrow> ('d, 'r) gateway_core" where
  "stop_begin s =
    (if gc_stopped s then s
     else snd (post_core Barrier True (s\<lparr>gc_stopped := True, gc_accepting := False\<rparr>)))"

definition stop_queries :: "('d, 'r) gateway_core \<Rightarrow> ('d, 'r) gateway_core" where
  "stop_queries s = s\<lparr>gc_queries_executor := close_executor (gc_queries_executor s)\<rparr>"

definition stop_core :: "('d, 'r) gateway_core \<Rightarrow> ('d, 'r) gateway_core" where
  "stop_core s = s\<lparr>gc_core := close_executor (gc_core s)\<rparr>"

subsection \<open>The core among the other threads\<close>

text \<open>
  The system around the core: messages whose credit is taken and that are about to be posted, publications
  accepted and not yet made, and the commands the reactor has accepted and not yet finished. The reactor
  reports the end of each of its commands once. The step relation lets all threads act in any order. Fewer
  than \<open>2 ^ 64 - 1\<close> commands are numbered, so identifiers are not reused.
\<close>

record ('d, 'r) core_system =
  sy_core :: "('d, 'r) gateway_core"
  sy_admitting :: "(string \<times> string) list"
  sy_publications :: nat
  sy_reactor :: "u64 set"

datatype sys_event = MessageAdmitted | PostRefused | Answered

definition start_system :: "('d, 'r) core_system" where
  "start_system = \<lparr>sy_core = new_core, sy_admitting = [], sy_publications = 0, sy_reactor = {}\<rparr>"

definition answers :: "'r core_event list \<Rightarrow> nat" where
  "answers evs = length (filter (\<lambda>e. case e of CommandAnswer t p \<Rightarrow> True | _ \<Rightarrow> False) evs)"

definition submitted_ids :: "'r core_event list \<Rightarrow> u64 set" where
  "submitted_ids evs = {i. \<exists>c. SubmitCommand i c \<in> set evs}"

inductive core_step :: "('d, 'r) core_system \<Rightarrow> sys_event list \<Rightarrow> ('d, 'r) core_system \<Rightarrow> bool" where
  admit: "mqtt_admit topic payload (sy_core y) = (True, s) \<Longrightarrow>
    core_step y [MessageAdmitted] (y\<lparr>sy_core := s, sy_admitting := sy_admitting y @ [(topic, payload)]\<rparr>)"
| post_message: "sy_admitting y = xs @ (topic, payload) # ys \<Longrightarrow> mqtt_post topic payload (sy_core y) = (ok, s) \<Longrightarrow>
    core_step y (if ok then [] else [PostRefused]) (y\<lparr>sy_core := s, sy_admitting := xs @ ys\<rparr>)"
| post_telemetry: "core_step y [] (y\<lparr>sy_core := snd (telemetry frame received_at (sy_core y))\<rparr>)"
| post_http: "core_step y [] (y\<lparr>sy_core := snd (httpRequest request reply (sy_core y))\<rparr>)"
| core_runs: "core_turn env (sy_core y) = Some (evs, s) \<Longrightarrow> gc_next_id (sy_core y) \<noteq> - 1 \<Longrightarrow>
    core_step y (replicate (answers evs) Answered)
      (y\<lparr>sy_core := s, sy_publications := sy_publications y + (if en_publish env then answers evs else 0),
         sy_reactor := sy_reactor y \<union> (if en_submit env then submitted_ids evs else {})\<rparr>)"
| reactor_finishes: "ident \<in> sy_reactor y \<Longrightarrow>
    core_step y [] (y\<lparr>sy_core := snd (commandFinished ident result (sy_core y)), sy_reactor := sy_reactor y - {ident}\<rparr>)"
| reactor_rejects: "ident \<in> sy_reactor y \<Longrightarrow>
    core_step y [] (y\<lparr>sy_core := snd (commandRejected ident error (sy_core y)), sy_reactor := sy_reactor y - {ident}\<rparr>)"
| published: "sy_publications y = Suc k \<Longrightarrow>
    core_step y [] (y\<lparr>sy_core := releaseCommand (sy_core y), sy_publications := k\<rparr>)"
| query_runs: "query_turn answer (sy_core y) = Some (ok, s) \<Longrightarrow> core_step y [] (y\<lparr>sy_core := s\<rparr>)"
| stop1: "core_step y [] (y\<lparr>sy_core := stop_begin (sy_core y)\<rparr>)"
| stop2: "core_step y [] (y\<lparr>sy_core := stop_queries (sy_core y)\<rparr>)"
| stop3: "core_step y [] (y\<lparr>sy_core := stop_core (sy_core y)\<rparr>)"

subsection \<open>The invariant\<close>

text \<open>The tasks in the mailbox by what they stand for.\<close>

definition is_mqtt :: "'r core_task \<Rightarrow> bool" where
  "is_mqtt t \<longleftrightarrow> (case t of HandleMqtt _ _ \<Rightarrow> True | _ \<Rightarrow> False)"

definition is_ordinary :: "'r core_task \<Rightarrow> bool" where
  "is_ordinary t \<longleftrightarrow> (case t of HandleMqtt _ _ \<Rightarrow> True | HandleTelemetry _ _ \<Rightarrow> True | HandleHttp _ _ \<Rightarrow> True | _ \<Rightarrow> False)"

definition finished_id :: "'r core_task \<Rightarrow> u64 option" where
  "finished_id t = (case t of HandleFinished i _ \<Rightarrow> Some i | Reject i _ \<Rightarrow> Some i | _ \<Rightarrow> None)"

definition is_query_done :: "'r core_task \<Rightarrow> bool" where
  "is_query_done t \<longleftrightarrow> (case t of QueryDone _ _ _ \<Rightarrow> True | _ \<Rightarrow> False)"

definition is_barrier :: "'r core_task \<Rightarrow> bool" where
  "is_barrier t \<longleftrightarrow> t = Barrier"

lemmas task_kinds = is_mqtt_def is_ordinary_def finished_id_def is_query_done_def is_barrier_def

definition count :: "('a \<Rightarrow> bool) \<Rightarrow> 'a list \<Rightarrow> nat" where
  "count P xs = length (filter P xs)"

definition finished_ids :: "'r core_task list \<Rightarrow> u64 list" where
  "finished_ids ts = List.map_filter finished_id ts"

lemma count_simps [simp]:
  "count P [] = 0" "count P (x # xs) = (if P x then 1 else 0) + count P xs" "count P (xs @ ys) = count P xs + count P ys"
  by (simp_all add: count_def)

lemma finished_ids_simps [simp]:
  "finished_ids [] = []" "finished_ids (t # ts) = (case finished_id t of None \<Rightarrow> finished_ids ts | Some i \<Rightarrow> i # finished_ids ts)"
  "finished_ids (ts @ ts') = finished_ids ts @ finished_ids ts'"
  by (simp_all add: finished_ids_def List.map_filter_def split: option.split)

lemma mailbox_size:
  "length ts = count is_ordinary ts + length (finished_ids ts) + count is_query_done ts + count is_barrier ts"
  by (induction ts) (auto simp: task_kinds split: core_task.splits)

definition mailbox_ok :: "('d, 'r) gateway_core \<Rightarrow> bool" where
  "mailbox_ok s \<longleftrightarrow>
    te_capacity (gc_core s) = 1024 \<and> te_reserve (gc_core s) = 552 \<and>
    te_capacity (gc_queries_executor s) = 32 \<and> te_reserve (gc_queries_executor s) = 0 \<and>
    count is_ordinary (te_tasks (gc_core s)) \<le> 1024 \<and>
    count is_barrier (te_tasks (gc_core s)) \<le> (if gc_stopped s then 1 else 0) \<and>
    int (length (te_tasks (gc_queries_executor s)) + count is_query_done (te_tasks (gc_core s))) \<le> gc_queries s \<and>
    gc_queries s \<le> 32"

definition ids_ok :: "('d, 'r) core_system \<Rightarrow> bool" where
  "ids_ok y \<longleftrightarrow> (let s = sy_core y; ids = finished_ids (te_tasks (gc_core s)) in
    finite (gc_pending s) \<and> distinct ids \<and> set ids \<subseteq> gc_pending s \<and> sy_reactor y \<subseteq> gc_pending s \<and>
    set ids \<inter> sy_reactor y = {} \<and> (\<forall>i\<in>gc_pending s. i < gc_next_id s))"

definition in_progress :: "('d, 'r) core_system \<Rightarrow> nat" where
  "in_progress y = length (sy_admitting y) + count is_mqtt (te_tasks (gc_core (sy_core y))) + card (gc_pending (sy_core y))"

definition credits_ok :: "('d, 'r) core_system \<Rightarrow> bool" where
  "credits_ok y \<longleftrightarrow> gc_admitted (sy_core y) = int (in_progress y + sy_publications y) \<and> gc_admitted (sy_core y) \<le> 512"

definition system_ok :: "('d, 'r) core_system \<Rightarrow> bool" where
  "system_ok y \<longleftrightarrow> mailbox_ok (sy_core y) \<and> ids_ok y \<and> credits_ok y"

text \<open>Posting: the mailbox grows by the task, or the post is refused and nothing changes.\<close>

lemma post_core_eq:
  "post_core t c s = (if fst (post_core t c s) then (True, s\<lparr>gc_core := (gc_core s)\<lparr>te_tasks := te_tasks (gc_core s) @ [t]\<rparr>\<rparr>)
     else (False, s))"
  by (auto simp: post_core_def post_def Let_def)

lemma post_core_room:
  "fst (post_core t c s) \<longleftrightarrow> \<not> te_closed (gc_core s) \<and>
     length (te_tasks (gc_core s)) < te_capacity (gc_core s) + (if c then te_reserve (gc_core s) else 0)"
  by (simp add: post_core_def post_accepted case_prod_beta)

text \<open>The mailbox keeps its bounds when a task of each kind is posted.\<close>

lemma mailbox_post_ordinary:
  assumes "mailbox_ok s" and "is_ordinary t"
  shows "mailbox_ok (snd (post_core t False s))"
proof (cases "fst (post_core t False s)")
  case True
  then have "count is_ordinary (te_tasks (gc_core s)) < 1024"
    using assms(1) mailbox_size [of "te_tasks (gc_core s)"] by (simp add: post_core_room mailbox_ok_def)
  moreover have "\<not> is_query_done t" "\<not> is_barrier t" using assms(2) by (auto simp: task_kinds split: core_task.splits)
  ultimately show ?thesis
    using assms by (subst post_core_eq) (simp add: True mailbox_ok_def)
qed (use assms in \<open>subst post_core_eq, simp\<close>)

lemma mailbox_post_finished:
  assumes "mailbox_ok s" and "finished_id t = Some i"
  shows "mailbox_ok (snd (post_core t True s))"
proof -
  have "\<not> is_ordinary t" "\<not> is_query_done t" "\<not> is_barrier t" using assms(2) by (auto simp: task_kinds split: core_task.splits)
  with assms(1) show ?thesis by (subst post_core_eq) (simp add: mailbox_ok_def)
qed

lemma kinds_of_task:
  "is_ordinary t \<Longrightarrow> finished_id t = None" "finished_id t = Some i \<Longrightarrow> \<not> is_mqtt t"
  by (auto simp: task_kinds split: core_task.splits)

lemma gc_post_simps [simp]:
  "gc_admitted (snd (post_core t c s)) = gc_admitted s" "gc_pending (snd (post_core t c s)) = gc_pending s"
  "gc_next_id (snd (post_core t c s)) = gc_next_id s" "gc_queries (snd (post_core t c s)) = gc_queries s"
  "gc_stopped (snd (post_core t c s)) = gc_stopped s" "gc_accepting (snd (post_core t c s)) = gc_accepting s"
  "gc_queries_executor (snd (post_core t c s)) = gc_queries_executor s"
  "te_closed (gc_core (snd (post_core t c s))) = te_closed (gc_core s)"
  "te_tasks (gc_core (snd (post_core t c s))) = te_tasks (gc_core s) @ (if fst (post_core t c s) then [t] else [])"
  by (subst post_core_eq, simp)+

end
