(* ===== verification/Core_Credits.thy ===== *)
theory Core_Credits
  imports Gateway_Core
begin

text \<open>
  The admission credits of \<^verbatim>\<open>GatewayCore\<close>: the invariant \<open>system_ok\<close> of the core among the other threads is
  kept by every step, and from it follow the balance of credits and answers and the room for completions.
\<close>

lemma less_succ: "k \<noteq> - 1 \<Longrightarrow> k < k + 1" for k :: "'a::len word"
  by (metis add_eq_0_iff2 add.commute lessI unatSuc word_less_nat_alt)

text \<open>What a task of the core's thread changes.\<close>

abbreviation after_run :: "'d core_env \<Rightarrow> 'r core_event list \<Rightarrow> ('d, 'r) gateway_core \<Rightarrow> ('d, 'r) core_system \<Rightarrow> ('d, 'r) core_system" where
  "after_run env evs s y \<equiv>
    y\<lparr>sy_core := s, sy_publications := sy_publications y + (if en_publish env then answers evs else 0),
       sy_reactor := sy_reactor y \<union> (if en_submit env then submitted_ids evs else {})\<rparr>"

abbreviation taken :: "('d, 'r) gateway_core \<Rightarrow> 'r core_task list \<Rightarrow> ('d, 'r) gateway_core" where
  "taken s ts \<equiv> s\<lparr>gc_core := (gc_core s)\<lparr>te_tasks := ts\<rparr>\<rparr>"

lemma core_turnE:
  assumes "core_turn env s = Some (evs, s')"
  obtains t ts where "te_tasks (gc_core s) = t # ts" and "run_task env t (taken s ts) = (evs, s')"
  using assms by (auto simp: core_turn_def take_task_def split: if_splits list.splits)

lemma event_counts [simp]:
  "answers [] = 0" "answers (CommandAnswer t p # evs) = Suc (answers evs)" "answers (SubmitCommand i c # evs) = answers evs"
  "answers (Publish t p q # evs) = answers evs" "answers (StoreReadings rs n # evs) = answers evs"
  "answers (ReplyHttp r h # evs) = answers evs" "answers (evs @ evs') = answers evs + answers evs'"
  "submitted_ids [] = {}" "submitted_ids (CommandAnswer t p # evs) = submitted_ids evs"
  "submitted_ids (SubmitCommand i c # evs) = insert i (submitted_ids evs)"
  "submitted_ids (Publish t p q # evs) = submitted_ids evs" "submitted_ids (StoreReadings rs n # evs) = submitted_ids evs"
  "submitted_ids (ReplyHttp r h # evs) = submitted_ids evs" "submitted_ids (evs @ evs') = submitted_ids evs \<union> submitted_ids evs'"
  by (auto simp: answers_def submitted_ids_def)

lemma publications_count [simp]:
  "answers (map (\<lambda>r. Publish (f r) (g r) 0) rs) = 0" "submitted_ids (map (\<lambda>r. Publish (f r) (g r) 0) rs) = {}"
  by (induction rs) simp_all

text \<open>One task keeps the invariant and balances the credits with the answers.\<close>

definition balanced :: "('d, 'r) core_system \<Rightarrow> nat \<Rightarrow> ('d, 'r) core_system \<Rightarrow> bool" where
  "balanced y n y' \<longleftrightarrow> system_ok y' \<and> in_progress y' + n = in_progress y"

lemmas ok_defs = system_ok_def mailbox_ok_def ids_ok_def credits_ok_def in_progress_def Let_def

lemma answer_balanced:
  assumes "system_ok y" and "te_tasks (gc_core (sy_core y)) = t # ts"
    and "finished_id t = Some i \<and> pend = gc_pending (sy_core y) - {i} \<or> is_mqtt t \<and> pend = gc_pending (sy_core y)"
    and "gc_next_id (sy_core y) \<le> k"
    and "publishCommand env topic payload ((taken (sy_core y) ts)\<lparr>gc_pending := pend, gc_next_id := k\<rparr>) = (evs, s)"
  shows "balanced y 1 (y\<lparr>sy_core := s, sy_publications := sy_publications y + (if en_publish env then 1 else 0)\<rparr>)"
    and "answers evs = 1" and "submitted_ids evs = {}"
proof -
  let ?s = "sy_core y"
  let ?s' = "(taken ?s ts)\<lparr>gc_pending := pend, gc_next_id := k\<rparr>"
  from assms(1) have inv: "mailbox_ok ?s" "ids_ok y" "credits_ok y" by (simp_all add: system_ok_def)
  have fid: "(finished_id t = Some i \<and> pend = gc_pending ?s - {i}) \<or> (finished_id t = None \<and> is_mqtt t \<and> pend = gc_pending ?s)"
    using assms(3) by (auto simp: task_kinds split: core_task.splits)
  have kinds: "\<not> is_query_done t" "\<not> is_barrier t"
    using assms(3) by (auto simp: task_kinds split: core_task.splits)
  have mb: "mailbox_ok ?s'" using inv(1) kinds assms(2) by (simp add: mailbox_ok_def)
  have lt: "\<forall>j\<in>gc_pending ?s. j < k"
  proof
    fix j assume "j \<in> gc_pending ?s"
    with inv(2) have "j < gc_next_id ?s" by (simp add: ids_ok_def Let_def)
    with assms(4) show "j < k" by simp
  qed
  have ids: "ids_ok (y\<lparr>sy_core := ?s'\<rparr>)"
    using fid inv(2) assms(2) lt by (auto simp add: ids_ok_def Let_def)
  have "finite (gc_pending ?s)" using inv(2) by (simp add: ids_ok_def Let_def)
  moreover have "finished_id t = Some i \<Longrightarrow> i \<in> gc_pending ?s" using inv(2) assms(2) by (simp add: ids_ok_def Let_def)
  ultimately have progress: "count is_mqtt ts + card pend + 1 = count is_mqtt (t # ts) + card (gc_pending ?s)"
    using fid kinds_of_task(2) [of t i] card_Suc_Diff1 [of "gc_pending ?s" i] by auto
  have s: "s = ?s'\<lparr>gc_admitted := gc_admitted ?s - (if en_publish env then 0 else 1)\<rparr>" and evs: "evs = [CommandAnswer topic payload]"
    using assms(5) by (auto simp: publishCommand_def releaseCommand_def)
  from inv(3) progress assms(2) have cr: "credits_ok (y\<lparr>sy_core := s, sy_publications := sy_publications y + (if en_publish env then 1 else 0)\<rparr>)"
    by (auto simp: s credits_ok_def in_progress_def)
  from mb have "mailbox_ok s" by (simp add: s mailbox_ok_def)
  moreover from ids have "ids_ok (y\<lparr>sy_core := s, sy_publications := sy_publications y + (if en_publish env then 1 else 0)\<rparr>)"
    by (simp add: s ids_ok_def Let_def)
  ultimately show "balanced y 1 (y\<lparr>sy_core := s, sy_publications := sy_publications y + (if en_publish env then 1 else 0)\<rparr>)"
    using cr progress assms(2) by (simp add: balanced_def system_ok_def) (simp add: in_progress_def s)
  from evs show "answers evs = 1" "submitted_ids evs = {}" by simp_all
qed


lemma submit_balanced:
  assumes "system_ok y" and "te_tasks (gc_core (sy_core y)) = t # ts" and "is_mqtt t" and "gc_next_id (sy_core y) \<noteq> - 1"
  shows "balanced y 0 (y\<lparr>sy_core := (taken (sy_core y) ts)\<lparr>gc_next_id := gc_next_id (sy_core y) + 1,
      gc_pending := insert (gc_next_id (sy_core y)) (gc_pending (sy_core y))\<rparr>,
      sy_reactor := insert (gc_next_id (sy_core y)) (sy_reactor y)\<rparr>)"
proof -
  let ?s = "sy_core y" and ?k = "gc_next_id (sy_core y)"
  have lt: "?k < ?k + 1" using assms(4) by (rule less_succ)
  have kinds: "\<not> is_query_done t" "\<not> is_barrier t" "finished_id t = None" "is_ordinary t"
    using assms(3) by (auto simp: task_kinds split: core_task.splits)
  from assms(1) have inv: "mailbox_ok ?s" "ids_ok y" "credits_ok y" by (simp_all add: system_ok_def)
  have fresh: "?k \<notin> gc_pending ?s" using inv(2) by (auto simp: ids_ok_def Let_def)
  have less: "\<forall>i\<in>gc_pending ?s. i < ?k + 1"
  proof
    fix i assume "i \<in> gc_pending ?s"
    with inv(2) have "i < ?k" by (simp add: ids_ok_def Let_def)
    from this lt show "i < ?k + 1" by (rule less_trans)
  qed
  have fin: "finite (gc_pending ?s)" using inv(2) by (simp add: ids_ok_def Let_def)
  show ?thesis
    unfolding balanced_def system_ok_def
  proof (intro conjI)
    show "mailbox_ok (sy_core (y\<lparr>sy_core := (taken ?s ts)\<lparr>gc_next_id := ?k + 1, gc_pending := insert ?k (gc_pending ?s)\<rparr>,
        sy_reactor := insert ?k (sy_reactor y)\<rparr>))"
      using inv(1) assms(2) kinds by (simp add: mailbox_ok_def)
    show "ids_ok (y\<lparr>sy_core := (taken ?s ts)\<lparr>gc_next_id := ?k + 1, gc_pending := insert ?k (gc_pending ?s)\<rparr>,
        sy_reactor := insert ?k (sy_reactor y)\<rparr>)"
      using inv(2) assms(2) kinds fresh less lt by (auto simp: ids_ok_def Let_def)
  qed (use inv(3) assms(2,3) fresh fin in \<open>auto simp: credits_ok_def in_progress_def\<close>)
qed

text \<open>Tasks that concern no command.\<close>

lemma other_balanced:
  assumes "system_ok y" and "te_tasks (gc_core (sy_core y)) = t # ts" and "\<not> is_mqtt t" and "finished_id t = None"
    and "mailbox_ok s" and "te_tasks (gc_core s) = ts" and "gc_pending s = gc_pending (sy_core y)"
    and "gc_next_id s = gc_next_id (sy_core y)" and "gc_admitted s = gc_admitted (sy_core y)"
  shows "balanced y 0 (y\<lparr>sy_core := s\<rparr>)"
  using assms by (simp add: balanced_def system_ok_def ids_ok_def credits_ok_def in_progress_def Let_def)

lemma submit_query_keeps:
  assumes "submit_query env device n reply s = (evs, s')" and "mailbox_ok s"
  shows "mailbox_ok s' \<and> gc_core s' = gc_core s \<and> gc_pending s' = gc_pending s \<and> gc_next_id s' = gc_next_id s \<and>
    gc_admitted s' = gc_admitted s \<and> answers evs = 0 \<and> submitted_ids evs = {}"
  using assms by (auto simp: submit_query_def post_def Let_def mailbox_ok_def kMaxQueries_def split: if_splits option.splits)

lemma handleHttp_cases:
  obtains (replied) response where "handleHttp env request reply s = ([ReplyHttp reply response], s)"
  | (query) device n where "handleHttp env request reply s = submit_query env device n reply s"
  unfolding handleHttp_def Let_def
  by (cases "hq_method request \<noteq> ''GET'' \<and> hq_method request \<noteq> ''HEAD''") (fastforce split: option.splits if_splits)+

lemma handleHttp_keeps:
  assumes "handleHttp env request reply s = (evs, s')" and "mailbox_ok s"
  shows "mailbox_ok s' \<and> gc_core s' = gc_core s \<and> gc_pending s' = gc_pending s \<and> gc_next_id s' = gc_next_id s \<and>
    gc_admitted s' = gc_admitted s \<and> answers evs = 0 \<and> submitted_ids evs = {}"
proof (cases rule: handleHttp_cases [of env request reply s])
  case (query device n)
  with assms show ?thesis by (intro submit_query_keeps) simp_all
qed (use assms in auto)

lemma run_task_balanced:
  assumes "system_ok y" and "te_tasks (gc_core (sy_core y)) = t # ts" and "gc_next_id (sy_core y) \<noteq> - 1"
    and "run_task env t (taken (sy_core y) ts) = (evs, s)"
  shows "balanced y (answers evs) (after_run env evs s y)"
proof -
  let ?s = "sy_core y"
  note ok = assms(1) and mail = assms(2)
  have inv: "mailbox_ok ?s" "ids_ok y" using assms(1) by (simp_all add: system_ok_def)
  have next_le: "gc_next_id ?s \<le> gc_next_id ?s + 1" using less_succ [OF assms(3)] by simp
  show ?thesis
  proof (cases t)
    case (HandleMqtt topic payload)
    have mq: "is_mqtt t" by (simp add: HandleMqtt is_mqtt_def)
    show ?thesis
    proof (cases "tr_ok (translateCommand topic payload)")
      case False
      with assms(4) HandleMqtt have
        "publishCommand env ''gateway/ack/rejected'' (tr_error (translateCommand topic payload))
          ((taken ?s ts)\<lparr>gc_pending := gc_pending ?s, gc_next_id := gc_next_id ?s\<rparr>) = (evs, s)"
        by (simp add: run_task_def handleMqtt_def Let_def)
      from answer_balanced [OF ok mail disjI2 order_refl this] mq show ?thesis by (cases "en_publish env") simp_all
    next
      case True
      show ?thesis
      proof (cases "en_submit env")
        case True
        with \<open>tr_ok _\<close> submit_balanced [OF ok mail mq assms(3)] assms(4) HandleMqtt show ?thesis
          by (auto simp: run_task_def handleMqtt_def Let_def)
      next
        case False
        let ?c = "SubmitCommand (gc_next_id ?s) (tr_cmd (translateCommand topic payload))"
        have "gc_next_id ?s \<notin> gc_pending ?s" using inv(2) by (auto simp: ids_ok_def Let_def)
        then have "insert (gc_next_id ?s) (gc_pending ?s) - {gc_next_id ?s} = gc_pending ?s" by blast
        with False \<open>tr_ok _\<close> assms(4) HandleMqtt obtain evs' where
          "publishCommand env ''gateway/ack/rejected'' ''gateway_busy''
            ((taken ?s ts)\<lparr>gc_pending := gc_pending ?s, gc_next_id := gc_next_id ?s + 1\<rparr>) = (evs', s)" and "evs = ?c # evs'"
          by (auto simp: run_task_def handleMqtt_def Let_def reject_def split: prod.splits)
        with answer_balanced [OF ok mail disjI2 next_le this(1)] mq False show ?thesis by (cases "en_publish env") simp_all
      qed
    qed
  next
    case (HandleFinished i result)
    then have fid: "finished_id t = Some i" by (simp add: finished_id_def)
    with inv(2) mail have "i \<in> gc_pending ?s" by (simp add: ids_ok_def Let_def)
    with assms(4) HandleFinished have
      "publishCommand env (fst (finished_answer result)) (snd (finished_answer result))
          ((taken ?s ts)\<lparr>gc_pending := gc_pending ?s - {i}, gc_next_id := gc_next_id ?s\<rparr>) = (evs, s)"
      by (simp add: run_task_def handleFinished_def split: prod.splits)
    from answer_balanced [OF ok mail disjI1 order_refl this] fid show ?thesis by (cases "en_publish env") simp_all
  next
    case (Reject i error)
    then have fid: "finished_id t = Some i" by (simp add: finished_id_def)
    with inv(2) mail have "i \<in> gc_pending ?s" by (simp add: ids_ok_def Let_def)
    with assms(4) Reject have
      "publishCommand env ''gateway/ack/rejected'' error
          ((taken ?s ts)\<lparr>gc_pending := gc_pending ?s - {i}, gc_next_id := gc_next_id ?s\<rparr>) = (evs, s)"
      by (simp add: run_task_def reject_def)
    from answer_balanced [OF ok mail disjI1 order_refl this] fid show ?thesis by (cases "en_publish env") simp_all
  next
    case (HandleHttp request reply)
    have "mailbox_ok (taken ?s ts)" using inv(1) mail by (simp add: mailbox_ok_def split: if_splits)
    moreover from assms(4) HandleHttp have "handleHttp env request reply (taken ?s ts) = (evs, s)" by (simp add: run_task_def)
    ultimately have "mailbox_ok s \<and> gc_core s = gc_core (taken ?s ts) \<and> gc_pending s = gc_pending (taken ?s ts) \<and>
      gc_next_id s = gc_next_id (taken ?s ts) \<and> gc_admitted s = gc_admitted (taken ?s ts) \<and> answers evs = 0 \<and> submitted_ids evs = {}"
      by (intro handleHttp_keeps)
    with other_balanced [OF ok mail, of s] HandleHttp show ?thesis by (simp add: task_kinds)
  qed (use assms(4) inv(1) mail other_balanced [OF ok mail, of s] in
      \<open>auto simp: run_task_def handleTelemetry_def handleQueryDone_def Let_def task_kinds mailbox_ok_def split: if_splits\<close>)
qed


subsection \<open>Every step\<close>

lemma start_system_ok: "system_ok start_system" "in_progress start_system = 0"
  by (simp_all add: ok_defs start_system_def new_core_def new_executor_def kMaxCommands_def kMaxQueries_def)

text \<open>A step that only adds an ordinary task of no command, or a completion of a command the reactor held.\<close>

lemma post_plain_ok:
  assumes "system_ok y" and "is_ordinary t" and "\<not> is_mqtt t"
  shows "balanced y 0 (y\<lparr>sy_core := snd (post_core t False (sy_core y))\<rparr>)"
  using assms kinds_of_task(1) [OF assms(2)] mailbox_post_ordinary [of "sy_core y" t]
  by (simp add: balanced_def system_ok_def ids_ok_def credits_ok_def in_progress_def Let_def)

lemma post_finished_ok:
  assumes "system_ok y" and "finished_id t = Some i" and "i \<in> sy_reactor y"
  shows "balanced y 0 (y\<lparr>sy_core := snd (post_core t True (sy_core y)), sy_reactor := sy_reactor y - {i}\<rparr>)"
proof -
  from assms(1) have inv: "mailbox_ok (sy_core y)" "ids_ok y" "credits_ok y" by (simp_all add: system_ok_def)
  from mailbox_post_finished [OF inv(1) assms(2)] have "mailbox_ok (snd (post_core t True (sy_core y)))" .
  moreover have "ids_ok (y\<lparr>sy_core := snd (post_core t True (sy_core y)), sy_reactor := sy_reactor y - {i}\<rparr>)"
    using inv(2) assms(2,3) by (auto simp: ids_ok_def Let_def)
  moreover have "in_progress (y\<lparr>sy_core := snd (post_core t True (sy_core y)), sy_reactor := sy_reactor y - {i}\<rparr>) = in_progress y"
    using kinds_of_task(2) [OF assms(2)] by (simp add: in_progress_def)
  ultimately show ?thesis using inv(3) by (simp add: balanced_def system_ok_def credits_ok_def)
qed

lemma admit_ok:
  assumes "system_ok y" and "mqtt_admit topic payload (sy_core y) = (True, s)"
  shows "system_ok (y\<lparr>sy_core := s, sy_admitting := sy_admitting y @ [m]\<rparr>) \<and>
    in_progress (y\<lparr>sy_core := s, sy_admitting := sy_admitting y @ [m]\<rparr>) = in_progress y + 1"
  using assms
  by (auto simp: mqtt_admit_def kMaxCommands_def system_ok_def mailbox_ok_def ids_ok_def credits_ok_def in_progress_def Let_def
      split: if_splits)

lemma post_message_ok:
  assumes "system_ok y" and "sy_admitting y = xs @ m # ys" and "mqtt_post topic payload (sy_core y) = (ok, s)"
  shows "balanced y (if ok then 0 else 1) (y\<lparr>sy_core := s, sy_admitting := xs @ ys\<rparr>)"
proof -
  let ?t = "HandleMqtt topic payload :: 'b core_task"
  from assms(1) have inv: "mailbox_ok (sy_core y)" "ids_ok y" "credits_ok y" by (simp_all add: system_ok_def)
  have t: "is_ordinary ?t" "is_mqtt ?t" by (simp_all add: task_kinds)
  from assms(3) have ok: "ok = fst (post_core ?t False (sy_core y))"
    and s: "s = (if ok then snd (post_core ?t False (sy_core y)) else releaseCommand (sy_core y))"
    using post_core_eq [of ?t False "sy_core y"] by (auto simp: mqtt_post_def split: prod.splits bool.splits if_splits)
  have "mailbox_ok s" using mailbox_post_ordinary [OF inv(1) t(1)] inv(1) by (simp add: s releaseCommand_def mailbox_ok_def)
  moreover have "ids_ok (y\<lparr>sy_core := s, sy_admitting := xs @ ys\<rparr>)"
    using inv(2) kinds_of_task(1) [OF t(1)] by (simp add: s ids_ok_def releaseCommand_def Let_def)
  moreover have "in_progress (y\<lparr>sy_core := s, sy_admitting := xs @ ys\<rparr>) + (if ok then 0 else 1) = in_progress y"
    using t(2) assms(2) ok by (simp add: s in_progress_def releaseCommand_def)
  ultimately show ?thesis using inv(3) by (auto simp: balanced_def system_ok_def credits_ok_def s releaseCommand_def)
qed

lemma query_turnE:
  assumes "query_turn answer s = Some (ok, s')"
  obtains q qs t where "te_tasks (gc_queries_executor s) = q # qs" and "is_query_done t"
    and "post_core t True (s\<lparr>gc_queries_executor := (gc_queries_executor s)\<lparr>te_tasks := qs\<rparr>\<rparr>) = (ok, s')"
proof (cases "te_tasks (gc_queries_executor s)")
  case (Cons q qs)
  obtain db device n reply where q: "q = Query db device n reply" by (cases q)
  let ?t = "case answer db device n of None \<Rightarrow> QueryDone [] False reply | Some rs \<Rightarrow> QueryDone rs True reply"
  have "is_query_done ?t" by (simp add: is_query_done_def split: option.splits)
  moreover from assms Cons q
  have "post_core ?t True (s\<lparr>gc_queries_executor := (gc_queries_executor s)\<lparr>te_tasks := qs\<rparr>\<rparr>) = (ok, s')"
    by (simp add: query_turn_def take_task_def Let_def)
  ultimately show thesis using Cons that by blast
qed (use assms in \<open>simp add: query_turn_def take_task_def split: if_splits\<close>)

lemma query_turn_ok:
  assumes "system_ok y" and "query_turn answer (sy_core y) = Some (ok, s)"
  shows "balanced y 0 (y\<lparr>sy_core := s\<rparr>)"
proof -
  from assms(2) obtain q qs t where q: "te_tasks (gc_queries_executor (sy_core y)) = q # qs" and t: "is_query_done t"
    and post: "post_core t True ((sy_core y)\<lparr>gc_queries_executor := (gc_queries_executor (sy_core y))\<lparr>te_tasks := qs\<rparr>\<rparr>) = (ok, s)"
    by (rule query_turnE)
  then have s: "s = snd (post_core t True ((sy_core y)\<lparr>gc_queries_executor := (gc_queries_executor (sy_core y))\<lparr>te_tasks := qs\<rparr>\<rparr>))"
    by (metis snd_conv)
  have kinds: "\<not> is_ordinary t" "\<not> is_mqtt t" "\<not> is_barrier t" "finished_id t = None"
    using t by (auto simp: task_kinds split: core_task.splits)
  have "te_capacity (gc_core s) = te_capacity (gc_core (sy_core y))" "te_reserve (gc_core s) = te_reserve (gc_core (sy_core y))"
    unfolding s by (subst post_core_eq, simp)+
  with assms(1) q t kinds show ?thesis
    by (cases ok) (auto simp: s balanced_def system_ok_def mailbox_ok_def ids_ok_def credits_ok_def in_progress_def Let_def)
qed

lemma stop_begin_ok: "system_ok y \<Longrightarrow> balanced y 0 (y\<lparr>sy_core := stop_begin (sy_core y)\<rparr>)"
  by (subst stop_begin_def, subst post_core_eq, cases "gc_stopped (sy_core y)")
    (auto simp: balanced_def system_ok_def mailbox_ok_def ids_ok_def credits_ok_def in_progress_def Let_def task_kinds)

lemma close_ok:
  "system_ok y \<Longrightarrow> balanced y 0 (y\<lparr>sy_core := stop_queries (sy_core y)\<rparr>)"
  "system_ok y \<Longrightarrow> balanced y 0 (y\<lparr>sy_core := stop_core (sy_core y)\<rparr>)"
  by (simp_all add: stop_queries_def stop_core_def close_executor_def balanced_def system_ok_def mailbox_ok_def ids_ok_def
      credits_ok_def in_progress_def Let_def)

definition of_kind :: "sys_event \<Rightarrow> sys_event list \<Rightarrow> nat" where
  "of_kind e evs = count (\<lambda>x. x = e) evs"

lemma of_kind_simps [simp]:
  "of_kind e [] = 0" "of_kind e (x # evs) = (if x = e then 1 else 0) + of_kind e evs" "of_kind e (evs @ evs') = of_kind e evs + of_kind e evs'"
  "of_kind e (replicate n x) = (if x = e then n else 0)"
  by (simp_all add: of_kind_def count_def)

lemma core_step_ok:
  assumes "core_step y evs y'" and "system_ok y"
  shows "system_ok y' \<and> of_kind PostRefused evs + of_kind Answered evs + in_progress y' = of_kind MessageAdmitted evs + in_progress y"
  using assms(1)
proof cases
  case (admit topic payload s)
  with admit_ok [OF assms(2)] show ?thesis by simp
next
  case (post_message xs topic payload ys ok s)
  from post_message_ok [OF assms(2) this(3,4)] post_message show ?thesis by (cases ok) (simp_all add: balanced_def)
next
  case (core_runs env evs s)
  from core_runs(3) obtain t ts where "te_tasks (gc_core (sy_core y)) = t # ts" and "run_task env t (taken (sy_core y) ts) = (evs, s)"
    by (rule core_turnE)
  from run_task_balanced [OF assms(2) this(1) core_runs(4) this(2)] core_runs(1,2) show ?thesis by (simp add: balanced_def)
next
  case (post_telemetry frame received_at)
  with post_plain_ok [OF assms(2), of "HandleTelemetry frame received_at"] assms(2) show ?thesis
    by (simp add: telemetry_def task_kinds balanced_def)
next
  case (post_http request reply)
  with post_plain_ok [OF assms(2), of "HandleHttp request reply"] assms(2) show ?thesis
    by (simp add: httpRequest_def task_kinds balanced_def)
next
  case (reactor_finishes ident result)
  with post_finished_ok [OF assms(2), of "HandleFinished ident result" ident] show ?thesis
    by (simp add: commandFinished_def finished_id_def balanced_def)
next
  case (reactor_rejects ident error)
  with post_finished_ok [OF assms(2), of "Reject ident error" ident] show ?thesis
    by (simp add: commandRejected_def finished_id_def balanced_def)
next
  case (published k)
  with assms(2) show ?thesis
    by (simp add: releaseCommand_def system_ok_def mailbox_ok_def ids_ok_def credits_ok_def in_progress_def Let_def)
next
  case (query_runs answer ok s)
  with query_turn_ok [OF assms(2)] show ?thesis by (simp add: balanced_def)
qed (use stop_begin_ok [OF assms(2)] close_ok [OF assms(2)] in \<open>simp_all add: balanced_def\<close>)

lemma core_history:
  assumes "lts_steps core_step start_system evs y"
  shows "system_ok y \<and> of_kind PostRefused evs + of_kind Answered evs + in_progress y = of_kind MessageAdmitted evs"
  using assms
proof (rule steps_invariant)
  fix y evs0 evs y'
  assume "system_ok y \<and> of_kind PostRefused evs0 + of_kind Answered evs0 + in_progress y = of_kind MessageAdmitted evs0"
    and "core_step y evs y'"
  with core_step_ok [of y evs y']
  show "system_ok y' \<and> of_kind PostRefused (evs0 @ evs) + of_kind Answered (evs0 @ evs) + in_progress y' =
      of_kind MessageAdmitted (evs0 @ evs)" by simp
qed (simp add: start_system_ok)


subsection \<open>Room for completions\<close>

text \<open>A completion finds room: \<open>1024 + 512 + 32 + 1\<close> tasks at most could be in the mailbox of \<open>1024 + 552\<close>.\<close>

lemma finished_ids_bound:
  assumes "system_ok y"
  shows "length (finished_ids (te_tasks (gc_core (sy_core y)))) \<le> 512"
proof -
  let ?s = "sy_core y" and ?ids = "finished_ids (te_tasks (gc_core (sy_core y)))"
  from assms have ids: "finite (gc_pending ?s)" "distinct ?ids" "set ?ids \<subseteq> gc_pending ?s"
    by (simp_all add: system_ok_def ids_ok_def Let_def)
  then have "length ?ids = card (set ?ids)" by (simp add: distinct_card)
  also have "\<dots> \<le> card (gc_pending ?s)" using ids(1,3) by (rule card_mono)
  also have "\<dots> \<le> 512" using assms by (auto simp: system_ok_def credits_ok_def in_progress_def)
  finally show ?thesis .
qed

lemma mailbox_kinds:
  assumes "system_ok y"
  shows "count is_query_done (te_tasks (gc_core (sy_core y))) \<le> 32" and "count is_barrier (te_tasks (gc_core (sy_core y))) \<le> 1"
  using assms by (auto simp: system_ok_def mailbox_ok_def split: if_splits)

lemma completion_fits:
  assumes "system_ok y" and "\<not> te_closed (gc_core (sy_core y))" and "gc_core s = gc_core (sy_core y)"
  shows "fst (post_core t True s)"
proof -
  have "mailbox_ok (sy_core y)" using assms(1) by (simp add: system_ok_def)
  then show ?thesis
    using assms(2-) finished_ids_bound [OF assms(1)] mailbox_kinds [OF assms(1)] mailbox_size [of "te_tasks (gc_core (sy_core y))"]
    by (simp add: post_core_room mailbox_ok_def)
qed

text \<open>
  C18. Every command the cloud sends is answered exactly once. After any interleaving of the network threads,
  the core's thread, the node's reactor, the query thread and the shutdown, the messages admitted are the
  messages refused at the mailbox (\<^verbatim>\<open>mqttMessage\<close> returned false), plus the answers published, plus the
  commands still in progress. The admission counter equals the commands in progress plus the publications
  still to be made, so no credit is lost or given back twice, and it never exceeds 512.
\<close>

theorem commands_answered_exactly_once:
  assumes "lts_steps core_step start_system evs y"
  shows "of_kind MessageAdmitted evs = of_kind PostRefused evs + of_kind Answered evs + in_progress y \<and>
    gc_admitted (sy_core y) = int (in_progress y + sy_publications y) \<and> gc_admitted (sy_core y) \<le> kMaxCommands"
  using core_history [OF assms] by (simp_all add: system_ok_def credits_ok_def kMaxCommands_def)

text \<open>
  C22. A completion is never lost to a full mailbox. Whatever telemetry, requests and commands are queued, as
  long as the core's mailbox is open the end of a command the reactor still owes is accepted, the rows of a
  finished query are accepted, and so is the barrier of the shutdown: the reserve of 552 places is enough.
\<close>

theorem completions_always_fit:
  assumes "lts_steps core_step start_system evs y" and "\<not> te_closed (gc_core (sy_core y))"
  shows "(\<forall>ident\<in>sy_reactor y. fst (commandFinished ident result (sy_core y)) \<and> fst (commandRejected ident error (sy_core y))) \<and>
    (query_turn answer (sy_core y) = Some (ok, s) \<longrightarrow> ok) \<and>
    (\<not> gc_stopped (sy_core y) \<longrightarrow> te_tasks (gc_core (stop_begin (sy_core y))) = te_tasks (gc_core (sy_core y)) @ [Barrier])"
proof -
  have ok: "system_ok y" using core_history [OF assms(1)] by simp
  note fits = completion_fits [OF ok assms(2)]
  show ?thesis
  proof (intro conjI impI)
    from fits show "\<forall>ident\<in>sy_reactor y. fst (commandFinished ident result (sy_core y)) \<and> fst (commandRejected ident error (sy_core y))"
      unfolding commandFinished_def commandRejected_def by blast
    assume "query_turn answer (sy_core y) = Some (ok, s)"
    then show "ok"
    proof (rule query_turnE)
      fix q qs t
      assume "post_core t True ((sy_core y)\<lparr>gc_queries_executor := (gc_queries_executor (sy_core y))\<lparr>te_tasks := qs\<rparr>\<rparr>) = (ok, s)"
      with fits [of "(sy_core y)\<lparr>gc_queries_executor := (gc_queries_executor (sy_core y))\<lparr>te_tasks := qs\<rparr>\<rparr>" t] show "ok" by simp
    qed
  next
    assume "\<not> gc_stopped (sy_core y)"
    then show "te_tasks (gc_core (stop_begin (sy_core y))) = te_tasks (gc_core (sy_core y)) @ [Barrier]"
      using fits [of "(sy_core y)\<lparr>gc_stopped := True, gc_accepting := False\<rparr>" Barrier] by (simp add: stop_begin_def)
  qed
qed

subsection \<open>A run\<close>

text \<open>A query of the light sensor is admitted, posted, handed to the reactor, finished by it and answered.\<close>

definition demo_env :: "nat core_env" where
  "demo_env = \<lparr>en_submit = True, en_publish = True, en_database = None, en_report_n = 10, en_assets = undefined\<rparr>"

definition demo_topic :: string where "demo_topic = ''gateway/cmd/query_light''"

definition demo_mailbox :: "nat core_task list \<Rightarrow> int \<Rightarrow> u64 \<Rightarrow> u64 set \<Rightarrow> (nat, nat) gateway_core" where
  "demo_mailbox ts n k pend =
    (let s = new_core in s\<lparr>gc_core := (gc_core s)\<lparr>te_tasks := ts\<rparr>, gc_admitted := n, gc_next_id := k, gc_pending := pend\<rparr>)"

definition demo_completion :: command_completion where
  "demo_completion = \<lparr>cc_seq = 0, cc_type = EDGE_TYPE_QUERY_LIGHT, cc_result = [0, 1, 44], cc_error = []\<rparr>"

definition demo_submitted :: "(nat, nat) core_system" where
  "demo_submitted = \<lparr>sy_core = demo_mailbox [] 1 2 {1}, sy_admitting = [], sy_publications = 0, sy_reactor = {1}\<rparr>"

definition demo_answered :: "(nat, nat) core_system" where
  "demo_answered = \<lparr>sy_core = demo_mailbox [] 1 2 {}, sy_admitting = [], sy_publications = 1, sy_reactor = {}\<rparr>"

lemmas demo_defs = Let_def demo_mailbox_def new_core_def new_executor_def kMaxCommands_def kMaxQueries_def

lemma demo_command: "tr_ok (translateCommand demo_topic [])"
proof -
  have "command_name demo_topic = ''query_light''" unfolding demo_topic_def by code_simp
  then show ?thesis by (simp add: translateCommand_def Let_def translate_ok_def)
qed

lemma demo_run_submitted: "lts_steps core_step start_system [MessageAdmitted] demo_submitted"
proof -
  let ?y1 = "\<lparr>sy_core = demo_mailbox [] 1 1 {}, sy_admitting = [(demo_topic, [])], sy_publications = 0, sy_reactor = {}\<rparr>"
  let ?y2 = "\<lparr>sy_core = demo_mailbox [HandleMqtt demo_topic []] 1 1 {}, sy_admitting = [], sy_publications = 0, sy_reactor = {}\<rparr>"
  have "length demo_topic = 23" by (simp add: demo_topic_def)
  then have "mqtt_admit demo_topic [] (sy_core start_system) = (True, demo_mailbox [] 1 1 {})"
    by (simp add: mqtt_admit_def start_system_def demo_defs)
  from core_step.admit [OF this] have s1: "core_step start_system [MessageAdmitted] ?y1" by (simp add: start_system_def)
  have "mqtt_post demo_topic [] (sy_core ?y1) = (True, demo_mailbox [HandleMqtt demo_topic []] 1 1 {})"
    by (simp add: mqtt_post_def post_core_def post_def demo_defs)
  from core_step.post_message [where y = ?y1 and xs = "[]" and ys = "[]", OF _ this] have s2: "core_step ?y1 [] ?y2" by simp
  have "core_turn demo_env (sy_core ?y2) =
      Some ([SubmitCommand 1 (tr_cmd (translateCommand demo_topic []))], demo_mailbox [] 1 2 {1})"
    using demo_command
    by (simp add: core_turn_def take_task_def run_task_def handleMqtt_def Let_def demo_defs demo_env_def)
  from core_step.core_runs [where y = ?y2, OF this] have s3: "core_step ?y2 [] demo_submitted"
    by (simp add: demo_submitted_def demo_env_def demo_mailbox_def)
  from steps_step [of core_step, OF s1 steps_step [of core_step, OF s2 steps_single [of core_step, OF s3]]] show ?thesis by simp
qed

lemma demo_run_answered: "lts_steps core_step start_system [MessageAdmitted, Answered] demo_answered"
proof -
  let ?y = "\<lparr>sy_core = demo_mailbox [HandleFinished 1 demo_completion] 1 2 {1}, sy_admitting = [], sy_publications = 0, sy_reactor = {}\<rparr>"
  have "snd (commandFinished 1 demo_completion (sy_core demo_submitted)) = demo_mailbox [HandleFinished 1 demo_completion] 1 2 {1}"
    by (simp add: demo_submitted_def commandFinished_def post_core_def post_def demo_defs)
  with core_step.reactor_finishes [of 1 demo_submitted demo_completion] have s1: "core_step demo_submitted [] ?y"
    by (simp add: demo_submitted_def)
  obtain topic payload where "finished_answer demo_completion = (topic, payload)" by fastforce
  then have "core_turn demo_env (sy_core ?y) = Some ([CommandAnswer topic payload], demo_mailbox [] 1 2 {})"
    by (simp add: core_turn_def take_task_def run_task_def handleFinished_def publishCommand_def demo_defs demo_env_def)
  from core_step.core_runs [where y = ?y, OF this] have s2: "core_step ?y [Answered] demo_answered"
    by (simp add: demo_answered_def demo_env_def demo_mailbox_def)
  from steps_trans [of core_step, OF demo_run_submitted steps_step [of core_step, OF s1 steps_single [of core_step, OF s2]]]
  show ?thesis by simp
qed

theorem commands_answered_exactly_once_witness:
  "of_kind MessageAdmitted [MessageAdmitted, Answered] = 1 \<and> in_progress demo_answered = 0 \<and> gc_admitted (sy_core demo_answered) = 1"
  using commands_answered_exactly_once [OF demo_run_answered]
  by (simp add: demo_answered_def demo_mailbox_def)

theorem completions_always_fit_witness:
  "fst (commandFinished 1 demo_completion (sy_core demo_submitted)) \<and>
   te_tasks (gc_core (stop_begin (sy_core demo_submitted))) = [Barrier]"
proof -
  have "\<not> te_closed (gc_core (sy_core demo_submitted))" "\<not> gc_stopped (sy_core demo_submitted)"
    "te_tasks (gc_core (sy_core demo_submitted)) = []" "1 \<in> sy_reactor demo_submitted"
    by (simp_all add: demo_submitted_def demo_defs)
  with completions_always_fit [OF demo_run_submitted] show ?thesis by simp
qed

end
