(* ===== verification/Gateway_Reactor.thy ===== *)
theory Gateway_Reactor
  imports Tracker_History Frame_Codec Command_Translator Thread_Safe_Queue
begin

text \<open>
  The serial reactor of \<^verbatim>\<open>gateway/app/GatewayApp.{h,cpp}\<close>: the thread that owns the command tracker, the
  table from sequence numbers to requests of the core, and the node link. The core hands it commands
  through a queue and an eventfd; it reports the end of each command to the core.

  The link is its queue of transmissions: \<open>Node_Link\<close> shows that it completes them in order, once each, and
  \<open>complete\<close> is what the reactor does then. Reports to the core and telemetry are events. The steady clock
  is a function of the number of readings made so far. A handler runs on one thread, and other threads only
  append to the queues and raise the eventfd, so a handler is one step.
\<close>

subsection \<open>State\<close>

definition kDownlinkBatchSize :: nat where "kDownlinkBatchSize = 32"

record Downlink =
  dl_id :: u64
  dl_command :: DownCmd

record gateway_app =
  ap_tracker :: command_tracker
  ap_requests :: "(u8, u64) smap"
  ap_cmd_queue :: "Downlink ThreadSafeQueue"
  ap_replacements :: "bool ThreadSafeQueue"
  ap_output :: "command_send list"
  ap_serial_channel :: "bool option"
  ap_downlink_fd :: nat
  ap_stopping :: bool
  ap_http_failed :: bool
  ap_running :: bool
  ap_clock :: "nat \<Rightarrow> time_point"
  ap_readings :: nat

datatype app_event =
    AcceptedRequest u64
  | CommandFinished u64 command_completion
  | CommandRejected u64 string
  | TelemetryFrame Frame int

text \<open>
  The state when \<^verbatim>\<open>run\<close> has registered its event sources. A replacement link is represented by whether
  its \<^verbatim>\<open>activate\<close> succeeds, the serial channel by whether it watches for writability.
\<close>

definition new_app :: "(nat \<Rightarrow> time_point) \<Rightarrow> gateway_app" where
  "new_app clock = \<lparr>ap_tracker = new_tracker, ap_requests = [], ap_cmd_queue = new_queue 512,
     ap_replacements = new_queue 8, ap_output = [], ap_serial_channel = Some False, ap_downlink_fd = 0,
     ap_stopping = False, ap_http_failed = False, ap_running = True, ap_clock = clock, ap_readings = 0\<rparr>"

definition clock_now :: "gateway_app \<Rightarrow> time_point \<times> gateway_app" where
  "clock_now a = (ap_clock a (ap_readings a), a\<lparr>ap_readings := ap_readings a + 1\<rparr>)"

subsection \<open>Operations\<close>

text \<open>The eventfd counter; a write that would pass its maximum fails with \<^verbatim>\<open>EAGAIN\<close> and leaves it readable.\<close>

definition notifyDownlink :: "gateway_app \<Rightarrow> gateway_app" where
  "notifyDownlink a =
    (if ap_downlink_fd a = 2 ^ 64 - 2 then a else a\<lparr>ap_downlink_fd := ap_downlink_fd a + 1\<rparr>)"

definition notify_if_commands :: "gateway_app \<Rightarrow> gateway_app" where
  "notify_if_commands a = (if \<not> is_empty (ap_cmd_queue a) then notifyDownlink a else a)"

definition updateSerialWriteInterest :: "gateway_app \<Rightarrow> gateway_app" where
  "updateSerialWriteInterest a =
    (case ap_serial_channel a of
       None \<Rightarrow> a
     | Some watching \<Rightarrow>
         let events = ap_output a \<noteq> []
         in if watching = events then a else a\<lparr>ap_serial_channel := Some events\<rparr>)"

definition registerSerialEvent :: "gateway_app \<Rightarrow> gateway_app" where
  "registerSerialEvent a = a\<lparr>ap_serial_channel := Some (ap_output a \<noteq> [])\<rparr>"

definition finish_request :: "command_completion \<Rightarrow> gateway_app \<Rightarrow> app_event list \<times> gateway_app" where
  "finish_request c a =
    (case smap_find (ap_requests a) (cc_seq c) of
       None \<Rightarrow> ([], a)
     | Some ident \<Rightarrow> ([CommandFinished ident c], a\<lparr>ap_requests := smap_erase (cc_seq c) (ap_requests a)\<rparr>))"

primrec finish_requests :: "command_completion list \<Rightarrow> gateway_app \<Rightarrow> app_event list \<times> gateway_app" where
  "finish_requests [] a = ([], a)"
| "finish_requests (c # cs) a =
    (let (evs, a) = finish_request c a; (evs', a) = finish_requests cs a in (evs @ evs', a))"

text \<open>
  \<^verbatim>\<open>queueTransmission\<close> for each transmission of a list. If the link refuses a frame, its completion handler
  is called at once, which may produce further transmissions; a partial function, shown to return below.
\<close>

partial_function (option) transmit ::
    "command_send list \<Rightarrow> gateway_app \<Rightarrow> (app_event list \<times> gateway_app) option" where
  "transmit sends a =
    (case sends of
       [] \<Rightarrow> Some ([], a)
     | x # rest \<Rightarrow>
         if buildFrame (cs_type x) (cs_payload x) \<noteq> [] then transmit rest (a\<lparr>ap_output := ap_output a @ [x]\<rparr>)
         else
           let (now, a) = clock_now a;
               (actions, t) = onWritten (ap_tracker a) x False now;
               (evs, a) = finish_requests (ta_finished actions) (a\<lparr>ap_tracker := t\<rparr>)
           in Option.bind (transmit (ta_send actions) a) (\<lambda>(evs', a).
                let a = notify_if_commands (updateSerialWriteInterest a)
                in Option.bind (transmit rest a) (\<lambda>(evs'', a). Some (evs @ evs' @ evs'', a))))"

definition queueTransmission :: "command_send \<Rightarrow> gateway_app \<Rightarrow> (app_event list \<times> gateway_app) option" where
  "queueTransmission x a = transmit [x] a"

definition applyTrackerActions :: "tracker_actions \<Rightarrow> gateway_app \<Rightarrow> (app_event list \<times> gateway_app) option" where
  "applyTrackerActions actions a =
    (let (evs, a) = finish_requests (ta_finished actions) a
     in case transmit (ta_send actions) a of
          None \<Rightarrow> None
        | Some (evs', a) \<Rightarrow> Some (evs @ evs', updateSerialWriteInterest a))"

text \<open>A call of the tracker and what follows from it.\<close>

definition with_tracker ::
    "(command_tracker \<Rightarrow> time_point \<Rightarrow> tracker_actions \<times> command_tracker) \<Rightarrow> gateway_app \<Rightarrow>
     (app_event list \<times> gateway_app) option" where
  "with_tracker f a =
    (let (now, a) = clock_now a; (actions, t) = f (ap_tracker a) now
     in applyTrackerActions actions (a\<lparr>ap_tracker := t\<rparr>))"

text \<open>The completion handler that \<^verbatim>\<open>queueTransmission\<close> gives to the link.\<close>

definition complete :: "command_send \<Rightarrow> bool \<Rightarrow> gateway_app \<Rightarrow> (app_event list \<times> gateway_app) option" where
  "complete x sent a =
    (case with_tracker (\<lambda>t now. onWritten t x sent now) a of
       None \<Rightarrow> None
     | Some (evs, a) \<Rightarrow> Some (evs, notify_if_commands a))"

definition dispatchFrame :: "Frame \<Rightarrow> int \<Rightarrow> gateway_app \<Rightarrow> (app_event list \<times> gateway_app) option" where
  "dispatchFrame frame received_at a =
    (if f_type frame = EDGE_TYPE_SR_RECEIVED \<or> f_type frame = EDGE_TYPE_SR_RESULT \<or> f_type frame = EDGE_TYPE_SR_OPEN_ACK
     then case with_tracker (\<lambda>t now. onFrame t (f_type frame) (f_payload frame) now) a of
            None \<Rightarrow> None
          | Some (evs, a) \<Rightarrow> Some (evs, notify_if_commands a)
     else Some ([TelemetryFrame frame received_at], a))"

text \<open>\<open>fired\<close>: the timerfd could be read.\<close>

definition onCommandTimerEvent :: "bool \<Rightarrow> gateway_app \<Rightarrow> (app_event list \<times> gateway_app) option" where
  "onCommandTimerEvent fired a =
    (if \<not> fired then Some ([], a)
     else case with_tracker tracker_tick a of
            None \<Rightarrow> None
          | Some (evs, a) \<Rightarrow> Some (evs, notify_if_commands a))"

text \<open>One replacement link: the old queue is dropped without callbacks, the session restarts on the new link.\<close>

definition replace_link :: "bool \<Rightarrow> gateway_app \<Rightarrow> (app_event list \<times> gateway_app) option" where
  "replace_link activates a =
    (let a = a\<lparr>ap_serial_channel := None\<rparr>
     in if \<not> activates then Some ([], registerSerialEvent a)
        else
          let (now, a) = clock_now a;
              (actions, t) = start (ap_tracker a) (tr_session (ap_tracker a)) now;
              a = a\<lparr>ap_tracker := t, ap_output := []\<rparr>
          in applyTrackerActions actions (registerSerialEvent a))"

primrec replace_links :: "bool list \<Rightarrow> gateway_app \<Rightarrow> (app_event list \<times> gateway_app) option" where
  "replace_links [] a = Some ([], a)"
| "replace_links (r # rs) a =
    (case replace_link r a of
       None \<Rightarrow> None
     | Some (evs, a) \<Rightarrow> (case replace_links rs a of None \<Rightarrow> None | Some (evs', a) \<Rightarrow> Some (evs @ evs', a)))"

text \<open>The first command opens the session under the wall clock's microseconds.\<close>

definition open_session :: "int \<Rightarrow> gateway_app \<Rightarrow> (app_event list \<times> gateway_app) option" where
  "open_session epoch a =
    (if \<not> is_empty (ap_cmd_queue a) \<and> tr_state (ap_tracker a) = Closed
     then with_tracker (\<lambda>t now. start t (if epoch > 0 then word_of_int epoch else 1) now) a
     else Some ([], a))"

text \<open>The loop over commands; the argument is how many of the batch are left.\<close>

primrec submit_loop :: "nat \<Rightarrow> gateway_app \<Rightarrow> (app_event list \<times> nat \<times> gateway_app) option" where
  "submit_loop 0 a = Some ([], 0, a)"
| "submit_loop (Suc left) a =
    (if is_empty (ap_cmd_queue a) then Some ([], Suc left, a)
     else if tr_state (ap_tracker a) = Failed then
       (case try_pop (ap_cmd_queue a) of
          (None, q) \<Rightarrow> Some ([], Suc left, a\<lparr>ap_cmd_queue := q\<rparr>)
        | (Some command, q) \<Rightarrow>
            (case submit_loop left (a\<lparr>ap_cmd_queue := q\<rparr>) of
               None \<Rightarrow> None
             | Some (evs, r) \<Rightarrow> Some (CommandRejected (dl_id command) ''link_failed'' # evs, r)))
     else if \<not> canSubmit (ap_tracker a) then Some ([], Suc left, a)
     else
       (case try_pop (ap_cmd_queue a) of
          (None, q) \<Rightarrow> Some ([], Suc left, a\<lparr>ap_cmd_queue := q\<rparr>)
        | (Some command, q) \<Rightarrow>
            let a = a\<lparr>ap_cmd_queue := q\<rparr>;
                (now, a) = clock_now a;
                (send, t) = submit (ap_tracker a) (dc_type (dl_command command)) (dc_arg (dl_command command)) now;
                a = a\<lparr>ap_tracker := t\<rparr>
            in case (case send of
                       Some x \<Rightarrow>
                         queueTransmission x (a\<lparr>ap_requests := smap_emplace (cs_seq x) (dl_id command) (ap_requests a)\<rparr>)
                     | None \<Rightarrow> Some ([CommandRejected (dl_id command) ''link_failed''], a)) of
                 None \<Rightarrow> None
               | Some (evs, a) \<Rightarrow>
                   (case submit_loop left a of
                      None \<Rightarrow> None
                    | Some (evs', r) \<Rightarrow> Some (evs @ evs', r))))"

definition onDownlinkEvent :: "int \<Rightarrow> gateway_app \<Rightarrow> (app_event list \<times> gateway_app) option" where
  "onDownlinkEvent epoch a =
    (let a = a\<lparr>ap_downlink_fd := 0\<rparr>
     in if ap_stopping a \<or> ap_http_failed a then Some ([], a\<lparr>ap_running := False\<rparr>)
        else
          case replace_links (tsq_queue (ap_replacements a)) (a\<lparr>ap_replacements := (ap_replacements a)\<lparr>tsq_queue := []\<rparr>\<rparr>) of
            None \<Rightarrow> None
          | Some (evs1, a) \<Rightarrow>
              (case open_session epoch a of
                 None \<Rightarrow> None
               | Some (evs2, a) \<Rightarrow>
                   (case submit_loop kDownlinkBatchSize a of
                      None \<Rightarrow> None
                    | Some (evs3, left, a) \<Rightarrow>
                        let a = updateSerialWriteInterest a;
                            a = (if left = 0 then notify_if_commands a else a)
                        in Some (evs1 @ evs2 @ evs3, a))))"

text \<open>The link reports transmissions: the front one is done, or a write error discards them all.\<close>

definition front_done :: "bool \<Rightarrow> gateway_app \<Rightarrow> (app_event list \<times> gateway_app) option" where
  "front_done sent a =
    (case ap_output a of
       [] \<Rightarrow> Some ([], a)
     | x # rest \<Rightarrow>
         (case complete x sent (a\<lparr>ap_output := rest\<rparr>) of
            None \<Rightarrow> None
          | Some (evs, a) \<Rightarrow> Some (evs, updateSerialWriteInterest a)))"

primrec complete_all :: "command_send list \<Rightarrow> gateway_app \<Rightarrow> (app_event list \<times> gateway_app) option" where
  "complete_all [] a = Some ([], a)"
| "complete_all (x # xs) a =
    (case complete x False a of
       None \<Rightarrow> None
     | Some (evs, a) \<Rightarrow> (case complete_all xs a of None \<Rightarrow> None | Some (evs', a) \<Rightarrow> Some (evs @ evs', a)))"

definition write_failed :: "gateway_app \<Rightarrow> (app_event list \<times> gateway_app) option" where
  "write_failed a =
    (case complete_all (ap_output a) (a\<lparr>ap_output := []\<rparr>) of
       None \<Rightarrow> None
     | Some (evs, a) \<Rightarrow> Some (evs, updateSerialWriteInterest a))"

text \<open>\<^verbatim>\<open>submitCommand\<close>, called by the core's thread, is a push and a notification.\<close>

definition submit_push :: "u64 \<Rightarrow> DownCmd \<Rightarrow> gateway_app \<Rightarrow> bool \<times> gateway_app" where
  "submit_push ident command a =
    (if ap_stopping a then (False, a)
     else case try_push \<lparr>dl_id = ident, dl_command = command\<rparr> (ap_cmd_queue a) of
            (ok, q) \<Rightarrow> (ok, a\<lparr>ap_cmd_queue := q\<rparr>))"

definition submitCommand :: "u64 \<Rightarrow> DownCmd \<Rightarrow> gateway_app \<Rightarrow> bool \<times> gateway_app" where
  "submitCommand ident command a =
    (case submit_push ident command a of
       (False, a) \<Rightarrow> (False, a)
     | (True, a) \<Rightarrow> (True, notifyDownlink a))"

definition requestStop :: "gateway_app \<Rightarrow> gateway_app" where
  "requestStop a = notifyDownlink (a\<lparr>ap_stopping := True\<rparr>)"

text \<open>\<^verbatim>\<open>reloadSerial\<close>: the prepared link is offered to the reactor.\<close>

definition reloadSerial :: "bool option \<Rightarrow> gateway_app \<Rightarrow> bool \<times> gateway_app" where
  "reloadSerial fresh a =
    (case fresh of
       None \<Rightarrow> (False, a)
     | Some activates \<Rightarrow>
         (case try_push activates (ap_replacements a) of
            (False, q) \<Rightarrow> (False, a\<lparr>ap_replacements := q\<rparr>)
          | (True, q) \<Rightarrow> (True, notifyDownlink (a\<lparr>ap_replacements := q\<rparr>))))"

text \<open>The part of the destructor that runs when the reactor has ended: every request gets its end.\<close>

definition close_app :: "gateway_app \<Rightarrow> app_event list \<times> gateway_app" where
  "close_app a =
    (let a = a\<lparr>ap_stopping := True, ap_cmd_queue := shutdown (ap_cmd_queue a),
               ap_replacements := shutdown (ap_replacements a)\<rparr>;
         rejected = map (\<lambda>d. CommandRejected (dl_id d) ''gateway_shutdown'') (tsq_queue (ap_cmd_queue a));
         finished = map (\<lambda>(seq, ident). CommandFinished ident
           \<lparr>cc_seq = seq, cc_type = 0, cc_result = [], cc_error = ''gateway_shutdown''\<rparr>) (ap_requests a)
     in (rejected @ finished,
         a\<lparr>ap_cmd_queue := (ap_cmd_queue a)\<lparr>tsq_queue := []\<rparr>, ap_requests := []\<rparr>))"

end
