(* ===== verification/Reactor_History.thy ===== *)
theory Reactor_History
  imports Gateway_Reactor "HOL-Library.Multiset"
begin

text \<open>
  The serial reactor over time: its table of requests has exactly the numbers the tracker has in flight, so
  every command accepted from the core gets exactly one end; and the reactor never sleeps on a command it
  could handle.
\<close>

subsection \<open>What a call of the tracker does to the numbers in flight\<close>

definition done_seqs :: "tracker_event list \<Rightarrow> u8 list" where
  "done_seqs evs = List.map_filter (\<lambda>e. case e of Completed s c \<Rightarrow> Some (cc_seq c) | _ \<Rightarrow> None) evs"

lemma done_seqs_simps [simp]:
  "done_seqs [] = []" "done_seqs (Completed s c # evs) = cc_seq c # done_seqs evs" "done_seqs (Queued x # evs) = done_seqs evs"
  "done_seqs (Accepted s q ty args # evs) = done_seqs evs" "done_seqs (evs @ evs') = done_seqs evs @ done_seqs evs'"
  "done_seqs (map Queued xs) = []" "done_seqs (map (Completed s) cs) = map cc_seq cs"
  by (simp_all add: done_seqs_def List.map_filter_def comp_def)

abbreviation in_flight :: "command_tracker \<Rightarrow> u8 list" where
  "in_flight t \<equiv> map fst (tr_entries t)"

lemma command_data_keys: "map fst (command_data t) = in_flight t"
  by (induction "tr_entries t" arbitrary: t) (auto simp: command_data_def)

text \<open>No frame the tracker asks for is too long.\<close>

definition short_sends :: "tracker_event list \<Rightarrow> bool" where
  "short_sends evs \<longleftrightarrow> (\<forall>x. Queued x \<in> set evs \<longrightarrow> length (cs_payload x) \<le> EDGE_PAYLOAD_MAX)"

lemma good_send_short:
  assumes "good_send t x" and "\<forall>(q, ty, args)\<in>set (command_data t). length args \<le> EDGE_SR_ARGS_MAX"
  shows "length (cs_payload x) \<le> EDGE_PAYLOAD_MAX"
  using assms by (auto simp: good_send_def command_payload_def)

definition is_submit :: "tracker_call \<Rightarrow> bool" where
  "is_submit c \<longleftrightarrow> (\<exists>ty args now. c = CSubmit ty args now)"

definition flight_inv :: "command_tracker \<Rightarrow> tracker_event list \<Rightarrow> command_tracker \<Rightarrow> bool" where
  "flight_inv t evs t' \<longleftrightarrow> distinct (in_flight t') \<and> set (command_data t') \<subseteq> set (command_data t) \<and>
     mset (done_seqs evs) + mset (in_flight t') = mset (in_flight t) \<and> short_sends evs"

lemma mset_remove_key:
  assumes "distinct (map fst xs)" and "distinct (map fst ys)" and "set ys = {d \<in> set xs. fst d \<noteq> k}" and "k \<in> fst ` set xs"
  shows "mset (map fst xs) = add_mset k (mset (map fst ys))"
proof -
  have "set (map fst xs) = set (k # map fst ys)" using assms(3,4) by auto
  moreover have "distinct (k # map fst ys)" using assms(2,3) by auto
  ultimately have "mset (map fst xs) = mset (k # map fst ys)" using assms(1) set_eq_iff_mset_eq_distinct by blast
  then show ?thesis by simp
qed

text \<open>Submissions are a separate matter: they add a number.\<close>

lemma tk_step_flight:
  assumes "tk_step c t1 evs t2" and "flight_inv t evs0 t1" and "\<forall>s q ty args. Accepted s q ty args \<notin> set evs"
    and "\<forall>(q, ty, args)\<in>set (command_data t). length args \<le> EDGE_SR_ARGS_MAX"
  shows "flight_inv t (evs0 @ evs) t2"
proof -
  have old: "distinct (in_flight t1)" "set (command_data t1) \<subseteq> set (command_data t)"
    "mset (done_seqs evs0) + mset (in_flight t1) = mset (in_flight t)" "short_sends evs0"
    using assms(2) by (auto simp: flight_inv_def)
  have shorts: "length (cs_payload x) \<le> EDGE_PAYLOAD_MAX"
    if "good_send t2 x" "set (command_data t2) \<subseteq> set (command_data t1)" for x
    using that assms(4) old(2) by (intro good_send_short [OF that(1)]) blast
  from assms(1) show ?thesis
  proof cases
    case (tk_same ss)
    then have "in_flight t2 = in_flight t1" by (metis command_data_keys)
    with tk_same old shorts show ?thesis by (auto simp: flight_inv_def short_sends_def)
  next
    case (tk_submit q type args send)
    with assms(3) show ?thesis by auto
  next
    case (tk_complete p now args send)
    have "mset (in_flight t1) = add_mset (p ! 8) (mset (in_flight t2))"
      using mset_remove_key [of "command_data t1" "command_data t2" "p ! 8"] tk_complete old(1)
      by (force simp: command_data_keys)
    moreover have "set (command_data t2) \<subseteq> set (command_data t1)" using tk_complete by auto
    ultimately show ?thesis
      using tk_complete old shorts [of send] by (auto simp: flight_inv_def short_sends_def command_data_keys)
  next
    case (tk_reset fin reason ss)
    have "map cc_seq fin = in_flight t1"
      by (simp add: tk_reset(2) case_prod_beta comp_def flip: command_data_keys)
    then have "done_seqs evs = in_flight t1" unfolding tk_reset(1) by simp
    moreover have "in_flight t2 = []" using tk_reset(4) by (metis command_data_keys list.simps(8))
    moreover have "short_sends evs" using tk_reset(1,4,6) shorts by (auto simp: short_sends_def)
    ultimately show ?thesis
      using tk_reset(4) old by (auto simp: flight_inv_def short_sends_def)
  qed
qed

lemma tk_steps_flight:
  assumes "tk_steps c t1 evs t2" and "flight_inv t evs0 t1" and "\<forall>s q ty args. Accepted s q ty args \<notin> set evs"
    and "\<forall>(q, ty, args)\<in>set (command_data t). length args \<le> EDGE_SR_ARGS_MAX"
  shows "flight_inv t (evs0 @ evs) t2"
  using assms(1-3)
proof (induction arbitrary: evs0 rule: lts_steps.induct)
  case (steps_step t1 evs t2 evs' t3)
  then have "flight_inv t (evs0 @ evs) t2" using assms(4) by (intro tk_step_flight) auto
  from steps_step.IH [OF this] steps_step.prems show ?case by simp
qed simp

lemma wf_args_short:
  assumes "tracker_wf t"
  shows "\<forall>(q, ty, args)\<in>set (command_data t). length args \<le> EDGE_SR_ARGS_MAX"
proof (cases "tr_state t = Ready")
  case True
  then have "window_ok t" using tracker_wfD(7) [OF assms] by simp
  then show ?thesis by (auto simp: window_ok_def entry_ok_def command_data_def)
next
  case False
  then have "tr_entries t = []" using tracker_wfD(5) [OF assms] by simp
  then show ?thesis by (simp add: command_data_def)
qed

lemma actions_flight:
  assumes "refines_call c t (actions, t')" and "tracker_wf t"
  shows "mset (map cc_seq (ta_finished actions)) + mset (in_flight t') = mset (in_flight t)"
    and "\<forall>x\<in>set (ta_send actions). length (cs_payload x) \<le> EDGE_PAYLOAD_MAX"
proof -
  have "distinct (in_flight t)" using command_data_distinct [OF assms(2)] by (simp add: command_data_keys)
  then have "flight_inv t [] t" by (simp add: flight_inv_def short_sends_def)
  from tk_steps_flight [OF assms(1) [unfolded refines_call_def fst_conv snd_conv] this _ wf_args_short [OF assms(2)]]
  have "flight_inv t (action_events (tr_session t) actions) t'" by (auto simp: action_events_def)
  then show "mset (map cc_seq (ta_finished actions)) + mset (in_flight t') = mset (in_flight t)"
    and "\<forall>x\<in>set (ta_send actions). length (cs_payload x) \<le> EDGE_PAYLOAD_MAX"
    by (auto simp: flight_inv_def short_sends_def action_events_def)
qed


subsection \<open>The table of requests\<close>

text \<open>Requests accepted from the core and ends reported to it.\<close>

definition accepted_ids :: "app_event list \<Rightarrow> u64 list" where
  "accepted_ids evs = List.map_filter (\<lambda>e. case e of AcceptedRequest i \<Rightarrow> Some i | _ \<Rightarrow> None) evs"

definition reported_ids :: "app_event list \<Rightarrow> u64 list" where
  "reported_ids evs = List.map_filter
    (\<lambda>e. case e of CommandFinished i c \<Rightarrow> Some i | CommandRejected i r \<Rightarrow> Some i | _ \<Rightarrow> None) evs"

lemma event_ids_simps [simp]:
  "accepted_ids [] = []" "accepted_ids (AcceptedRequest i # evs) = i # accepted_ids evs"
  "accepted_ids (CommandFinished i c # evs) = accepted_ids evs" "accepted_ids (CommandRejected i r # evs) = accepted_ids evs"
  "accepted_ids (TelemetryFrame f n # evs) = accepted_ids evs" "accepted_ids (evs @ evs') = accepted_ids evs @ accepted_ids evs'"
  "reported_ids [] = []" "reported_ids (AcceptedRequest i # evs) = reported_ids evs"
  "reported_ids (CommandFinished i c # evs) = i # reported_ids evs" "reported_ids (CommandRejected i r # evs) = i # reported_ids evs"
  "reported_ids (TelemetryFrame f n # evs) = reported_ids evs" "reported_ids (evs @ evs') = reported_ids evs @ reported_ids evs'"
  by (simp_all add: accepted_ids_def reported_ids_def List.map_filter_def)

definition held_ids :: "gateway_app \<Rightarrow> u64 list" where
  "held_ids a = map dl_id (tsq_queue (ap_cmd_queue a)) @ map snd (ap_requests a)"

definition app_ok :: "gateway_app \<Rightarrow> bool" where
  "app_ok a \<longleftrightarrow> tracker_wf (ap_tracker a) \<and> smap_ok (ap_requests a) \<and> map fst (ap_requests a) = in_flight (ap_tracker a)"

lemma erase_mset:
  "smap_ok m \<Longrightarrow> smap_find m k = Some v \<Longrightarrow> mset m = add_mset (k, v) (mset (smap_erase k m))"
proof (induction m)
  case (Cons p m)
  obtain k' w where p: "p = (k', w)" by fastforce
  show ?case
  proof (cases "k' = k")
    case True
    then have "smap_erase k m = m" using Cons.prems(1) by (auto simp: p smap_ok_Cons smap_erase_def filter_id_conv)
    with True Cons.prems(2) show ?thesis by (simp add: p smap_find_Cons smap_erase_def)
  next
    case False
    with Cons show ?thesis by (simp add: p smap_find_Cons smap_ok_Cons smap_erase_def)
  qed
qed (simp add: smap_find_def)

lemma finish_requests_spec:
  assumes "smap_ok (ap_requests a)" and "distinct (map cc_seq cs)" and "set (map cc_seq cs) \<subseteq> fst ` set (ap_requests a)"
  shows "\<exists>evs m. finish_requests cs a = (evs, a\<lparr>ap_requests := m\<rparr>) \<and> smap_ok m \<and> accepted_ids evs = [] \<and>
    mset (map cc_seq cs) + mset (map fst m) = mset (map fst (ap_requests a)) \<and>
    mset (reported_ids evs) + mset (map snd m) = mset (map snd (ap_requests a))"
  using assms
proof (induction cs arbitrary: a)
  case (Cons c cs)
  obtain i where i: "smap_find (ap_requests a) (cc_seq c) = Some i"
    using Cons.prems(1,3) smap.in_keys_iff [of "ap_requests a" "cc_seq c"] by (auto simp: smap.keys_def)
  let ?m = "smap_erase (cc_seq c) (ap_requests a)"
  note e = erase_mset [OF Cons.prems(1) i]
  have "fst ` set ?m = fst ` set (ap_requests a) - {cc_seq c}"
    using smap.keys_erase [OF Cons.prems(1)] by (simp add: smap.keys_def)
  then have "set (map cc_seq cs) \<subseteq> fst ` set ?m" using Cons.prems(2,3) by simp blast
  with Cons.IH [of "a\<lparr>ap_requests := ?m\<rparr>"] Cons.prems(1,2) obtain evs m where
    "finish_requests cs (a\<lparr>ap_requests := ?m\<rparr>) = (evs, a\<lparr>ap_requests := m\<rparr>)" "smap_ok m" "accepted_ids evs = []"
    "mset (map cc_seq cs) + mset (map fst m) = mset (map fst ?m)" "mset (reported_ids evs) + mset (map snd m) = mset (map snd ?m)"
    by (auto simp: smap_ok_erase)
  moreover have "mset (map fst (ap_requests a)) = add_mset (cc_seq c) (mset (map fst ?m))"
    "mset (map snd (ap_requests a)) = add_mset i (mset (map snd ?m))"
    using arg_cong [OF e, of "image_mset fst"] arg_cong [OF e, of "image_mset snd"] by simp_all
  ultimately show ?case by (simp add: finish_request_def i) (rule exI [of _ m], simp)
next
  case Nil
  then show ?case by (intro exI [of _ "[]"] exI [of _ "ap_requests a"]) simp
qed

lemma transmit_short:
  "\<forall>x\<in>set sends. length (cs_payload x) \<le> EDGE_PAYLOAD_MAX \<Longrightarrow>
   transmit sends a = Some ([], a\<lparr>ap_output := ap_output a @ sends\<rparr>)"
proof (induction sends arbitrary: a)
  case (Cons x rest)
  then show ?case by (subst transmit.simps) (simp add: buildFrame_empty_iff)
qed (simp add: transmit.simps)

subsection \<open>The handlers\<close>

text \<open>
  What a handler may do to the rest of the state: it returns, keeps the invariant, accepts nothing, and
  the requests it held are those it has reported and those it holds; the queue loses a prefix at most.
\<close>

definition handled :: "gateway_app \<Rightarrow> app_event list \<Rightarrow> gateway_app \<Rightarrow> bool" where
  "handled a evs a' \<longleftrightarrow> app_ok a' \<and> accepted_ids evs = [] \<and>
     mset (reported_ids evs) + mset (held_ids a') = mset (held_ids a) \<and>
     ap_stopping a' = ap_stopping a \<and> ap_http_failed a' = ap_http_failed a"

abbreviation idle_queue :: "gateway_app \<Rightarrow> gateway_app \<Rightarrow> bool" where
  "idle_queue a a' \<equiv> ap_cmd_queue a' = ap_cmd_queue a"

lemma handled_refl: "app_ok a \<Longrightarrow> handled a [] a"
  by (simp add: handled_def)

lemma handled_trans: "handled a evs a' \<Longrightarrow> handled a' evs' a'' \<Longrightarrow> handled a (evs @ evs') a''"
  by (auto simp: handled_def union_assoc)

lemma update_interest_simps [simp]:
  "ap_tracker (updateSerialWriteInterest a) = ap_tracker a" "ap_requests (updateSerialWriteInterest a) = ap_requests a"
  "ap_cmd_queue (updateSerialWriteInterest a) = ap_cmd_queue a" "ap_downlink_fd (updateSerialWriteInterest a) = ap_downlink_fd a"
  "ap_stopping (updateSerialWriteInterest a) = ap_stopping a" "ap_http_failed (updateSerialWriteInterest a) = ap_http_failed a"
  "ap_running (updateSerialWriteInterest a) = ap_running a" "ap_output (updateSerialWriteInterest a) = ap_output a"
  by (auto simp: updateSerialWriteInterest_def Let_def split: option.splits)

lemma notify_simps [simp]:
  "ap_tracker (notifyDownlink a) = ap_tracker a" "ap_requests (notifyDownlink a) = ap_requests a"
  "ap_cmd_queue (notifyDownlink a) = ap_cmd_queue a" "ap_stopping (notifyDownlink a) = ap_stopping a"
  "ap_http_failed (notifyDownlink a) = ap_http_failed a" "ap_running (notifyDownlink a) = ap_running a"
  "0 < ap_downlink_fd (notifyDownlink a)"
  by (simp_all add: notifyDownlink_def)

lemma clock_simps [simp]:
  "ap_tracker (snd (clock_now a)) = ap_tracker a" "ap_requests (snd (clock_now a)) = ap_requests a"
  "ap_cmd_queue (snd (clock_now a)) = ap_cmd_queue a" "ap_downlink_fd (snd (clock_now a)) = ap_downlink_fd a"
  "ap_stopping (snd (clock_now a)) = ap_stopping a" "ap_http_failed (snd (clock_now a)) = ap_http_failed a"
  "ap_running (snd (clock_now a)) = ap_running a"
  by (simp_all add: clock_now_def)

lemma app_ok_cong:
  "ap_tracker a' = ap_tracker a \<Longrightarrow> ap_requests a' = ap_requests a \<Longrightarrow> app_ok a' = app_ok a"
  by (simp add: app_ok_def)

text \<open>The tracker's actions are applied: the reactor's table follows the tracker's.\<close>

lemma applyTrackerActions_handled:
  assumes "app_ok a" and "refines_call c (ap_tracker a) (actions, t)" and "tracker_wf t"
    and "ap_tracker b = t" and "ap_requests b = ap_requests a" and "ap_cmd_queue b = ap_cmd_queue a"
    and "ap_stopping b = ap_stopping a" and "ap_http_failed b = ap_http_failed a"
  shows "\<exists>evs a'. applyTrackerActions actions b = Some (evs, a') \<and> handled a evs a' \<and> ap_tracker a' = t \<and>
    idle_queue a a' \<and> ap_downlink_fd a' = ap_downlink_fd b \<and> ap_running a' = ap_running b"
proof -
  have ok: "tracker_wf (ap_tracker a)" "smap_ok (ap_requests b)" and keys: "map fst (ap_requests b) = in_flight (ap_tracker a)"
    using assms(1,5) by (simp_all add: app_ok_def)
  note fl = actions_flight [OF assms(2) ok(1)]
  have "distinct (in_flight (ap_tracker a))" using ok(2) keys smap.distinct_keys [of "ap_requests b"] by simp
  moreover have "mset (map cc_seq (ta_finished actions) @ in_flight t) = mset (in_flight (ap_tracker a))" using fl(1) by simp
  ultimately have d: "distinct (map cc_seq (ta_finished actions))" using mset_eq_imp_distinct_iff distinct_append by blast
  have "set (map cc_seq (ta_finished actions)) \<subseteq> set (in_flight (ap_tracker a))"
    using arg_cong [OF fl(1), of set_mset] by (auto simp del: mset_map)
  then have "set (map cc_seq (ta_finished actions)) \<subseteq> fst ` set (ap_requests b)" unfolding keys [symmetric] by simp
  from finish_requests_spec [OF ok(2) d this] obtain evs m where
    fin: "finish_requests (ta_finished actions) b = (evs, b\<lparr>ap_requests := m\<rparr>)" and m: "smap_ok m" "accepted_ids evs = []"
    and mk: "mset (map cc_seq (ta_finished actions)) + mset (map fst m) = mset (map fst (ap_requests b))"
    and ids: "mset (reported_ids evs) + mset (map snd m) = mset (map snd (ap_requests b))" by blast
  have "mset (map fst m) = mset (in_flight t)" using mk fl(1) keys by (metis add_left_cancel)
  moreover have "sorted_wrt (<) (map fst m)" "sorted_wrt (<) (in_flight t)"
    using m(1) tracker_wfD(4) [OF assms(3)] by (simp_all add: smap_ok_def)
  ultimately have mt: "map fst m = in_flight t" by (metis properties_for_sort strict_sorted_iff)
  let ?a = "updateSerialWriteInterest (b\<lparr>ap_requests := m, ap_output := ap_output b @ ta_send actions\<rparr>)"
  have "applyTrackerActions actions b = Some (evs, ?a)"
    using transmit_short [OF fl(2)] by (simp add: applyTrackerActions_def fin)
  moreover have "handled a evs ?a"
    using assms(3-) m mt ids by (simp add: handled_def app_ok_def held_ids_def union_ac)
  ultimately show ?thesis using assms(4,6) by simp
qed


lemma with_tracker_handled:
  assumes "app_ok a" and "\<And>now. refines_call (c now) (ap_tracker a) (f (ap_tracker a) now)"
    and "\<And>now. tracker_wf (snd (f (ap_tracker a) now))"
  shows "\<exists>evs a' now. with_tracker f a = Some (evs, a') \<and> handled a evs a' \<and> ap_tracker a' = snd (f (ap_tracker a) now) \<and>
    idle_queue a a' \<and> ap_downlink_fd a' = ap_downlink_fd a \<and> ap_running a' = ap_running a"
proof -
  let ?now = "fst (clock_now a)"
  obtain actions t where f: "f (ap_tracker a) ?now = (actions, t)" by fastforce
  let ?b = "(snd (clock_now a))\<lparr>ap_tracker := t\<rparr>"
  from assms(2,3) [of ?now] f have ref: "refines_call (c ?now) (ap_tracker a) (actions, t)" and wf: "tracker_wf t" by simp_all
  have w: "with_tracker f a = applyTrackerActions actions ?b" by (simp add: with_tracker_def f case_prod_beta)
  have "\<exists>evs a'. applyTrackerActions actions ?b = Some (evs, a') \<and> handled a evs a' \<and> ap_tracker a' = t \<and>
      idle_queue a a' \<and> ap_downlink_fd a' = ap_downlink_fd ?b \<and> ap_running a' = ap_running ?b"
    by (rule applyTrackerActions_handled [OF assms(1) ref wf]) simp_all
  with f show ?thesis unfolding w by simp (metis snd_conv)
qed

lemma notify_if_commands_simps [simp]:
  "ap_tracker (notify_if_commands a) = ap_tracker a" "ap_requests (notify_if_commands a) = ap_requests a"
  "ap_cmd_queue (notify_if_commands a) = ap_cmd_queue a" "ap_stopping (notify_if_commands a) = ap_stopping a"
  "ap_http_failed (notify_if_commands a) = ap_http_failed a" "ap_running (notify_if_commands a) = ap_running a"
  "tsq_queue (ap_cmd_queue a) \<noteq> [] \<Longrightarrow> 0 < ap_downlink_fd (notify_if_commands a)"
  by (simp_all add: notify_if_commands_def is_empty_def)

lemma handled_cong:
  "handled a evs b \<Longrightarrow> ap_tracker a' = ap_tracker b \<Longrightarrow> ap_requests a' = ap_requests b \<Longrightarrow> ap_cmd_queue a' = ap_cmd_queue b \<Longrightarrow>
   ap_stopping a' = ap_stopping b \<Longrightarrow> ap_http_failed a' = ap_http_failed b \<Longrightarrow> handled a evs a'"
  by (simp add: handled_def app_ok_def held_ids_def)

lemma app_okD: "app_ok a \<Longrightarrow> tracker_wf (ap_tracker a)"
  by (simp add: app_ok_def)

text \<open>A wakeup is on its way whenever there is a command the reactor could deal with.\<close>

definition could_handle :: "command_tracker \<Rightarrow> bool" where
  "could_handle t \<longleftrightarrow> tr_state t = Closed \<or> tr_state t = Failed \<or> canSubmit t"

definition awake :: "gateway_app \<Rightarrow> bool" where
  "awake a \<longleftrightarrow> (tsq_queue (ap_cmd_queue a) \<noteq> [] \<and> could_handle (ap_tracker a) \<longrightarrow> 0 < ap_downlink_fd a)"

definition quiet :: "gateway_app \<Rightarrow> app_event list \<Rightarrow> gateway_app \<Rightarrow> bool" where
  "quiet a evs a' \<longleftrightarrow> handled a evs a' \<and> idle_queue a a' \<and> ap_running a' = ap_running a \<and>
     (tsq_queue (ap_cmd_queue a') \<noteq> [] \<longrightarrow> 0 < ap_downlink_fd a')"

lemma complete_quiet:
  assumes "app_ok a"
  shows "\<exists>evs a'. complete x sent a = Some (evs, a') \<and> quiet a evs a'"
proof -
  have wf: "tracker_wf (ap_tracker a)" using assms by (rule app_okD)
  obtain evs a' where "with_tracker (\<lambda>t now. onWritten t x sent now) a = Some (evs, a')" "handled a evs a'" "idle_queue a a'"
      "ap_running a' = ap_running a"
    using with_tracker_handled [OF assms, of "\<lambda>now. CWritten x sent now" "\<lambda>t now. onWritten t x sent now"] onWritten_refines [OF wf] onWritten_wf [OF wf]
    by blast
  then show ?thesis by (auto simp: complete_def quiet_def elim: handled_cong)
qed

lemma dispatchFrame_quiet:
  assumes "app_ok a" and "sr_frame \<longleftrightarrow> f_type frame = EDGE_TYPE_SR_RECEIVED \<or> f_type frame = EDGE_TYPE_SR_RESULT \<or> f_type frame = EDGE_TYPE_SR_OPEN_ACK"
  shows "\<exists>evs a'. dispatchFrame frame received_at a = Some (evs, a') \<and> (if sr_frame then quiet a evs a' else evs = [TelemetryFrame frame received_at] \<and> a' = a)"
proof (cases sr_frame)
  case True
  have wf: "tracker_wf (ap_tracker a)" using assms(1) by (rule app_okD)
  let ?f = "\<lambda>t now. onFrame t (f_type frame) (f_payload frame) now"
  obtain evs a' where "with_tracker ?f a = Some (evs, a')" "handled a evs a'" "idle_queue a a'" "ap_running a' = ap_running a"
    using with_tracker_handled [OF assms(1), of "\<lambda>now. CFrame (f_type frame) (f_payload frame) now" ?f] onFrame_refines [OF wf] onFrame_wf [OF wf]
    by blast
  with True assms(2) show ?thesis by (auto simp: dispatchFrame_def quiet_def elim: handled_cong)
qed (use assms in \<open>auto simp: dispatchFrame_def\<close>)

lemma onCommandTimerEvent_quiet:
  assumes "app_ok a"
  shows "\<exists>evs a'. onCommandTimerEvent fired a = Some (evs, a') \<and> (if fired then quiet a evs a' else evs = [] \<and> a' = a)"
proof -
  have wf: "tracker_wf (ap_tracker a)" using assms by (rule app_okD)
  obtain evs a' where "with_tracker tracker_tick a = Some (evs, a')" "handled a evs a'" "idle_queue a a'" "ap_running a' = ap_running a"
    using with_tracker_handled [OF assms, of "\<lambda>now. CTick now" tracker_tick] tracker_tick_refines [OF wf] tracker_tick_wf [OF wf] by blast
  then show ?thesis by (auto simp: onCommandTimerEvent_def quiet_def elim: handled_cong)
qed

lemma quiet_trans: "quiet a evs a' \<Longrightarrow> quiet a' evs' a'' \<Longrightarrow> quiet a (evs @ evs') a''"
  unfolding quiet_def using handled_trans by auto

lemma quiet_app_ok: "quiet a evs a' \<Longrightarrow> app_ok a'"
  by (simp add: quiet_def handled_def)

lemma complete_all_quiet:
  assumes "app_ok a" and "xs \<noteq> []"
  shows "\<exists>evs a'. complete_all xs a = Some (evs, a') \<and> quiet a evs a'"
  using assms
proof (induction xs arbitrary: a)
  case (Cons x xs)
  obtain evs a' where x: "complete x False a = Some (evs, a')" "quiet a evs a'" using complete_quiet [OF Cons.prems(1)] by blast
  show ?case
  proof (cases "xs = []")
    case False
    with Cons.IH [OF quiet_app_ok [OF x(2)]] obtain evs' a'' where "complete_all xs a' = Some (evs', a'')" "quiet a' evs' a''" by blast
    with x quiet_trans [OF x(2)] show ?thesis by auto
  qed (use x in auto)
qed simp


lemma handled_output: "handled (a\<lparr>ap_output := xs\<rparr>) evs a' = handled a evs a'"
  by (simp add: handled_def held_ids_def)

lemma front_done_returns:
  assumes "app_ok a"
  shows "\<exists>evs a'. front_done sent a = Some (evs, a') \<and> handled a evs a' \<and> (awake a \<longrightarrow> awake a') \<and> ap_running a' = ap_running a"
proof (cases "ap_output a")
  case (Cons x rest)
  have "app_ok (a\<lparr>ap_output := rest\<rparr>)" using assms by (simp add: app_ok_def)
  from complete_quiet [OF this, of x sent] obtain evs a' where c: "complete x sent (a\<lparr>ap_output := rest\<rparr>) = Some (evs, a')"
    and q: "quiet (a\<lparr>ap_output := rest\<rparr>) evs a'" by blast
  from q have "handled a evs a'" by (simp add: quiet_def handled_output)
  then have "handled a evs (updateSerialWriteInterest a')" by (rule handled_cong) simp_all
  with c q Cons show ?thesis by (auto simp: front_done_def quiet_def awake_def)
qed (use assms in \<open>simp add: front_done_def handled_refl\<close>)

lemma write_failed_returns:
  assumes "app_ok a"
  shows "\<exists>evs a'. write_failed a = Some (evs, a') \<and> handled a evs a' \<and> (awake a \<longrightarrow> awake a') \<and> ap_running a' = ap_running a"
proof (cases "ap_output a = []")
  case False
  have "app_ok (a\<lparr>ap_output := []\<rparr>)" using assms by (simp add: app_ok_def)
  from complete_all_quiet [OF this False] obtain evs a' where c: "complete_all (ap_output a) (a\<lparr>ap_output := []\<rparr>) = Some (evs, a')"
    and q: "quiet (a\<lparr>ap_output := []\<rparr>) evs a'" by blast
  from q have "handled a evs a'" by (simp add: quiet_def handled_output)
  then have "handled a evs (updateSerialWriteInterest a')" by (rule handled_cong) simp_all
  with c q show ?thesis by (auto simp: write_failed_def quiet_def awake_def)
next
  case True
  have "handled a [] (updateSerialWriteInterest (a\<lparr>ap_output := []\<rparr>))" using handled_refl [OF assms] by (rule handled_cong) simp_all
  with True show ?thesis by (simp add: write_failed_def awake_def)
qed

subsection \<open>The downlink event\<close>

definition kept :: "gateway_app \<Rightarrow> app_event list \<Rightarrow> gateway_app \<Rightarrow> bool" where
  "kept a evs a' \<longleftrightarrow> handled a evs a' \<and> ap_running a' = ap_running a"

lemma kept_refl: "app_ok a \<Longrightarrow> kept a [] a"
  by (simp add: kept_def handled_refl)

lemma kept_trans: "kept a evs a' \<Longrightarrow> kept a' evs' a'' \<Longrightarrow> kept a (evs @ evs') a''"
  unfolding kept_def using handled_trans by auto

lemma kept_ok: "kept a evs a' \<Longrightarrow> app_ok a'"
  by (simp add: kept_def handled_def)

lemma register_simps [simp]:
  "ap_tracker (registerSerialEvent a) = ap_tracker a" "ap_requests (registerSerialEvent a) = ap_requests a"
  "ap_cmd_queue (registerSerialEvent a) = ap_cmd_queue a" "ap_stopping (registerSerialEvent a) = ap_stopping a"
  "ap_http_failed (registerSerialEvent a) = ap_http_failed a" "ap_running (registerSerialEvent a) = ap_running a"
  "ap_downlink_fd (registerSerialEvent a) = ap_downlink_fd a"
  by (simp_all add: registerSerialEvent_def)

lemma replace_link_kept:
  assumes "app_ok a"
  shows "\<exists>evs a'. replace_link r a = Some (evs, a') \<and> kept a evs a' \<and> idle_queue a a'"
proof (cases r)
  case True
  let ?a = "snd (clock_now (a\<lparr>ap_serial_channel := None\<rparr>))" and ?now = "fst (clock_now (a\<lparr>ap_serial_channel := None\<rparr>))"
  obtain actions t where s: "start (ap_tracker a) (tr_session (ap_tracker a)) ?now = (actions, t)" by fastforce
  have wf: "tracker_wf t" using start_wf [OF app_okD [OF assms], of "tr_session (ap_tracker a)" ?now] s by simp
  have ref: "refines_call (CStart (tr_session (ap_tracker a)) ?now) (ap_tracker a) (actions, t)"
    using start_refines [of _ "ap_tracker a" "tr_session (ap_tracker a)" ?now] unfolding s .
  let ?b = "registerSerialEvent (?a\<lparr>ap_tracker := t, ap_output := []\<rparr>)"
  have "replace_link r a = applyTrackerActions actions ?b"
    using True s by (simp add: replace_link_def Let_def case_prod_beta)
  moreover have "\<exists>evs a'. applyTrackerActions actions ?b = Some (evs, a') \<and> handled a evs a' \<and> ap_tracker a' = t \<and>
      idle_queue a a' \<and> ap_downlink_fd a' = ap_downlink_fd ?b \<and> ap_running a' = ap_running ?b"
    by (rule applyTrackerActions_handled [OF assms ref wf]) (simp_all)
  ultimately show ?thesis by (auto simp: kept_def)
next
  case False
  have "handled a [] (registerSerialEvent (a\<lparr>ap_serial_channel := None\<rparr>))" using handled_refl [OF assms] by (rule handled_cong) simp_all
  with False show ?thesis by (simp add: replace_link_def kept_def)
qed

lemma replace_links_kept:
  "app_ok a \<Longrightarrow> \<exists>evs a'. replace_links rs a = Some (evs, a') \<and> kept a evs a' \<and> idle_queue a a'"
proof (induction rs arbitrary: a)
  case (Cons r rs)
  obtain evs a' where r: "replace_link r a = Some (evs, a')" "kept a evs a'" "idle_queue a a'" using replace_link_kept [OF Cons.prems] by blast
  with Cons.IH [OF kept_ok [OF r(2)]] obtain evs' a'' where "replace_links rs a' = Some (evs', a'')" "kept a' evs' a''" "idle_queue a' a''" by blast
  with r kept_trans [OF r(2)] show ?case by auto
qed (simp add: kept_refl)

lemma start_not_closed: "tr_state (snd (start t s now)) \<noteq> Closed"
  by (simp add: start_def begin_session_def Let_def)

lemma open_session_kept:
  assumes "app_ok a"
  shows "\<exists>evs a'. open_session epoch a = Some (evs, a') \<and> kept a evs a' \<and>
    (tsq_queue (ap_cmd_queue a') = [] \<or> tr_state (ap_tracker a') \<noteq> Closed)"
proof (cases "tsq_queue (ap_cmd_queue a) \<noteq> [] \<and> tr_state (ap_tracker a) = Closed")
  case True
  let ?s = "if epoch > 0 then word_of_int epoch else 1 :: u64"
  let ?f = "\<lambda>t now. start t ?s now"
  obtain evs a' now where "with_tracker ?f a = Some (evs, a')" "handled a evs a'" "ap_running a' = ap_running a"
      "ap_tracker a' = snd (?f (ap_tracker a) now)"
    using with_tracker_handled [OF assms, of "\<lambda>now. CStart ?s now" ?f] start_refines start_wf [OF app_okD [OF assms]] by metis
  with True show ?thesis by (auto simp: open_session_def is_empty_def kept_def start_not_closed)
qed (use assms in \<open>auto simp: open_session_def is_empty_def kept_refl\<close>)


text \<open>A command taken from the queue is in the table afterwards, or rejected.\<close>

lemma smap_eqI: "smap_ok m \<Longrightarrow> smap_ok m' \<Longrightarrow> fst ` set m = fst ` set m' \<Longrightarrow> map fst m = map fst m'"
  unfolding smap_ok_def by (metis strict_sorted_equal set_map)

lemma emplace_keys_eq:
  assumes "smap_ok m" and "smap_ok m'" and "map fst m = map fst m'"
  shows "map fst (smap_emplace k v m) = map fst (smap_emplace k w m')"
proof -
  have "fst ` set m = fst ` set m'" using arg_cong [OF assms(3), of set] by simp
  with assms show ?thesis by (intro smap_eqI smap_ok_emplace) (simp_all add: smap_emplace_keys)
qed

lemma emplace_mset:
  "smap_find m k = None \<Longrightarrow> mset (smap_emplace k v m) = add_mset (k, v) (mset m)"
  by (induction k v m rule: smap_emplace.induct) (auto simp: smap_find_Cons split: if_splits)

lemma submit_one:
  assumes "app_ok a" and "canSubmit (ap_tracker a)" and "tsq_queue (ap_cmd_queue a) = d # ds"
    and "submit (ap_tracker a) (dc_type (dl_command d)) (dc_arg (dl_command d)) now = (send, t)"
  defines "b \<equiv> (snd (clock_now (a\<lparr>ap_cmd_queue := (ap_cmd_queue a)\<lparr>tsq_queue := ds\<rparr>\<rparr>)))\<lparr>ap_tracker := t\<rparr>"
  shows "\<exists>evs a'. (case send of
      Some x \<Rightarrow> queueTransmission x (b\<lparr>ap_requests := smap_emplace (cs_seq x) (dl_id d) (ap_requests b)\<rparr>)
    | None \<Rightarrow> Some ([CommandRejected (dl_id d) ''link_failed''], b)) = Some (evs, a') \<and> kept a evs a' \<and>
    tr_state (ap_tracker a') = tr_state (ap_tracker a)"
proof -
  have wf: "tracker_wf (ap_tracker a)" and req: "smap_ok (ap_requests a)" and keys: "map fst (ap_requests a) = in_flight (ap_tracker a)"
    using assms(1) by (simp_all add: app_ok_def)
  have b [simp]: "ap_requests b = ap_requests a" "tsq_queue (ap_cmd_queue b) = ds" "ap_tracker b = t"
    "ap_stopping b = ap_stopping a" "ap_http_failed b = ap_http_failed a" "ap_running b = ap_running a"
    by (simp_all add: b_def)
  show ?thesis
  proof (cases "length (dc_arg (dl_command d)) \<le> EDGE_SR_ARGS_MAX")
    case False
    with assms(4) have "send = None" "t = ap_tracker a" by (auto simp: submit_def)
    moreover have "kept a [CommandRejected (dl_id d) ''link_failed''] b"
      using assms(1,3) \<open>t = ap_tracker a\<close> by (simp add: kept_def handled_def app_ok_def held_ids_def)
    ultimately show ?thesis by simp
  next
    case True
    let ?q = "ucast (tr_next (ap_tracker a)) :: u8"
    let ?e = "fresh_entry (dc_type (dl_command d)) (dc_arg (dl_command d)) now"
    note acc = submit_accept [OF wf assms(2) True]
    from acc(1) [of "dc_type (dl_command d)" now] assms(4) have send: "send = Some (dataSend t ?q ?e)" and t: "tr_entries t = smap_emplace ?q ?e (tr_entries (ap_tracker a))"
        "tr_state t = tr_state (ap_tracker a)"
      by auto
    have wf': "tracker_wf t" using submit_wf [OF wf, of "dc_type (dl_command d)" "dc_arg (dl_command d)" now] assms(4) by simp
    let ?x = "dataSend t ?q ?e" and ?m = "smap_emplace ?q (dl_id d) (ap_requests a)"
    have seq: "cs_seq ?x = ?q" by (simp add: dataSend_def)
    have "length (cs_payload ?x) \<le> EDGE_PAYLOAD_MAX" using True by (simp add: dataSend_payload command_payload_def fresh_entry_def)
    then have tx: "queueTransmission ?x c = Some ([], c\<lparr>ap_output := ap_output c @ [?x]\<rparr>)" for c
      using transmit_short [of "[?x]" c] by (simp add: queueTransmission_def)
    have "smap_find (ap_requests a) ?q = None"
      using acc(2) keys by (auto simp: smap_find_def map_of_eq_None_iff simp flip: set_map)
    then have "mset (map snd ?m) = add_mset (dl_id d) (mset (map snd (ap_requests a)))"
      using emplace_mset [of "ap_requests a" ?q "dl_id d"] by simp
    moreover have "map fst ?m = in_flight t"
      unfolding t(1) using keys by (intro emplace_keys_eq req tracker_wfD(4) [OF wf])
    ultimately have "kept a [] (b\<lparr>ap_requests := ?m, ap_output := ap_output b @ [?x]\<rparr>)"
      using assms(3) wf' smap_ok_emplace [OF req] by (simp add: kept_def handled_def app_ok_def held_ids_def)
    then show ?thesis using t(2) by (simp add: send seq tx)
  qed
qed

lemma submit_loop_kept:
  assumes "app_ok a" and "tsq_queue (ap_cmd_queue a) = [] \<or> tr_state (ap_tracker a) \<noteq> Closed"
  shows "\<exists>evs left a'. submit_loop n a = Some (evs, left, a') \<and> kept a evs a' \<and>
    (left \<noteq> 0 \<longrightarrow> tsq_queue (ap_cmd_queue a') = [] \<or> \<not> could_handle (ap_tracker a'))"
  using assms
proof (induction n arbitrary: a)
  case (Suc left)
  show ?case
  proof (cases "tsq_queue (ap_cmd_queue a)")
    case Nil
    with Suc.prems show ?thesis by (simp add: is_empty_def kept_refl)
  next
    case (Cons d ds)
    then have pop: "try_pop (ap_cmd_queue a) = (Some d, (ap_cmd_queue a)\<lparr>tsq_queue := ds\<rparr>)" by (simp add: try_pop_def)
    let ?q = "(ap_cmd_queue a)\<lparr>tsq_queue := ds\<rparr>"
    consider (failed) "tr_state (ap_tracker a) = Failed" | (blocked) "tr_state (ap_tracker a) \<noteq> Failed" "\<not> canSubmit (ap_tracker a)"
      | (ready) "tr_state (ap_tracker a) \<noteq> Failed" "canSubmit (ap_tracker a)" by blast
    then show ?thesis
    proof cases
      case failed
      have one: "kept a [CommandRejected (dl_id d) ''link_failed''] (a\<lparr>ap_cmd_queue := ?q\<rparr>)"
        using Suc.prems(1) Cons by (simp add: kept_def handled_def app_ok_def held_ids_def)
      with failed Suc.IH [OF kept_ok [OF one]] obtain evs lf a' where
        "submit_loop left (a\<lparr>ap_cmd_queue := ?q\<rparr>) = Some (evs, lf, a')" "kept (a\<lparr>ap_cmd_queue := ?q\<rparr>) evs a'"
        "lf \<noteq> 0 \<longrightarrow> tsq_queue (ap_cmd_queue a') = [] \<or> \<not> could_handle (ap_tracker a')" by auto
      with failed Cons pop kept_trans [OF one] show ?thesis by (simp add: is_empty_def)
    next
      case blocked
      with Suc.prems Cons show ?thesis by (simp add: is_empty_def kept_refl could_handle_def)
    next
      case ready
      let ?c = "clock_now (a\<lparr>ap_cmd_queue := ?q\<rparr>)"
      obtain send t where s: "submit (ap_tracker a) (dc_type (dl_command d)) (dc_arg (dl_command d)) (fst ?c) = (send, t)" by fastforce
      obtain evs a' where one: "(case send of
            Some x \<Rightarrow> queueTransmission x (((snd ?c)\<lparr>ap_tracker := t\<rparr>)\<lparr>ap_requests := smap_emplace (cs_seq x) (dl_id d) (ap_requests ((snd ?c)\<lparr>ap_tracker := t\<rparr>))\<rparr>)
          | None \<Rightarrow> Some ([CommandRejected (dl_id d) ''link_failed''], (snd ?c)\<lparr>ap_tracker := t\<rparr>)) = Some (evs, a')"
        "kept a evs a'" "tr_state (ap_tracker a') = tr_state (ap_tracker a)"
        using submit_one [OF Suc.prems(1) ready(2) Cons s] by blast
      have "tr_state (ap_tracker a') \<noteq> Closed" using one(3) ready(2) by (simp add: canSubmit_def)
      with Suc.IH [OF kept_ok [OF one(2)]] obtain evs' lf a'' where
        "submit_loop left a' = Some (evs', lf, a'')" "kept a' evs' a''"
        "lf \<noteq> 0 \<longrightarrow> tsq_queue (ap_cmd_queue a'') = [] \<or> \<not> could_handle (ap_tracker a'')" by auto
      with ready Cons pop s one(1) kept_trans [OF one(2)] show ?thesis by (cases send) (auto simp: is_empty_def Let_def case_prod_beta)
    qed
  qed
qed (simp add: kept_refl)

lemma onDownlinkEvent_handled:
  assumes "app_ok a"
  shows "\<exists>evs a'. onDownlinkEvent epoch a = Some (evs, a') \<and> handled a evs a' \<and>
    (ap_running a' \<longrightarrow> ap_running a \<and> awake a')"
proof (cases "ap_stopping a \<or> ap_http_failed a")
  case True
  have "handled a [] (a\<lparr>ap_downlink_fd := 0, ap_running := False\<rparr>)" using handled_refl [OF assms] by (rule handled_cong) simp_all
  with True show ?thesis by (auto simp: onDownlinkEvent_def Let_def)
next
  case False
  let ?a = "a\<lparr>ap_downlink_fd := 0, ap_replacements := (ap_replacements a)\<lparr>tsq_queue := []\<rparr>\<rparr>"
  have a: "kept a [] ?a" using handled_cong [OF handled_refl [OF assms], of ?a] by (simp add: kept_def)
  obtain evs1 a1 where 1: "replace_links (tsq_queue (ap_replacements a)) ?a = Some (evs1, a1)" "kept ?a evs1 a1"
    using replace_links_kept [OF kept_ok [OF a]] by blast
  obtain evs2 a2 where 2: "open_session epoch a1 = Some (evs2, a2)" "kept a1 evs2 a2"
      "tsq_queue (ap_cmd_queue a2) = [] \<or> tr_state (ap_tracker a2) \<noteq> Closed"
    using open_session_kept [OF kept_ok [OF 1(2)]] by blast
  obtain evs3 left a3 where 3: "submit_loop kDownlinkBatchSize a2 = Some (evs3, left, a3)" "kept a2 evs3 a3"
      "left \<noteq> 0 \<longrightarrow> tsq_queue (ap_cmd_queue a3) = [] \<or> \<not> could_handle (ap_tracker a3)"
    using submit_loop_kept [OF kept_ok [OF 2(2)] 2(3)] by blast
  let ?b = "let b = updateSerialWriteInterest a3 in if left = 0 then notify_if_commands b else b"
  have "kept a (evs1 @ evs2 @ evs3) a3"
    using kept_trans [OF a kept_trans [OF 1(2) kept_trans [OF 2(2) 3(2)]]] by simp
  moreover have "awake ?b" using 3(3) by (auto simp: awake_def Let_def)
  moreover have "onDownlinkEvent epoch a = Some (evs1 @ evs2 @ evs3, ?b)"
    using False 1(1) 2(1) 3(1) by (simp add: onDownlinkEvent_def Let_def)
  ultimately show ?thesis by (auto simp: kept_def Let_def elim: handled_cong)
qed


subsection \<open>The reactor among the other threads\<close>

text \<open>
  Threads of the core that have pushed a command and not yet written the eventfd are counted apart. A handler
  runs while the loop runs; the destructor acts when it has ended.
\<close>

record reactor_system =
  rs_app :: gateway_app
  rs_notifying :: nat

definition start_reactor :: "(nat \<Rightarrow> time_point) \<Rightarrow> reactor_system" where
  "start_reactor clock = \<lparr>rs_app = new_app clock, rs_notifying = 0\<rparr>"

inductive reactor_step :: "reactor_system \<Rightarrow> app_event list \<Rightarrow> reactor_system \<Rightarrow> bool" where
  push_command: "submit_push ident command (rs_app r) = (True, a) \<Longrightarrow>
    reactor_step r [AcceptedRequest ident] (r\<lparr>rs_app := a, rs_notifying := rs_notifying r + 1\<rparr>)"
| notify_reactor: "rs_notifying r = Suc k \<Longrightarrow>
    reactor_step r [] (r\<lparr>rs_app := notifyDownlink (rs_app r), rs_notifying := k\<rparr>)"
| downlink: "ap_running (rs_app r) \<Longrightarrow> 0 < ap_downlink_fd (rs_app r) \<Longrightarrow>
    onDownlinkEvent epoch (rs_app r) = Some (evs, a) \<Longrightarrow> reactor_step r evs (r\<lparr>rs_app := a\<rparr>)"
| timer: "ap_running (rs_app r) \<Longrightarrow> onCommandTimerEvent fired (rs_app r) = Some (evs, a) \<Longrightarrow> reactor_step r evs (r\<lparr>rs_app := a\<rparr>)"
| frame_arrives: "ap_running (rs_app r) \<Longrightarrow> dispatchFrame frame received_at (rs_app r) = Some (evs, a) \<Longrightarrow>
    reactor_step r evs (r\<lparr>rs_app := a\<rparr>)"
| frame_written: "ap_running (rs_app r) \<Longrightarrow> front_done sent (rs_app r) = Some (evs, a) \<Longrightarrow> reactor_step r evs (r\<lparr>rs_app := a\<rparr>)"
| line_broken: "ap_running (rs_app r) \<Longrightarrow> write_failed (rs_app r) = Some (evs, a) \<Longrightarrow> reactor_step r evs (r\<lparr>rs_app := a\<rparr>)"
| stop_requested: "reactor_step r [] (r\<lparr>rs_app := requestStop (rs_app r)\<rparr>)"
| http_fails: "reactor_step r [] (r\<lparr>rs_app := notifyDownlink ((rs_app r)\<lparr>ap_http_failed := True\<rparr>)\<rparr>)"
| serial_reloaded: "reactor_step r [] (r\<lparr>rs_app := snd (reloadSerial fresh (rs_app r))\<rparr>)"
| closed: "\<not> ap_running (rs_app r) \<Longrightarrow> close_app (rs_app r) = (evs, a) \<Longrightarrow> reactor_step r evs (r\<lparr>rs_app := a\<rparr>)"

definition reactor_inv :: "app_event list \<Rightarrow> reactor_system \<Rightarrow> bool" where
  "reactor_inv evs r \<longleftrightarrow>
     mset (accepted_ids evs) = mset (reported_ids evs) + mset (held_ids (rs_app r)) \<and>
     (ap_running (rs_app r) \<longrightarrow> app_ok (rs_app r) \<and> (rs_notifying r = 0 \<longrightarrow> awake (rs_app r)))"

text \<open>The handlers, as far as the invariant needs them.\<close>

lemma handler_keeps_inv:
  assumes "reactor_inv evs0 r" and "ap_running (rs_app r)"
    and "app_ok (rs_app r) \<Longrightarrow> rs_notifying r = 0 \<Longrightarrow> awake (rs_app r) \<Longrightarrow> ap_running a \<Longrightarrow> awake a"
    and "app_ok (rs_app r) \<Longrightarrow> handled (rs_app r) evs a"
  shows "reactor_inv (evs0 @ evs) (r\<lparr>rs_app := a\<rparr>)"
proof -
  from assms(1,2) have inv: "mset (accepted_ids evs0) = mset (reported_ids evs0) + mset (held_ids (rs_app r))" "app_ok (rs_app r)"
    "rs_notifying r = 0 \<longrightarrow> awake (rs_app r)" by (simp_all add: reactor_inv_def)
  from assms(4) [OF inv(2)] have h: "app_ok a" "accepted_ids evs = []" "mset (reported_ids evs) + mset (held_ids a) = mset (held_ids (rs_app r))"
    by (simp_all add: handled_def)
  with inv assms(3) show ?thesis by (simp add: reactor_inv_def union_assoc)
qed

lemma quiet_awake: "quiet a evs a' \<Longrightarrow> awake a'"
  by (simp add: quiet_def awake_def)

lemma quiet_handled: "quiet a evs a' \<Longrightarrow> handled a evs a'"
  by (simp add: quiet_def)

lemma close_app_ids:
  "close_app a = (evs, a') \<Longrightarrow> accepted_ids evs = [] \<and> reported_ids evs = held_ids a \<and> held_ids a' = [] \<and> ap_running a' = ap_running a"
  by (auto simp: close_app_def Let_def held_ids_def shutdown_def accepted_ids_def reported_ids_def List.map_filter_def
      case_prod_beta comp_def)

lemma idle_change:
  assumes "reactor_inv evs r" and "ap_tracker a = ap_tracker (rs_app r)" and "ap_requests a = ap_requests (rs_app r)"
    and "ap_cmd_queue a = ap_cmd_queue (rs_app r)" and "ap_running a = ap_running (rs_app r)"
    and "k \<le> rs_notifying r" and "k = rs_notifying r \<Longrightarrow> ap_downlink_fd (rs_app r) \<le> ap_downlink_fd a" and "k < rs_notifying r \<Longrightarrow> 0 < ap_downlink_fd a"
  shows "reactor_inv evs (r\<lparr>rs_app := a, rs_notifying := k\<rparr>)"
  using assms by (cases "k = rs_notifying r") (auto simp: reactor_inv_def held_ids_def app_ok_def awake_def)

lemma notify_mono: "ap_downlink_fd a \<le> ap_downlink_fd (notifyDownlink a)"
  by (simp add: notifyDownlink_def)

lemma reactor_step_inv:
  assumes "reactor_step r evs r'" and "reactor_inv evs0 r"
  shows "reactor_inv (evs0 @ evs) r'"
  using assms(1)
proof cases
  case (push_command ident command a)
  then have "held_ids a = map dl_id (tsq_queue (ap_cmd_queue (rs_app r))) @ ident # map snd (ap_requests (rs_app r))"
    "ap_running a = ap_running (rs_app r)" "app_ok a = app_ok (rs_app r)"
    by (auto simp: submit_push_def try_push_def held_ids_def app_ok_def split: if_splits)
  with push_command assms(2) show ?thesis by (auto simp: reactor_inv_def held_ids_def)
next
  case (notify_reactor k)
  from idle_change [OF assms(2), of "notifyDownlink (rs_app r)" k] notify_reactor show ?thesis by simp
next
  case (downlink epoch a)
  have "handled (rs_app r) evs a \<and> (ap_running a \<longrightarrow> awake a)" if "app_ok (rs_app r)"
    using onDownlinkEvent_handled [OF that, of epoch] downlink(4) by auto
  then show ?thesis unfolding downlink(1) by (intro handler_keeps_inv assms(2) downlink(2)) auto
next
  case (timer fired a)
  have "handled (rs_app r) evs a \<and> (awake (rs_app r) \<longrightarrow> awake a)" if "app_ok (rs_app r)"
    using onCommandTimerEvent_quiet [OF that, of fired] timer(3) quiet_awake quiet_handled handled_refl [OF that]
    by (cases fired) auto
  then show ?thesis unfolding timer(1) by (intro handler_keeps_inv assms(2) timer(2)) auto
next
  case (frame_arrives frame received_at a)
  have "handled (rs_app r) evs a \<and> (awake (rs_app r) \<longrightarrow> awake a)" if "app_ok (rs_app r)"
    using dispatchFrame_quiet [OF that refl, of frame received_at] frame_arrives(3) quiet_awake quiet_handled handled_refl [OF that]
    by (auto simp: handled_def split: if_splits)
  then show ?thesis unfolding frame_arrives(1) by (intro handler_keeps_inv assms(2) frame_arrives(2)) auto
next
  case (frame_written sent a)
  have "handled (rs_app r) evs a \<and> (awake (rs_app r) \<longrightarrow> awake a)" if "app_ok (rs_app r)"
    using front_done_returns [OF that, of sent] frame_written(3) by auto
  then show ?thesis unfolding frame_written(1) by (intro handler_keeps_inv assms(2) frame_written(2)) auto
next
  case (line_broken a)
  have "handled (rs_app r) evs a \<and> (awake (rs_app r) \<longrightarrow> awake a)" if "app_ok (rs_app r)"
    using write_failed_returns [OF that] line_broken(3) by auto
  then show ?thesis unfolding line_broken(1) by (intro handler_keeps_inv assms(2) line_broken(2)) auto
next
  case stop_requested
  from idle_change [OF assms(2), of "requestStop (rs_app r)" "rs_notifying r"] stop_requested show ?thesis
    by (simp add: requestStop_def notifyDownlink_def)
next
  case http_fails
  from idle_change [OF assms(2), of "notifyDownlink ((rs_app r)\<lparr>ap_http_failed := True\<rparr>)" "rs_notifying r"] http_fails show ?thesis
    by (simp add: notifyDownlink_def)
next
  case (serial_reloaded fresh)
  from idle_change [OF assms(2), of "snd (reloadSerial fresh (rs_app r))" "rs_notifying r"] serial_reloaded show ?thesis
    by (auto simp: reloadSerial_def notifyDownlink_def split: option.splits prod.splits bool.splits)
next
  case (closed a)
  from close_app_ids [OF closed(3)] closed(1,2) assms(2) show ?thesis by (simp add: reactor_inv_def)
qed

lemma reactor_history:
  assumes "lts_steps reactor_step (start_reactor clock) evs r"
  shows "reactor_inv evs r"
  using assms
proof (rule steps_invariant)
  have "app_ok (new_app clock)" by (simp add: app_ok_def new_app_def smap_ok_def new_tracker_wf) (simp add: new_tracker_def)
  then show "reactor_inv [] (start_reactor clock)"
    by (simp add: reactor_inv_def start_reactor_def new_app_def held_ids_def new_queue_def awake_def)
qed (rule reactor_step_inv)


text \<open>
  C19. Every command the reactor accepts from the core ends exactly once. After any interleaving of
  submissions, frames, timer events, completed and failed writes, link replacements and the shutdown, the
  requests accepted are, with multiplicity, those reported finished or rejected and those still held; while
  the reactor runs its table has exactly the sequence numbers the tracker has in flight; and the
  destructor reports everything that is left.
\<close>

theorem reactor_ends_each_command_once:
  assumes "lts_steps reactor_step (start_reactor clock) evs r"
  shows "mset (accepted_ids evs) = mset (reported_ids evs) + mset (held_ids (rs_app r)) \<and>
    (ap_running (rs_app r) \<longrightarrow> map fst (ap_requests (rs_app r)) = in_flight (ap_tracker (rs_app r))) \<and>
    mset (accepted_ids evs) = mset (reported_ids (evs @ fst (close_app (rs_app r))))"
proof -
  obtain evs' a where "close_app (rs_app r) = (evs', a)" by fastforce
  from close_app_ids [OF this] this reactor_history [OF assms] show ?thesis by (simp add: reactor_inv_def app_ok_def)
qed

text \<open>
  C20. The reactor never sleeps on work and never hangs. While it runs, if a command waits that could be dealt
  with now (no session yet, the link given up, or a free place in the window), the eventfd is readable or a
  submitter is about to write it; and every handler returns, although a refused frame would call back into it.
\<close>

theorem reactor_never_sleeps_on_work:
  assumes "lts_steps reactor_step (start_reactor clock) evs r" and "ap_running (rs_app r)"
  shows "(tsq_queue (ap_cmd_queue (rs_app r)) \<noteq> [] \<and> could_handle (ap_tracker (rs_app r)) \<longrightarrow>
      0 < ap_downlink_fd (rs_app r) \<or> 0 < rs_notifying r) \<and>
    onDownlinkEvent epoch (rs_app r) \<noteq> None \<and> onCommandTimerEvent fired (rs_app r) \<noteq> None \<and>
    dispatchFrame frame received_at (rs_app r) \<noteq> None \<and> front_done sent (rs_app r) \<noteq> None \<and> write_failed (rs_app r) \<noteq> None"
proof -
  from reactor_history [OF assms(1)] assms(2) have ok: "app_ok (rs_app r)" and w: "rs_notifying r = 0 \<longrightarrow> awake (rs_app r)"
    by (simp_all add: reactor_inv_def)
  have "onDownlinkEvent epoch (rs_app r) \<noteq> None" using onDownlinkEvent_handled [OF ok, of epoch] by auto
  moreover have "onCommandTimerEvent fired (rs_app r) \<noteq> None" using onCommandTimerEvent_quiet [OF ok, of fired] by blast
  moreover have "dispatchFrame frame received_at (rs_app r) \<noteq> None"
    using dispatchFrame_quiet [OF ok refl, of frame received_at] by blast
  moreover have "front_done sent (rs_app r) \<noteq> None" using front_done_returns [OF ok, of sent] by auto
  moreover have "write_failed (rs_app r) \<noteq> None" using write_failed_returns [OF ok] by auto
  moreover have "tsq_queue (ap_cmd_queue (rs_app r)) \<noteq> [] \<and> could_handle (ap_tracker (rs_app r)) \<longrightarrow>
      0 < ap_downlink_fd (rs_app r) \<or> 0 < rs_notifying r"
    using w unfolding awake_def by (cases "rs_notifying r = 0") (simp, blast)
  ultimately show ?thesis by blast
qed

text \<open>A command is pushed, the gateway is asked to stop, and the reactor leaves its loop.\<close>

definition demo_app :: gateway_app where
  "demo_app = snd (submit_push 7 \<lparr>dc_type = EDGE_TYPE_QUERY_LIGHT, dc_arg = []\<rparr> (new_app (\<lambda>n. 0)))"

lemma demo_push: "lts_steps reactor_step (start_reactor (\<lambda>n. 0)) [AcceptedRequest 7] \<lparr>rs_app = demo_app, rs_notifying = 1\<rparr>"
proof -
  have "submit_push 7 \<lparr>dc_type = EDGE_TYPE_QUERY_LIGHT, dc_arg = []\<rparr> (rs_app (start_reactor (\<lambda>n. 0))) = (True, demo_app)"
    by (simp add: demo_app_def submit_push_def try_push_def start_reactor_def new_app_def new_queue_def)
  from steps_single [of reactor_step, OF push_command [OF this]] show ?thesis by (simp add: start_reactor_def)
qed

definition demo_stopped :: gateway_app where
  "demo_stopped = demo_app\<lparr>ap_stopping := True, ap_downlink_fd := 0, ap_running := False\<rparr>"

lemma demo_stop: "lts_steps reactor_step (start_reactor (\<lambda>n. 0)) [AcceptedRequest 7] \<lparr>rs_app = demo_stopped, rs_notifying = 1\<rparr>"
proof -
  let ?r = "\<lparr>rs_app = demo_app, rs_notifying = 1\<rparr>" and ?s = "\<lparr>rs_app = requestStop demo_app, rs_notifying = 1\<rparr>"
  have "reactor_step ?r [] ?s" using stop_requested [of ?r] by simp
  moreover have "reactor_step ?s [] \<lparr>rs_app = demo_stopped, rs_notifying = 1\<rparr>"
    using downlink [of ?s 0 "[]" demo_stopped]
    by (simp add: onDownlinkEvent_def requestStop_def notifyDownlink_def demo_stopped_def demo_app_def submit_push_def
        try_push_def new_app_def new_queue_def Let_def)
  ultimately have "lts_steps reactor_step ?r ([] @ []) \<lparr>rs_app = demo_stopped, rs_notifying = 1\<rparr>"
    by (blast intro: steps_step steps_single)
  from steps_trans [of reactor_step, OF demo_push this] show ?thesis by simp
qed

theorem reactor_ends_each_command_once_witness:
  "reported_ids (fst (close_app demo_stopped)) = [7]"
proof -
  from reactor_ends_each_command_once [OF demo_stop]
  have "mset (accepted_ids [AcceptedRequest 7]) = mset (reported_ids ([AcceptedRequest 7] @ fst (close_app demo_stopped)))" by simp
  then have "mset (reported_ids (fst (close_app demo_stopped))) = {#7#}" by simp
  then show ?thesis by (metis mset_single_iff)
qed

theorem reactor_never_sleeps_on_work_witness:
  "tsq_queue (ap_cmd_queue demo_app) \<noteq> [] \<and> onDownlinkEvent 5 demo_app \<noteq> None"
proof -
  have "ap_running demo_app" "tsq_queue (ap_cmd_queue demo_app) \<noteq> []"
    by (simp_all add: demo_app_def submit_push_def try_push_def new_app_def new_queue_def)
  with reactor_never_sleeps_on_work [OF demo_push] show ?thesis by simp
qed

end
