(* ===== verification/Http_Session.thy ===== *)
theory Http_Session
  imports Http_Text Lts
begin

text \<open>
  The network side of \<^verbatim>\<open>gateway/io/http/HttpServer.cpp\<close>: one connection reads a request, hands it to the
  application and writes the answer, which may come from any thread, late, twice or never. Reading, parsing
  and writing are asynchronous operations of Boost.Beast: their outcome is the argument of the completion
  handler. \<open>alive\<close> says whether the weak reference to the server can be locked.
\<close>

subsection \<open>The session\<close>

datatype read_error = HeaderLimit | BodyLimit | EndOfStream | OperationAborted | ReadTimeout | OtherError

record parsed_request =
  pr_version :: nat
  pr_keep_alive :: bool
  pr_method :: string
  pr_target :: string

datatype io_operation = NoOperation | Reading | Writing

record http_session =
  se_request_id :: u64
  se_version :: nat
  se_keep_alive :: bool
  se_head :: bool
  se_waiting :: bool
  se_closed :: bool
  se_io :: io_operation

definition new_session :: http_session where
  "new_session = \<lparr>se_request_id = 0, se_version = 11, se_keep_alive = False, se_head = False,
     se_waiting = False, se_closed = False, se_io = NoOperation\<rparr>"

text \<open>What is written to the connection; a HEAD answer has the length of the body and not the body.\<close>

datatype session_event =
    Requested u64
  | Responded u64 nat string bool "string option"

definition session_read :: "bool \<Rightarrow> http_session \<Rightarrow> http_session" where
  "session_read alive s =
    (if \<not> alive \<or> se_closed s then s
     else s\<lparr>se_version := 11, se_head := False, se_io := Reading\<rparr>)"

definition session_close :: "http_session \<Rightarrow> http_session" where
  "session_close s = (if se_closed s then s else s\<lparr>se_closed := True, se_waiting := False\<rparr>)"

definition session_reply ::
    "bool \<Rightarrow> u64 \<Rightarrow> HttpResponse \<Rightarrow> http_session \<Rightarrow> session_event list \<times> http_session" where
  "session_reply alive request_id response s =
    (if se_closed s \<or> \<not> se_waiting s \<or> request_id \<noteq> se_request_id s then ([], s)
     else
       let s = s\<lparr>se_waiting := False\<rparr>
       in if \<not> alive then ([], session_close s)
          else
            ([Responded request_id (hr_status response) (hr_content_type response) (se_keep_alive s)
                (if se_head s then None else Some (hr_body response))],
             s\<lparr>se_io := Writing\<rparr>))"

text \<open>The handler of a finished write.\<close>

definition write_done :: "bool \<Rightarrow> bool \<Rightarrow> http_session \<Rightarrow> http_session" where
  "write_done alive failed s =
    (let s = s\<lparr>se_io := NoOperation\<rparr>
     in if failed \<or> \<not> se_keep_alive s \<or> se_closed s then session_close s else session_read alive s)"

definition session_fail :: "bool \<Rightarrow> nat \<Rightarrow> http_session \<Rightarrow> session_event list \<times> http_session" where
  "session_fail alive status s =
    (let s = s\<lparr>se_keep_alive := False, se_waiting := True, se_request_id := se_request_id s + 1\<rparr>
     in case session_reply alive (se_request_id s) (json_error status ''invalid request'') s of
          (evs, s) \<Rightarrow> (Requested (se_request_id s) # evs, s))"

text \<open>The application's answer to a submission: taken, refused, or an exception.\<close>

datatype submission = Taken | Refused | Threw

text \<open>
  \<^verbatim>\<open>onRead\<close>: the result also says whether a business timer was armed and a reply callback handed out, both
  for the new request number.
\<close>

definition onRead ::
    "bool \<Rightarrow> read_error + parsed_request \<Rightarrow> submission \<Rightarrow> http_session \<Rightarrow> session_event list \<times> bool \<times> http_session" where
  "onRead alive result outcome s =
    (let s = s\<lparr>se_io := NoOperation\<rparr>
     in if se_closed s then ([], False, s)
        else case result of
               Inl ec \<Rightarrow>
                 if ec = HeaderLimit then (case session_fail alive 431 s of (evs, s) \<Rightarrow> (evs, False, s))
                 else if ec = BodyLimit then (case session_fail alive 413 s of (evs, s) \<Rightarrow> (evs, False, s))
                 else if ec = EndOfStream \<or> ec = OperationAborted \<or> ec = ReadTimeout then ([], False, session_close s)
                 else (case session_fail alive 400 s of (evs, s) \<Rightarrow> (evs, False, s))
             | Inr req \<Rightarrow>
                 let s = s\<lparr>se_version := pr_version req, se_keep_alive := pr_keep_alive req, se_head := (pr_method req = ''HEAD'')\<rparr>
                 in if pr_target req = [] \<or> hd (pr_target req) \<noteq> CHR ''/''
                    then (case session_fail alive 400 s of (evs, s) \<Rightarrow> (evs, False, s))
                    else if \<not> alive then ([], False, session_close s)
                    else
                      let s = s\<lparr>se_waiting := True, se_request_id := se_request_id s + 1\<rparr>;
                          request_id = se_request_id s
                      in case (case outcome of
                                 Taken \<Rightarrow> ([], s)
                               | Threw \<Rightarrow> session_reply alive request_id (json_error 500 ''request failed'') (s\<lparr>se_keep_alive := False\<rparr>)
                               | Refused \<Rightarrow> session_reply alive request_id (json_error 503 ''server busy'') (s\<lparr>se_keep_alive := False\<rparr>)) of
                           (evs, s) \<Rightarrow> (Requested request_id # evs, True, s))"

text \<open>The handler of the business timer of one request.\<close>

definition timer_fires :: "bool \<Rightarrow> u64 \<Rightarrow> http_session \<Rightarrow> session_event list \<times> http_session" where
  "timer_fires alive request_id s =
    (if se_waiting s \<and> se_request_id s = request_id
     then session_reply alive request_id (json_error 504 ''request timeout'') (s\<lparr>se_keep_alive := False\<rparr>)
     else ([], s))"

subsection \<open>The connection among the other threads\<close>

text \<open>
  Around a session: the business timers whose handler may still run (cancelling one that has already expired
  does not help, so a timer stays here until its handler has run), the reply callbacks given to the application with
  the ones already used, and the replies posted to the network thread through the bridge.
\<close>

record http_connection =
  hc_session :: http_session
  hc_timers :: "u64 set"
  hc_callbacks :: "u64 set"
  hc_delivered :: "u64 set"
  hc_posted :: "(u64 \<times> HttpResponse) list"
  hc_bridge :: bool

definition new_connection :: http_connection where
  "new_connection = \<lparr>hc_session = session_read True new_session, hc_timers = {}, hc_callbacks = {}, hc_delivered = {},
     hc_posted = [], hc_bridge = True\<rparr>"

text \<open>A call of the reply callback of one request, from any thread, and \<^verbatim>\<open>ReplyBridge::post\<close>.\<close>

definition bridge_post :: "u64 \<times> HttpResponse \<Rightarrow> http_connection \<Rightarrow> http_connection" where
  "bridge_post r c = (if hc_bridge c then c\<lparr>hc_posted := hc_posted c @ [r]\<rparr> else c)"

definition call_reply :: "u64 \<Rightarrow> HttpResponse \<Rightarrow> http_connection \<Rightarrow> http_connection" where
  "call_reply request_id response c =
    (if request_id \<in> hc_delivered c then c
     else bridge_post (request_id, response) (c\<lparr>hc_delivered := insert request_id (hc_delivered c)\<rparr>))"

definition bridge_disable :: "http_connection \<Rightarrow> http_connection" where
  "bridge_disable c = c\<lparr>hc_bridge := False\<rparr>"

inductive http_step :: "http_connection \<Rightarrow> session_event list \<Rightarrow> http_connection \<Rightarrow> bool" where
  read_completes: "se_io (hc_session c) = Reading \<Longrightarrow> se_request_id (hc_session c) \<noteq> - 1 \<Longrightarrow>
    onRead alive result outcome (hc_session c) = (evs, armed, s) \<Longrightarrow>
    http_step c evs (c\<lparr>hc_session := s, hc_timers := hc_timers c \<union> (if armed then {se_request_id s} else {}),
      hc_callbacks := hc_callbacks c \<union> (if armed then {se_request_id s} else {})\<rparr>)"
| write_completes: "se_io (hc_session c) = Writing \<Longrightarrow>
    http_step c [] (c\<lparr>hc_session := write_done alive failed (hc_session c)\<rparr>)"
| timer_expires: "request_id \<in> hc_timers c \<Longrightarrow> timer_fires alive request_id (hc_session c) = (evs, s) \<Longrightarrow>
    http_step c evs (c\<lparr>hc_session := s, hc_timers := hc_timers c - {request_id}\<rparr>)"
| application_replies: "request_id \<in> hc_callbacks c \<Longrightarrow> http_step c [] (call_reply request_id response c)"
| posted_reply: "hc_posted c = (request_id, response) # rest \<Longrightarrow>
    session_reply alive request_id response (hc_session c) = (evs, s) \<Longrightarrow>
    http_step c evs (c\<lparr>hc_session := s, hc_posted := rest\<rparr>)"
| server_stops: "http_step c [] (bridge_disable (c\<lparr>hc_session := session_close (hc_session c)\<rparr>))"

subsection \<open>The accepting side\<close>

definition kConnectionLimit :: nat where "kConnectionLimit = 256"

record http_server =
  sv_sessions :: "nat set"
  sv_stopping :: bool
  sv_accepting :: bool
  sv_retry :: bool

text \<open>The handler of \<^verbatim>\<open>async_accept\<close>: \<open>aborted\<close> is the error \<^verbatim>\<open>operation_aborted\<close>.\<close>

datatype accept_result = NewConnection nat | Accept_error bool

definition accept_done :: "accept_result \<Rightarrow> http_server \<Rightarrow> http_server" where
  "accept_done r v =
    (let v = v\<lparr>sv_accepting := False\<rparr>
     in if sv_stopping v then v
        else case r of
               NewConnection session \<Rightarrow>
                 let v = (if card (sv_sessions v) < kConnectionLimit then v\<lparr>sv_sessions := insert session (sv_sessions v)\<rparr> else v)
                 in v\<lparr>sv_accepting := True\<rparr>
             | Accept_error aborted \<Rightarrow> if \<not> aborted then v\<lparr>sv_retry := True\<rparr> else v)"

definition retry_fires :: "bool \<Rightarrow> http_server \<Rightarrow> http_server" where
  "retry_fires failed v =
    (let v = v\<lparr>sv_retry := False\<rparr> in if \<not> failed \<and> \<not> sv_stopping v then v\<lparr>sv_accepting := True\<rparr> else v)"

definition remove_session :: "nat \<Rightarrow> http_server \<Rightarrow> http_server" where
  "remove_session session v = v\<lparr>sv_sessions := sv_sessions v - {session}\<rparr>"

definition server_stop :: "http_server \<Rightarrow> http_server" where
  "server_stop v = (if sv_stopping v then v else v\<lparr>sv_stopping := True, sv_sessions := {}, sv_accepting := False, sv_retry := False\<rparr>)"

definition server_timeout :: "int option \<Rightarrow> int" where
  "server_timeout idle_timeout_s = max 1 (case idle_timeout_s of None \<Rightarrow> 5 | Some t \<Rightarrow> t)"

subsection \<open>What a session writes\<close>

lemmas session_defs = session_read_def session_close_def session_reply_def session_fail_def

definition requested :: "session_event list \<Rightarrow> u64 list" where
  "requested evs = List.map_filter (\<lambda>e. case e of Requested i \<Rightarrow> Some i | _ \<Rightarrow> None) evs"

definition responded :: "session_event list \<Rightarrow> u64 list" where
  "responded evs = List.map_filter (\<lambda>e. case e of Responded i _ _ _ _ \<Rightarrow> Some i | _ \<Rightarrow> None) evs"

lemma session_events_simps [simp]:
  "requested [] = []" "requested (Requested i # evs) = i # requested evs" "requested (Responded i st ct k b # evs) = requested evs"
  "requested (evs @ evs') = requested evs @ requested evs'"
  "responded [] = []" "responded (Requested i # evs) = responded evs" "responded (Responded i st ct k b # evs) = i # responded evs"
  "responded (evs @ evs') = responded evs @ responded evs'"
  by (simp_all add: requested_def responded_def List.map_filter_def)

text \<open>The request that has no answer yet, if there is one.\<close>

definition open_request :: "http_session \<Rightarrow> u64 list \<Rightarrow> bool" where
  "open_request s rest \<longleftrightarrow> (rest = [] \<or> rest = [se_request_id s]) \<and> (\<not> se_closed s \<longrightarrow> (rest \<noteq> []) = se_waiting s)"

definition session_ok :: "http_session \<Rightarrow> bool" where
  "session_ok s \<longleftrightarrow> (se_closed s \<longrightarrow> \<not> se_waiting s) \<and> (se_waiting s \<longrightarrow> se_io s = NoOperation)"

definition connection_ok :: "session_event list \<Rightarrow> http_connection \<Rightarrow> bool" where
  "connection_ok evs c \<longleftrightarrow>
     session_ok (hc_session c) \<and> sorted_wrt (<) (requested evs) \<and> (\<forall>i\<in>set (requested evs). i \<le> se_request_id (hc_session c)) \<and>
     (\<exists>rest. requested evs = responded evs @ rest \<and> open_request (hc_session c) rest) \<and>
     (se_waiting (hc_session c) \<longrightarrow> se_request_id (hc_session c) \<in> hc_timers c)"

text \<open>The three ways a session changes: a reply that is dropped or written, a close, and a new request.\<close>

lemma session_reply_cases:
  assumes "session_ok s" and "session_reply alive i response s = (evs, s')"
  obtains (dropped) "evs = []" "s' = s"
  | (written) k b where "i = se_request_id s" "\<not> se_closed s" "se_waiting s"
      "evs = [Responded i (hr_status response) (hr_content_type response) k b]" "s' = s\<lparr>se_waiting := False, se_io := Writing\<rparr>"
  | (gone) "evs = []" "s' = s\<lparr>se_waiting := False, se_closed := True\<rparr>" "se_waiting s"
proof (cases "se_closed s \<or> \<not> se_waiting s \<or> i \<noteq> se_request_id s")
  case True
  with assms(2) show thesis by (intro dropped) (simp_all add: session_reply_def)
next
  case False
  show thesis
  proof (cases alive)
    case True
    with False assms(2) show thesis
      by (intro written [of "se_keep_alive s" "if se_head s then None else Some (hr_body response)"]) (auto simp: session_reply_def Let_def)
  next
    case no: False
    with False assms(2) show thesis by (intro gone) (auto simp: session_reply_def session_close_def Let_def)
  qed
qed

lemma reply_keeps:
  assumes "connection_ok evs0 c" and "session_reply alive i response (hc_session c) = (evs, s)"
  shows "connection_ok (evs0 @ evs) (c\<lparr>hc_session := s, hc_timers := ts, hc_posted := ps\<rparr>) \<or>
    evs = [] \<and> s = hc_session c"
proof -
  have ok: "session_ok (hc_session c)" using assms(1) by (simp add: connection_ok_def)
  from ok assms(2) show ?thesis
  proof (cases rule: session_reply_cases)
    case (written k b)
    with assms(1) show ?thesis
      by (auto simp: connection_ok_def session_ok_def open_request_def)
  next
    case gone
    with assms(1) show ?thesis by (auto simp: connection_ok_def session_ok_def open_request_def)
  qed simp
qed

lemma close_keeps: "connection_ok evs c \<Longrightarrow> connection_ok evs (c\<lparr>hc_session := session_close (hc_session c)\<rparr>)"
  by (auto simp: connection_ok_def session_ok_def open_request_def session_close_def)

lemma write_done_keeps:
  assumes "connection_ok evs c" and "se_io (hc_session c) = Writing"
  shows "connection_ok evs (c\<lparr>hc_session := write_done alive failed (hc_session c)\<rparr>)"
  using assms
  by (auto simp: connection_ok_def session_ok_def open_request_def write_done_def session_close_def session_read_def Let_def)

text \<open>A reply to the open request is never dropped.\<close>

lemma reply_now:
  assumes "connection_ok evs0 c" and "session_reply alive (se_request_id (hc_session c)) response (hc_session c) = (evs, s)"
    and "se_waiting (hc_session c)"
  shows "connection_ok (evs0 @ evs) (c\<lparr>hc_session := s, hc_timers := ts, hc_callbacks := cs\<rparr>)"
proof -
  have "\<not> se_closed (hc_session c)" using assms(1,3) by (auto simp: connection_ok_def session_ok_def)
  then have "s \<noteq> hc_session c"
    using assms(2,3) by (auto simp: session_reply_def session_close_def Let_def split: if_splits dest!: arg_cong [of _ _ se_waiting])
  with reply_keeps [OF assms(1,2), where ts = ts and ps = "hc_posted c"] show ?thesis by (simp add: connection_ok_def)
qed

lemma u64_succ: "(k :: u64) \<noteq> - 1 \<Longrightarrow> k < k + 1"
  by (metis add_eq_0_iff2 add.commute lessI unatSuc word_less_nat_alt)

definition new_request :: "http_session \<Rightarrow> http_session \<Rightarrow> bool" where
  "new_request s s' \<longleftrightarrow> \<not> se_closed s \<and> \<not> se_waiting s \<and> se_request_id s \<noteq> - 1 \<and>
     se_waiting s' \<and> \<not> se_closed s' \<and> se_io s' = NoOperation \<and> se_request_id s' = se_request_id s + 1"

lemma new_request_keeps:
  assumes "connection_ok evs c" and "new_request (hc_session c) s" and "se_request_id s \<in> ts"
  shows "connection_ok (evs @ [Requested (se_request_id s)]) (c\<lparr>hc_session := s, hc_timers := ts, hc_callbacks := cs\<rparr>)"
proof -
  let ?i = "se_request_id (hc_session c)"
  have lt: "?i < ?i + 1" using assms(2) by (intro u64_succ) (simp add: new_request_def)
  have "\<forall>i\<in>set (requested evs). i < ?i + 1"
  proof
    fix i assume "i \<in> set (requested evs)"
    then have "i \<le> ?i" using assms(1) by (simp add: connection_ok_def)
    from this lt show "i < ?i + 1" by (rule le_less_trans)
  qed
  moreover have "requested evs = responded evs"
    using assms(1,2) by (auto simp: connection_ok_def open_request_def new_request_def)
  ultimately show ?thesis
    using assms by (auto simp: connection_ok_def session_ok_def open_request_def new_request_def sorted_wrt_append order_less_imp_le)
qed

text \<open>A request that is answered at once: a malformed one, or one the application does not take.\<close>

lemma answered_request_keeps:
  assumes "connection_ok evs0 c" and "new_request (hc_session c) s"
    and "session_reply alive (se_request_id s) response s = (evs, s')"
  shows "connection_ok (evs0 @ Requested (se_request_id s) # evs) (c\<lparr>hc_session := s', hc_timers := ts, hc_callbacks := cs\<rparr>) \<and>
    se_request_id s' = se_request_id s"
proof -
  let ?c = "c\<lparr>hc_session := s, hc_timers := UNIV, hc_callbacks := cs\<rparr>"
  have c: "connection_ok (evs0 @ [Requested (se_request_id s)]) ?c" by (rule new_request_keeps [OF assms(1,2)]) simp
  have "session_reply alive (se_request_id (hc_session ?c)) response (hc_session ?c) = (evs, s')" "se_waiting (hc_session ?c)"
    using assms(2,3) by (simp_all add: new_request_def)
  from reply_now [OF c this, where ts = ts and cs = cs] have "connection_ok (evs0 @ Requested (se_request_id s) # evs) (c\<lparr>hc_session := s', hc_timers := ts, hc_callbacks := cs\<rparr>)"
    by simp
  moreover have "se_request_id s' = se_request_id s"
    using assms(3) by (auto simp: session_reply_def session_close_def Let_def split: if_splits)
  ultimately show ?thesis by simp
qed

lemma fail_keeps:
  assumes "connection_ok evs0 c" and "new_request (hc_session c) (s\<lparr>se_keep_alive := False, se_waiting := True, se_request_id := se_request_id s + 1\<rparr>)"
    and "session_fail alive status s = (evs, s')"
  shows "connection_ok (evs0 @ evs) (c\<lparr>hc_session := s', hc_timers := ts, hc_callbacks := cs\<rparr>)"
proof -
  let ?s = "s\<lparr>se_keep_alive := False, se_waiting := True, se_request_id := se_request_id s + 1\<rparr>"
  obtain evs' s'' where r: "session_reply alive (se_request_id ?s) (json_error status ''invalid request'') ?s = (evs', s'')" by fastforce
  with assms(3) have "evs = Requested (se_request_id s'') # evs'" "s' = s''" by (auto simp: session_fail_def Let_def)
  with answered_request_keeps [OF assms(1,2) r, where ts = ts and cs = cs] show ?thesis by simp
qed

lemma close_new_keeps:
  assumes "connection_ok evs c" and "\<not> se_closed s" and "se_request_id s = se_request_id (hc_session c)" "\<not> se_waiting (hc_session c)" "\<not> se_closed (hc_session c)"
  shows "connection_ok evs (c\<lparr>hc_session := session_close s, hc_timers := ts, hc_callbacks := cs\<rparr>)"
  using assms by (auto simp: connection_ok_def session_ok_def open_request_def session_close_def)

lemma onRead_keeps:
  assumes "connection_ok evs0 c" and "se_io (hc_session c) = Reading" and "se_request_id (hc_session c) \<noteq> - 1"
    and "onRead alive result outcome (hc_session c) = (evs, armed, s)"
  shows "connection_ok (evs0 @ evs) (c\<lparr>hc_session := s, hc_timers := hc_timers c \<union> (if armed then {se_request_id s} else {}),
      hc_callbacks := cs\<rparr>)"
proof (cases "se_closed (hc_session c)")
  case True
  with assms show ?thesis by (auto simp: onRead_def connection_ok_def session_ok_def open_request_def)
next
  case False
  let ?s = "hc_session c" and ?ts = "hc_timers c \<union> (if armed then {se_request_id s} else {})"
  have nw: "\<not> se_waiting ?s" using assms(1,2) by (auto simp: connection_ok_def session_ok_def)
  have nr: "new_request ?s (s1\<lparr>se_keep_alive := False, se_waiting := True, se_request_id := se_request_id s1 + 1\<rparr>)"
    if "se_request_id s1 = se_request_id ?s" "\<not> se_closed s1" "se_io s1 = NoOperation" for s1
    using that False nw assms(3) by (simp add: new_request_def)
  show ?thesis
  proof (cases result)
    case (Inl ec)
    let ?s1 = "?s\<lparr>se_io := NoOperation\<rparr>"
    have "(\<exists>status. session_fail alive status ?s1 = (evs, s)) \<and> \<not> armed \<or> evs = [] \<and> s = session_close ?s1 \<and> \<not> armed"
      using assms(4) False Inl by (auto simp: onRead_def Let_def split: if_splits prod.splits)
    with fail_keeps [OF assms(1) nr [of ?s1], where ts = ?ts and cs = cs] close_new_keeps [OF assms(1), where s = ?s1 and ts = ?ts and cs = cs] False nw show ?thesis by auto
  next
    case (Inr req)
    let ?s1 = "?s\<lparr>se_io := NoOperation, se_version := pr_version req, se_keep_alive := pr_keep_alive req, se_head := (pr_method req = ''HEAD'')\<rparr>"
    let ?s2 = "?s1\<lparr>se_waiting := True, se_request_id := se_request_id ?s + 1\<rparr>"
    have n2: "new_request ?s ?s2" "new_request ?s (?s2\<lparr>se_keep_alive := False\<rparr>)"
      using False nw assms(3) by (simp_all add: new_request_def)
    consider (bad) "session_fail alive 400 ?s1 = (evs, s)" "\<not> armed" | (gone) "evs = []" "s = session_close ?s1" "\<not> armed"
      | (taken) "evs = [Requested (se_request_id ?s + 1)]" "s = ?s2" armed
      | (answered) response evs' where "session_reply alive (se_request_id ?s + 1) response (?s2\<lparr>se_keep_alive := False\<rparr>) = (evs', s)"
          "evs = Requested (se_request_id ?s + 1) # evs'" armed
      using assms(4) False Inr by (auto simp: onRead_def Let_def split: if_splits prod.splits submission.splits)
    then show ?thesis
    proof cases
      case bad
      from fail_keeps [OF assms(1) nr bad(1), where ts = ?ts and cs = cs] False show ?thesis by simp
    next
      case gone
      with close_new_keeps [OF assms(1), where s = ?s1 and ts = ?ts and cs = cs] False nw show ?thesis by simp
    next
      case taken
      with new_request_keeps [OF assms(1) n2(1), where ts = ?ts and cs = cs] show ?thesis by simp
    next
      case answered
      then have "session_reply alive (se_request_id (?s2\<lparr>se_keep_alive := False\<rparr>)) response (?s2\<lparr>se_keep_alive := False\<rparr>) = (evs', s)"
        by simp
      from answered_request_keeps [OF assms(1) n2(2) this, where ts = ?ts and cs = cs] answered(2) show ?thesis by simp
    qed
  qed
qed


lemma http_step_keeps:
  assumes "http_step c evs c'" and "connection_ok evs0 c"
  shows "connection_ok (evs0 @ evs) c'"
  using assms(1)
proof cases
  case (read_completes alive result outcome armed s)
  from onRead_keeps [OF assms(2) this(2-4)] show ?thesis unfolding read_completes(1) .
next
  case (write_completes alive failed)
  with write_done_keeps [OF assms(2)] show ?thesis by simp
next
  case (timer_expires request_id alive s)
  let ?c = "c\<lparr>hc_session := (hc_session c)\<lparr>se_keep_alive := False\<rparr>\<rparr>"
  show ?thesis
  proof (cases "se_waiting (hc_session c) \<and> se_request_id (hc_session c) = request_id")
    case True
    have ok: "connection_ok evs0 ?c" using assms(2) by (simp add: connection_ok_def session_ok_def open_request_def)
    have "session_reply alive (se_request_id (hc_session ?c)) (json_error 504 ''request timeout'') (hc_session ?c) = (evs, s)" "se_waiting (hc_session ?c)"
      using True timer_expires(3) by (simp_all add: timer_fires_def)
    from reply_now [OF ok this, where ts = "hc_timers c - {request_id}" and cs = "hc_callbacks c"] show ?thesis
      unfolding timer_expires(1) by simp
  next
    case False
    with timer_expires assms(2) show ?thesis by (auto simp: timer_fires_def connection_ok_def)
  qed
next
  case (application_replies request_id response)
  with assms(2) show ?thesis by (simp add: call_reply_def bridge_post_def connection_ok_def)
next
  case (posted_reply request_id response rest alive s)
  from reply_keeps [OF assms(2) this(3), where ts = "hc_timers c" and ps = rest] show ?thesis
    unfolding posted_reply(1) using assms(2) by (auto simp: connection_ok_def)
next
  case server_stops
  with close_keeps [OF assms(2)] show ?thesis by (simp add: bridge_disable_def connection_ok_def)
qed

lemma http_history: "lts_steps http_step new_connection evs c \<Longrightarrow> connection_ok evs c"
proof (erule steps_invariant)
  show "connection_ok [] new_connection"
    by (simp add: connection_ok_def new_connection_def session_read_def new_session_def session_ok_def open_request_def)
qed (rule http_step_keeps)

text \<open>The accepting side never holds more connections than its limit, and accepts nothing once it stops.\<close>

lemma accept_bounded:
  "finite (sv_sessions v) \<Longrightarrow> card (sv_sessions v) \<le> kConnectionLimit \<Longrightarrow>
   finite (sv_sessions (accept_done r v)) \<and> card (sv_sessions (accept_done r v)) \<le> kConnectionLimit"
  by (auto simp: accept_done_def Let_def card_insert_if split: accept_result.splits)

text \<open>
  C21. A connection answers every request at most once, in order, and never forgets one. Whatever the
  application does with its reply callbacks (late, repeated, never, from any thread), whatever the timers,
  the network and the shutdown do: request numbers grow, the answers written are those of the requests in
  their order, except possibly the last request; while the connection is open the last request lacks its
  answer exactly when the session waits, and then its business timer is armed, so an answer is due.
\<close>

theorem http_answers_in_order_once:
  assumes "lts_steps http_step new_connection evs c"
  shows "sorted_wrt (<) (requested evs) \<and>
    (\<exists>rest. requested evs = responded evs @ rest \<and> length rest \<le> 1 \<and>
      (\<not> se_closed (hc_session c) \<longrightarrow> (rest = [se_request_id (hc_session c)] \<longleftrightarrow> se_waiting (hc_session c)))) \<and>
    (se_waiting (hc_session c) \<longrightarrow> se_request_id (hc_session c) \<in> hc_timers c \<and>
      fst (timer_fires True (se_request_id (hc_session c)) (hc_session c)) \<noteq> [])"
proof -
  have ok: "connection_ok evs c" using assms by (rule http_history)
  then have "se_waiting (hc_session c) \<Longrightarrow> fst (timer_fires True (se_request_id (hc_session c)) (hc_session c)) \<noteq> []"
    by (auto simp: connection_ok_def session_ok_def timer_fires_def session_reply_def Let_def)
  with ok show ?thesis by (auto simp: connection_ok_def open_request_def)
qed

text \<open>A request is read and taken, its timer expires, and the application answers too late.\<close>

definition demo_request :: parsed_request where
  "demo_request = \<lparr>pr_version = 11, pr_keep_alive = True, pr_method = ''GET'', pr_target = ''/''\<rparr>"

definition demo_read :: "session_event list \<times> bool \<times> http_session" where
  "demo_read = onRead True (Inr demo_request) Taken (hc_session new_connection)"

definition demo_connection :: http_connection where
  "demo_connection = new_connection\<lparr>hc_session := snd (snd demo_read), hc_timers := {1}, hc_callbacks := {1}\<rparr>"

lemma demo_read_eq: "onRead True (Inr demo_request) Taken (hc_session new_connection) = ([Requested 1], True, hc_session demo_connection)"
  by (simp add: demo_connection_def demo_read_def onRead_def demo_request_def new_connection_def new_session_def session_read_def Let_def)

lemma demo_http_run: "lts_steps http_step new_connection [Requested 1] demo_connection"
proof -
  have "se_request_id (hc_session demo_connection) = 1"
    by (simp add: demo_connection_def demo_read_def onRead_def demo_request_def new_connection_def new_session_def session_read_def Let_def)
  with read_completes [OF _ _ demo_read_eq] have "http_step new_connection [Requested 1] demo_connection"
    by (simp add: demo_connection_def) (simp add: new_connection_def new_session_def session_read_def)
  then show ?thesis by (rule steps_single)
qed

theorem http_answers_in_order_once_witness:
  "requested [Requested 1] = [1] \<and> se_waiting (hc_session demo_connection) \<and> 1 \<in> hc_timers demo_connection"
proof -
  have "se_request_id (hc_session demo_connection) = 1" "se_waiting (hc_session demo_connection)"
    by (simp_all add: demo_connection_def demo_read_def onRead_def demo_request_def new_connection_def new_session_def session_read_def Let_def)
  with http_answers_in_order_once [OF demo_http_run] show ?thesis by simp
qed

end
