(* ===== verification/Http_Server.thy ===== *)
theory Http_Server
  imports Http_Session
begin

text \<open>
  The server of \<^verbatim>\<open>gateway/io/http/HttpServer.cpp\<close> over time: it listens, accepts, and asks every 100 milliseconds whether it
  should stop. The operations on the set of sessions are those of the previous theory; here are the stop timer and
  the order in which the io context may run the completions. An operation is cancelled only by stopping.
\<close>

record http_listener =
  hl_server :: http_server
  hl_stop_timer :: bool

definition new_listener :: http_listener where
  "new_listener = \<lparr>hl_server = \<lparr>sv_sessions = {}, sv_stopping = False, sv_accepting = False, sv_retry = False\<rparr>, hl_stop_timer = False\<rparr>"

definition checkStop :: "http_listener \<Rightarrow> http_listener" where
  "checkStop l = l\<lparr>hl_stop_timer := True\<rparr>"

text \<open>\<open>bound\<close>: opening, binding and listening did not throw. The boolean of the result says whether it returned.\<close>

definition listen :: "bool \<Rightarrow> http_listener \<Rightarrow> bool \<times> http_listener" where
  "listen bound l =
    (if \<not> bound then (False, l)
     else
       let l = l\<lparr>hl_server := (hl_server l)\<lparr>sv_accepting := True\<rparr>\<rparr>
       in (True, checkStop l))"

definition stop_listener :: "http_listener \<Rightarrow> http_listener" where
  "stop_listener l = l\<lparr>hl_server := server_stop (hl_server l), hl_stop_timer := (if sv_stopping (hl_server l) then hl_stop_timer l else False)\<rparr>"

definition stop_timer_fires :: "bool \<Rightarrow> bool \<Rightarrow> http_listener \<Rightarrow> http_listener" where
  "stop_timer_fires ec should_stop l =
    (let l = l\<lparr>hl_stop_timer := False\<rparr>
     in if ec \<or> sv_stopping (hl_server l) then l
        else if should_stop then stop_listener l
        else checkStop l)"

inductive listener_step :: "http_listener \<Rightarrow> unit list \<Rightarrow> http_listener \<Rightarrow> bool" where
  accept_completes: "sv_accepting (hl_server l) \<or> sv_stopping (hl_server l) \<Longrightarrow> r = Accept_error True \<longrightarrow> sv_stopping (hl_server l) \<Longrightarrow>
    listener_step l [] (l\<lparr>hl_server := accept_done r (hl_server l)\<rparr>)"
| retry_completes: "sv_retry (hl_server l) \<or> sv_stopping (hl_server l) \<Longrightarrow> failed \<longrightarrow> sv_stopping (hl_server l) \<Longrightarrow>
    listener_step l [] (l\<lparr>hl_server := retry_fires failed (hl_server l)\<rparr>)"
| session_ends: "listener_step l [] (l\<lparr>hl_server := remove_session session (hl_server l)\<rparr>)"
| stop_timer_completes: "hl_stop_timer l \<or> sv_stopping (hl_server l) \<Longrightarrow> ec \<longrightarrow> sv_stopping (hl_server l) \<Longrightarrow>
    listener_step l [] (stop_timer_fires ec should_stop l)"
| stop_completes: "listener_step l [] (stop_listener l)"

definition listener_ok :: "http_listener \<Rightarrow> bool" where
  "listener_ok l \<longleftrightarrow> finite (sv_sessions (hl_server l)) \<and> card (sv_sessions (hl_server l)) \<le> kConnectionLimit \<and>
    (if sv_stopping (hl_server l) then sv_sessions (hl_server l) = {} \<and> \<not> sv_accepting (hl_server l) \<and> \<not> sv_retry (hl_server l)
     else hl_stop_timer l \<and> (sv_accepting (hl_server l) \<longleftrightarrow> \<not> sv_retry (hl_server l)))"

lemma listener_step_ok:
  assumes "listener_step l evs l'" and "listener_ok l"
  shows "listener_ok l'"
  using assms(1)
proof cases
  case (accept_completes r)
  with assms(2) accept_bounded [of "hl_server l" r] show ?thesis
    by (cases r) (auto simp: listener_ok_def accept_done_def Let_def)
next
  case (retry_completes failed)
  with assms(2) show ?thesis by (auto simp: listener_ok_def retry_fires_def Let_def)
next
  case (session_ends session)
  have "card (sv_sessions (hl_server l) - {session}) \<le> card (sv_sessions (hl_server l))"
    using assms(2) by (intro card_mono) (auto simp: listener_ok_def)
  with session_ends assms(2) show ?thesis by (auto simp: listener_ok_def remove_session_def)
next
  case (stop_timer_completes ec should_stop)
  with assms(2) show ?thesis
    by (auto simp: listener_ok_def stop_timer_fires_def stop_listener_def server_stop_def checkStop_def Let_def)
next
  case stop_completes
  with assms(2) show ?thesis by (auto simp: listener_ok_def stop_listener_def server_stop_def)
qed

text \<open>
  A listening server never goes deaf and never grows without bound: whatever connections, accept errors, expiring timers
  and ending sessions follow one another, it holds at most 256 connections; until it is stopped exactly one of an accept and
  a retry of it is pending, and the question whether to stop is asked again within 100 milliseconds; when the answer is yes, the
  server stops, closes all its sessions, and accepts nothing any more.
\<close>

theorem http_server_stays_responsive:
  assumes "listen True new_listener = (True, l0)" and "lts_steps listener_step l0 evs l"
  shows "card (sv_sessions (hl_server l)) \<le> kConnectionLimit \<and>
    (sv_stopping (hl_server l) \<or> hl_stop_timer l \<and> (sv_accepting (hl_server l) \<longleftrightarrow> \<not> sv_retry (hl_server l))) \<and>
    (\<forall>l'. l' = stop_timer_fires False True l \<or> l' = stop_listener l \<longrightarrow>
      sv_stopping (hl_server l') \<and> sv_sessions (hl_server l') = {} \<and>
      (\<forall>r. accept_done r (hl_server l') = hl_server l'))"
proof -
  have "listener_ok l"
  proof (rule steps_invariant [OF assms(2)])
    show "listener_ok l0" using assms(1) by (auto simp: listener_ok_def listen_def new_listener_def checkStop_def kConnectionLimit_def)
  qed (rule listener_step_ok)
  then show ?thesis
    by (auto simp: listener_ok_def stop_timer_fires_def stop_listener_def server_stop_def accept_done_def Let_def)
qed

theorem http_server_stays_responsive_witness:
  "sv_sessions (hl_server (stop_timer_fires False True (snd (listen True new_listener)))) = {}"
proof -
  have l: "listen True new_listener = (True, snd (listen True new_listener))" by (simp add: listen_def Let_def)
  from http_server_stays_responsive [OF l steps_refl [where R = listener_step]] show ?thesis by blast
qed

end
