(* ===== verification/Async_Logger.thy ===== *)
theory Async_Logger
  imports Posix Cpp_String Lts
begin

text \<open>
  \<^verbatim>\<open>gateway/core/log/Logger.{h,cpp}\<close> and \<^verbatim>\<open>AsyncLogger.{h,cpp}\<close>: a log call formats one line on its own
  stack and appends it to the current buffer; a background thread swaps the filled buffers out and
  writes them. The logger is a record of the members and of the locals of \<^verbatim>\<open>flushThread\<close>, whose
  program counter says which critical section or which write comes next; between two of its steps any
  thread may append. A \<^verbatim>\<open>unique_ptr\<close> is an option, a move from it leaves \<open>None\<close>. What the C library
  prints for a format is an argument, as are the answers of the kernel; the diagnostics the thread
  prints itself when a call fails are left out. Counters are natural numbers: one of them would have to
  count \<open>2 ^ 64\<close> lost blocks to wrap.

  The field \<open>ft_log\<close> exists for the statements only: what was handed to \<^verbatim>\<open>write\<close>, with the number of
  bytes the kernel took and whether \<^verbatim>\<open>safe_write\<close> reported success.
\<close>

subsection \<open>One log line\<close>

datatype LogLevel = LogLevel_DEBUG | LogLevel_INFO | LogLevel_WARN | LogLevel_ERROR

fun level_value :: "LogLevel \<Rightarrow> nat" where
  "level_value LogLevel_DEBUG = 0"
| "level_value LogLevel_INFO = 1"
| "level_value LogLevel_WARN = 2"
| "level_value LogLevel_ERROR = 3"

definition kMaxLogLine :: nat where "kMaxLogLine = 1024"

fun levelName :: "LogLevel \<Rightarrow> string" where
  "levelName LogLevel_DEBUG = ''DEBUG''"
| "levelName LogLevel_INFO = ''INFO ''"
| "levelName LogLevel_WARN = ''WARN ''"
| "levelName LogLevel_ERROR = ''ERROR''"

definition char_bytes :: "string \<Rightarrow> u8 list" where
  "char_bytes s = map of_char s"

text \<open>
  \<^verbatim>\<open>snprintf(buf + pos, room, ...)\<close> of a text: it stores what fits and a NUL, and returns the length
  the whole text needs.
\<close>

definition store_at :: "nat \<Rightarrow> u8 list \<Rightarrow> u8 list \<Rightarrow> u8 list" where
  "store_at pos src buf = take pos buf @ copy_prefix src (drop pos buf)"

definition snprintf_at :: "nat \<Rightarrow> nat \<Rightarrow> u8 list \<Rightarrow> u8 list \<Rightarrow> nat \<times> u8 list" where
  "snprintf_at pos room str buf = (length str, if room = 0 then buf else store_at pos (take (room - 1) str @ [0]) buf)"

definition line_prefix :: "LogLevel \<Rightarrow> string \<Rightarrow> int \<Rightarrow> u8 list" where
  "line_prefix lv path line = char_bytes (''['' @ levelName lv @ ''] '' @ path @ '':'' @ int_to_string line @ '' '')"

definition kTruncatedSuffix :: "u8 list" where
  "kTruncatedSuffix = char_bytes ''... [truncated]''"

text \<open>
  The line \<^verbatim>\<open>Logger::log\<close> submits, if any: \<open>level\<close> is the threshold, \<open>buf\<close> the uninitialised stack
  array, \<open>body\<close> what the format and its arguments print (\<open>None\<close> when formatting fails).
\<close>

definition log_line ::
    "LogLevel \<Rightarrow> u8 list \<Rightarrow> LogLevel \<Rightarrow> string \<Rightarrow> int \<Rightarrow> u8 list option \<Rightarrow> u8 list option" where
  "log_line level buf lv path line body =
    (if level_value lv < level_value level then None
     else
       let (ret, buf) = snprintf_at 0 kMaxLogLine (line_prefix lv path line) buf;
           prefix_len = ret;
           truncated = prefix_len \<ge> kMaxLogLine;
           total = prefix_len
       in case (if truncated then Some (truncated, total, buf)
                else
                  let remaining = kMaxLogLine - prefix_len
                  in case body of
                       None \<Rightarrow> None
                     | Some str \<Rightarrow>
                         let (body_len, buf) = snprintf_at prefix_len remaining str buf
                         in Some (body_len \<ge> remaining, total + body_len, buf))
          of None \<Rightarrow> None
           | Some (truncated, total, buf) \<Rightarrow>
               let suffix_len = length kTruncatedSuffix;
                   (total, buf) =
                     (if truncated then
                        let total = kMaxLogLine - suffix_len - 1
                        in (total + suffix_len, store_at total kTruncatedSuffix buf)
                      else (total, buf));
                   buf = buf[total := 10]
               in Some (take (total + 1) buf))"

subsection \<open>The background writer\<close>

type_synonym Buffer = "u8 list"

definition kBufferSize :: nat where "kBufferSize = 64 * 1024"
definition kMaxQueuedBuffers :: nat where "kMaxQueuedBuffers = 64"
definition kKeepOnOverflow :: nat where "kKeepOnOverflow = 2"

datatype flush_pc =
    Ft_start | Ft_top | Ft_wait
  | Ft_report bool | Ft_blocks bool nat
  | Ft_drain | Ft_exit

datatype log_item = Drop_note nat | Log_block Buffer

record async_logger =
  al_currentBuffer :: "Buffer option"
  al_nextBuffer :: "Buffer option"
  al_bufferToWrite :: "Buffer list"
  al_dropped :: nat
  al_filepath :: string
  al_running :: bool
  ft_pc :: flush_pc
  ft_fd :: descriptor
  ft_fd_closed :: bool
  ft_newCurrent :: "Buffer option"
  ft_newNext :: "Buffer option"
  ft_localBuffers :: "Buffer list"
  ft_dropped :: nat
  ft_log :: "(log_item \<times> nat \<times> bool) list"

definition new_logger :: "string \<Rightarrow> async_logger" where
  "new_logger filepath =
    \<lparr>al_currentBuffer = Some [], al_nextBuffer = Some [], al_bufferToWrite = [], al_dropped = 0,
     al_filepath = filepath, al_running = True, ft_pc = Ft_start, ft_fd = open_descriptor [] [], ft_fd_closed = False,
     ft_newCurrent = None, ft_newNext = None, ft_localBuffers = [], ft_dropped = 0, ft_log = []\<rparr>"

text \<open>\<^verbatim>\<open>safe_write\<close>: the number of bytes, or \<open>None\<close> for -1. Every kernel answer is used up once.\<close>

function safe_write_loop :: "u8 list \<Rightarrow> nat \<Rightarrow> descriptor \<Rightarrow> nat option \<times> descriptor" where
  "safe_write_loop buf tot d =
    (if tot < length buf then
       (case sys_write (drop tot buf) d of
          (Write_error e, d') \<Rightarrow> if e = EINTR then safe_write_loop buf tot d' else (None, d')
        | (Write_count n, d') \<Rightarrow> safe_write_loop buf (tot + n) d')
     else (Some tot, d))"
  by pat_completeness auto
termination
  by (relation "measure (\<lambda>(buf, tot, d). length (d_writes d))")
    (auto dest!: sys_write_progress [OF sym])

declare safe_write_loop.simps [simp del]

definition safe_write :: "u8 list \<Rightarrow> descriptor \<Rightarrow> nat option \<times> descriptor" where
  "safe_write buf d = safe_write_loop buf 0 d"

definition drop_note :: "nat \<Rightarrow> u8 list" where
  "drop_note dropped =
    char_bytes ''[WARN ] AsyncLogger '' @
    [229, 190, 133, 229, 134, 153, 233, 152, 159, 229, 136, 151, 230, 186, 162, 229, 135, 186, 44, 228, 184, 162, 229, 188, 131, 32] @
    char_bytes (to_string dropped) @
    [32, 229, 157, 151, 231, 188, 147, 229, 134, 178, 10]"

definition item_bytes :: "log_item \<Rightarrow> u8 list" where
  "item_bytes i = (case i of Drop_note n \<Rightarrow> take 127 (drop_note n) | Log_block b \<Rightarrow> b)"

text \<open>Handing one item to \<^verbatim>\<open>safe_write\<close>; a failure is only reported, the next item is tried all the same.\<close>

definition put_item :: "log_item \<Rightarrow> async_logger \<Rightarrow> async_logger" where
  "put_item i s =
    (let (r, fd) = safe_write (item_bytes i) (ft_fd s)
     in s\<lparr>ft_fd := fd, ft_log := ft_log s @ [(i, length (d_written fd) - length (d_written (ft_fd s)), r \<noteq> None)]\<rparr>)"

definition report_dropped :: "nat \<Rightarrow> async_logger \<Rightarrow> async_logger" where
  "report_dropped dropped s = (if dropped = 0 then s else put_item (Drop_note dropped) s)"

text \<open>
  \<^verbatim>\<open>append\<close>, with the loss of all but the oldest blocks when the writer lags behind; \<open>None\<close> stands
  for the use of a null pointer.
\<close>

definition trim_queue :: "async_logger \<Rightarrow> async_logger" where
  "trim_queue s =
    (if length (al_bufferToWrite s) \<ge> kMaxQueuedBuffers then
       let s = s\<lparr>al_dropped := al_dropped s + (length (al_bufferToWrite s) - kKeepOnOverflow)\<rparr>;
           s = (if al_nextBuffer s = None then s\<lparr>al_nextBuffer := Some []\<rparr> else s)
       in s\<lparr>al_bufferToWrite := take kKeepOnOverflow (al_bufferToWrite s)\<rparr>
     else s)"

definition logger_append :: "u8 list \<Rightarrow> async_logger \<Rightarrow> async_logger option" where
  "logger_append msg s =
    (case al_currentBuffer s of
       None \<Rightarrow> None
     | Some cur \<Rightarrow>
         if length msg + length cur < kBufferSize then Some (s\<lparr>al_currentBuffer := Some (cur @ msg)\<rparr>)
         else
           let s = trim_queue s;
               s = s\<lparr>al_bufferToWrite := al_bufferToWrite s @ [cur]\<rparr>
           in case al_nextBuffer s of
                Some b \<Rightarrow> Some (s\<lparr>al_currentBuffer := Some (b @ msg), al_nextBuffer := None\<rparr>)
              | None \<Rightarrow> Some (s\<lparr>al_currentBuffer := Some ([] @ msg)\<rparr>))"

text \<open>
  The steps of \<^verbatim>\<open>flushThread\<close>. The wait ends on a full buffer, on the stop or on the timeout, that is at
  any moment; then follows one critical section. \<open>opened\<close> is the answer of \<^verbatim>\<open>open\<close>, or the descriptor
  of the standard error stream.
\<close>

definition flush_open :: "descriptor option \<Rightarrow> descriptor \<Rightarrow> async_logger \<Rightarrow> async_logger" where
  "flush_open opened std_err s =
    (let to_stderr = (al_filepath s = [])
     in case (if to_stderr then Some std_err else opened) of
          None \<Rightarrow> s\<lparr>ft_pc := Ft_exit\<rparr>
        | Some fd \<Rightarrow> s\<lparr>ft_fd := fd, ft_newCurrent := Some [], ft_newNext := Some [], ft_localBuffers := [], ft_pc := Ft_top\<rparr>)"

definition flush_swap :: "async_logger \<Rightarrow> async_logger" where
  "flush_swap s =
    (let s = (case al_currentBuffer s of
                Some cur \<Rightarrow>
                  if cur \<noteq> [] then
                    s\<lparr>al_bufferToWrite := al_bufferToWrite s @ [cur], al_currentBuffer := ft_newCurrent s, ft_newCurrent := None\<rparr>
                  else s
              | None \<Rightarrow> s);
         s = (if al_nextBuffer s = None then s\<lparr>al_nextBuffer := ft_newNext s, ft_newNext := None\<rparr> else s)
     in if al_bufferToWrite s = [] then s\<lparr>ft_pc := Ft_top\<rparr>
        else s\<lparr>ft_dropped := al_dropped s, al_dropped := 0,
               ft_localBuffers := al_bufferToWrite s, al_bufferToWrite := ft_localBuffers s, ft_pc := Ft_report False\<rparr>)"

definition flush_recycle :: "async_logger \<Rightarrow> async_logger" where
  "flush_recycle s =
    (let s = (if ft_newCurrent s = None then
                s\<lparr>ft_newCurrent := Some [], ft_localBuffers := butlast (ft_localBuffers s)\<rparr> else s);
         s = (if ft_newNext s = None \<and> ft_localBuffers s \<noteq> [] then
                s\<lparr>ft_newNext := Some [], ft_localBuffers := butlast (ft_localBuffers s)\<rparr> else s)
     in s\<lparr>ft_localBuffers := [], ft_pc := Ft_top\<rparr>)"

definition flush_drain :: "async_logger \<Rightarrow> async_logger" where
  "flush_drain s =
    (let s = (case al_currentBuffer s of
                Some cur \<Rightarrow>
                  if cur \<noteq> [] then s\<lparr>al_bufferToWrite := al_bufferToWrite s @ [cur], al_currentBuffer := None\<rparr> else s
              | None \<Rightarrow> s)
     in s\<lparr>ft_localBuffers := al_bufferToWrite s, al_bufferToWrite := ft_localBuffers s,
          ft_dropped := al_dropped s, al_dropped := 0, ft_pc := Ft_report True\<rparr>)"

definition flush_close :: "async_logger \<Rightarrow> async_logger" where
  "flush_close s = s\<lparr>ft_fd_closed := (al_filepath s \<noteq> []), ft_pc := Ft_exit\<rparr>"

definition flush_step :: "descriptor option \<Rightarrow> descriptor \<Rightarrow> async_logger \<Rightarrow> async_logger" where
  "flush_step opened std_err s =
    (case ft_pc s of
       Ft_start \<Rightarrow> flush_open opened std_err s
     | Ft_top \<Rightarrow> s\<lparr>ft_pc := (if al_running s then Ft_wait else Ft_drain)\<rparr>
     | Ft_wait \<Rightarrow> flush_swap s
     | Ft_report final \<Rightarrow> (report_dropped (ft_dropped s) s)\<lparr>ft_pc := Ft_blocks final 0\<rparr>
     | Ft_blocks final i \<Rightarrow>
         if i < length (ft_localBuffers s) then
           (put_item (Log_block (ft_localBuffers s ! i)) s)\<lparr>ft_pc := Ft_blocks final (i + 1)\<rparr>
         else if final then flush_close s
         else flush_recycle s
     | Ft_drain \<Rightarrow> flush_drain s
     | Ft_exit \<Rightarrow> s)"

definition logger_stop :: "async_logger \<Rightarrow> async_logger" where
  "logger_stop s = s\<lparr>al_running := False\<rparr>"

subsection \<open>Lines\<close>

lemma store_at_eq:
  "pos + length src \<le> length buf \<Longrightarrow> store_at pos src buf = take pos buf @ src @ drop (pos + length src) buf"
  by (simp add: store_at_def copy_prefix_eq add.commute)

lemma length_store_at [simp]: "pos \<le> length buf \<Longrightarrow> length (store_at pos src buf) = length buf"
  by (simp add: store_at_def)

text \<open>After \<^verbatim>\<open>snprintf\<close> the array begins with what was there up to \<open>pos\<close> and then as much of the text as fits.\<close>

lemma snprintf_at_take:
  assumes "snprintf_at pos room str buf = (n, buf')" and "pos + room = length buf" and "0 < room"
  shows "n = length str" "length buf' = length buf"
    "k < room \<Longrightarrow> k \<le> length str \<Longrightarrow> take (pos + k) buf' = take pos buf @ take k str"
proof -
  let ?src = "take (room - 1) str @ [0]"
  have "length ?src \<le> room" using assms(3) by simp
  with assms have eq: "buf' = take pos buf @ ?src @ drop (pos + length ?src) buf" and n: "n = length str"
    unfolding snprintf_at_def by (auto simp only: store_at_eq Pair_inject split: if_splits)
  show "n = length str" by (rule n)
  show "length buf' = length buf"
    using assms by (auto simp: snprintf_at_def split: if_splits)
  show "take (pos + k) buf' = take pos buf @ take k str" if "k < room" "k \<le> length str"
    unfolding eq using that assms(2) by (simp add: min_absorb1 min_absorb2)
qed

text \<open>What a line should be: the text and a newline if they fit, otherwise its beginning, the mark and a newline.\<close>

definition clip :: "u8 list \<Rightarrow> u8 list" where
  "clip str = (if length str < kMaxLogLine then str @ [10] else take (kMaxLogLine - 16) str @ kTruncatedSuffix @ [10])"

lemma length_suffix [simp]: "length kTruncatedSuffix = 15"
  by (simp add: kTruncatedSuffix_def char_bytes_def)

lemma length_clip: "length (clip str) \<le> kMaxLogLine" "clip str \<noteq> []" "last (clip str) = 10"
  by (simp_all add: clip_def kMaxLogLine_def)

lemma terminated_line:
  assumes "length buf = kMaxLogLine" and "take n buf = str" and "n < kMaxLogLine"
  shows "take (Suc n) (buf[n := 10]) = str @ [10]"
  using assms by (simp add: take_Suc_conv_app_nth)

lemma clipped_line:
  assumes "length buf = kMaxLogLine" and "take 1008 buf = take 1008 str" and "kMaxLogLine \<le> length str"
  shows "take 1024 ((store_at 1008 kTruncatedSuffix buf)[1023 := 10]) = clip str"
proof -
  have "take 1023 (store_at 1008 kTruncatedSuffix buf) = take 1008 str @ kTruncatedSuffix"
    using assms by (simp add: store_at_eq kMaxLogLine_def)
  from terminated_line [OF _ this] assms show ?thesis by (simp add: clip_def kMaxLogLine_def)
qed

lemma body_stored:
  assumes "snprintf_at (length prefix) room str buf = (m, buf')" and "length prefix + room = kMaxLogLine" and "0 < room"
    and "length buf = kMaxLogLine" and "take (length prefix) buf = prefix"
  shows "m = length str" "length buf' = kMaxLogLine"
    "length str < room \<Longrightarrow> take (length prefix + length str) buf' = prefix @ str"
    "room \<le> length str \<Longrightarrow> take 1008 buf' = take 1008 (prefix @ str)"
proof -
  note t = snprintf_at_take [OF assms(1) trans [OF assms(2) assms(4) [symmetric]] assms(3)]
  show "m = length str" "length buf' = kMaxLogLine" using t(1,2) assms(4) by simp_all
  show "take (length prefix + length str) buf' = prefix @ str" if "length str < room"
    using t(3) [of "length str"] that assms(5) by simp
  show "take 1008 buf' = take 1008 (prefix @ str)" if "room \<le> length str"
  proof (cases "length prefix \<le> 1008")
    case True
    with assms(2) have "1008 - length prefix < room" by (simp add: kMaxLogLine_def)
    with t(3) [of "1008 - length prefix"] True that assms(5) show ?thesis by simp
  next
    case False
    have "take (length prefix) buf' = prefix" using t(3) [of 0] assms(3,5) by simp
    then have "take 1008 (take (length prefix) buf') = take 1008 prefix" by simp
    with False show ?thesis by (simp add: min_def)
  qed
qed

lemma log_line_eq:
  fixes path :: string and line :: int and body :: "u8 list option"
  assumes buf: "length buf = kMaxLogLine" and level: "level_value level \<le> level_value lv"
  defines "prefix \<equiv> line_prefix lv path line"
  shows "log_line level buf lv path line body =
    (if kMaxLogLine \<le> length prefix then Some (clip prefix) else map_option (\<lambda>str. clip (prefix @ str)) body)"
proof -
  obtain n buf1 where s1: "snprintf_at 0 kMaxLogLine prefix buf = (n, buf1)" by fastforce
  note t1 = snprintf_at_take [OF s1, simplified, OF buf [symmetric]]
  have pos: "0 < kMaxLogLine" by (simp add: kMaxLogLine_def)
  have n: "n = length prefix" and len1: "length buf1 = kMaxLogLine" using t1(1,2) [OF pos] buf by simp_all
  note call = log_line_def [of level buf lv path line, folded prefix_def, unfolded s1 n]
  show ?thesis
  proof (cases "kMaxLogLine \<le> length prefix")
    case True
    then have "take 1008 buf1 = take 1008 prefix" using t1(3) [OF pos, of 1008] by (simp add: kMaxLogLine_def)
    from clipped_line [OF len1 this True] True level show ?thesis by (simp add: call kMaxLogLine_def)
  next
    case False
    then have tp: "take (length prefix) buf1 = prefix" using t1(3) [OF pos, of "length prefix"] by simp
    show ?thesis
    proof (cases body)
      case None
      with False level show ?thesis by (simp add: call Let_def)
    next
      case (Some str)
      define room where "room = kMaxLogLine - length prefix"
      obtain m buf2 where s2: "snprintf_at (length prefix) room str buf1 = (m, buf2)" by fastforce
      have room: "length prefix + room = kMaxLogLine" "0 < room" using False by (simp_all add: room_def)
      note b = body_stored [OF s2 room len1 tp]
      from s2 b(1) have s2: "snprintf_at (length prefix) (kMaxLogLine - length prefix) str buf1 = (length str, buf2)"
        by (simp add: room_def)
      show ?thesis
      proof (cases "room \<le> length str")
        case True
        with room(1) have "kMaxLogLine \<le> length (prefix @ str)" by simp
        from clipped_line [OF b(2) b(4) [OF True] this] True False level Some show ?thesis
          by (simp add: call s2 room_def) (simp add: kMaxLogLine_def)
      next
        case fits: False
        with room(1) have "length prefix + length str < kMaxLogLine" by simp
        with terminated_line [OF b(2) b(3) this] fits False level Some show ?thesis
          by (simp add: call s2 room_def clip_def)
      qed
    qed
  qed
qed

text \<open>
  A log call submits its whole line or nothing: below the threshold nothing, otherwise prefix, text
  and a newline if they fit into 1024 bytes, and if not exactly their first 1008 bytes, the mark
  \<^verbatim>\<open>... [truncated]\<close> and a newline; whatever the stack array held before, no byte of it gets into the line.
\<close>

theorem log_line_complete_or_marked:
  fixes path :: string and line :: int and str buf :: "u8 list" and level lv :: LogLevel
  assumes "length buf = kMaxLogLine"
  defines "entry \<equiv> line_prefix lv path line @ str"
  shows "log_line level buf lv path line (Some str) =
      (if level_value lv < level_value level then None
       else if length entry < 1024 then Some (entry @ [10])
       else Some (take 1008 entry @ char_bytes ''... [truncated]'' @ [10]))"
proof (cases "level_value lv < level_value level")
  case True
  then show ?thesis by (simp add: log_line_def)
next
  case False
  with log_line_eq [OF assms(1), of level lv path line "Some str"] show ?thesis
    by (auto simp: entry_def clip_def kMaxLogLine_def kTruncatedSuffix_def)
qed

theorem log_line_complete_or_marked_witness:
  "log_line LogLevel_INFO (replicate kMaxLogLine 7) LogLevel_WARN ''a.cpp'' 12 (Some (char_bytes ''hello'')) =
    Some (char_bytes ''[WARN ] a.cpp:12 hello'' @ [10])"
proof -
  have "line_prefix LogLevel_WARN ''a.cpp'' 12 @ char_bytes ''hello'' = char_bytes ''[WARN ] a.cpp:12 hello''"
    by code_simp
  moreover have "length (char_bytes ''[WARN ] a.cpp:12 hello'') < 1024" by (simp add: char_bytes_def)
  ultimately show ?thesis
    using log_line_complete_or_marked [of "replicate kMaxLogLine 7" LogLevel_INFO LogLevel_WARN "''a.cpp''" 12 "char_bytes ''hello''"]
    by simp
qed

subsection \<open>Writing\<close>

text \<open>The loop hands the kernel the bytes in order, and all of them unless a write fails.\<close>

lemma safe_write_loop_prefix:
  "safe_write_loop buf tot d = (r, d') \<Longrightarrow> tot \<le> length buf \<Longrightarrow>
   \<exists>k. tot \<le> k \<and> k \<le> length buf \<and> d_written d' = d_written d @ drop tot (take k buf) \<and>
     (r = Some (length buf) \<and> k = length buf \<or> r = None \<and> k < length buf)"
proof (induction buf tot d arbitrary: r d' rule: safe_write_loop.induct)
  case (1 buf tot d)
  show ?case
  proof (cases "tot < length buf")
    case False
    with 1(3,4) show ?thesis unfolding safe_write_loop.simps [of buf tot d] by (auto intro!: exI [of _ "length buf"])
  next
    case True
    obtain w d1 where w: "sys_write (drop tot buf) d = (w, d1)" by fastforce
    show ?thesis
    proof (cases w)
      case (Write_count n)
      from sys_write_count [OF w [unfolded Write_count]] True
      have n: "tot + n \<le> length buf" "d_written d1 = d_written d @ take n (drop tot buf)" by auto
      from 1(3) True have "safe_write_loop buf (tot + n) d1 = (r, d')"
        unfolding safe_write_loop.simps [of buf tot d] by (simp add: w Write_count)
      from 1(1) [OF True w [symmetric, unfolded Write_count] refl this n(1)]
      obtain k where k: "tot + n \<le> k" "k \<le> length buf" "d_written d' = d_written d1 @ drop (tot + n) (take k buf)"
        "r = Some (length buf) \<and> k = length buf \<or> r = None \<and> k < length buf" by blast
      have "drop tot (take k buf) = take n (drop tot buf) @ drop (tot + n) (take k buf)"
        using k(1) drop_take_split [of tot n k buf] by simp
      with k n show ?thesis by (intro exI [of _ k]) simp
    next
      case (Write_error e)
      note d1 = sys_write_error [OF w [unfolded Write_error]]
      show ?thesis
      proof (cases "e = EINTR")
        case True': True
        from 1(3) True have "safe_write_loop buf tot d1 = (r, d')"
          unfolding safe_write_loop.simps [of buf tot d] by (simp add: w Write_error True')
        from 1(2) [OF True w [symmetric, unfolded Write_error] refl True' this 1(4)] d1 show ?thesis by simp
      next
        case False
        from 1(3) True have "r = None" "d' = d1"
          unfolding safe_write_loop.simps [of buf tot d] by (simp_all add: w Write_error False)
        with d1 1(4) True show ?thesis by (intro exI [of _ tot]) simp
      qed
    qed
  qed
qed

lemma safe_write_prefix:
  assumes "safe_write buf d = (r, d')"
  obtains k where "k \<le> length buf" "d_written d' = d_written d @ take k buf" "r = Some (length buf) \<and> k = length buf \<or> r = None \<and> k < length buf"
  using safe_write_loop_prefix [OF assms [unfolded safe_write_def]] by auto

text \<open>The effect of handing over one item: the log grows by it and the line by as much of it as the log says.\<close>

lemma put_item_cases:
  obtains n ok fd where "put_item i s = s\<lparr>ft_fd := fd, ft_log := ft_log s @ [(i, n, ok)]\<rparr>"
    "n \<le> length (item_bytes i)" "ok \<longleftrightarrow> n = length (item_bytes i)" "d_written fd = d_written (ft_fd s) @ take n (item_bytes i)"
proof -
  obtain r fd where w: "safe_write (item_bytes i) (ft_fd s) = (r, fd)" by fastforce
  from safe_write_prefix [OF w] obtain k where k: "k \<le> length (item_bytes i)"
    "d_written fd = d_written (ft_fd s) @ take k (item_bytes i)" "r = Some (length (item_bytes i)) \<and> k = length (item_bytes i) \<or> r = None \<and> k < length (item_bytes i)" .
  from k(3) have ok: "r \<noteq> None \<longleftrightarrow> k = length (item_bytes i)" by auto
  from k(1,2) w have "put_item i s = s\<lparr>ft_fd := fd, ft_log := ft_log s @ [(i, k, r \<noteq> None)]\<rparr>" by (simp add: put_item_def)
  from that [OF this k(1) ok k(2)] show ?thesis .
qed

subsection \<open>The accounting invariant\<close>

definition written_blocks :: "(log_item \<times> nat \<times> bool) list \<Rightarrow> Buffer list" where
  "written_blocks log = concat (map (\<lambda>(i, n). case i of Log_block b \<Rightarrow> [b] | Drop_note _ \<Rightarrow> []) log)"

definition reported :: "(log_item \<times> nat \<times> bool) list \<Rightarrow> nat" where
  "reported log = sum_list (map (\<lambda>(i, n). case i of Log_block _ \<Rightarrow> 0 | Drop_note k \<Rightarrow> k) log)"

definition taken_blocks :: "async_logger \<Rightarrow> Buffer list" where
  "taken_blocks s = (case ft_pc s of Ft_report _ \<Rightarrow> ft_localBuffers s | Ft_blocks _ i \<Rightarrow> drop i (ft_localBuffers s) | _ \<Rightarrow> [])"

definition taken_drops :: "async_logger \<Rightarrow> nat" where
  "taken_drops s = (case ft_pc s of Ft_report _ \<Rightarrow> ft_dropped s | _ \<Rightarrow> 0)"

definition ptr_bytes :: "Buffer option \<Rightarrow> Buffer" where
  "ptr_bytes p = (case p of Some b \<Rightarrow> b | None \<Rightarrow> [])"

text \<open>
  The submitted messages, cut into groups of consecutive ones: each group is a block, kept (\<open>True\<close>) or
  lost. The kept blocks are those written, those the thread has taken and those waiting, in order; the lost ones are all
  counted; the messages after the last group are in the current buffer.
\<close>

definition accounted :: "u8 list list \<Rightarrow> async_logger \<Rightarrow> (bool \<times> u8 list list) list \<Rightarrow> u8 list list \<Rightarrow> bool" where
  "accounted msgs s gs cur \<longleftrightarrow>
    concat (map snd gs) @ cur = msgs \<and>
    map (\<lambda>g. concat (snd g)) (filter fst gs) = written_blocks (ft_log s) @ taken_blocks s @ al_bufferToWrite s \<and>
    length (filter (\<lambda>g. \<not> fst g) gs) = reported (ft_log s) + taken_drops s + al_dropped s \<and>
    concat cur = ptr_bytes (al_currentBuffer s)"

fun pc_final :: "flush_pc \<Rightarrow> bool" where
  "pc_final (Ft_report final) = final"
| "pc_final (Ft_blocks final i) = final"
| "pc_final pc = (pc = Ft_drain)"

definition logger_ok :: "async_logger \<Rightarrow> bool" where
  "logger_ok s \<longleftrightarrow>
    ptr_bytes (al_nextBuffer s) = [] \<and> ptr_bytes (ft_newCurrent s) = [] \<and> ptr_bytes (ft_newNext s) = [] \<and>
    (al_currentBuffer s = None \<longrightarrow> \<not> al_running s) \<and>
    (pc_final (ft_pc s) \<longrightarrow> \<not> al_running s) \<and>
    (ft_pc s \<in> {Ft_top, Ft_wait, Ft_drain} \<longrightarrow> ft_localBuffers s = []) \<and>
    (ft_pc s \<in> {Ft_top, Ft_wait} \<longrightarrow> ft_newCurrent s \<noteq> None)"

lemma log_snoc [simp]:
  "written_blocks (log @ [(Log_block b, n)]) = written_blocks log @ [b]"
  "written_blocks (log @ [(Drop_note k, n)]) = written_blocks log"
  "reported (log @ [(Log_block b, n)]) = reported log"
  "reported (log @ [(Drop_note k, n)]) = reported log + k"
  by (simp_all add: written_blocks_def reported_def)

text \<open>Losing the last of the kept blocks turns their groups from kept to lost and changes no other.\<close>

lemma lose_blocks:
  "map (\<lambda>g. f (snd g)) (filter fst gs) = a @ b \<Longrightarrow>
   \<exists>gs'. map snd gs' = map snd gs \<and> map (\<lambda>g. f (snd g)) (filter fst gs') = a \<and>
     length (filter (\<lambda>g. \<not> fst g) gs') = length (filter (\<lambda>g. \<not> fst g) gs) + length b"
proof (induction gs arbitrary: a b)
  case (Cons g gs)
  obtain k x where g: "g = (k, x)" by fastforce
  consider "\<not> k" | "k" "a = []" | a' where "k" "a = f x # a'" using Cons.prems g by (cases k; cases a) auto
  then show ?case
  proof cases
    case 1
    with Cons.IH [of a b] Cons.prems g obtain gs' where "map snd gs' = map snd gs"
      "map (\<lambda>g. f (snd g)) (filter fst gs') = a"
      "length (filter (\<lambda>g. \<not> fst g) gs') = length (filter (\<lambda>g. \<not> fst g) gs) + length b" by auto
    with 1 g show ?thesis by (intro exI [of _ "(False, x) # gs'"]) simp
  next
    case 2
    with Cons.IH [of "[]" "tl b"] Cons.prems g obtain gs' where "map snd gs' = map snd gs" "filter fst gs' = []"
      "length (filter (\<lambda>g. \<not> fst g) gs') = length (filter (\<lambda>g. \<not> fst g) gs) + length (tl b)" by auto
    moreover from 2 Cons.prems g have "b \<noteq> []" by auto
    ultimately show ?thesis using 2 g by (intro exI [of _ "(False, x) # gs'"]) simp
  next
    case 3
    with Cons.IH [of a' b] Cons.prems g obtain gs' where "map snd gs' = map snd gs"
      "map (\<lambda>g. f (snd g)) (filter fst gs') = a'"
      "length (filter (\<lambda>g. \<not> fst g) gs') = length (filter (\<lambda>g. \<not> fst g) gs) + length b" by auto
    with 3 g show ?thesis by (intro exI [of _ "(True, x) # gs'"]) simp
  qed
qed simp

text \<open>Closing the current group: its block joins the queue.\<close>

lemma accounted_push:
  assumes "accounted msgs s gs cur" and "al_currentBuffer s = Some b"
    and "written_blocks (ft_log s') @ taken_blocks s' @ al_bufferToWrite s' =
           written_blocks (ft_log s) @ taken_blocks s @ al_bufferToWrite s @ [b]"
    and "reported (ft_log s') + taken_drops s' + al_dropped s' = reported (ft_log s) + taken_drops s + al_dropped s"
    and "concat new = ptr_bytes (al_currentBuffer s')"
  shows "accounted (msgs @ new) s' (gs @ [(True, cur)]) new"
  using assms by (simp add: accounted_def ptr_bytes_def)

lemma taken_simps [simp]:
  "taken_blocks (s\<lparr>al_currentBuffer := x\<rparr>) = taken_blocks s" "taken_drops (s\<lparr>al_currentBuffer := x\<rparr>) = taken_drops s"
  "taken_blocks (s\<lparr>al_nextBuffer := y\<rparr>) = taken_blocks s" "taken_drops (s\<lparr>al_nextBuffer := y\<rparr>) = taken_drops s"
  "taken_blocks (s\<lparr>al_bufferToWrite := q\<rparr>) = taken_blocks s" "taken_drops (s\<lparr>al_bufferToWrite := q\<rparr>) = taken_drops s"
  "taken_blocks (s\<lparr>al_dropped := n\<rparr>) = taken_blocks s" "taken_drops (s\<lparr>al_dropped := n\<rparr>) = taken_drops s"
  "taken_blocks (s\<lparr>al_running := r\<rparr>) = taken_blocks s" "taken_drops (s\<lparr>al_running := r\<rparr>) = taken_drops s"
  by (auto simp: taken_blocks_def taken_drops_def split: flush_pc.splits)

lemma trim_queue_simps [simp]:
  "ft_pc (trim_queue s) = ft_pc s" "ft_log (trim_queue s) = ft_log s" "ft_localBuffers (trim_queue s) = ft_localBuffers s"
  "ft_dropped (trim_queue s) = ft_dropped s" "al_currentBuffer (trim_queue s) = al_currentBuffer s" "ft_fd (trim_queue s) = ft_fd s"
  "taken_blocks (trim_queue s) = taken_blocks s" "taken_drops (trim_queue s) = taken_drops s"
  by (simp_all add: trim_queue_def Let_def)

lemma trim_queue_ok: "logger_ok s \<Longrightarrow> logger_ok (trim_queue s)"
  by (auto simp: trim_queue_def logger_ok_def Let_def ptr_bytes_def split: flush_pc.splits)

lemma trim_queue_accounted:
  assumes "accounted msgs s gs cur"
  obtains gs' where "accounted msgs (trim_queue s) gs' cur"
proof (cases "length (al_bufferToWrite s) \<ge> kMaxQueuedBuffers")
  case False
  with assms that show ?thesis by (simp add: trim_queue_def)
next
  case True
  let ?q = "al_bufferToWrite s"
  from assms have "map (\<lambda>g. concat (snd g)) (filter fst gs) =
      (written_blocks (ft_log s) @ taken_blocks s @ take kKeepOnOverflow ?q) @ drop kKeepOnOverflow ?q"
    by (simp add: accounted_def)
  from lose_blocks [OF this] obtain gs' where gs': "map snd gs' = map snd gs"
    "map (\<lambda>g. concat (snd g)) (filter fst gs') = written_blocks (ft_log s) @ taken_blocks s @ take kKeepOnOverflow ?q"
    "length (filter (\<lambda>g. \<not> fst g) gs') = length (filter (\<lambda>g. \<not> fst g) gs) + (length ?q - kKeepOnOverflow)" by auto
  have "al_bufferToWrite (trim_queue s) = take kKeepOnOverflow ?q"
    "al_dropped (trim_queue s) = al_dropped s + (length ?q - kKeepOnOverflow)"
    using True by (simp_all add: trim_queue_def Let_def)
  with gs' assms have "accounted msgs (trim_queue s) gs' cur" by (simp add: accounted_def)
  from that [OF this] show ?thesis .
qed

lemma append_ok:
  assumes "logger_append msg s = Some s'" and "logger_ok s" and "accounted msgs s gs cur"
  shows "logger_ok s' \<and> (\<exists>gs cur. accounted (msgs @ [msg]) s' gs cur)"
proof -
  from assms(1) obtain b where b: "al_currentBuffer s = Some b" by (auto simp: logger_append_def split: option.splits)
  show ?thesis
  proof (cases "length msg + length b < kBufferSize")
    case True
    with assms(1) b have s': "s' = s\<lparr>al_currentBuffer := Some (b @ msg)\<rparr>" by (simp add: logger_append_def)
    from assms(3) b have "accounted (msgs @ [msg]) s' gs (cur @ [msg])"
      by (auto simp: s' accounted_def ptr_bytes_def)
    moreover from assms(2) have "logger_ok s'" by (simp add: s' logger_ok_def)
    ultimately show ?thesis by blast
  next
    case False
    let ?t = "trim_queue s"
    from trim_queue_accounted [OF assms(3)] obtain gs' where t: "accounted msgs ?t gs' cur" .
    note ok = trim_queue_ok [OF assms(2)]
    from False assms(1) b ok have s': "s' = ?t\<lparr>al_bufferToWrite := al_bufferToWrite ?t @ [b], al_currentBuffer := Some msg, al_nextBuffer := None\<rparr>"
      by (auto simp: logger_append_def Let_def logger_ok_def ptr_bytes_def split: option.splits)
    have "accounted (msgs @ [msg]) s' (gs' @ [(True, cur)]) [msg]"
      by (rule accounted_push [OF t, of b]) (simp_all add: s' b ptr_bytes_def)
    moreover from ok have "logger_ok s'" by (simp add: s' logger_ok_def ptr_bytes_def)
    ultimately show ?thesis by blast
  qed
qed

text \<open>Each step of the thread keeps the books.\<close>

lemma accounted_same:
  assumes "accounted msgs s gs cur"
    and "written_blocks (ft_log s') @ taken_blocks s' @ al_bufferToWrite s' = written_blocks (ft_log s) @ taken_blocks s @ al_bufferToWrite s"
    and "reported (ft_log s') + taken_drops s' + al_dropped s' = reported (ft_log s) + taken_drops s + al_dropped s"
    and "ptr_bytes (al_currentBuffer s') = ptr_bytes (al_currentBuffer s)"
  shows "accounted msgs s' gs cur"
  using assms by (simp add: accounted_def)

lemma accounted_take_all:
  assumes "accounted msgs s gs cur" and "taken_blocks s = []" "taken_drops s = 0"
    and "ft_log s' = ft_log s" and "ptr_bytes (al_currentBuffer s') = []"
    and "taken_blocks s' @ al_bufferToWrite s' =
      al_bufferToWrite s @ (if ptr_bytes (al_currentBuffer s) = [] then [] else [ptr_bytes (al_currentBuffer s)])"
    and "taken_drops s' + al_dropped s' = al_dropped s"
  shows "\<exists>gs cur. accounted msgs s' gs cur"
proof (cases "ptr_bytes (al_currentBuffer s) = []")
  case True
  with assms have "accounted msgs s' gs cur" by (intro accounted_same [OF assms(1)]) simp_all
  then show ?thesis by blast
next
  case False
  then obtain b where b: "al_currentBuffer s = Some b" "b \<noteq> []" by (auto simp: ptr_bytes_def split: option.splits)
  with assms have "accounted (msgs @ []) s' (gs @ [(True, cur)]) []"
    by (intro accounted_push [OF assms(1) b(1)]) (simp_all add: ptr_bytes_def)
  then show ?thesis by auto
qed

lemmas taken_defs = taken_blocks_def taken_drops_def

lemma swap_ok:
  assumes "ft_pc s = Ft_wait" and "logger_ok s" and "accounted msgs s gs cur"
  shows "logger_ok (flush_swap s) \<and> (\<exists>gs cur. accounted msgs (flush_swap s) gs cur)"
proof (intro conjI accounted_take_all [OF assms(3)])
  show "taken_blocks s = []" "taken_drops s = 0" using assms(1) by (simp_all add: taken_defs)
qed (use assms(1,2) in \<open>auto simp: flush_swap_def logger_ok_def Let_def ptr_bytes_def taken_defs split: option.splits\<close>)

lemma drain_ok:
  assumes "ft_pc s = Ft_drain" and "logger_ok s" and "accounted msgs s gs cur"
  shows "logger_ok (flush_drain s) \<and> (\<exists>gs cur. accounted msgs (flush_drain s) gs cur)"
proof (intro conjI accounted_take_all [OF assms(3)])
  show "taken_blocks s = []" "taken_drops s = 0" using assms(1) by (simp_all add: taken_defs)
qed (use assms(1,2) in \<open>auto simp: flush_drain_def logger_ok_def Let_def ptr_bytes_def taken_defs split: option.splits\<close>)

lemma report_ok:
  assumes "ft_pc s = Ft_report final" and "logger_ok s" and "accounted msgs s gs cur"
  defines "s' \<equiv> (report_dropped (ft_dropped s) s)\<lparr>ft_pc := Ft_blocks final 0\<rparr>"
  shows "logger_ok s' \<and> accounted msgs s' gs cur"
proof -
  obtain fd n ok where "put_item (Drop_note (ft_dropped s)) s = s\<lparr>ft_fd := fd, ft_log := ft_log s @ [(Drop_note (ft_dropped s), n, ok)]\<rparr>"
    using put_item_cases [of "Drop_note (ft_dropped s)" s] by blast
  with assms(1,2) show ?thesis
    by (intro conjI accounted_same [OF assms(3)]) (simp_all add: s'_def report_dropped_def taken_defs logger_ok_def)
qed

lemma block_ok:
  assumes "ft_pc s = Ft_blocks final i" and "i < length (ft_localBuffers s)" and "logger_ok s" and "accounted msgs s gs cur"
  defines "s' \<equiv> (put_item (Log_block (ft_localBuffers s ! i)) s)\<lparr>ft_pc := Ft_blocks final (i + 1)\<rparr>"
  shows "logger_ok s' \<and> accounted msgs s' gs cur"
proof -
  let ?b = "Log_block (ft_localBuffers s ! i)"
  obtain fd n ok where "put_item ?b s = s\<lparr>ft_fd := fd, ft_log := ft_log s @ [(?b, n, ok)]\<rparr>"
    using put_item_cases [of ?b s] by blast
  with assms(1-3) show ?thesis
    by (intro conjI accounted_same [OF assms(4)])
      (simp_all add: s'_def taken_defs logger_ok_def Cons_nth_drop_Suc [symmetric])
qed

lemma flush_step_ok:
  assumes "logger_ok s" and "accounted msgs s gs cur"
  shows "logger_ok (flush_step opened std_err s) \<and> (\<exists>gs cur. accounted msgs (flush_step opened std_err s) gs cur)"
proof (cases "ft_pc s")
  case Ft_start
  have "logger_ok (flush_open opened std_err s) \<and> accounted msgs (flush_open opened std_err s) gs cur"
    by (intro conjI accounted_same [OF assms(2)])
      (use Ft_start assms(1) in \<open>auto simp: flush_open_def Let_def taken_defs logger_ok_def ptr_bytes_def split: option.splits\<close>)
  then show ?thesis using Ft_start by (auto simp: flush_step_def)
next
  case Ft_top
  have "logger_ok (flush_step opened std_err s) \<and> accounted msgs (flush_step opened std_err s) gs cur"
    by (intro conjI accounted_same [OF assms(2)]) (use assms(1) in \<open>simp_all add: flush_step_def Ft_top taken_defs logger_ok_def\<close>)
  then show ?thesis by blast
next
  case (Ft_blocks final i)
  consider "i < length (ft_localBuffers s)" | "final" "\<not> i < length (ft_localBuffers s)" | "\<not> final" "\<not> i < length (ft_localBuffers s)"
    by blast
  then show ?thesis
  proof cases
    case 1
    with block_ok [OF Ft_blocks 1 assms] Ft_blocks show ?thesis by (auto simp: flush_step_def)
  next
    case 2
    have "logger_ok (flush_close s) \<and> accounted msgs (flush_close s) gs cur"
      by (intro conjI accounted_same [OF assms(2)]) (use 2 assms(1) Ft_blocks in \<open>simp_all add: flush_close_def taken_defs logger_ok_def\<close>)
    with 2 Ft_blocks show ?thesis by (auto simp: flush_step_def)
  next
    case 3
    have "logger_ok (flush_recycle s) \<and> accounted msgs (flush_recycle s) gs cur"
      by (intro conjI accounted_same [OF assms(2)])
        (use 3 assms(1) Ft_blocks in \<open>simp_all add: flush_recycle_def Let_def taken_defs logger_ok_def ptr_bytes_def\<close>)
    with 3 Ft_blocks show ?thesis by (auto simp: flush_step_def)
  qed
qed (use swap_ok [OF _ assms] report_ok [OF _ assms] drain_ok [OF _ assms] assms in \<open>auto simp: flush_step_def\<close>)

subsection \<open>All interleavings\<close>

text \<open>
  Any thread may append a message while the logger is not being destroyed, the background thread takes
  its next step, or the destructor asks it to stop. The label of a step is the message appended.
\<close>

inductive logger_turn :: "descriptor option \<Rightarrow> descriptor \<Rightarrow> async_logger \<Rightarrow> u8 list list \<Rightarrow> async_logger \<Rightarrow> bool"
  for opened std_err where
  turn_append: "al_running s \<Longrightarrow> logger_append msg s = Some s' \<Longrightarrow> logger_turn opened std_err s [msg] s'"
| turn_flush: "logger_turn opened std_err s [] (flush_step opened std_err s)"
| turn_stop: "logger_turn opened std_err s [] (logger_stop s)"

inductive_cases logger_turnE: "logger_turn opened std_err s msgs s'"

lemma new_logger_ok: "logger_ok (new_logger path)" "accounted [] (new_logger path) [] []"
  by (simp_all add: new_logger_def logger_ok_def accounted_def taken_defs ptr_bytes_def written_blocks_def reported_def)

lemma turn_ok:
  assumes "logger_turn opened std_err s new s'" and "logger_ok s" and "accounted msgs s gs cur"
  shows "logger_ok s' \<and> (\<exists>gs cur. accounted (msgs @ new) s' gs cur)"
  using assms(1)
proof cases
  case (turn_append msg)
  with append_ok [OF _ assms(2,3)] show ?thesis by simp
next
  case turn_flush
  with flush_step_ok [OF assms(2,3)] show ?thesis by simp
next
  case turn_stop
  have "logger_ok s' \<and> accounted msgs s' gs cur"
    by (intro conjI accounted_same [OF assms(3)]) (use turn_stop assms(2) in \<open>auto simp: logger_stop_def logger_ok_def\<close>)
  with turn_stop show ?thesis by auto
qed

lemma reachable_ok:
  assumes "lts_steps (logger_turn opened std_err) (new_logger path) msgs s"
  shows "logger_ok s \<and> (\<exists>gs cur. accounted msgs s gs cur)"
  by (rule steps_invariant [OF assms, of "\<lambda>msgs s. logger_ok s \<and> (\<exists>gs cur. accounted msgs s gs cur)"])
    (use new_logger_ok turn_ok in blast)+

text \<open>The bytes on the line are those of the log, and an item is complete exactly if its write succeeded.\<close>

definition output_exact :: "async_logger \<Rightarrow> bool" where
  "output_exact s \<longleftrightarrow>
    (ft_pc s = Ft_start \<longrightarrow> ft_log s = []) \<and>
    d_written (ft_fd s) = concat (map (\<lambda>(i, n, ok). take n (item_bytes i)) (ft_log s)) \<and>
    (\<forall>(i, n, ok)\<in>set (ft_log s). n \<le> length (item_bytes i) \<and> (ok \<longleftrightarrow> n = length (item_bytes i)))"

lemma put_item_output: "output_exact s \<Longrightarrow> ft_pc s \<noteq> Ft_start \<Longrightarrow> output_exact (put_item i s)"
  by (rule put_item_cases [of i s]) (auto simp: output_exact_def)

lemma output_same:
  "output_exact s \<Longrightarrow> ft_log s' = ft_log s \<Longrightarrow> ft_fd s' = ft_fd s \<Longrightarrow> (ft_pc s' = Ft_start \<Longrightarrow> ft_pc s = Ft_start) \<Longrightarrow> output_exact s'"
  by (auto simp: output_exact_def)

lemma put_item_pc [simp]: "ft_pc (put_item i s) = ft_pc s"
  by (simp add: put_item_def split: prod.splits)

lemma flush_step_output:
  assumes "output_exact s" and "\<And>fd. opened = Some fd \<Longrightarrow> d_written fd = []" and "d_written std_err = []"
  shows "output_exact (flush_step opened std_err s)"
proof (cases "ft_pc s")
  case Ft_start
  then show ?thesis using assms by (auto simp: flush_step_def flush_open_def output_exact_def Let_def split: option.splits)
next
  case (Ft_report final)
  then have "output_exact (report_dropped (ft_dropped s) s)"
    using put_item_output [OF assms(1), of "Drop_note (ft_dropped s)"] assms(1) by (simp add: report_dropped_def)
  with Ft_report show ?thesis by (auto simp: flush_step_def intro: output_same)
next
  case (Ft_blocks final i)
  show ?thesis
  proof (cases "i < length (ft_localBuffers s)")
    case True
    from put_item_output [OF assms(1)] Ft_blocks have "output_exact (put_item (Log_block (ft_localBuffers s ! i)) s)" by simp
    with Ft_blocks True show ?thesis by (simp add: flush_step_def) (auto elim: output_same)
  next
    case False
    with Ft_blocks show ?thesis
      by (intro output_same [OF assms(1)]) (auto simp: flush_step_def flush_close_def flush_recycle_def Let_def split: if_splits)
  qed
qed (rule output_same [OF assms(1)];
  auto simp: flush_step_def flush_swap_def flush_drain_def Let_def split: option.splits if_splits)+

lemma append_fields:
  assumes "logger_append msg s = Some s'"
  shows "ft_log s' = ft_log s" "ft_fd s' = ft_fd s" "ft_pc s' = ft_pc s" "ft_localBuffers s' = ft_localBuffers s"
  using assms by (auto simp: logger_append_def Let_def split: option.splits if_splits)

lemma reachable_output:
  assumes "lts_steps (logger_turn opened std_err) (new_logger path) msgs s"
    and "\<And>fd. opened = Some fd \<Longrightarrow> d_written fd = []" and "d_written std_err = []"
  shows "output_exact s"
proof (rule steps_invariant [OF assms(1), of "\<lambda>msgs. output_exact"])
  show "output_exact (new_logger path)" by (simp add: new_logger_def output_exact_def)
next
  fix s new s' assume out: "output_exact s" and "logger_turn opened std_err s new s'"
  from this(2) show "output_exact s'"
  proof cases
    case (turn_append msg)
    with append_fields [of msg s s'] show ?thesis by (intro output_same [OF out]) simp_all
  next
    case turn_stop
    then show ?thesis by (intro output_same [OF out]) (simp_all add: logger_stop_def)
  qed (use flush_step_output [OF out assms(2,3)] in simp)
qed

lemma flush_steps: "lts_steps (logger_turn opened std_err) s [] ((flush_step opened std_err ^^ n) s)"
proof (induction n)
  case (Suc n)
  have "lts_steps (logger_turn opened std_err) ((flush_step opened std_err ^^ n) s) [] (flush_step opened std_err ((flush_step opened std_err ^^ n) s))"
    by (intro steps_single turn_flush)
  from steps_trans [OF Suc this] show ?case by simp
qed (simp add: steps_refl)

text \<open>A small run for the examples: one line is appended, the thread opens its output and writes it.\<close>

definition example_logger :: async_logger where
  "example_logger = the (logger_append [104, 105, 10] (new_logger []))"

definition example_stderr :: descriptor where
  "example_stderr = open_descriptor [] [Write_count 2, Write_error EINTR, Write_count 7]"

lemma example_logger_eq: "example_logger = (new_logger [])\<lparr>al_currentBuffer := Some [104, 105, 10]\<rparr>"
  by (simp add: example_logger_def logger_append_def new_logger_def kBufferSize_def)

lemma example_logger_steps: "lts_steps (logger_turn None example_stderr) (new_logger []) [[104, 105, 10]] example_logger"
proof (rule steps_single, rule turn_append)
  show "logger_append [104, 105, 10] (new_logger []) = Some example_logger"
    by (simp add: example_logger_def logger_append_def new_logger_def kBufferSize_def)
qed (simp add: new_logger_def)

lemma output_whole:
  assumes "output_exact s" and "\<forall>(i, n, ok)\<in>set (ft_log s). ok"
  shows "d_written (ft_fd s) = concat (map (item_bytes \<circ> fst) (ft_log s))"
proof -
  have "map (\<lambda>(i, n, ok). take n (item_bytes i)) (ft_log s) = map (item_bytes \<circ> fst) (ft_log s)"
  proof (intro map_cong refl)
    fix x assume "x \<in> set (ft_log s)"
    with assms show "(\<lambda>(i, n, ok). take n (item_bytes i)) x = (item_bytes \<circ> fst) x"
      unfolding output_exact_def by (cases x) fastforce
  qed
  with assms(1) show ?thesis by (simp add: output_exact_def)
qed

text \<open>
  C25. Log messages are handed to the output whole, once and in order: whatever the interleaving of appending threads and
  the background thread, the messages are cut into groups of consecutive whole ones, of which the kept groups
  are, in order, the blocks handed to \<^verbatim>\<open>write\<close>, then those waiting, the groups lost to overflow are exactly as many as
  the notes and the counters say, and the rest is the current buffer. Write errors are in no counter: the output consists of
  the items handed over, blocks and notes, in order, each of them whole if its write succeeded and cut short, possibly in the middle of a message,
  exactly if it failed; so when no write fails, the output is those items, whole. Appending never uses a null buffer.
\<close>

theorem log_messages_whole_and_counted:
  assumes "lts_steps (logger_turn opened std_err) (new_logger path) msgs s"
    and "\<forall>fd\<in>set_option opened. d_written fd = []" and "d_written std_err = []"
  shows "(\<exists>gs cur. concat (map snd gs) @ cur = msgs \<and>
      map (\<lambda>g. concat (snd g)) (filter fst gs) = written_blocks (ft_log s) @ taken_blocks s @ al_bufferToWrite s \<and>
      length (filter (\<lambda>g. \<not> fst g) gs) = reported (ft_log s) + taken_drops s + al_dropped s \<and>
      concat cur = ptr_bytes (al_currentBuffer s)) \<and>
    d_written (ft_fd s) = concat (map (\<lambda>(i, n, ok). take n (item_bytes i)) (ft_log s)) \<and>
    (\<forall>(i, n, ok)\<in>set (ft_log s). n \<le> length (item_bytes i) \<and> (ok \<longleftrightarrow> n = length (item_bytes i))) \<and>
    ((\<forall>(i, n, ok)\<in>set (ft_log s). ok) \<longrightarrow> d_written (ft_fd s) = concat (map (item_bytes \<circ> fst) (ft_log s))) \<and>
    (al_running s \<longrightarrow> logger_append msg s \<noteq> None)"
proof -
  from reachable_ok [OF assms(1)] obtain gs cur where "logger_ok s" "accounted msgs s gs cur" by blast
  moreover have "output_exact s" using reachable_output [OF assms(1) _ assms(3)] assms(2) by auto
  moreover note output_whole [OF this]
  moreover from \<open>logger_ok s\<close> have "al_running s \<longrightarrow> logger_append msg s \<noteq> None"
    by (auto simp: logger_ok_def logger_append_def Let_def split: option.splits)
  ultimately show ?thesis unfolding accounted_def output_exact_def by fast
qed

theorem log_messages_whole_and_counted_witness:
  "d_written (ft_fd ((flush_step None example_stderr ^^ 5) example_logger)) = [104, 105, 10]"
proof -
  let ?s = "(flush_step None example_stderr ^^ 5) example_logger"
  from steps_trans [OF example_logger_steps flush_steps]
  have "lts_steps (logger_turn None example_stderr) (new_logger []) [[104, 105, 10]] ?s" by simp
  from log_messages_whole_and_counted [OF this, of undefined]
  have "d_written (ft_fd ?s) = concat (map (\<lambda>(i, n, ok). take n (item_bytes i)) (ft_log ?s))" by (simp add: example_stderr_def)
  moreover have "ft_log ?s = [(Log_block [104, 105, 10], 3, True)]" unfolding example_logger_eq by code_simp
  ultimately show ?thesis by (simp add: item_bytes_def)
qed

subsection \<open>Bounds and shutdown\<close>

text \<open>Memory: with lines of at most \<^verbatim>\<open>kMaxLogLine\<close> bytes all blocks stay below their capacity.\<close>

definition logger_bounded :: "async_logger \<Rightarrow> bool" where
  "logger_bounded s \<longleftrightarrow>
    length (al_bufferToWrite s) \<le> kMaxQueuedBuffers \<and> length (ft_localBuffers s) \<le> kMaxQueuedBuffers + 1 \<and>
    length (ptr_bytes (al_currentBuffer s)) < kBufferSize \<and>
    (\<forall>b\<in>set (al_bufferToWrite s) \<union> set (ft_localBuffers s). length b < kBufferSize)"

lemmas logger_consts = kBufferSize_def kMaxQueuedBuffers_def kKeepOnOverflow_def kMaxLogLine_def

lemma trim_queue_bound:
  "length (al_bufferToWrite (trim_queue s)) < kMaxQueuedBuffers" "set (al_bufferToWrite (trim_queue s)) \<subseteq> set (al_bufferToWrite s)"
  by (auto simp: trim_queue_def Let_def logger_consts dest: in_set_takeD)

lemma append_bounded:
  assumes "logger_append msg s = Some s'" and "logger_bounded s" and "ptr_bytes (al_nextBuffer s) = []" and "length msg \<le> kMaxLogLine"
  shows "logger_bounded s'"
proof -
  from assms(1) obtain b where b: "al_currentBuffer s = Some b" by (auto simp: logger_append_def split: option.splits)
  show ?thesis
  proof (cases "length msg + length b < kBufferSize")
    case True
    with assms(1) b have "s' = s\<lparr>al_currentBuffer := Some (b @ msg)\<rparr>" by (simp add: logger_append_def)
    with True assms(2) show ?thesis by (simp add: logger_bounded_def ptr_bytes_def)
  next
    case False
    have "ptr_bytes (al_nextBuffer (trim_queue s)) = []"
      using assms(3) by (auto simp: trim_queue_def Let_def ptr_bytes_def split: option.splits)
    with False assms(1) b have "al_bufferToWrite s' = al_bufferToWrite (trim_queue s) @ [b]" "al_currentBuffer s' = Some msg"
      by (auto simp: logger_append_def Let_def ptr_bytes_def split: option.splits)
    with trim_queue_bound [of s] assms(2,4) b append_fields(4) [OF assms(1)] show ?thesis
      by (auto simp: logger_bounded_def ptr_bytes_def logger_consts)
  qed
qed

lemma put_item_bounded: "logger_bounded (put_item i s) \<longleftrightarrow> logger_bounded s"
  by (rule put_item_cases [of i s]) (simp add: logger_bounded_def)

lemma flush_step_bounded:
  assumes "logger_bounded s" and "logger_ok s"
  shows "logger_bounded (flush_step opened std_err s)"
proof (cases "ft_pc s")
  case (Ft_report final)
  with assms put_item_bounded [of "Drop_note (ft_dropped s)" s] show ?thesis
    by (auto simp: flush_step_def report_dropped_def) (simp_all add: logger_bounded_def)
next
  case (Ft_blocks final i)
  with assms put_item_bounded [of "Log_block (ft_localBuffers s ! i)" s] show ?thesis
    by (simp add: flush_step_def flush_close_def flush_recycle_def Let_def) (simp add: logger_bounded_def)
next
  case Ft_wait
  with assms show ?thesis
    by (auto simp: flush_step_def flush_swap_def Let_def logger_ok_def logger_bounded_def ptr_bytes_def kBufferSize_def split: option.splits)
next
  case Ft_drain
  with assms show ?thesis
    by (auto simp: flush_step_def flush_drain_def Let_def logger_ok_def logger_bounded_def ptr_bytes_def kBufferSize_def split: option.splits)
qed (use assms in \<open>auto simp: flush_step_def flush_open_def Let_def logger_bounded_def split: option.splits\<close>)

lemma reachable_bounded:
  assumes "lts_steps (logger_turn opened std_err) (new_logger path) msgs s" and "\<forall>m\<in>set msgs. length m \<le> kMaxLogLine"
  shows "logger_bounded s"
proof -
  let ?I = "\<lambda>msgs s. logger_ok s \<and> (\<exists>gs cur. accounted msgs s gs cur) \<and> ((\<forall>m\<in>set msgs. length m \<le> kMaxLogLine) \<longrightarrow> logger_bounded s)"
  have "?I msgs s"
  proof (rule steps_invariant [OF assms(1), of ?I])
    show "?I [] (new_logger path)"
      using new_logger_ok [of path] by (auto simp: new_logger_def logger_bounded_def logger_consts ptr_bytes_def)
  next
    fix s evs0 new s' assume I: "?I evs0 s" and turn: "logger_turn opened std_err s new s'"
    have "logger_bounded s'" if short: "\<forall>m\<in>set (evs0 @ new). length m \<le> kMaxLogLine"
      using turn
    proof cases
      case (turn_append msg)
      with append_bounded [of msg s s'] I short show ?thesis by (simp add: logger_ok_def)
    next
      case turn_stop
      with I short show ?thesis by (simp add: logger_stop_def logger_bounded_def)
    qed (use flush_step_bounded I short in simp)
    with turn_ok [OF turn] I show "?I (evs0 @ new) s'" by blast
  qed
  with assms(2) show ?thesis by blast
qed

text \<open>
  The logger's memory is bounded however slow the output is: with lines of at most 1024 bytes at most
  64 blocks wait, at most 65 are being written, and every block, the current one included, is smaller than 64 KiB.
\<close>

theorem logger_memory_bounded:
  assumes "lts_steps (logger_turn opened std_err) (new_logger path) msgs s" and "\<forall>m\<in>set msgs. length m \<le> kMaxLogLine"
  shows "length (al_bufferToWrite s) \<le> 64 \<and> length (ft_localBuffers s) \<le> 65 \<and>
    (\<forall>b\<in>set (al_bufferToWrite s) \<union> set (ft_localBuffers s) \<union> set_option (al_currentBuffer s). length b < 65536)"
  using reachable_bounded [OF assms] by (auto simp: logger_bounded_def logger_consts ptr_bytes_def split: option.splits)

theorem logger_memory_bounded_witness: "\<forall>b\<in>set_option (al_currentBuffer example_logger). length b < 65536"
  using logger_memory_bounded [OF example_logger_steps] by (simp add: kMaxLogLine_def)

text \<open>Once stopped, the thread comes closer to its end with every step.\<close>

definition flush_rank :: "async_logger \<Rightarrow> nat" where
  "flush_rank s =
    (let w = length (al_bufferToWrite s)
     in case ft_pc s of
          Ft_exit \<Rightarrow> 0
        | Ft_blocks final i \<Rightarrow> (if final then 1 else 10 + w) + (length (ft_localBuffers s) - i)
        | Ft_report final \<Rightarrow> (if final then 2 else 11 + w) + length (ft_localBuffers s)
        | Ft_drain \<Rightarrow> 4 + w
        | Ft_top \<Rightarrow> 5 + w
        | Ft_start \<Rightarrow> 6 + w
        | Ft_wait \<Rightarrow> 14 + w)"

lemma flush_rank_decreases:
  assumes "logger_ok s" and "\<not> al_running s" and "ft_pc s \<noteq> Ft_exit"
  shows "flush_rank (flush_step opened std_err s) < flush_rank s \<and> \<not> al_running (flush_step opened std_err s)"
proof (cases "ft_pc s")
  case (Ft_report final)
  then show ?thesis using assms(2)
    by (rule_tac put_item_cases [of "Drop_note (ft_dropped s)" s]) (simp add: flush_step_def report_dropped_def flush_rank_def)
next
  case (Ft_blocks final i)
  then show ?thesis using assms(2)
    by (rule_tac put_item_cases [of "Log_block (ft_localBuffers s ! i)" s])
      (auto simp: flush_step_def flush_close_def flush_recycle_def flush_rank_def Let_def)
qed (use assms in \<open>auto simp: flush_step_def flush_open_def flush_swap_def flush_drain_def flush_rank_def Let_def logger_ok_def
  split: option.splits\<close>)

text \<open>What the final stages of the thread leave in the queue: nothing.\<close>

definition drained :: "async_logger \<Rightarrow> bool" where
  "drained s \<longleftrightarrow> (ft_pc s = Ft_exit \<or> pc_final (ft_pc s) \<and> ft_pc s \<noteq> Ft_drain \<longrightarrow>
     \<not> al_running s \<and> al_bufferToWrite s = [] \<and> al_dropped s = 0 \<and> ptr_bytes (al_currentBuffer s) = [])"

lemma put_item_drained [simp]:
  "al_running (put_item i s) = al_running s" "al_bufferToWrite (put_item i s) = al_bufferToWrite s"
  "al_dropped (put_item i s) = al_dropped s" "al_currentBuffer (put_item i s) = al_currentBuffer s"
  by (rule put_item_cases [of i s], simp)+

lemma flush_step_drained:
  assumes "drained s" and "logger_ok s" and "al_filepath s = [] \<or> opened \<noteq> None"
  shows "drained (flush_step opened std_err s)"
proof (cases "ft_pc s")
  case (Ft_report final)
  with assms(1) show ?thesis by (auto simp: flush_step_def report_dropped_def drained_def)
next
  case (Ft_blocks final i)
  with assms(1) show ?thesis by (auto simp: flush_step_def flush_close_def flush_recycle_def drained_def Let_def)
qed (use assms in \<open>auto simp: flush_step_def flush_open_def flush_swap_def flush_drain_def drained_def Let_def logger_ok_def
  ptr_bytes_def split: option.splits\<close>)

lemma filepath_simps [simp]:
  "al_filepath (put_item i s) = al_filepath s" "al_filepath (trim_queue s) = al_filepath s"
  "al_filepath (flush_swap s) = al_filepath s" "al_filepath (flush_recycle s) = al_filepath s"
  "al_filepath (flush_drain s) = al_filepath s" "al_filepath (flush_open opened std_err s) = al_filepath s"
proof -
  show "al_filepath (put_item i s) = al_filepath s" by (rule put_item_cases [of i s]) simp
qed (auto simp: trim_queue_def flush_swap_def flush_recycle_def flush_drain_def flush_open_def Let_def split: option.splits)

lemma filepath_fixed: "logger_turn opened std_err s new s' \<Longrightarrow> al_filepath s' = al_filepath s"
proof (erule logger_turnE)
  show "logger_append msg s = Some s' \<Longrightarrow> al_filepath s' = al_filepath s" for msg
    by (auto simp: logger_append_def Let_def split: option.splits if_splits)
  show "s' = flush_step opened std_err s \<Longrightarrow> al_filepath s' = al_filepath s"
    by (cases "ft_pc s") (simp_all add: flush_step_def report_dropped_def flush_close_def)
qed (simp add: logger_stop_def)

lemma reachable_drained:
  assumes "lts_steps (logger_turn opened std_err) (new_logger path) msgs s" and "path = [] \<or> opened \<noteq> None"
  shows "drained s"
proof -
  let ?I = "\<lambda>msgs s. logger_ok s \<and> (\<exists>gs cur. accounted msgs s gs cur) \<and> al_filepath s = path \<and> drained s"
  have "?I msgs s"
  proof (rule steps_invariant [OF assms(1), of ?I])
    show "?I [] (new_logger path)" using new_logger_ok [of path] by (auto simp: new_logger_def drained_def)
  next
    fix s evs0 new s' assume I: "?I evs0 s" and turn: "logger_turn opened std_err s new s'"
    from turn have "drained s'"
    proof cases
      case (turn_append msg)
      with append_fields(3) [of msg s s'] I show ?thesis by (auto simp: drained_def)
    next
      case turn_stop
      with I show ?thesis by (auto simp: logger_stop_def drained_def)
    qed (use flush_step_drained I assms(2) in auto)
    with turn_ok [OF turn] filepath_fixed [OF turn] I show "?I (evs0 @ new) s'" by blast
  qed
  then show ?thesis by blast
qed

lemma stopped_thread_exits:
  assumes "lts_steps (logger_turn opened std_err) (new_logger path) msgs s" and "\<not> al_running s"
  obtains n s' where "s' = (flush_step opened std_err ^^ n) s" "ft_pc s' = Ft_exit"
    "lts_steps (logger_turn opened std_err) (new_logger path) msgs s'"
proof -
  have "\<exists>n. ft_pc ((flush_step opened std_err ^^ n) s) = Ft_exit \<and>
      lts_steps (logger_turn opened std_err) (new_logger path) msgs ((flush_step opened std_err ^^ n) s)"
    using assms
  proof (induction s rule: measure_induct_rule [of flush_rank])
    case (less s)
    show ?case
    proof (cases "ft_pc s = Ft_exit")
      case True
      with less.prems(1) show ?thesis by (intro exI [of _ 0]) simp
    next
      case False
      let ?s = "flush_step opened std_err s"
      from reachable_ok [OF less.prems(1)] have "logger_ok s" by blast
      note dec = flush_rank_decreases [OF this less.prems(2) False, of opened std_err]
      have "lts_steps (logger_turn opened std_err) s [] ?s" by (intro steps_single turn_flush)
      from steps_trans [OF less.prems(1) this]
      have "lts_steps (logger_turn opened std_err) (new_logger path) msgs ?s" by simp
      from less.IH [OF _ this] dec obtain n where "ft_pc ((flush_step opened std_err ^^ n) ?s) = Ft_exit"
        "lts_steps (logger_turn opened std_err) (new_logger path) msgs ((flush_step opened std_err ^^ n) ?s)" by blast
      then show ?thesis by (intro exI [of _ "Suc n"]) (simp add: funpow_swap1)
    qed
  qed
  with that show ?thesis by blast
qed

text \<open>
  C26. Stopping the logger loses nothing silently: once the destructor has asked it to stop, the background
  thread ends after finitely many steps, and then, if its output could be opened, every message was
  in a block handed to the kernel, in order, or in one of the blocks the notes in the output count as lost.
\<close>

theorem logger_shutdown_accounts_for_all:
  assumes "lts_steps (logger_turn opened std_err) (new_logger path) msgs s" and "\<not> al_running s"
    and "path = [] \<or> opened \<noteq> None"
  shows "\<exists>n s' gs. s' = (flush_step opened std_err ^^ n) s \<and> ft_pc s' = Ft_exit \<and>
    concat (concat (map snd gs)) = concat msgs \<and> map (\<lambda>g. concat (snd g)) (filter fst gs) = written_blocks (ft_log s') \<and>
    length (filter (\<lambda>g. \<not> fst g) gs) = reported (ft_log s')"
proof -
  from stopped_thread_exits [OF assms(1,2)] obtain n s' where s': "s' = (flush_step opened std_err ^^ n) s" "ft_pc s' = Ft_exit"
    and steps: "lts_steps (logger_turn opened std_err) (new_logger path) msgs s'" .
  from reachable_ok [OF steps] obtain gs cur where "accounted msgs s' gs cur" by blast
  moreover from reachable_drained [OF steps assms(3)] s'(2) have "al_bufferToWrite s' = []" "al_dropped s' = 0"
    "ptr_bytes (al_currentBuffer s') = []" by (auto simp: drained_def)
  moreover have "taken_blocks s' = []" "taken_drops s' = 0" using s'(2) by (simp_all add: taken_defs)
  ultimately have "concat (concat (map snd gs)) = concat msgs \<and>
      map (\<lambda>g. concat (snd g)) (filter fst gs) = written_blocks (ft_log s') \<and>
      length (filter (\<lambda>g. \<not> fst g) gs) = reported (ft_log s')"
    by (auto simp: accounted_def)
  with s' show ?thesis by blast
qed

theorem logger_shutdown_accounts_for_all_witness:
  "\<exists>n. ft_pc ((flush_step None example_stderr ^^ n) (logger_stop example_logger)) = Ft_exit"
proof -
  have "lts_steps (logger_turn None example_stderr) example_logger [] (logger_stop example_logger)"
    by (intro steps_single turn_stop)
  from steps_trans [OF example_logger_steps this]
  have "lts_steps (logger_turn None example_stderr) (new_logger []) [[104, 105, 10]] (logger_stop example_logger)" by simp
  from logger_shutdown_accounts_for_all [OF this] show ?thesis by (auto simp: logger_stop_def)
qed

end
