(* ===== verification/Node_Sim.thy ===== *)
theory Node_Sim
  imports Edge_Frame Edge_Sr Command_Tracker Telemetry_Decoder Posix
begin

text \<open>
  \<^verbatim>\<open>tools/node-sim/main.cpp\<close>: the simulated sensor node that the gateway is tested against. It shares
  the C protocol code with the firmware and has its own command execution, periodic telemetry and fault
  injection. What the C++ library and the machine provide is an argument: the draws of the random engine,
  the steady clock (one value per call, in milliseconds), the answers of the descriptor, and \<^verbatim>\<open>strtod\<close>.
  The printed messages are left out.
\<close>

subsection \<open>Command line\<close>

text \<open>The doubles of the command line: a probability may be any of these.\<close>

datatype float64 = Float rat | Infinite bool | NaN

fun float_less :: "float64 \<Rightarrow> float64 \<Rightarrow> bool" where
  "float_less (Float a) (Float b) \<longleftrightarrow> a < b"
| "float_less (Infinite neg) (Float b) \<longleftrightarrow> neg"
| "float_less (Float a) (Infinite neg) \<longleftrightarrow> \<not> neg"
| "float_less (Infinite a) (Infinite b) \<longleftrightarrow> a \<and> \<not> b"
| "float_less NaN y \<longleftrightarrow> False"
| "float_less x NaN \<longleftrightarrow> False"

record sim_options =
  op_device :: string
  op_period_s :: int
  op_drop_uplink :: float64
  op_drop_ack :: float64
  op_garbage :: float64
  op_no_ack :: bool
  op_seed :: u32

definition default_options :: sim_options where
  "default_options = \<lparr>op_device = [], op_period_s = 2, op_drop_uplink = Float 0, op_drop_ack = Float 0,
     op_garbage = Float 0, op_no_ack = False, op_seed = 42\<rparr>"

text \<open>\<open>Exit_2\<close> is \<^verbatim>\<open>std::exit(2)\<close>, \<open>Usage\<close> the result \<^verbatim>\<open>false\<close>, after which \<^verbatim>\<open>main\<close> prints the usage.\<close>

datatype 'a parsed = Parsed 'a | Usage | Exit_2

text \<open>
  \<open>strtod s\<close> gives the value and the number of characters used. The test is the negation of the one that
  rejects, so a value that compares with nothing gets through.
\<close>

definition parseProb :: "(string \<Rightarrow> float64 \<times> nat) \<Rightarrow> string \<Rightarrow> float64 parsed" where
  "parseProb strtod s =
    (let (v, used) = strtod s
     in if used = 0 \<or> used < length (c_str s) \<or> float_less v (Float 0) \<or> float_less (Float 1) v then Exit_2
        else Parsed v)"

definition atoi :: "string \<Rightarrow> int" where
  "atoi s = signed_take_bit 31 (fst (strtol s))"

text \<open>The lambda \<^verbatim>\<open>need\<close> with the use of the argument it returns, one option, and the loop over the options.\<close>

definition need :: "string list \<Rightarrow> (string \<Rightarrow> sim_options parsed) \<Rightarrow> (sim_options \<times> string list) parsed" where
  "need args use =
    (case args of
       [] \<Rightarrow> Exit_2
     | v # args \<Rightarrow> (case use v of Parsed opt \<Rightarrow> Parsed (opt, args) | Usage \<Rightarrow> Usage | Exit_2 \<Rightarrow> Exit_2))"

definition set_prob :: "(string \<Rightarrow> float64 \<times> nat) \<Rightarrow> (float64 \<Rightarrow> sim_options) \<Rightarrow> string \<Rightarrow> sim_options parsed" where
  "set_prob strtod f v = (case parseProb strtod v of Parsed p \<Rightarrow> Parsed (f p) | Usage \<Rightarrow> Usage | Exit_2 \<Rightarrow> Exit_2)"

definition parse_option ::
    "(string \<Rightarrow> float64 \<times> nat) \<Rightarrow> string \<Rightarrow> string list \<Rightarrow> sim_options \<Rightarrow> (sim_options \<times> string list) parsed" where
  "parse_option strtod a args opt =
    (if a = ''--period'' then need args (\<lambda>v. Parsed (opt\<lparr>op_period_s := atoi v\<rparr>))
     else if a = ''--drop-ack'' then need args (set_prob strtod (\<lambda>p. opt\<lparr>op_drop_ack := p\<rparr>))
     else if a = ''--drop-uplink'' then need args (set_prob strtod (\<lambda>p. opt\<lparr>op_drop_uplink := p\<rparr>))
     else if a = ''--garbage'' then need args (set_prob strtod (\<lambda>p. opt\<lparr>op_garbage := p\<rparr>))
     else if a = ''--no-ack'' then Parsed (opt\<lparr>op_no_ack := True\<rparr>, args)
     else if a = ''--seed'' then need args (\<lambda>v. Parsed (opt\<lparr>op_seed := word_of_int (atoi v)\<rparr>))
     else Usage)"

lemma parse_option_shorter: "parse_option strtod a args opt = Parsed (opt', rest) \<Longrightarrow> length rest \<le> length args"
  by (auto simp: parse_option_def need_def split: if_splits list.splits parsed.splits)

function parse_options :: "(string \<Rightarrow> float64 \<times> nat) \<Rightarrow> string list \<Rightarrow> sim_options \<Rightarrow> sim_options parsed" where
  "parse_options strtod [] opt = Parsed opt"
| "parse_options strtod (a # args) opt =
    (case parse_option strtod a args opt of
       Parsed (opt, rest) \<Rightarrow> parse_options strtod rest opt
     | Usage \<Rightarrow> Usage
     | Exit_2 \<Rightarrow> Exit_2)"
  by pat_completeness auto
termination
  by (relation "measure (\<lambda>(strtod, args, opt). length args)") (auto dest: parse_option_shorter)

text \<open>\<open>args\<close> is \<^verbatim>\<open>argv\<close> without the program's name.\<close>

definition parseArgs :: "(string \<Rightarrow> float64 \<times> nat) \<Rightarrow> string list \<Rightarrow> sim_options parsed" where
  "parseArgs strtod args =
    (case args of
       [] \<Rightarrow> Usage
     | device # args \<Rightarrow>
         if device = ''-h'' \<or> device = ''--help'' then Usage
         else case parse_options strtod args (default_options\<lparr>op_device := device\<rparr>) of
                Parsed opt \<Rightarrow> if op_period_s opt < 1 then Exit_2 else Parsed opt
              | r \<Rightarrow> r)"

subsection \<open>The node\<close>

text \<open>What the callbacks of the node reach through their context pointer.\<close>

record sim_context =
  cx_fd :: descriptor
  cx_opt :: sim_options
  cx_draws :: "nat \<Rightarrow> rat"
  cx_drawn :: nat
  cx_tick :: u32
  cx_clock :: "nat \<Rightarrow> nat"
  cx_clock_reads :: nat

record node_sim =
  ns_ctx :: sim_context
  ns_sr :: edge_sr_node_t

definition roll :: "float64 \<Rightarrow> sim_context \<Rightarrow> bool \<times> sim_context" where
  "roll p cx =
    (if float_less p (Float 0) \<or> p = Float 0 then (False, cx)
     else (float_less (Float (cx_draws cx (cx_drawn cx))) p, cx\<lparr>cx_drawn := cx_drawn cx + 1\<rparr>))"

definition cx_write :: "u8 list \<Rightarrow> sim_context \<Rightarrow> sim_context" where
  "cx_write bs cx = cx\<lparr>cx_fd := snd (sys_write bs (cx_fd cx))\<rparr>"

definition sendRaw :: "u8 list \<Rightarrow> sim_context \<Rightarrow> sim_context" where
  "sendRaw frame cx =
    (let (garbage, cx) = roll (op_garbage (cx_opt cx)) cx;
         cx = (if garbage then cx_write [0xFF, 0xAA, 0x13] cx else cx)
     in cx_write frame cx)"

definition sendFrame :: "u8 \<Rightarrow> u8 list option \<Rightarrow> u8 \<Rightarrow> sim_context \<Rightarrow> sim_context" where
  "sendFrame type payload len cx =
    (case edge_frame_encode type payload len (Some (replicate EDGE_FRAME_MAX 0)) of
       (n, Some frame) \<Rightarrow> if n \<noteq> 0 then sendRaw (take (unat n) frame) cx else cx
     | (n, None) \<Rightarrow> cx)"

definition temp_x10 :: "u32 \<Rightarrow> u16" where "temp_x10 tick = ucast (230 + tick mod 50)"
definition humi_x10 :: "u32 \<Rightarrow> u16" where "humi_x10 tick = ucast (500 + tick mod 200)"
definition lux :: "u32 \<Rightarrow> u16" where "lux tick = ucast (100 + (tick * 7) mod 900)"

definition reportOnce :: "sim_context \<Rightarrow> sim_context" where
  "reportOnce cx =
    (let cx = cx\<lparr>cx_tick := cx_tick cx + 1\<rparr>;
         tick = cx_tick cx;
         (drop_th, cx) = roll (op_drop_uplink (cx_opt cx)) cx;
         cx = (if \<not> drop_th then
                 let dht = replicate 4 0;
                     dht = edge_u16_be_write dht 0 (temp_x10 tick);
                     dht = edge_u16_be_write dht 2 (humi_x10 tick)
                 in sendFrame EDGE_TYPE_DHT11 (Some dht) 4 cx
               else cx);
         (drop_light, cx) = roll (op_drop_uplink (cx_opt cx)) cx;
         cx = (if \<not> drop_light then
                 let bh = edge_u16_be_write (replicate 2 0) 0 (lux tick)
                 in sendFrame EDGE_TYPE_BH1750 (Some bh) 2 cx
               else cx);
         status = EDGE_STATUS_BIT_DHT11 OR EDGE_STATUS_BIT_BH1750;
         cx = sendFrame EDGE_TYPE_STATUS (Some [status]) 1 cx
     in sendFrame EDGE_TYPE_HEARTBEAT None 0 cx)"

definition sim_execute :: "u8 \<Rightarrow> u8 \<Rightarrow> u8 list \<Rightarrow> u8 list \<Rightarrow> sim_context \<Rightarrow> u8 \<times> u8 list \<times> sim_context" where
  "sim_execute seq type args result cx =
    (let result = result[0 := EDGE_RC_BAD_PARAM]
     in if type = EDGE_TYPE_QUERY_LIGHT then
          if length args \<noteq> 0 then (1, result, cx)
          else (3, edge_u16_be_write (result[0 := EDGE_RC_OK]) 1 (lux (cx_tick cx)), cx)
        else if type = EDGE_TYPE_QUERY_TH then
          if length args \<noteq> 0 then (1, result, cx)
          else (5, edge_u16_be_write (edge_u16_be_write (result[0 := EDGE_RC_OK]) 1 (temp_x10 (cx_tick cx))) 3
                 (humi_x10 (cx_tick cx)), cx)
        else if type = EDGE_TYPE_SET_PERIOD then
          if length args = 2 \<and> edge_period_s_valid (edge_u16_be_read args 0) then
            (1, result[0 := EDGE_RC_OK],
             cx\<lparr>cx_opt := (cx_opt cx)\<lparr>op_period_s := int (unat (edge_u16_be_read args 0))\<rparr>\<rparr>)
          else (1, result, cx)
        else (1, result[0 := EDGE_RC_UNSUPPORTED], cx))"

definition sim_emit :: "u8 \<Rightarrow> u8 list \<Rightarrow> sim_context \<Rightarrow> sim_context" where
  "sim_emit type p cx =
    (if op_no_ack (cx_opt cx) then cx
     else let (dropped, cx) = roll (op_drop_ack (cx_opt cx)) cx
          in if dropped then cx else sendFrame type (Some p) (of_nat (length p)) cx)"

text \<open>One reading of the steady clock, and its milliseconds as the protocol code sees them.\<close>

definition steady_now :: "sim_context \<Rightarrow> nat \<times> sim_context" where
  "steady_now cx = (cx_clock cx (cx_clock_reads cx), cx\<lparr>cx_clock_reads := cx_clock_reads cx + 1\<rparr>)"

definition nowMs :: "sim_context \<Rightarrow> u32 \<times> sim_context" where
  "nowMs cx = (let (t, cx) = steady_now cx in (of_nat t, cx))"

definition sim_hooks :: "sim_context edge_sr_hooks_t" where
  "sim_hooks = \<lparr>now_ms = nowMs, execute = sim_execute, emit = sim_emit\<rparr>"

definition new_sim :: "sim_context \<Rightarrow> edge_sr_node_t \<Rightarrow> node_sim" where
  "new_sim cx memory = \<lparr>ns_ctx = cx, ns_sr = edge_sr_node_init memory\<rparr>"

definition sim_onFrame :: "u8 \<Rightarrow> u8 list \<Rightarrow> node_sim \<Rightarrow> node_sim" where
  "sim_onFrame type payload sim =
    (case edge_sr_node_on_frame (ns_sr sim) type (Some payload) sim_hooks (ns_ctx sim) of
       (sr, cx) \<Rightarrow> \<lparr>ns_ctx = cx, ns_sr = sr\<rparr>)"

text \<open>
  The loop of \<^verbatim>\<open>run\<close>: its state is the parser, with the node behind its user pointer, and the time of
  the next report; one turn is one passage, \<open>None\<close> the return after a failed read.
\<close>

record sim_run =
  sr_parser :: "node_sim edge_parser_t"
  sr_next_report :: nat

definition set_sim :: "node_sim \<Rightarrow> sim_run \<Rightarrow> sim_run" where
  "set_sim sim r = r\<lparr>sr_parser := (sr_parser r)\<lparr>p_user := sim\<rparr>\<rparr>"

definition run_start :: "node_sim edge_parser_t \<Rightarrow> node_sim \<Rightarrow> sim_run" where
  "run_start memory sim =
    (let (now, cx) = steady_now (ns_ctx sim)
     in \<lparr>sr_parser = edge_parser_init memory (Some sim_onFrame) (sim\<lparr>ns_ctx := cx\<rparr>), sr_next_report = now\<rparr>)"

definition run_turn :: "sim_run \<Rightarrow> sim_run option" where
  "run_turn r =
    (let sim = p_user (sr_parser r);
         (res, fd) = sys_read 128 (cx_fd (ns_ctx sim));
         r = set_sim (sim\<lparr>ns_ctx := (ns_ctx sim)\<lparr>cx_fd := fd\<rparr>\<rparr>) r
     in case (case res of
                Read_bytes bs \<Rightarrow> if bs \<noteq> [] then Some (r\<lparr>sr_parser := edge_parser_feed_buf (sr_parser r) (Some bs)\<rparr>) else Some r
              | Read_error e \<Rightarrow> if e \<noteq> EAGAIN \<and> e \<noteq> EINTR then None else Some r)
        of None \<Rightarrow> None
         | Some r \<Rightarrow>
             let sim = p_user (sr_parser r);
                 (now, cx) = steady_now (ns_ctx sim);
                 (sr, cx) = edge_sr_node_tick (ns_sr sim) sim_hooks cx;
                 r = set_sim \<lparr>ns_ctx = cx, ns_sr = sr\<rparr> r
             in if now \<ge> sr_next_report r then
                  let cx = reportOnce cx
                  in Some (set_sim \<lparr>ns_ctx = cx, ns_sr = sr\<rparr>
                       (r\<lparr>sr_next_report := now + 1000 * nat (op_period_s (cx_opt cx))\<rparr>))
                else Some r)"

lemma sim_hooks_ok: "hooks_ok sim_hooks"
  by (simp add: hooks_ok_def sim_hooks_def sim_execute_def edge_u16_be_write_def Let_def)

subsection \<open>Readings and answers\<close>

lemma unat_readings:
  "unat (temp_x10 tick) = 230 + unat tick mod 50" "unat (humi_x10 tick) = 500 + unat tick mod 200"
  "unat (lux tick) = 100 + unat (tick * 7) mod 900"
proof -
  have reading: "unat (ucast (base + x mod m) :: u16) = unat base + unat x mod unat m"
    if "unat base + unat m < 65536" "0 < unat m" for base x m :: u32
  proof -
    have m: "unat x mod unat m < unat m" using that(2) by simp
    have "unat (x mod m) = unat x mod unat m" by (simp add: unat_mod)
    with m that(1) have "unat (base + x mod m) = unat base + unat x mod unat m"
      by (subst unat_add_lem [THEN iffD1]) simp_all
    with m that(1) show ?thesis by (simp add: unsigned_ucast_eq take_bit_nat_eq_self)
  qed
  show "unat (temp_x10 tick) = 230 + unat tick mod 50" unfolding temp_x10_def by (subst reading) simp_all
  show "unat (humi_x10 tick) = 500 + unat tick mod 200" unfolding humi_x10_def by (subst reading) simp_all
  show "unat (lux tick) = 100 + unat (tick * 7) mod 900" unfolding lux_def by (subst reading) simp_all
qed

text \<open>The result bytes of each answer, in an array with room for them.\<close>

lemma write_result:
  assumes "length result = Suc (Suc (Suc (Suc (Suc n))))"
  shows "take 3 (edge_u16_be_write (result[0 := EDGE_RC_OK]) 1 v) = EDGE_RC_OK # u16_bytes v"
    "take 5 (edge_u16_be_write (edge_u16_be_write (result[0 := EDGE_RC_OK]) 1 v) 3 w) = EDGE_RC_OK # u16_bytes v @ u16_bytes w"
proof -
  from assms obtain a b c d e rest where "result = a # b # c # d # e # rest" by (auto simp: length_Suc_conv)
  moreover have "ucast (v AND 0xFF) = (ucast v :: u8)" for v :: u16
    by (auto simp: and_255_eq bit_simps intro!: bit_word_eqI)
  ultimately show "take 3 (edge_u16_be_write (result[0 := EDGE_RC_OK]) 1 v) = EDGE_RC_OK # u16_bytes v"
    "take 5 (edge_u16_be_write (edge_u16_be_write (result[0 := EDGE_RC_OK]) 1 v) 3 w) = EDGE_RC_OK # u16_bytes v @ u16_bytes w"
    by (simp_all add: edge_u16_be_write_def u16_bytes_def eval_nat_numeral)
qed

definition answer_bytes :: "u8 \<Rightarrow> u8 list \<Rightarrow> u32 \<Rightarrow> u8 list" where
  "answer_bytes type args tick =
    (if type = EDGE_TYPE_QUERY_LIGHT then if args = [] then EDGE_RC_OK # u16_bytes (lux tick) else [EDGE_RC_BAD_PARAM]
     else if type = EDGE_TYPE_QUERY_TH then
       if args = [] then EDGE_RC_OK # u16_bytes (temp_x10 tick) @ u16_bytes (humi_x10 tick) else [EDGE_RC_BAD_PARAM]
     else if type = EDGE_TYPE_SET_PERIOD then
       if length args = 2 \<and> edge_period_s_valid (edge_u16_be_read args 0) then [EDGE_RC_OK] else [EDGE_RC_BAD_PARAM]
     else [EDGE_RC_UNSUPPORTED])"

lemma take_1_update: "0 < length xs \<Longrightarrow> take (Suc 0) (xs[0 := v]) = [v]"
  by (cases xs) simp_all

lemma sim_execute_eq:
  assumes "length result = EDGE_SR_RESULT_MAX" and "sim_execute seq type args result cx = (n, result', cx')"
  shows "take (unat n) result' = answer_bytes type args (cx_tick cx)"
    "cx' = (if type = EDGE_TYPE_SET_PERIOD \<and> length args = 2 \<and> edge_period_s_valid (edge_u16_be_read args 0)
            then cx\<lparr>cx_opt := (cx_opt cx)\<lparr>op_period_s := int (unat (edge_u16_be_read args 0))\<rparr>\<rparr> else cx)"
proof -
  have "length (result[0 := EDGE_RC_BAD_PARAM]) = Suc (Suc (Suc (Suc (Suc 48))))" using assms(1) by simp
  note w = write_result [OF this, simplified]
  show "take (unat n) result' = answer_bytes type args (cx_tick cx)"
    using assms by (auto simp: sim_execute_def answer_bytes_def Let_def w take_1_update split: if_splits)
  show "cx' = (if type = EDGE_TYPE_SET_PERIOD \<and> length args = 2 \<and> edge_period_s_valid (edge_u16_be_read args 0)
      then cx\<lparr>cx_opt := (cx_opt cx)\<lparr>op_period_s := int (unat (edge_u16_be_read args 0))\<rparr>\<rparr> else cx)"
    using assms(2) by (auto simp: sim_execute_def Let_def split: if_splits)
qed

lemma answer_valid: "length header = 10 \<Longrightarrow> resultValid type (header @ answer_bytes type args tick)"
  by (auto simp: resultValid_def answer_bytes_def nth_append word_le_nat_alt)

text \<open>
  Whatever command the simulated node is asked to execute, the gateway can use the answer: the result
  passes the gateway's check of code and length, a query without arguments is answered with the current
  readings (brightness 100 to 999, temperature 23.0 to 27.9, humidity 50.0 to 69.9), a period is set exactly when it is a
  legal one, and the reporting period stays at least one second.
\<close>

theorem simulator_answers_valid:
  assumes "execute sim_hooks seq type args result cx = (n, result', cx')" and "length result = EDGE_SR_RESULT_MAX"
    and "length header = 10"
  shows "resultValid type (header @ take (unat n) result') \<and>
    (type = EDGE_TYPE_QUERY_LIGHT \<and> args = [] \<longrightarrow>
       (\<exists>v. take (unat n) result' = EDGE_RC_OK # u16_bytes v \<and> 100 \<le> unat v \<and> unat v \<le> 999)) \<and>
    (type = EDGE_TYPE_QUERY_TH \<and> args = [] \<longrightarrow>
       (\<exists>t h. take (unat n) result' = EDGE_RC_OK # u16_bytes t @ u16_bytes h \<and>
          230 \<le> unat t \<and> unat t \<le> 279 \<and> 500 \<le> unat h \<and> unat h \<le> 699)) \<and>
    (type = EDGE_TYPE_SET_PERIOD \<longrightarrow>
       (if length args = 2 \<and> edge_period_s_valid (edge_u16_be_read args 0)
        then take (unat n) result' = [EDGE_RC_OK] \<and> op_period_s (cx_opt cx') = int (unat (edge_u16_be_read args 0))
        else take (unat n) result' = [EDGE_RC_BAD_PARAM] \<and> cx' = cx)) \<and>
    (1 \<le> op_period_s (cx_opt cx) \<longrightarrow> 1 \<le> op_period_s (cx_opt cx'))"
proof -
  from assms(1) have "sim_execute seq type args result cx = (n, result', cx')" by (simp add: sim_hooks_def)
  note eq = sim_execute_eq [OF assms(2) this]
  have "unat (cx_tick cx * 7) mod 900 < 900" "unat (cx_tick cx) mod 50 < 50" "unat (cx_tick cx) mod 200 < 200" by simp_all
  then have l: "unat (lux (cx_tick cx)) \<le> 999" and t: "unat (temp_x10 (cx_tick cx)) \<le> 279" and h: "unat (humi_x10 (cx_tick cx)) \<le> 699"
    by (simp_all add: unat_readings)
  have light: "\<exists>v. answer_bytes EDGE_TYPE_QUERY_LIGHT [] (cx_tick cx) = EDGE_RC_OK # u16_bytes v \<and> 100 \<le> unat v \<and> unat v \<le> 999"
    using l by (intro exI [of _ "lux (cx_tick cx)"]) (simp add: answer_bytes_def unat_readings)
  have th: "\<exists>t h. answer_bytes EDGE_TYPE_QUERY_TH [] (cx_tick cx) = EDGE_RC_OK # u16_bytes t @ u16_bytes h \<and>
      230 \<le> unat t \<and> unat t \<le> 279 \<and> 500 \<le> unat h \<and> unat h \<le> 699"
    using t h by (intro exI [of _ "temp_x10 (cx_tick cx)"] exI [of _ "humi_x10 (cx_tick cx)"]) (simp add: answer_bytes_def unat_readings)
  have "resultValid type (header @ take (unat n) result')" unfolding eq(1) by (rule answer_valid [OF assms(3)])
  moreover have "1 \<le> op_period_s (cx_opt cx) \<longrightarrow> 1 \<le> op_period_s (cx_opt cx')"
  proof -
    have "1 \<le> uint v" if "Suc 0 \<le> unat v" for v :: u16 using that unat_eq_nat_uint [of v] by linarith
    then show ?thesis unfolding eq(2) by (simp add: edge_period_s_valid_def)
  qed
  ultimately show ?thesis using light th eq by (simp add: answer_bytes_def)
qed

text \<open>A node for the examples: noise on every second frame, a line that takes everything.\<close>

definition example_context :: sim_context where
  "example_context = \<lparr>cx_fd = open_descriptor [] (replicate 8 (Write_count 255)), cx_opt = default_options\<lparr>op_garbage := Float (1 / 2)\<rparr>,
     cx_draws = (\<lambda>n. if even n then 1 / 4 else 3 / 4), cx_drawn = 0, cx_tick = 0, cx_clock = (\<lambda>n. n), cx_clock_reads = 0\<rparr>"

theorem simulator_answers_valid_witness:
  "\<exists>n r cx. execute sim_hooks 5 EDGE_TYPE_SET_PERIOD [0, 10] (replicate 53 0) example_context = (n, r, cx) \<and>
     resultValid EDGE_TYPE_SET_PERIOD (replicate 10 0 @ take (unat n) r) \<and> op_period_s (cx_opt cx) = 10"
proof -
  obtain n r cx where e: "execute sim_hooks 5 EDGE_TYPE_SET_PERIOD [0, 10] (replicate 53 0) example_context = (n, r, cx)"
    by (metis prod_cases3)
  have "edge_u16_be_read [0, 10] 0 = 10" by code_simp
  then have "edge_period_s_valid (edge_u16_be_read [0, 10] 0)" "int (unat (edge_u16_be_read [0, 10] 0)) = 10"
    by (simp_all add: edge_period_s_valid_def)
  with simulator_answers_valid [OF e, of "replicate 10 0"]
  have "resultValid EDGE_TYPE_SET_PERIOD (replicate 10 0 @ take (unat n) r)" "op_period_s (cx_opt cx) = 10" by auto
  with e show ?thesis by blast
qed

subsection \<open>Telemetry on the line\<close>

text \<open>A descriptor that takes the next \<open>k\<close> writes whole, whatever frame is offered.\<close>

definition takes_writes :: "nat \<Rightarrow> descriptor \<Rightarrow> bool" where
  "takes_writes k d \<longleftrightarrow> k \<le> length (d_writes d) \<and> (\<forall>w\<in>set (take k (d_writes d)). \<exists>n\<ge>EDGE_FRAME_MAX. w = Write_count n)"

lemma takes_write:
  assumes "takes_writes (Suc k) d" and "length bs \<le> EDGE_FRAME_MAX"
  shows "takes_writes k (snd (sys_write bs d))" "d_written (snd (sys_write bs d)) = d_written d @ bs"
proof -
  from assms(1) obtain w ws where "d_writes d = w # ws" by (cases "d_writes d") (auto simp: takes_writes_def)
  moreover with assms(1) obtain n where "w = Write_count n" "EDGE_FRAME_MAX \<le> n" by (auto simp: takes_writes_def)
  ultimately show "takes_writes k (snd (sys_write bs d))" "d_written (snd (sys_write bs d)) = d_written d @ bs"
    using assms by (simp_all add: sys_write_def takes_writes_def min_absorb2)
qed

lemma takes_fewer: "takes_writes k d \<Longrightarrow> j \<le> k \<Longrightarrow> takes_writes j d"
  by (auto simp: takes_writes_def dest: set_take_subset_set_take [THEN subsetD])

text \<open>The bytes of a sequence of frames, some with the noise in front.\<close>

definition noise :: "u8 list" where "noise = [0xFF, 0xAA, 0x13]"

inductive carries :: "u8 list \<Rightarrow> (u8 \<times> u8 list) list \<Rightarrow> bool" where
  carries_nothing: "carries [] []"
| carries_frame: "carries bs fs \<Longrightarrow> n \<in> {[], noise} \<Longrightarrow> length pl \<le> EDGE_PAYLOAD_MAX \<Longrightarrow>
    carries (bs @ n @ wire_frame t pl) (fs @ [(t, pl)])"

lemma feed_noise: "p_state p = EDGE_ST_WAIT_HDR0 \<Longrightarrow> foldl edge_parser_feed p noise = p"
  by (simp add: noise_def edge_parser_feed_def)

lemma carries_parsed:
  assumes "carries bs fs" and "p_state p = EDGE_ST_WAIT_HDR0" and "length (p_payload p) = EDGE_PAYLOAD_MAX" and "p_on_frame p = Some cb"
  defines "q \<equiv> foldl edge_parser_feed p bs"
  shows "p_state q = EDGE_ST_WAIT_HDR0 \<and> length (p_payload q) = EDGE_PAYLOAD_MAX \<and> p_on_frame q = Some cb \<and>
    p_user q = foldl (\<lambda>u (t, pl). cb t pl u) (p_user p) fs \<and>
    p_stats q = (p_stats p)\<lparr>frames_ok := frames_ok (p_stats p) + of_nat (length fs)\<rparr>"
  using assms(1) unfolding q_def
proof (induction rule: carries.induct)
  case carries_nothing
  with assms(2-4) show ?case by simp
next
  case (carries_frame bs fs n pl t)
  let ?q = "foldl edge_parser_feed p bs"
  from carries_frame have "foldl edge_parser_feed ?q (n @ wire_frame t pl) = foldl edge_parser_feed ?q (wire_frame t pl)"
    by (auto simp: feed_noise)
  with feed_frame_accept [of ?q pl t] carries_frame show ?case by simp
qed

text \<open>Sending one frame adds it to what the line carries, and changes nothing the node's readings depend on.\<close>

definition cx_adds :: "sim_context \<Rightarrow> u8 list \<Rightarrow> sim_context \<Rightarrow> bool" where
  "cx_adds cx bs cx' \<longleftrightarrow> d_written (cx_fd cx') = d_written (cx_fd cx) @ bs \<and> cx_opt cx' = cx_opt cx \<and> cx_tick cx' = cx_tick cx"

lemma roll_fields [simp]:
  "cx_fd (snd (roll p cx)) = cx_fd cx" "cx_opt (snd (roll p cx)) = cx_opt cx" "cx_tick (snd (roll p cx)) = cx_tick cx"
  by (simp_all add: roll_def)

lemma sendRaw_adds:
  assumes "takes_writes (Suc (Suc k)) (cx_fd cx)" and "length frame \<le> EDGE_FRAME_MAX"
  obtains n where "n \<in> {[], noise}" "cx_adds cx (n @ frame) (sendRaw frame cx)" "takes_writes k (cx_fd (sendRaw frame cx))"
proof -
  obtain g cx1 where r: "roll (op_garbage (cx_opt cx)) cx = (g, cx1)" by fastforce
  from roll_fields [of "op_garbage (cx_opt cx)" cx] r have f: "cx_fd cx1 = cx_fd cx" "cx_opt cx1 = cx_opt cx" "cx_tick cx1 = cx_tick cx"
    by simp_all
  note w1 = takes_write [OF assms(1), of noise]
  show thesis
  proof (cases g)
    case True
    with takes_write [OF w1(1) assms(2)] w1(2) r f show ?thesis
      by (intro that [of noise]) (simp_all add: sendRaw_def cx_write_def cx_adds_def noise_def)
  next
    case False
    with takes_write [OF takes_fewer [OF assms(1)] assms(2), of k] r f show ?thesis
      by (intro that [of "[]"]) (simp_all add: sendRaw_def cx_write_def cx_adds_def)
  qed
qed

lemma sendFrame_adds:
  assumes "takes_writes (Suc (Suc k)) (cx_fd cx)" and "length pl \<le> EDGE_PAYLOAD_MAX"
    and "payload = Some pl \<or> payload = None \<and> pl = []" and "len = of_nat (length pl)"
  obtains n where "n \<in> {[], noise}" "cx_adds cx (n @ wire_frame type pl) (sendFrame type payload len cx)"
    "takes_writes k (cx_fd (sendFrame type payload len cx))"
proof -
  have "edge_frame_encode type payload len (Some (replicate EDGE_FRAME_MAX 0)) =
      (of_nat (length pl + 6), Some (wire_frame type pl @ drop (length pl + 6) (replicate EDGE_FRAME_MAX 0)))"
    using edge_frame_encode_ok [of pl "replicate EDGE_FRAME_MAX 0" payload "[]" type] assms(2-4) by simp
  moreover have u: "unat (of_nat (length pl + 6) :: u8) = length pl + 6" using assms(2) by (simp only: unat_of_nat_u8)
  moreover from u have "(of_nat (length pl + 6) :: u8) \<noteq> 0" by (metis add_is_0 unat_0 zero_neq_numeral)
  ultimately have "sendFrame type payload len cx = sendRaw (wire_frame type pl) cx"
    by (simp add: sendFrame_def del: of_nat_add)
  moreover have "length (wire_frame type pl) \<le> EDGE_FRAME_MAX" using assms(2) by simp
  ultimately show thesis using sendRaw_adds [OF assms(1)] that by metis
qed

text \<open>A report: one or two measurements, unless they are dropped on purpose, then status and heartbeat.\<close>

definition th_frame :: "u32 \<Rightarrow> u8 \<times> u8 list" where
  "th_frame tick = (EDGE_TYPE_DHT11, u16_bytes (temp_x10 tick) @ u16_bytes (humi_x10 tick))"

definition light_frame :: "u32 \<Rightarrow> u8 \<times> u8 list" where
  "light_frame tick = (EDGE_TYPE_BH1750, u16_bytes (lux tick))"

definition report_frames :: "bool \<Rightarrow> bool \<Rightarrow> u32 \<Rightarrow> (u8 \<times> u8 list) list" where
  "report_frames th light tick =
    (if th then [th_frame tick] else []) @ (if light then [light_frame tick] else []) @ [(EDGE_TYPE_STATUS, [3]), (EDGE_TYPE_HEARTBEAT, [])]"

lemma sent_bytes:
  "edge_u16_be_write (edge_u16_be_write (replicate 4 0) 0 v) 2 w = u16_bytes v @ u16_bytes w"
  "edge_u16_be_write (replicate 2 0) 0 v = u16_bytes v"
proof -
  have "ucast (v AND 0xFF) = (ucast v :: u8)" for v :: u16 by (auto simp: and_255_eq bit_simps intro!: bit_word_eqI)
  then show "edge_u16_be_write (edge_u16_be_write (replicate 4 0) 0 v) 2 w = u16_bytes v @ u16_bytes w"
    "edge_u16_be_write (replicate 2 0) 0 v = u16_bytes v"
    by (simp_all add: edge_u16_be_write_def u16_bytes_def eval_nat_numeral)
qed

definition cx_carries :: "sim_context \<Rightarrow> nat \<Rightarrow> (u8 \<times> u8 list) list \<Rightarrow> sim_context \<Rightarrow> bool" where
  "cx_carries cx k fs cx' \<longleftrightarrow> takes_writes k (cx_fd cx') \<and> (\<exists>bs. carries bs fs \<and> cx_adds cx bs cx')"

lemma cx_carries_send:
  assumes "cx_carries cx (Suc (Suc k)) fs cx'" and "length pl \<le> EDGE_PAYLOAD_MAX"
    and "payload = Some pl \<or> payload = None \<and> pl = []" and "len = of_nat (length pl)"
  shows "cx_carries cx k (fs @ [(type, pl)]) (sendFrame type payload len cx')"
proof -
  from assms(1) obtain bs where c: "takes_writes (Suc (Suc k)) (cx_fd cx')" "carries bs fs" "cx_adds cx bs cx'"
    by (auto simp: cx_carries_def)
  from sendFrame_adds [OF c(1) assms(2-4)] obtain n where n: "n \<in> {[], noise}"
    "cx_adds cx' (n @ wire_frame type pl) (sendFrame type payload len cx')" "takes_writes k (cx_fd (sendFrame type payload len cx'))" .
  from carries_frame [OF c(2) n(1) assms(2), of type] c(3) n(2,3) show ?thesis
    by (auto simp: cx_carries_def cx_adds_def)
qed

lemma cx_carries_roll: "cx_carries cx k fs cx' \<Longrightarrow> cx_carries cx k fs (snd (roll p cx'))"
  by (simp add: cx_carries_def cx_adds_def)

lemma cx_carries_fewer: "cx_carries cx k fs cx' \<Longrightarrow> j \<le> k \<Longrightarrow> cx_carries cx j fs cx'"
  by (auto simp: cx_carries_def intro: takes_fewer)

lemma cx_carries_tick: "cx_carries cx k fs cx' \<Longrightarrow> cx_tick cx' = cx_tick cx \<and> cx_opt cx' = cx_opt cx"
  by (auto simp: cx_carries_def cx_adds_def)

text \<open>A measurement, sent unless the draw says otherwise.\<close>

lemma cx_carries_maybe:
  assumes "cx_carries cx (Suc (Suc k)) fs cx'" and "roll p cx' = (dropped, cx1)" and "length pl \<le> EDGE_PAYLOAD_MAX" and "len = of_nat (length pl)"
  shows "cx_carries cx k (fs @ (if dropped then [] else [(type, pl)])) (if \<not> dropped then sendFrame type (Some pl) len cx1 else cx1)"
proof -
  from cx_carries_roll [OF assms(1), of p] assms(2) have "cx_carries cx (Suc (Suc k)) fs cx1" by simp
  with cx_carries_send [OF this assms(3) _ assms(4)] cx_carries_fewer [OF this, of k] show ?thesis by simp
qed

lemma roll_never: "fst (roll (Float 0) cx) = False"
  by (simp add: roll_def)

lemma frame_simps:
  "(EDGE_TYPE_DHT11, snd (th_frame t)) = th_frame t" "(EDGE_TYPE_BH1750, snd (light_frame t)) = light_frame t"
  "length (snd (th_frame t)) = 4" "length (snd (light_frame t)) = 2"
  by (simp_all add: th_frame_def light_frame_def)

lemma reportOnce_carries:
  assumes "takes_writes 8 (cx_fd cx)"
  obtains th light where "cx_carries (cx\<lparr>cx_tick := cx_tick cx + 1\<rparr>) 0 (report_frames th light (cx_tick cx + 1)) (reportOnce cx)"
    "op_drop_uplink (cx_opt cx) = Float 0 \<Longrightarrow> th \<and> light"
proof -
  define cx0 where "cx0 = cx\<lparr>cx_tick := cx_tick cx + 1\<rparr>"
  define t where "t = cx_tick cx + 1"
  let ?p = "op_drop_uplink (cx_opt cx)"
  obtain d1 cx1 where r1: "roll ?p cx0 = (d1, cx1)" by fastforce
  define cx2 where "cx2 = (if \<not> d1 then sendFrame EDGE_TYPE_DHT11 (Some (snd (th_frame t))) 4 cx1 else cx1)"
  obtain d2 cx3 where r2: "roll ?p cx2 = (d2, cx3)" by fastforce
  define cx4 where "cx4 = (if \<not> d2 then sendFrame EDGE_TYPE_BH1750 (Some (snd (light_frame t))) 2 cx3 else cx3)"
  define fs1 where "fs1 = (if d1 then [] else [th_frame t])"
  define fs2 where "fs2 = (if d2 then [] else [light_frame t])"
  have "cx_carries cx0 8 [] cx0" using assms by (auto simp: cx_carries_def cx_adds_def cx0_def intro!: exI [of _ "[]"] carries_nothing)
  then have c0: "cx_carries cx0 (Suc (Suc 6)) [] cx0" by (simp add: eval_nat_numeral)
  have c2: "cx_carries cx0 (Suc (Suc 4)) fs1 cx2"
    using cx_carries_maybe [OF c0 r1, of "snd (th_frame t)" 4 EDGE_TYPE_DHT11] unfolding fs1_def cx2_def frame_simps by simp
  have c4: "cx_carries cx0 (Suc (Suc (Suc (Suc 0)))) (fs1 @ fs2) cx4"
    using cx_carries_maybe [OF c2 r2 [unfolded cx2_def [symmetric]], of "snd (light_frame t)" 2 EDGE_TYPE_BH1750]
    unfolding fs2_def cx4_def frame_simps by (simp add: eval_nat_numeral)
  let ?s = "sendFrame EDGE_TYPE_STATUS (Some [3]) 1 cx4"
  have c5: "cx_carries cx0 (Suc (Suc 0)) ((fs1 @ fs2) @ [(EDGE_TYPE_STATUS, [3])]) ?s"
    by (rule cx_carries_send [OF c4]) simp_all
  have c6: "cx_carries cx0 0 (((fs1 @ fs2) @ [(EDGE_TYPE_STATUS, [3])]) @ [(EDGE_TYPE_HEARTBEAT, [])]) (sendFrame EDGE_TYPE_HEARTBEAT None 0 ?s)"
    by (rule cx_carries_send [OF c5]) simp_all
  have opt: "cx_opt cx2 = cx_opt cx" using cx_carries_tick [OF c2] by (simp add: cx0_def)
  have "reportOnce cx = sendFrame EDGE_TYPE_HEARTBEAT None 0 ?s"
    unfolding reportOnce_def Let_def sent_bytes t_def [symmetric] using r1 r2 opt
    by (cases d1; cases d2) (simp_all add: cx0_def [folded t_def] cx2_def cx4_def th_frame_def light_frame_def)
  with c6 have "cx_carries cx0 0 (report_frames (\<not> d1) (\<not> d2) t) (reportOnce cx)"
    by (cases d1; cases d2) (simp_all add: report_frames_def fs1_def fs2_def)
  moreover have "\<not> d1 \<and> \<not> d2" if "?p = Float 0"
    using r1 r2 roll_never [of cx0] roll_never [of cx2] that by simp
  ultimately show thesis using that unfolding cx0_def t_def by blast
qed

text \<open>What the gateway publishes of a sequence of frames.\<close>

definition published :: "(u8 \<times> u8 list) list \<Rightarrow> (string \<times> string) list" where
  "published fs = concat (map (\<lambda>(t, pl). map reading_text (decodeTelemetry \<lparr>f_type = t, f_payload = pl\<rparr>)) fs)"

lemma published_report:
  "published (report_frames th light tick) =
    (if th then [(''temperature'', tenths_text (230 + unat tick mod 50)), (''humidity'', tenths_text (500 + unat tick mod 200))] else []) @
    (if light then [(''illuminance'', to_string (100 + unat (tick * 7) mod 900))] else []) @
    [(''status_dht11'', ''1''), (''status_bh1750'', ''1'')]"
proof -
  have "edge_u16_be_read (u16_bytes t @ u16_bytes h) 0 = t" "edge_u16_be_read (u16_bytes t @ u16_bytes h) 2 = h"
    "edge_u16_be_read (u16_bytes t) 0 = t" for t h :: u16
    using edge_u16_be_read_bytes [of "[]" t "u16_bytes h"] edge_u16_be_read_bytes [of "u16_bytes t" h "[]"]
      edge_u16_be_read_bytes [of "[]" t "[]"] by simp_all
  then have "published [th_frame tick] = [(''temperature'', tenths_text (unat (temp_x10 tick))), (''humidity'', tenths_text (unat (humi_x10 tick)))]"
    "published [light_frame tick] = [(''illuminance'', to_string (unat (lux tick)))]"
    by (simp_all add: published_def th_frame_def light_frame_def decode_eq edge_min_payload_len_def reading_texts)
  moreover have "published [(EDGE_TYPE_STATUS, [3]), (EDGE_TYPE_HEARTBEAT, [])] = [(''status_dht11'', ''1''), (''status_bh1750'', ''1'')]"
  proof -
    have "bit (3 :: u8) 0" "bit (3 :: u8) 1" by simp_all
    then show ?thesis by (simp add: published_def decode_eq edge_min_payload_len_def reading_texts(3) [of _ True, simplified])
  qed
  moreover have "published (a @ b) = published a @ published b" for a b by (simp add: published_def)
  ultimately show ?thesis by (simp add: report_frames_def unat_readings published_def [of "[]"])
qed

lemma report_frames_numbers:
  "report_frames th light tick =
    (if th then [(EDGE_TYPE_DHT11, u16_bytes (of_nat (230 + unat tick mod 50)) @ u16_bytes (of_nat (500 + unat tick mod 200)))] else []) @
    (if light then [(EDGE_TYPE_BH1750, u16_bytes (of_nat (100 + unat (tick * 7) mod 900)))] else []) @
    [(EDGE_TYPE_STATUS, [3]), (EDGE_TYPE_HEARTBEAT, [])]"
  by (simp only: report_frames_def th_frame_def light_frame_def unat_readings [symmetric] of_nat_unat ucast_id)

text \<open>
  C27. What the simulated node measures is what the gateway publishes: the bytes of a report round, noise
  injected by the node included, make a parser that is between two frames deliver exactly the frames of the round, by type,
  payload and order - the measurements that are not dropped, the status with both sensors present and no other bit, and the
  heartbeat - and counts them and no error; the readings of these frames are published as the exact decimal texts of the node's
  numbers. With the dropping of measurements off, both measurements arrive.
\<close>

theorem simulator_telemetry_arrives:
  assumes "takes_writes 8 (cx_fd cx)" and "p_state p = EDGE_ST_WAIT_HDR0" and "length (p_payload p) = EDGE_PAYLOAD_MAX"
    and "p_on_frame p = Some (\<lambda>t pl frames. frames @ [(t, pl)])" and "p_user p = []"
  defines "q \<equiv> edge_parser_feed_buf p (Some (drop (length (d_written (cx_fd cx))) (d_written (cx_fd (reportOnce cx)))))"
    and "tick \<equiv> cx_tick cx + 1"
  shows "\<exists>th light. (op_drop_uplink (cx_opt cx) = Float 0 \<longrightarrow> th \<and> light) \<and>
    p_user q =
      (if th then [(EDGE_TYPE_DHT11, u16_bytes (of_nat (230 + unat tick mod 50)) @ u16_bytes (of_nat (500 + unat tick mod 200)))] else []) @
      (if light then [(EDGE_TYPE_BH1750, u16_bytes (of_nat (100 + unat (tick * 7) mod 900)))] else []) @
      [(EDGE_TYPE_STATUS, [3]), (EDGE_TYPE_HEARTBEAT, [])] \<and>
    published (p_user q) =
      (if th then [(''temperature'', tenths_text (230 + unat tick mod 50)), (''humidity'', tenths_text (500 + unat tick mod 200))] else []) @
      (if light then [(''illuminance'', to_string (100 + unat (tick * 7) mod 900))] else []) @
      [(''status_dht11'', ''1''), (''status_bh1750'', ''1'')] \<and>
    p_state q = EDGE_ST_WAIT_HDR0 \<and>
    p_stats q = (p_stats p)\<lparr>frames_ok := frames_ok (p_stats p) + of_nat (length (p_user q))\<rparr>"
proof -
  from reportOnce_carries [OF assms(1)] obtain th light where
    c: "cx_carries (cx\<lparr>cx_tick := tick\<rparr>) 0 (report_frames th light tick) (reportOnce cx)"
      "op_drop_uplink (cx_opt cx) = Float 0 \<Longrightarrow> th \<and> light" unfolding tick_def by blast
  from c(1) obtain bs where bs: "carries bs (report_frames th light tick)" "d_written (cx_fd (reportOnce cx)) = d_written (cx_fd cx) @ bs"
    by (auto simp: cx_carries_def cx_adds_def)
  have q: "q = foldl edge_parser_feed p bs" unfolding q_def bs(2) by (simp add: edge_parser_feed_buf_def)
  note parsed = carries_parsed [OF bs(1) assms(2-4), folded q]
  have collect: "foldl (\<lambda>u (t, pl). u @ [(t, pl)]) us fs = us @ fs" for us and fs :: "(u8 \<times> u8 list) list"
    by (induction fs arbitrary: us) auto
  have frames: "p_user q = report_frames th light tick" using parsed assms(5) by (simp add: collect)
  have stats: "p_stats q = (p_stats p)\<lparr>frames_ok := frames_ok (p_stats p) + of_nat (length (p_user q))\<rparr>"
    "p_state q = EDGE_ST_WAIT_HDR0" using parsed unfolding frames by blast+
  show ?thesis
    by (rule exI [of _ th], rule exI [of _ light])
      (use c(2) stats frames [unfolded report_frames_numbers] frames published_report [of th light tick] in metis)
qed

theorem simulator_telemetry_arrives_witness:
  "published (p_user (edge_parser_feed_buf logging_parser (Some (d_written (cx_fd (reportOnce example_context)))))) =
    [(''temperature'', ''23.1''), (''humidity'', ''50.1''), (''illuminance'', ''107''), (''status_dht11'', ''1''), (''status_bh1750'', ''1'')]"
proof -
  have "tenths_text 231 = ''23.1''" "tenths_text 501 = ''50.1''" "to_string 107 = ''107''" by code_simp+
  with simulator_telemetry_arrives [of example_context logging_parser] show ?thesis
    by (auto simp: example_context_def default_options_def takes_writes_def)
qed

subsection \<open>Checked options\<close>

definition prob_ok :: "float64 \<Rightarrow> bool" where
  "prob_ok p \<longleftrightarrow> p = NaN \<or> (\<exists>q. p = Float q \<and> 0 \<le> q \<and> q \<le> 1)"

definition probs_ok :: "sim_options \<Rightarrow> bool" where
  "probs_ok opt \<longleftrightarrow> prob_ok (op_drop_uplink opt) \<and> prob_ok (op_drop_ack opt) \<and> prob_ok (op_garbage opt)"

lemma parseProb_ok: "parseProb strtod s = Parsed p \<Longrightarrow> prob_ok p"
  by (cases p) (auto simp: parseProb_def prob_ok_def split: prod.splits if_splits)

lemma parse_option_ok:
  assumes "parse_option strtod a args opt = Parsed (opt', rest)" and "probs_ok opt"
  shows "probs_ok opt'"
proof -
  have need: "probs_ok opt'" if "need args use = Parsed (opt', rest)" "\<And>v r. use v = Parsed r \<Longrightarrow> probs_ok r" for use
    using that by (auto simp: need_def split: list.splits parsed.splits)
  have set_prob: "probs_ok r" if "set_prob strtod f v = Parsed r" "\<And>p. prob_ok p \<Longrightarrow> probs_ok (f p)" for f v r
    using that by (auto simp: set_prob_def split: parsed.splits dest: parseProb_ok)
  from assms(1) consider "need args (\<lambda>v. Parsed (opt\<lparr>op_period_s := atoi v\<rparr>)) = Parsed (opt', rest)"
    | "need args (set_prob strtod (\<lambda>p. opt\<lparr>op_drop_ack := p\<rparr>)) = Parsed (opt', rest)"
    | "need args (set_prob strtod (\<lambda>p. opt\<lparr>op_drop_uplink := p\<rparr>)) = Parsed (opt', rest)"
    | "need args (set_prob strtod (\<lambda>p. opt\<lparr>op_garbage := p\<rparr>)) = Parsed (opt', rest)"
    | "opt' = opt\<lparr>op_no_ack := True\<rparr>"
    | "need args (\<lambda>v. Parsed (opt\<lparr>op_seed := word_of_int (atoi v)\<rparr>)) = Parsed (opt', rest)"
    unfolding parse_option_def by (auto split: if_splits)
  then show ?thesis
  proof cases
    case 5
    with assms(2) show ?thesis by (simp add: probs_ok_def)
  next
    case 1
    show ?thesis by (rule need [OF 1]) (use assms(2) in \<open>auto simp: probs_ok_def\<close>)
  next
    case 2
    show ?thesis by (rule need [OF 2], erule set_prob) (use assms(2) in \<open>simp add: probs_ok_def\<close>)
  next
    case 3
    show ?thesis by (rule need [OF 3], erule set_prob) (use assms(2) in \<open>simp add: probs_ok_def\<close>)
  next
    case 4
    show ?thesis by (rule need [OF 4], erule set_prob) (use assms(2) in \<open>simp add: probs_ok_def\<close>)
  next
    case 6
    show ?thesis by (rule need [OF 6]) (use assms(2) in \<open>auto simp: probs_ok_def\<close>)
  qed
qed

lemma parse_options_ok: "parse_options strtod args opt = Parsed opt' \<Longrightarrow> probs_ok opt \<Longrightarrow> probs_ok opt'"
  by (induction strtod args opt rule: parse_options.induct) (auto split: parsed.splits dest: parse_option_ok)

text \<open>
  The simulator starts only with a legal configuration, up to one hole: on every command line it either
  refuses or has a period of at least one second and probabilities between 0 and 1; but a probability that
  \<^verbatim>\<open>strtod\<close> reads as not-a-number passes the range check.
\<close>

theorem simulator_options_checked:
  assumes "parseArgs strtod args = Parsed opt" and "strtod ''nan'' = (NaN, 3)"
  shows "1 \<le> op_period_s opt \<and>
    (\<forall>p\<in>{op_drop_uplink opt, op_drop_ack opt, op_garbage opt}. p = NaN \<or> (\<exists>q. p = Float q \<and> 0 \<le> q \<and> q \<le> 1)) \<and>
    parseArgs strtod [''/dev/ttyS1'', ''--garbage'', ''nan''] = Parsed (default_options\<lparr>op_device := ''/dev/ttyS1'', op_garbage := NaN\<rparr>)"
proof (intro conjI)
  from assms(1) obtain device rest opt0 where "parse_options strtod rest (default_options\<lparr>op_device := device\<rparr>) = Parsed opt" "1 \<le> op_period_s opt"
    by (auto simp: parseArgs_def split: list.splits if_splits parsed.splits)
  moreover have "probs_ok (default_options\<lparr>op_device := device\<rparr>)" by (simp add: probs_ok_def prob_ok_def default_options_def)
  ultimately show "1 \<le> op_period_s opt"
    "\<forall>p\<in>{op_drop_uplink opt, op_drop_ack opt, op_garbage opt}. p = NaN \<or> (\<exists>q. p = Float q \<and> 0 \<le> q \<and> q \<le> 1)"
    using parse_options_ok by (auto simp: probs_ok_def prob_ok_def)
  show "parseArgs strtod [''/dev/ttyS1'', ''--garbage'', ''nan''] = Parsed (default_options\<lparr>op_device := ''/dev/ttyS1'', op_garbage := NaN\<rparr>)"
    using assms(2) by (simp add: parseArgs_def parse_option_def need_def set_prob_def parseProb_def c_str_def default_options_def)
qed

theorem simulator_options_checked_witness:
  "parseArgs (\<lambda>s. if s = ''nan'' then (NaN, 3) else (Float 0, 0)) [''/dev/ttyS1'', ''--garbage'', ''nan''] =
    Parsed (default_options\<lparr>op_device := ''/dev/ttyS1'', op_garbage := NaN\<rparr>)"
  using simulator_options_checked [of "\<lambda>s. if s = ''nan'' then (NaN, 3) else (Float 0, 0)" "[''x'']" "default_options\<lparr>op_device := ''x''\<rparr>"]
  by (simp add: parseArgs_def default_options_def)

end
