(* ===== verification/Unique_Owner.thy ===== *)
theory Unique_Owner
  imports Main
begin

text \<open>
  The contract of the classes of the gateway that own a handle, may be moved and not be copied (\<^verbatim>\<open>SerialPort\<close>,
  \<^verbatim>\<open>Statement\<close>, \<^verbatim>\<open>EventLoop\<close>). Objects live in an explicit store, since what matters is aliasing: two objects must never
  believe they own the same handle. The laws say what each special member function does to the live handles and to the
  objects; the client shows, for any sequence of them, that handles and owners correspond one to one. Releasing a handle
  that is not live is the outcome \<open>None\<close>, so that the client also shows that no handle is released twice.
\<close>

text \<open>The live handles are exactly those of the objects other than \<open>nil\<close>, each with one owner.\<close>

definition owned_once :: "'h \<Rightarrow> 'h list \<Rightarrow> (nat \<rightharpoonup> 'h) \<Rightarrow> bool" where
  "owned_once nil live owner \<longleftrightarrow> distinct live \<and> (\<forall>h. h \<in> set live \<longleftrightarrow> h \<noteq> nil \<and> (\<exists>!i. owner i = Some h)) \<and>
    (\<forall>i h. owner i = Some h \<longrightarrow> h = nil \<or> h \<in> set live)"

lemma owned_onceD:
  assumes "owned_once nil live owner"
  shows "distinct live" "h \<in> set live \<Longrightarrow> h \<noteq> nil" "h \<in> set live \<Longrightarrow> \<exists>i. owner i = Some h"
    "owner i = Some h \<Longrightarrow> h \<noteq> nil \<Longrightarrow> h \<in> set live" "owner i = Some h \<Longrightarrow> owner j = Some h \<Longrightarrow> h \<noteq> nil \<Longrightarrow> i = j"
  using assms unfolding owned_once_def by (simp, simp, metis, metis, metis)

lemma owned_onceI:
  assumes "distinct live" "nil \<notin> set live" "\<And>h. h \<in> set live \<Longrightarrow> \<exists>i. owner i = Some h"
    "\<And>i h. owner i = Some h \<Longrightarrow> h \<noteq> nil \<Longrightarrow> h \<in> set live"
    "\<And>i j h. owner i = Some h \<Longrightarrow> owner j = Some h \<Longrightarrow> h \<noteq> nil \<Longrightarrow> i = j"
  shows "owned_once nil live owner"
  unfolding owned_once_def using assms by metis

lemma owned_once_empty [simp]: "owned_once nil [] Map.empty"
  by (auto simp: owned_once_def)

text \<open>The four changes the laws speak of.\<close>

lemma owned_once_new:
  assumes "owned_once nil live owner" and "owner i = None" and "h \<noteq> nil" and "h \<notin> set live"
  shows "owned_once nil (h # live) (owner(i \<mapsto> h))"
proof (rule owned_onceI)
  note ok = owned_onceD [OF assms(1)]
  have no: "owner j \<noteq> Some h" for j using ok(4) [of j h] assms(3,4) by auto
  show "\<exists>j. (owner(i \<mapsto> h)) j = Some g" if "g \<in> set (h # live)" for g
  proof (cases "g = h")
    case False
    with that ok(3) [of g] obtain j where "owner j = Some g" by auto
    with assms(2) show ?thesis by (intro exI [of _ j]) auto
  qed (auto intro: exI [of _ i])
  show "j = k" if "(owner(i \<mapsto> h)) j = Some g" "(owner(i \<mapsto> h)) k = Some g" "g \<noteq> nil" for j k g
    using that no ok(5) [of j g k] by (auto split: if_splits)
  show "g \<in> set (h # live)" if "(owner(i \<mapsto> h)) j = Some g" "g \<noteq> nil" for j g
    using that ok(4) [of j g] by (auto split: if_splits)
  show "distinct (h # live)" using ok(1) assms(4) by simp
  show "nil \<notin> set (h # live)" using ok(2) assms(3) by auto
qed

lemma owned_once_drop:
  assumes "owned_once nil live owner" and "owner i = Some h" and "h \<noteq> nil" and "new = None \<or> new = Some nil"
  shows "owned_once nil (remove1 h live) (owner(i := new))"
proof (rule owned_onceI)
  note ok = owned_onceD [OF assms(1)]
  have mem: "g \<in> set (remove1 h live) \<longleftrightarrow> g \<in> set live \<and> g \<noteq> h" for g using ok(1) by simp
  show "\<exists>j. (owner(i := new)) j = Some g" if "g \<in> set (remove1 h live)" for g
  proof -
    from that mem ok(3) [of g] obtain j where "owner j = Some g" "g \<noteq> h" by auto
    with assms(2) show ?thesis by (intro exI [of _ j]) auto
  qed
  show "g \<in> set (remove1 h live)" if "(owner(i := new)) j = Some g" "g \<noteq> nil" for j g
  proof -
    from that assms(4) have j: "j \<noteq> i" "owner j = Some g" by (auto split: if_splits)
    with ok(5) [OF _ assms(2), of j] assms(3) have "g \<noteq> h" by auto
    with ok(4) [OF j(2) that(2)] mem show ?thesis by simp
  qed
  show "j = k" if "(owner(i := new)) j = Some g" "(owner(i := new)) k = Some g" "g \<noteq> nil" for j k g
    using that ok(5) [of j g k] assms(4) by (auto split: if_splits)
  show "nil \<notin> set (remove1 h live)" using mem ok(2) by blast
qed (use owned_onceD(1) [OF assms(1)] in simp)

lemma owned_once_forget:
  assumes "owned_once nil live owner" and "owner i = Some nil"
  shows "owned_once nil live (owner(i := None))"
proof (rule owned_onceI)
  note ok = owned_onceD [OF assms(1)]
  show "\<exists>j. (owner(i := None)) j = Some g" if "g \<in> set live" for g
  proof -
    from ok(3) [OF that] ok(2) [OF that] obtain j where "owner j = Some g" "g \<noteq> nil" by blast
    with assms(2) show ?thesis by (intro exI [of _ j]) auto
  qed
  show "distinct live" by (rule ok(1))
  show "nil \<notin> set live" using ok(2) by blast
  show "g \<in> set live" if "(owner(i := None)) j = Some g" "g \<noteq> nil" for j g
    using that ok(4) [of j g] by (simp split: if_splits)
  show "j = k" if "(owner(i := None)) j = Some g" "(owner(i := None)) k = Some g" "g \<noteq> nil" for j k g
    using that ok(5) [of j g k] by (simp split: if_splits)
qed

lemma owned_once_hand_over:
  assumes "owned_once nil live owner" and "owner j = Some h" and "i \<noteq> j" and "owner i = None \<or> owner i = Some nil"
  shows "owned_once nil live (owner(i \<mapsto> h, j \<mapsto> nil))"
proof (rule owned_onceI)
  note ok = owned_onceD [OF assms(1)]
  show "\<exists>k. (owner(i \<mapsto> h, j \<mapsto> nil)) k = Some g" if "g \<in> set live" for g
  proof -
    from ok(3) [OF that] ok(2) [OF that] obtain k where "owner k = Some g" "g \<noteq> nil" by blast
    then show ?thesis using assms(2-4) by (cases "k = j") (auto intro: exI [of _ i] exI [of _ k])
  qed
  show "g \<in> set live" if "(owner(i \<mapsto> h, j \<mapsto> nil)) k = Some g" "g \<noteq> nil" for k g
    using that ok(4) [of k g] ok(4) [OF assms(2)] by (auto split: if_splits)
  show "k = l" if "(owner(i \<mapsto> h, j \<mapsto> nil)) k = Some g" "(owner(i \<mapsto> h, j \<mapsto> nil)) l = Some g" "g \<noteq> nil" for k l g
    using that ok(5) [of k g l] ok(5) [OF assms(2), of k] ok(5) [OF assms(2), of l] by (auto split: if_splits)
  show "distinct live" by (rule ok(1))
  show "nil \<notin> set live" using ok(2) by blast
qed

text \<open>The interface of a class that owns a handle.\<close>

datatype 'h owner_op = Construct nat 'h | Destroy nat | Move_construct nat nat | Move_assign nat nat

locale unique_owner =
  fixes live :: "'w \<Rightarrow> 'h list" and owner :: "'w \<Rightarrow> nat \<Rightarrow> 'h option" and nil :: 'h
    and construct :: "nat \<Rightarrow> 'h \<Rightarrow> 'w \<Rightarrow> 'w option" and destroy :: "nat \<Rightarrow> 'w \<Rightarrow> 'w option"
    and move_construct :: "nat \<Rightarrow> nat \<Rightarrow> 'w \<Rightarrow> 'w option" and move_assign :: "nat \<Rightarrow> nat \<Rightarrow> 'w \<Rightarrow> 'w option"
  assumes construct_law: "\<lbrakk>owner w i = None; h \<noteq> nil; h \<notin> set (live w)\<rbrakk> \<Longrightarrow>
      \<exists>w'. construct i h w = Some w' \<and> live w' = h # live w \<and> owner w' = (owner w)(i \<mapsto> h)"
    and destroy_nil: "owner w i = Some nil \<Longrightarrow>
      \<exists>w'. destroy i w = Some w' \<and> live w' = live w \<and> owner w' = (owner w)(i := None)"
    and destroy_live: "\<lbrakk>owner w i = Some h; h \<noteq> nil; h \<in> set (live w)\<rbrakk> \<Longrightarrow>
      \<exists>w'. destroy i w = Some w' \<and> live w' = remove1 h (live w) \<and> owner w' = (owner w)(i := None)"
    and move_construct_law: "\<lbrakk>owner w i = None; owner w j = Some h\<rbrakk> \<Longrightarrow>
      \<exists>w'. move_construct i j w = Some w' \<and> live w' = live w \<and> owner w' = (owner w)(i \<mapsto> h, j \<mapsto> nil)"
    and move_assign_self: "owner w i \<noteq> None \<Longrightarrow> \<exists>w'. move_assign i i w = Some w' \<and> live w' = live w \<and> owner w' = owner w"
    and move_assign_nil: "\<lbrakk>i \<noteq> j; owner w i = Some nil; owner w j = Some h\<rbrakk> \<Longrightarrow>
      \<exists>w'. move_assign i j w = Some w' \<and> live w' = live w \<and> owner w' = (owner w)(i \<mapsto> h, j \<mapsto> nil)"
    and move_assign_live: "\<lbrakk>i \<noteq> j; owner w i = Some g; g \<noteq> nil; g \<in> set (live w); owner w j = Some h\<rbrakk> \<Longrightarrow>
      \<exists>w'. move_assign i j w = Some w' \<and> live w' = remove1 g (live w) \<and> owner w' = (owner w)(i \<mapsto> h, j \<mapsto> nil)"
begin

definition ok :: "'w \<Rightarrow> bool" where
  "ok w \<longleftrightarrow> owned_once nil (live w) (owner w)"

primrec perform :: "'h owner_op \<Rightarrow> 'w \<Rightarrow> 'w option" where
  "perform (Construct i h) w = construct i h w"
| "perform (Destroy i) w = destroy i w"
| "perform (Move_construct i j) w = move_construct i j w"
| "perform (Move_assign i j) w = move_assign i j w"

text \<open>What the language and the provider of the handles guarantee: a new object is new, the others exist, a new handle is not live.\<close>

primrec allowed :: "'h owner_op \<Rightarrow> 'w \<Rightarrow> bool" where
  "allowed (Construct i h) w \<longleftrightarrow> owner w i = None \<and> h \<noteq> nil \<and> h \<notin> set (live w)"
| "allowed (Destroy i) w \<longleftrightarrow> owner w i \<noteq> None"
| "allowed (Move_construct i j) w \<longleftrightarrow> owner w i = None \<and> owner w j \<noteq> None"
| "allowed (Move_assign i j) w \<longleftrightarrow> owner w i \<noteq> None \<and> owner w j \<noteq> None"

lemma perform_ok:
  assumes "ok w" and "allowed op w"
  shows "\<exists>w'. perform op w = Some w' \<and> ok w'"
proof -
  note inv = assms(1) [unfolded ok_def]
  show ?thesis
  proof (cases op)
    case (Construct i h)
    with assms(2) construct_law [of w i h] owned_once_new [OF inv, of i h] show ?thesis by (auto simp: ok_def)
  next
    case (Destroy i)
    with assms(2) obtain h where h: "owner w i = Some h" by auto
    show ?thesis
    proof (cases "h = nil")
      case True
      with Destroy h destroy_nil [of w i] owned_once_forget [OF inv, of i] show ?thesis by (auto simp: ok_def)
    next
      case False
      with Destroy h destroy_live [of w i h] owned_onceD(4) [OF inv h] owned_once_drop [OF inv h False, of None] show ?thesis
        by (auto simp: ok_def)
    qed
  next
    case (Move_construct i j)
    with assms(2) obtain h where h: "owner w j = Some h" "owner w i = None" by auto
    then have "i \<noteq> j" by auto
    with Move_construct h move_construct_law [of w i j h] owned_once_hand_over [OF inv h(1)] show ?thesis by (auto simp: ok_def)
  next
    case (Move_assign i j)
    with assms(2) obtain g h where h: "owner w i = Some g" "owner w j = Some h" by auto
    consider "i = j" | "i \<noteq> j" "g = nil" | "i \<noteq> j" "g \<noteq> nil" by blast
    then show ?thesis
    proof cases
      case 1
      with Move_assign h move_assign_self [of w i] inv show ?thesis by (auto simp: ok_def)
    next
      case 2
      with Move_assign h move_assign_nil [of i j w h] owned_once_hand_over [OF inv h(2)] show ?thesis by (auto simp: ok_def)
    next
      case 3
      note drop = owned_once_drop [OF inv h(1) 3(2), of "Some nil"]
      from 3 h have "owned_once nil (remove1 g (live w)) (((owner w)(i \<mapsto> nil))(i \<mapsto> h, j \<mapsto> nil))"
        by (intro owned_once_hand_over [OF drop]) auto
      with Move_assign 3 h move_assign_live [of i j w g h] owned_onceD(4) [OF inv h(1)] show ?thesis by (auto simp: ok_def)
    qed
  qed
qed

text \<open>So any sequence of operations, each allowed where it happens, runs through and keeps the correspondence.\<close>

fun run :: "'h owner_op list \<Rightarrow> 'w \<Rightarrow> 'w option" where
  "run [] w = Some w"
| "run (op # ops) w = (case perform op w of None \<Rightarrow> None | Some w' \<Rightarrow> run ops w')"

fun all_allowed :: "'h owner_op list \<Rightarrow> 'w \<Rightarrow> bool" where
  "all_allowed [] w \<longleftrightarrow> True"
| "all_allowed (op # ops) w \<longleftrightarrow> allowed op w \<and> (case perform op w of None \<Rightarrow> True | Some w' \<Rightarrow> all_allowed ops w')"

lemma run_ok: "ok w \<Longrightarrow> all_allowed ops w \<Longrightarrow> \<exists>w'. run ops w = Some w' \<and> ok w'"
proof (induction ops arbitrary: w)
  case (Cons op ops)
  from perform_ok [OF Cons.prems(1), of op] Cons.prems(2) obtain w1 where "perform op w = Some w1" "ok w1" by auto
  with Cons.IH [of w1] Cons.prems(2) show ?case by simp
qed simp

end

end
