(* ===== verification/Serial_Port.thy ===== *)
theory Serial_Port
  imports Node_Link Unique_Owner
begin

text \<open>
  \<^verbatim>\<open>gateway/io/serial/SerialPort.{h,cpp}\<close>: the owner of the serial descriptor. The answers of \<^verbatim>\<open>open\<close>, \<^verbatim>\<open>close\<close>
  and the termios calls are arguments; the constants are those of Linux. The objects of the program live in
  an explicit store, since what matters is that each descriptor is closed exactly once while objects are
  moved and destroyed: closing a descriptor that is not open is the outcome \<open>None\<close>.
\<close>

subsection \<open>Writing\<close>

text \<open>The loop of \<^verbatim>\<open>write\<close>: the number of bytes written, or \<open>None\<close> for -1.\<close>

function port_write_loop :: "u8 list \<Rightarrow> nat \<Rightarrow> descriptor \<Rightarrow> nat option \<times> descriptor" where
  "port_write_loop data tot d =
    (if tot < length data then
       (case sys_write (drop tot data) d of
          (Write_count n, d') \<Rightarrow> if n > 0 then port_write_loop data (tot + n) d' else (None, d')
        | (Write_error e, d') \<Rightarrow>
            if e = EINTR then port_write_loop data tot d'
            else if e = EAGAIN then (Some tot, d')
            else (None, d'))
     else (Some tot, d))"
  by pat_completeness auto
termination
  by (relation "measure (\<lambda>(data, tot, d). length (d_writes d))") (auto dest!: sys_write_progress [OF sym])

declare port_write_loop.simps [simp del]

definition port_write :: "u8 list \<Rightarrow> descriptor \<Rightarrow> nat option \<times> descriptor" where
  "port_write data d = port_write_loop data 0 d"

subsection \<open>Line settings\<close>

record termios =
  c_iflag :: u32
  c_oflag :: u32
  c_cflag :: u32
  c_lflag :: u32
  c_cc :: "u8 list"
  c_speed :: speed_t

definition clearMask :: "u32 \<Rightarrow> u32" where
  "clearMask bits = NOT bits"

abbreviation (input) "CSIZE \<equiv> 0x30 :: u32"
abbreviation (input) "CS8 \<equiv> 0x30 :: u32"
abbreviation (input) "CSTOPB \<equiv> 0x40 :: u32"
abbreviation (input) "CREAD \<equiv> 0x80 :: u32"
abbreviation (input) "PARENB \<equiv> 0x100 :: u32"
abbreviation (input) "CLOCAL \<equiv> 0x800 :: u32"
abbreviation (input) "CRTSCTS \<equiv> 0x80000000 :: u32"
abbreviation (input) "INPUT_BITS \<equiv> (0x1 OR 0x2 OR 0x8 OR 0x20 OR 0x40 OR 0x80 OR 0x100 OR 0x400 OR 0x1000 OR 0x800) :: u32"
abbreviation (input) "OPOST \<equiv> 0x1 :: u32"
abbreviation (input) "LOCAL_BITS \<equiv> (0x2 OR 0x8 OR 0x10 OR 0x20 OR 0x40 OR 0x1 OR 0x8000) :: u32"
abbreviation (input) "VTIME \<equiv> 5 :: nat"
abbreviation (input) "VMIN \<equiv> 6 :: nat"

text \<open>The answers of the three termios calls.\<close>

record tty =
  tty_get :: "termios option"
  tty_speed_ok :: bool
  tty_set_ok :: bool

datatype port_error = Open_failed errno | Tcgetattr_failed | Cfsetspeed_failed | Tcsetattr_failed

text \<open>\<^verbatim>\<open>configure\<close>: the settings handed to the device.\<close>

definition configure :: "speed_t \<Rightarrow> tty \<Rightarrow> port_error + termios" where
  "configure baud t =
    (case tty_get t of
       None \<Rightarrow> Inl Tcgetattr_failed
     | Some tio \<Rightarrow>
         let tio = tio\<lparr>c_cflag := c_cflag tio AND clearMask CSIZE\<rparr>;
             tio = tio\<lparr>c_cflag := c_cflag tio OR CS8\<rparr>;
             tio = tio\<lparr>c_cflag := c_cflag tio AND clearMask CSTOPB\<rparr>;
             tio = tio\<lparr>c_cflag := c_cflag tio AND clearMask PARENB\<rparr>;
             tio = tio\<lparr>c_cflag := c_cflag tio OR (CREAD OR CLOCAL)\<rparr>;
             tio = tio\<lparr>c_cflag := c_cflag tio AND clearMask CRTSCTS\<rparr>;
             tio = tio\<lparr>c_iflag := c_iflag tio AND clearMask INPUT_BITS\<rparr>;
             tio = tio\<lparr>c_oflag := c_oflag tio AND clearMask OPOST\<rparr>;
             tio = tio\<lparr>c_lflag := c_lflag tio AND clearMask LOCAL_BITS\<rparr>;
             tio = tio\<lparr>c_cc := (c_cc tio)[VMIN := 1]\<rparr>;
             tio = tio\<lparr>c_cc := (c_cc tio)[VTIME := 0]\<rparr>
         in if \<not> tty_speed_ok t then Inl Cfsetspeed_failed
            else
              let tio = tio\<lparr>c_speed := baud\<rparr>
              in if \<not> tty_set_ok t then Inl Tcsetattr_failed else Inr tio)"

subsection \<open>Ownership of the descriptor\<close>

text \<open>
  The open descriptors of the process, the number of times each was closed twice being what must not happen, and the
  objects with their member \<^verbatim>\<open>fd_\<close> (-1 for none).
\<close>

record port_world =
  pw_open :: "int list"
  pw_ports :: "nat \<rightharpoonup> int"

definition close_fd :: "int \<Rightarrow> port_world \<Rightarrow> port_world option" where
  "close_fd fd w = (if fd \<in> set (pw_open w) then Some (w\<lparr>pw_open := remove1 fd (pw_open w)\<rparr>) else None)"

text \<open>
  The constructor of object \<open>i\<close>. \<open>opened\<close> is the kernel's answer, a descriptor not in use or an error; the object exists
  only when the constructor does not throw.
\<close>

definition port_construct ::
    "nat \<Rightarrow> errno + int \<Rightarrow> speed_t \<Rightarrow> tty \<Rightarrow> bool \<Rightarrow> port_world \<Rightarrow> (port_error option \<times> port_world) option" where
  "port_construct i opened baud t defer_configuration w =
    (case opened of
       Inl e \<Rightarrow> Some (Some (Open_failed e), w)
     | Inr fd \<Rightarrow>
         let w = w\<lparr>pw_open := fd # pw_open w\<rparr>
         in case (if defer_configuration then None else case configure baud t of Inl e \<Rightarrow> Some e | Inr _ \<Rightarrow> None) of
              Some e \<Rightarrow> map_option (Pair (Some e)) (close_fd fd w)
            | None \<Rightarrow> Some (None, w\<lparr>pw_ports := (pw_ports w)(i \<mapsto> fd)\<rparr>))"

definition port_destroy :: "nat \<Rightarrow> port_world \<Rightarrow> port_world option" where
  "port_destroy i w =
    (case pw_ports w i of
       None \<Rightarrow> None
     | Some fd \<Rightarrow>
         let w = w\<lparr>pw_ports := (pw_ports w)(i := None)\<rparr>
         in if fd \<noteq> - 1 then close_fd fd w else Some w)"

definition port_move_construct :: "nat \<Rightarrow> nat \<Rightarrow> port_world \<Rightarrow> port_world option" where
  "port_move_construct i other w =
    (case pw_ports w other of
       None \<Rightarrow> None
     | Some fd \<Rightarrow> Some (w\<lparr>pw_ports := (pw_ports w)(i \<mapsto> fd, other \<mapsto> - 1)\<rparr>))"

definition port_move_assign :: "nat \<Rightarrow> nat \<Rightarrow> port_world \<Rightarrow> port_world option" where
  "port_move_assign i other w =
    (if i = other then Some w
     else case (pw_ports w i, pw_ports w other) of
            (Some fd, Some fd') \<Rightarrow>
              (case (if fd \<noteq> - 1 then close_fd fd (w\<lparr>pw_ports := (pw_ports w)(i \<mapsto> - 1)\<rparr>) else Some w) of
                 None \<Rightarrow> None
               | Some w \<Rightarrow> Some (w\<lparr>pw_ports := (pw_ports w)(i \<mapsto> fd', other \<mapsto> - 1)\<rparr>))
          | _ \<Rightarrow> None)"

datatype port_op =
    Port_construct nat "errno + int" speed_t tty bool
  | Port_destroy nat
  | Port_move_construct nat nat
  | Port_move_assign nat nat

fun perform_port :: "port_op \<Rightarrow> port_world \<Rightarrow> port_world option" where
  "perform_port (Port_construct i opened baud t defer_configuration) w = map_option snd (port_construct i opened baud t defer_configuration w)"
| "perform_port (Port_destroy i) w = port_destroy i w"
| "perform_port (Port_move_construct i other) w = port_move_construct i other w"
| "perform_port (Port_move_assign i other) w = port_move_assign i other w"

text \<open>
  What the language and the kernel guarantee: new objects are new, the others exist, and the kernel gives out a
  nonnegative descriptor that is not open.
\<close>

fun port_op_ok :: "port_op \<Rightarrow> port_world \<Rightarrow> bool" where
  "port_op_ok (Port_construct i opened baud t defer_configuration) w \<longleftrightarrow>
    pw_ports w i = None \<and> (\<forall>fd. opened = Inr fd \<longrightarrow> 0 \<le> fd \<and> fd \<notin> set (pw_open w))"
| "port_op_ok (Port_destroy i) w \<longleftrightarrow> pw_ports w i \<noteq> None"
| "port_op_ok (Port_move_construct i other) w \<longleftrightarrow> pw_ports w i = None \<and> pw_ports w other \<noteq> None"
| "port_op_ok (Port_move_assign i other) w \<longleftrightarrow> pw_ports w i \<noteq> None \<and> pw_ports w other \<noteq> None"

inductive port_worlds :: "port_world \<Rightarrow> bool" where
  port_start: "port_worlds \<lparr>pw_open = [], pw_ports = Map.empty\<rparr>"
| port_step: "port_worlds w \<Longrightarrow> port_op_ok op w \<Longrightarrow> perform_port op w = Some w' \<Longrightarrow> port_worlds w'"

subsection \<open>Properties\<close>

lemma port_write_loop_prefix:
  "port_write_loop data tot d = (r, d') \<Longrightarrow> tot \<le> length data \<Longrightarrow>
   \<exists>k. tot \<le> k \<and> k \<le> length data \<and> d_written d' = d_written d @ drop tot (take k data) \<and> (r = Some k \<or> r = None)"
proof (induction data tot d arbitrary: r d' rule: port_write_loop.induct)
  case (1 data tot d)
  show ?case
  proof (cases "tot < length data")
    case False
    with 1(3,4) show ?thesis unfolding port_write_loop.simps [of data tot d] by (auto intro!: exI [of _ tot])
  next
    case True
    obtain w d1 where w: "sys_write (drop tot data) d = (w, d1)" by fastforce
    show ?thesis
    proof (cases w)
      case (Write_count n)
      from sys_write_count [OF w [unfolded Write_count]] True
      have n: "tot + n \<le> length data" "d_written d1 = d_written d @ take n (drop tot data)" by auto
      show ?thesis
      proof (cases "n > 0")
        case pos: True
        from 1(3) True have "port_write_loop data (tot + n) d1 = (r, d')"
          unfolding port_write_loop.simps [of data tot d] by (simp add: w Write_count pos)
        from 1(1) [OF True w [symmetric, unfolded Write_count] refl pos this n(1)]
        obtain k where k: "tot + n \<le> k" "k \<le> length data" "d_written d' = d_written d1 @ drop (tot + n) (take k data)" "r = Some k \<or> r = None" by blast
        from k n drop_take_split [OF k(1), of data] show ?thesis by (intro exI [of _ k]) simp
      next
        case zero: False
        from 1(3) True have "r = None" "d' = d1" unfolding port_write_loop.simps [of data tot d] by (simp_all add: w Write_count zero)
        with n zero 1(4) show ?thesis by (intro exI [of _ tot]) simp
      qed
    next
      case (Write_error e)
      note d1 = sys_write_error [OF w [unfolded Write_error]]
      show ?thesis
      proof (cases "e = EINTR")
        case intr: True
        from 1(3) True have "port_write_loop data tot d1 = (r, d')"
          unfolding port_write_loop.simps [of data tot d] by (simp add: w Write_error intr)
        from 1(2) [OF True w [symmetric, unfolded Write_error] refl intr this 1(4)] d1 show ?thesis by simp
      next
        case False
        from 1(3) True have "r = Some tot \<or> r = None" "d' = d1"
          unfolding port_write_loop.simps [of data tot d] by (auto simp: w Write_error False split: if_splits)
        with d1 1(4) show ?thesis by (intro exI [of _ tot]) simp
      qed
    qed
  qed
qed

text \<open>What \<^verbatim>\<open>write\<close> reports is what the kernel took: a prefix of the data of this length.\<close>

lemma port_write_prefix:
  assumes "port_write data d = (r, d')"
  shows "\<exists>k\<le>length data. d_written d' = d_written d @ take k data \<and> (r = Some k \<or> r = None)"
  using port_write_loop_prefix [OF assms [unfolded port_write_def]] by auto

text \<open>The class keeps the contract of a unique owner; the constructor is the one that opens without failing.\<close>

interpretation sp: unique_owner pw_open pw_ports "- 1" "\<lambda>i fd w. map_option snd (port_construct i (Inr fd) baud t True w)"
    port_destroy port_move_construct port_move_assign for baud t
  by unfold_locales (auto simp: port_construct_def port_destroy_def port_move_construct_def port_move_assign_def close_fd_def Let_def)

text \<open>A constructor that throws has closed what it opened.\<close>

lemma port_construct_cases:
  assumes "pw_ports w i = None" and "\<forall>fd. opened = Inr fd \<longrightarrow> 0 \<le> fd \<and> fd \<notin> set (pw_open w)"
  obtains "perform_port (Port_construct i opened baud t d) w = Some w"
  | fd where "opened = Inr fd" "perform_port (Port_construct i opened baud t d) w = map_option snd (port_construct i (Inr fd) baud t True w)"
proof (cases opened)
  case (Inl e)
  then show ?thesis using that(1) by (simp add: port_construct_def)
next
  case (Inr fd)
  then show ?thesis using that assms by (cases d; cases "configure baud t") (auto simp: port_construct_def close_fd_def)
qed

lemma perform_port_ok:
  assumes "sp.ok w" and "port_op_ok op w"
  shows "\<exists>w'. perform_port op w = Some w' \<and> sp.ok w'"
proof (cases op)
  case (Port_construct i opened baud t d)
  with assms(2) have ok: "pw_ports w i = None" "\<forall>fd. opened = Inr fd \<longrightarrow> 0 \<le> fd \<and> fd \<notin> set (pw_open w)" by auto
  from ok show ?thesis
  proof (cases rule: port_construct_cases [where baud = baud and t = t and d = d])
    case 1
    with assms(1) Port_construct show ?thesis by blast
  next
    case (2 fd)
    with sp.perform_ok [OF assms(1), of "Construct i fd" baud t] ok Port_construct show ?thesis by auto
  qed
next
  case (Port_destroy i)
  with sp.perform_ok [OF assms(1), of "Destroy i"] assms(2) show ?thesis by simp
next
  case (Port_move_construct i other)
  with sp.perform_ok [OF assms(1), of "Move_construct i other"] assms(2) show ?thesis by simp
next
  case (Port_move_assign i other)
  with sp.perform_ok [OF assms(1), of "Move_assign i other"] assms(2) show ?thesis by simp
qed

lemma port_worlds_ok: "port_worlds w \<Longrightarrow> sp.ok w"
proof (induction rule: port_worlds.induct)
  case (port_step w op w')
  with perform_port_ok [of w op] show ?case by auto
qed (simp add: sp.ok_def)

text \<open>
  C31. The serial descriptor has exactly one owner: however port objects are opened, moved and destroyed, and
  whatever fails while they are opened, no descriptor is ever closed twice, and the descriptors open are exactly those
  that exactly one object holds, so that none is leaked either.
\<close>

theorem serial_descriptor_owned_once:
  assumes "port_worlds w" and "port_op_ok op w"
  shows "\<exists>w'. perform_port op w = Some w' \<and> distinct (pw_open w') \<and>
    (\<forall>fd. fd \<in> set (pw_open w') \<longleftrightarrow> fd \<noteq> - 1 \<and> (\<exists>!i. pw_ports w' i = Some fd))"
  using perform_port_ok [OF port_worlds_ok [OF assms(1)] assms(2)] by (auto simp: sp.ok_def owned_once_def)

theorem serial_descriptor_owned_once_witness:
  "\<exists>w'. perform_port (Port_construct 0 (Inr 7) B115200 \<lparr>tty_get = None, tty_speed_ok = True, tty_set_ok = True\<rparr> False)
     \<lparr>pw_open = [], pw_ports = Map.empty\<rparr> = Some w' \<and> distinct (pw_open w')"
  using serial_descriptor_owned_once [OF port_start, of "Port_construct 0 (Inr 7) B115200 \<lparr>tty_get = None, tty_speed_ok = True, tty_set_ok = True\<rparr> False"]
  by auto

text \<open>
  The line is configured raw with eight data bits, no parity, one stop bit and no flow control: the bits named in the
  code have their values, and all others are those the device had.
\<close>

lemma configured_line:
  assumes "configure baud t = Inr tio'" and "tty_get t = Some tio"
  shows "c_cflag tio' = (c_cflag tio AND NOT 0x80000170) OR 0x8B0" "c_iflag tio' = c_iflag tio AND NOT 0x1DEB"
    "c_oflag tio' = c_oflag tio AND NOT 1" "c_lflag tio' = c_lflag tio AND NOT 0x807B" "c_speed tio' = baud"
    "c_cc tio' = (c_cc tio)[6 := 1, 5 := 0]"
proof -
  have "(((((x AND NOT 0x30) OR 0x30) AND NOT 0x40) AND NOT 0x100) OR (0x80 OR 0x800)) AND NOT 0x80000000 =
      (x AND NOT 0x80000170) OR (0x8B0 :: u32)" for x
    by (simp add: bit.conj_disj_distrib2 and.assoc or.assoc)
  with assms show "c_cflag tio' = (c_cflag tio AND NOT 0x80000170) OR 0x8B0"
    by (auto simp: configure_def Let_def clearMask_def split: if_splits)
qed (use assms in \<open>auto simp: configure_def Let_def clearMask_def split: if_splits\<close>)


text \<open>\<^verbatim>\<open>NodeLink::activate\<close> configures the port of a link that was opened without.\<close>

definition activate :: "speed_t \<Rightarrow> tty \<Rightarrow> port_error + termios" where
  "activate baud t = configure baud t"

end
