(* ===== verification/Node_Sim_Main.thy ===== *)
theory Node_Sim_Main
  imports Node_Sim Serial_Port Config
begin

text \<open>
  The rest of \<^verbatim>\<open>tools/node-sim/main.cpp\<close>: opening the serial device and the exit code of the program. The messages are left
  out; \<^verbatim>\<open>cfmakeraw\<close> is the function of the C library, with its documented effect. The main loop runs until reading the
  device fails.
\<close>

definition cfmakeraw :: "termios \<Rightarrow> termios" where
  "cfmakeraw tio =
    (let tio = tio\<lparr>c_iflag := c_iflag tio AND NOT (0x1 OR 0x2 OR 0x8 OR 0x20 OR 0x40 OR 0x80 OR 0x100 OR 0x400)\<rparr>;
         tio = tio\<lparr>c_oflag := c_oflag tio AND NOT 0x1\<rparr>;
         tio = tio\<lparr>c_lflag := c_lflag tio AND NOT (0x8 OR 0x40 OR 0x2 OR 0x1 OR 0x8000)\<rparr>;
         tio = tio\<lparr>c_cflag := c_cflag tio AND NOT (0x30 OR 0x100)\<rparr>
     in tio\<lparr>c_cflag := c_cflag tio OR 0x30\<rparr>)"

text \<open>The descriptor or -1, and the settings handed to the device, if any: a device without settings is used as it is.\<close>

definition openSerial :: "errno + int \<Rightarrow> tty \<Rightarrow> int \<times> termios option" where
  "openSerial opened t =
    (case opened of
       Inl e \<Rightarrow> (- 1, None)
     | Inr fd \<Rightarrow>
         (case tty_get t of
            None \<Rightarrow> (fd, None)
          | Some tio \<Rightarrow>
              let tio = cfmakeraw tio;
                  tio = tio\<lparr>c_speed := B115200\<rparr>;
                  tio = tio\<lparr>c_cc := (c_cc tio)[6 := 0]\<rparr>;
                  tio = tio\<lparr>c_cc := (c_cc tio)[5 := 1]\<rparr>
              in (fd, Some tio)))"

text \<open>\<^verbatim>\<open>main\<close>: an exit code at once, or the node that runs on the descriptor, after which the exit code is 0.\<close>

datatype sim_start = Exits int | Runs_until_read_fails int sim_options

definition sim_main :: "(string \<Rightarrow> float64 \<times> nat) \<Rightarrow> string list \<Rightarrow> (string \<Rightarrow> errno + int) \<Rightarrow> tty \<Rightarrow> sim_start" where
  "sim_main strtod args openf t =
    (case parseArgs strtod args of
       Parsed opt \<Rightarrow>
         let (fd, tio) = openSerial (openf (op_device opt)) t
         in if fd < 0 then Exits 1 else Runs_until_read_fails fd opt
     | _ \<Rightarrow> Exits 2)"

subsection \<open>Properties\<close>

text \<open>
  The two ends of the line agree: whatever the devices were set to before, when the gateway has configured its port with the
  default speed and the simulator has opened its own, both transmit eight data bits without parity at the same speed, and
  neither end translates, echoes or holds back bytes.
\<close>

theorem line_settings_agree:
  assumes "configure (toBaud (serial_baud default_config)) t = Inr gateway" and "openSerial (Inr fd) u = (fd, Some node)"
  shows "c_speed gateway = c_speed node \<and>
    (\<forall>tio\<in>{gateway, node}. c_cflag tio AND 0x130 = 0x30 \<and> c_iflag tio AND 0x5EB = 0 \<and> c_oflag tio AND 1 = 0 \<and> c_lflag tio AND 0x804B = 0)"
proof -
  obtain tio where tio: "tty_get t = Some tio" using assms(1) by (auto simp: configure_def split: option.splits)
  note g = configured_line [OF assms(1) tio]
  obtain tin where tin: "tty_get u = Some tin" using assms(2) by (auto simp: openSerial_def split: option.splits)
  with assms(2) have n: "c_cflag node = (c_cflag tin AND NOT 0x130) OR 0x30" "c_iflag node = c_iflag tin AND NOT 0x5EB"
      "c_oflag node = c_oflag tin AND NOT 1" "c_lflag node = c_lflag tin AND NOT 0x804B" "c_speed node = B115200"
    by (auto simp: openSerial_def cfmakeraw_def Let_def)
  have "(x AND NOT 0x80000170 OR 0x8B0) AND 0x130 = (0x30 :: u32)" "(x AND NOT 0x130 OR 0x30) AND 0x130 = (0x30 :: u32)"
    "(x AND NOT 0x1DEB) AND 0x5EB = (0 :: u32)" "(x AND NOT 0x5EB) AND 0x5EB = (0 :: u32)" "(x AND NOT 1) AND 1 = (0 :: u32)"
    "(x AND NOT 0x807B) AND 0x804B = (0 :: u32)" "(x AND NOT 0x804B) AND 0x804B = (0 :: u32)" for x
    by (simp_all add: bit.conj_disj_distrib2 and.assoc)
  moreover have "toBaud (serial_baud default_config) = B115200" by code_simp
  ultimately show ?thesis using g n by simp
qed

theorem line_settings_agree_witness:
  "c_speed (projr (configure B115200 \<lparr>tty_get = Some \<lparr>c_iflag = 0x500, c_oflag = 5, c_cflag = 0xBD, c_lflag = 0x8A3B, c_cc = replicate 19 0, c_speed = B9600\<rparr>,
     tty_speed_ok = True, tty_set_ok = True\<rparr>)) = B115200"
proof -
  let ?t = "\<lparr>tty_get = Some \<lparr>c_iflag = 0x500, c_oflag = 5, c_cflag = 0xBD, c_lflag = 0x8A3B, c_cc = replicate 19 0, c_speed = B9600\<rparr>,
     tty_speed_ok = True, tty_set_ok = True\<rparr>"
  have b: "toBaud (serial_baud default_config) = B115200" by code_simp
  obtain g where g: "configure B115200 ?t = Inr g" by (simp add: configure_def Let_def)
  obtain n where n: "openSerial (Inr 3) ?t = (3, Some n)" by (simp add: openSerial_def Let_def)
  from n have "c_speed n = B115200" by (auto simp: openSerial_def cfmakeraw_def Let_def)
  with line_settings_agree [unfolded b, OF g n] g show ?thesis by simp
qed

text \<open>The program starts the node exactly with legal options and an open device; a wrong command line exits with 2, a device that cannot be opened with 1.\<close>

lemma sim_main_starts:
  "sim_main strtod args openf t = Runs_until_read_fails fd opt \<longleftrightarrow>
    parseArgs strtod args = Parsed opt \<and> fst (openSerial (openf (op_device opt)) t) = fd \<and> 0 \<le> fd"
  by (auto simp: sim_main_def split: parsed.splits prod.splits if_splits)

end
