(* ===== verification/Event_Loop.thy ===== *)
theory Event_Loop
  imports Prelude Posix "HOL-Library.Sublist"
begin

text \<open>
  \<^verbatim>\<open>gateway/io/event/EventLoop.{h,cpp}\<close>: the single-threaded epoll reactor. The kernel's interest list
  holds raw pointers to the channels, the loop owns them through \<^verbatim>\<open>shared_ptr\<close>s in its active table and in
  the list of those to be released after the batch. So the model has an explicit heap: a channel lives at an
  address, and is destroyed, with its descriptor if it owns it, when the last of the two containers lets go of it; the use of
  an address that is no longer in the heap is the error \<open>Dangling\<close>.

  A handler is a name; \<open>run\<close> says what calling it does: it changes the state \<open>'u\<close> of the layer above, makes calls of the loop's
  operations, and may throw. \<^verbatim>\<open>modifyChannel\<close> may be given registered channels only, so a handler
  names the channel by its descriptor. Which events \<^verbatim>\<open>epoll_wait\<close> reports is an argument, as is
  whether the kernel has room for one more registration.

  Two fields exist for the statements only: \<open>el_calls\<close> lists the handler calls made, with
  whether the channel was registered at that moment, \<open>el_closed\<close> the
  descriptors closed by destroyed channels.
\<close>

subsection \<open>State\<close>

record 'c channel =
  ch_fd :: int
  ch_events :: u32
  ch_on_read :: "'c option"
  ch_on_write :: "'c option"
  ch_owns_fd :: bool
  ch_dead :: bool

record ('c, 'u) event_loop =
  el_heap :: "nat \<rightharpoonup> 'c channel"
  el_next :: nat
  el_epoll :: "int \<rightharpoonup> u32 \<times> nat"
  el_room :: "bool list"
  el_channels :: "int \<rightharpoonup> nat"
  el_dying :: "nat list"
  el_running :: bool
  el_user :: 'u
  el_calls :: "(nat \<times> bool \<times> bool) list"
  el_closed :: "int list"

datatype loop_error = Dangling | Epoll_add_failed | Epoll_mod_failed | Epoll_wait_failed errno | Handler_threw

datatype 'c loop_op = Op_add "'c channel" | Op_remove int | Op_modify int u32 | Op_quit

type_synonym ('c, 'u) handlers = "'c \<Rightarrow> 'u \<Rightarrow> 'u \<times> 'c loop_op list \<times> bool"

type_synonym ('c, 'u) loop_result = "(loop_error \<times> ('c, 'u) event_loop) + ('c, 'u) event_loop"

definition EPOLLIN :: u32 where "EPOLLIN = 1"
definition EPOLLOUT :: u32 where "EPOLLOUT = 4"

definition new_loop :: "bool list \<Rightarrow> 'u \<Rightarrow> ('c, 'u) event_loop" where
  "new_loop room user = \<lparr>el_heap = Map.empty, el_next = 0, el_epoll = Map.empty, el_room = room, el_channels = Map.empty,
     el_dying = [], el_running = True, el_user = user, el_calls = [], el_closed = []\<rparr>"

subsection \<open>Operations\<close>

definition quit :: "('c, 'u) event_loop \<Rightarrow> ('c, 'u) event_loop" where
  "quit l = l\<lparr>el_running := False\<rparr>"

text \<open>A destroyed channel closes the descriptor it owns.\<close>

definition destroy :: "nat \<Rightarrow> ('c, 'u) event_loop \<Rightarrow> ('c, 'u) event_loop" where
  "destroy a l =
    (case el_heap l a of
       None \<Rightarrow> l
     | Some ch \<Rightarrow> l\<lparr>el_heap := (el_heap l)(a := None),
         el_closed := el_closed l @ (if ch_owns_fd ch \<and> ch_fd ch \<noteq> - 1 then [ch_fd ch] else [])\<rparr>)"

text \<open>
  The new channel is allocated by the caller; when the registration fails, it is destroyed with the caller's pointer.
  The kernel refuses a descriptor that is registered already, and any other when it has no room.
\<close>

definition addChannel :: "'c channel \<Rightarrow> ('c, 'u) event_loop \<Rightarrow> ('c, 'u) loop_result" where
  "addChannel ch l =
    (let a = el_next l;
         l = l\<lparr>el_heap := (el_heap l)(a \<mapsto> ch), el_next := a + 1\<rparr>;
         room = (case el_room l of [] \<Rightarrow> True | r # _ \<Rightarrow> r);
         l = l\<lparr>el_room := tl (el_room l)\<rparr>
     in if el_epoll l (ch_fd ch) \<noteq> None \<or> \<not> room then Inl (Epoll_add_failed, destroy a l)
        else Inr (l\<lparr>el_epoll := (el_epoll l)(ch_fd ch \<mapsto> (ch_events ch, a)), el_channels := (el_channels l)(ch_fd ch \<mapsto> a)\<rparr>))"

definition removeChannel :: "int \<Rightarrow> ('c, 'u) event_loop \<Rightarrow> ('c, 'u) event_loop" where
  "removeChannel fd l =
    (let l = l\<lparr>el_epoll := (el_epoll l)(fd := None)\<rparr>
     in case el_channels l fd of
          None \<Rightarrow> l
        | Some a \<Rightarrow> l\<lparr>el_heap := (el_heap l)(a := map_option (\<lambda>ch. ch\<lparr>ch_dead := True\<rparr>) (el_heap l a)),
                      el_dying := el_dying l @ [a], el_channels := (el_channels l)(fd := None)\<rparr>)"

definition modifyChannel :: "nat \<Rightarrow> ('c, 'u) event_loop \<Rightarrow> ('c, 'u) loop_result" where
  "modifyChannel a l =
    (case el_heap l a of
       None \<Rightarrow> Inl (Dangling, l)
     | Some ch \<Rightarrow>
         if el_epoll l (ch_fd ch) = None then Inl (Epoll_mod_failed, l)
         else Inr (l\<lparr>el_epoll := (el_epoll l)(ch_fd ch \<mapsto> (ch_events ch, a))\<rparr>))"

fun perform_op :: "'c loop_op \<Rightarrow> ('c, 'u) event_loop \<Rightarrow> ('c, 'u) loop_result" where
  "perform_op (Op_add ch) l = addChannel (ch\<lparr>ch_dead := False\<rparr>) l"
| "perform_op (Op_remove fd) l = Inr (removeChannel fd l)"
| "perform_op (Op_modify fd m) l =
    (case el_channels l fd of
       None \<Rightarrow> Inr l
     | Some a \<Rightarrow> modifyChannel a
         (l\<lparr>el_heap := (el_heap l)(a := map_option (\<lambda>ch. ch\<lparr>ch_events := m\<rparr>) (el_heap l a))\<rparr>))"
| "perform_op Op_quit l = Inr (quit l)"

fun perform_ops :: "'c loop_op list \<Rightarrow> ('c, 'u) event_loop \<Rightarrow> ('c, 'u) loop_result" where
  "perform_ops [] l = Inr l"
| "perform_ops (op # ops) l = (case perform_op op l of Inl e \<Rightarrow> Inl e | Inr l \<Rightarrow> perform_ops ops l)"

definition registered :: "nat \<Rightarrow> ('c, 'u) event_loop \<Rightarrow> bool" where
  "registered a l \<longleftrightarrow> (case el_heap l a of None \<Rightarrow> False | Some ch \<Rightarrow> el_channels l (ch_fd ch) = Some a)"

text \<open>\<^verbatim>\<open>handleRead\<close> (\<open>True\<close>) and \<^verbatim>\<open>handleWrite\<close>.\<close>

definition handle :: "('c, 'u) handlers \<Rightarrow> bool \<Rightarrow> nat \<Rightarrow> 'c channel \<Rightarrow> ('c, 'u) event_loop \<Rightarrow> ('c, 'u) loop_result" where
  "handle run is_read a ch l =
    (case (if is_read then ch_on_read ch else ch_on_write ch) of
       None \<Rightarrow> Inr l
     | Some c \<Rightarrow>
         let (u, ops, threw) = run c (el_user l)
         in case perform_ops ops (l\<lparr>el_user := u, el_calls := el_calls l @ [(a, is_read, registered a l)]\<rparr>) of
              Inl e \<Rightarrow> Inl e
            | Inr l \<Rightarrow> if threw then Inl (Handler_threw, l) else Inr l)"

definition dispatch :: "('c, 'u) handlers \<Rightarrow> nat \<times> u32 \<Rightarrow> ('c, 'u) event_loop \<Rightarrow> ('c, 'u) loop_result" where
  "dispatch run ev l =
    (let (a, revents) = ev
     in case el_heap l a of
          None \<Rightarrow> Inl (Dangling, l)
        | Some ch \<Rightarrow>
            if ch_dead ch then Inr l
            else
              case (if revents AND EPOLLIN \<noteq> 0 then handle run True a ch l else Inr l) of
                Inl e \<Rightarrow> Inl e
              | Inr l \<Rightarrow>
                  if revents AND EPOLLOUT = 0 then Inr l
                  else
                    case el_heap l a of
                      None \<Rightarrow> Inl (Dangling, l)
                    | Some ch \<Rightarrow> if ch_dead ch then Inr l else handle run False a ch l)"

fun dispatch_batch :: "('c, 'u) handlers \<Rightarrow> (nat \<times> u32) list \<Rightarrow> ('c, 'u) event_loop \<Rightarrow> ('c, 'u) loop_result" where
  "dispatch_batch run [] l = Inr l"
| "dispatch_batch run (ev # evs) l = (case dispatch run ev l of Inl e \<Rightarrow> Inl e | Inr l \<Rightarrow> dispatch_batch run evs l)"

definition clear_dying :: "('c, 'u) event_loop \<Rightarrow> ('c, 'u) event_loop" where
  "clear_dying l = (fold destroy (el_dying l) l)\<lparr>el_dying := []\<rparr>"

datatype wait_answer = Events "(nat \<times> u32) list" | Wait_failed errno

text \<open>One passage of the loop while it runs.\<close>

definition loop_turn :: "('c, 'u) handlers \<Rightarrow> wait_answer \<Rightarrow> ('c, 'u) event_loop \<Rightarrow> ('c, 'u) loop_result" where
  "loop_turn run answer l =
    (case answer of
       Wait_failed e \<Rightarrow> if e = EINTR then Inr l else Inl (Epoll_wait_failed e, l)
     | Events evs \<Rightarrow> (case dispatch_batch run evs l of Inl e \<Rightarrow> Inl e | Inr l \<Rightarrow> Inr (clear_dying l)))"

text \<open>The loop, for as many answers of the kernel as it has had.\<close>

fun loop :: "('c, 'u) handlers \<Rightarrow> wait_answer list \<Rightarrow> ('c, 'u) event_loop \<Rightarrow> ('c, 'u) loop_result" where
  "loop run [] l = Inr l"
| "loop run (answer # answers) l =
    (if el_running l then (case loop_turn run answer l of Inl e \<Rightarrow> Inl e | Inr l \<Rightarrow> loop run answers l) else Inr l)"

subsection \<open>Ownership\<close>

text \<open>
  The kernel's list and the active table agree, every channel of the table is alive and not marked, every marked one is alive until
  the batch is over, and the heap holds no others.
\<close>

definition loop_wf :: "('c, 'u) event_loop \<Rightarrow> bool" where
  "loop_wf l \<longleftrightarrow>
    (\<forall>fd. map_option snd (el_epoll l fd) = el_channels l fd) \<and>
    (\<forall>fd a. el_channels l fd = Some a \<longrightarrow> (\<exists>ch. el_heap l a = Some ch \<and> ch_fd ch = fd \<and> \<not> ch_dead ch)) \<and>
    (\<forall>a\<in>set (el_dying l). \<exists>ch. el_heap l a = Some ch \<and> ch_dead ch) \<and>
    (\<forall>a ch. el_heap l a = Some ch \<longrightarrow> a < el_next l \<and> (if ch_dead ch then a \<in> set (el_dying l) else el_channels l (ch_fd ch) = Some a))"

lemma new_loop_wf: "loop_wf (new_loop room u)"
  by (simp add: loop_wf_def new_loop_def)

lemma loop_wfD:
  assumes "loop_wf l"
  shows "map_option snd (el_epoll l fd) = el_channels l fd"
    and "el_channels l fd = Some a \<Longrightarrow> \<exists>ch. el_heap l a = Some ch \<and> ch_fd ch = fd \<and> \<not> ch_dead ch"
    and "a \<in> set (el_dying l) \<Longrightarrow> \<exists>ch. el_heap l a = Some ch \<and> ch_dead ch"
    and "el_heap l a = Some ch \<Longrightarrow> a < el_next l"
    and "el_heap l a = Some ch \<Longrightarrow> \<not> ch_dead ch \<Longrightarrow> el_channels l (ch_fd ch) = Some a"
    and "el_heap l a = Some ch \<Longrightarrow> ch_dead ch \<Longrightarrow> a \<in> set (el_dying l)"
proof -
  note c = assms [unfolded loop_wf_def]
  note c1 = c [THEN conjunct1] and c2 = c [THEN conjunct2, THEN conjunct1] and c3 = c [THEN conjunct2, THEN conjunct2, THEN conjunct1]
    and c4 = c [THEN conjunct2, THEN conjunct2, THEN conjunct2, rule_format]
  show "map_option snd (el_epoll l fd) = el_channels l fd" using c1 by simp
  show "el_channels l fd = Some a \<Longrightarrow> \<exists>ch. el_heap l a = Some ch \<and> ch_fd ch = fd \<and> \<not> ch_dead ch" using c2 by simp
  show "a \<in> set (el_dying l) \<Longrightarrow> \<exists>ch. el_heap l a = Some ch \<and> ch_dead ch" using c3 by simp
  show "el_heap l a = Some ch \<Longrightarrow> a < el_next l" using c4 [of a ch] by simp
  show "el_heap l a = Some ch \<Longrightarrow> \<not> ch_dead ch \<Longrightarrow> el_channels l (ch_fd ch) = Some a" using c4 [of a ch] by simp
  show "el_heap l a = Some ch \<Longrightarrow> ch_dead ch \<Longrightarrow> a \<in> set (el_dying l)" using c4 [of a ch] by simp
qed

lemma loop_wfI:
  assumes "\<And>fd. map_option snd (el_epoll l fd) = el_channels l fd"
    and "\<And>fd a. el_channels l fd = Some a \<Longrightarrow> \<exists>ch. el_heap l a = Some ch \<and> ch_fd ch = fd \<and> \<not> ch_dead ch"
    and "\<And>a. a \<in> set (el_dying l) \<Longrightarrow> \<exists>ch. el_heap l a = Some ch \<and> ch_dead ch"
    and "\<And>a ch. el_heap l a = Some ch \<Longrightarrow> a < el_next l"
    and "\<And>a ch. el_heap l a = Some ch \<Longrightarrow> \<not> ch_dead ch \<Longrightarrow> el_channels l (ch_fd ch) = Some a"
    and "\<And>a ch. el_heap l a = Some ch \<Longrightarrow> ch_dead ch \<Longrightarrow> a \<in> set (el_dying l)"
  shows "loop_wf l"
  using assms unfolding loop_wf_def by auto

lemma fresh_address: "loop_wf l \<Longrightarrow> el_heap l (el_next l) = None"
  using loop_wfD(4) [of l "el_next l"] by (cases "el_heap l (el_next l)") auto

lemma fresh_not_used:
  assumes "loop_wf l"
  shows "el_channels l fd \<noteq> Some (el_next l)" "el_next l \<notin> set (el_dying l)"
  using fresh_address [OF assms] loop_wfD(2,3) [OF assms] by force+

text \<open>
  What an operation may change while a batch is being handled: no channel disappears, none is renamed,
  revived or given other handlers.
\<close>

definition result_state :: "('c, 'u) loop_result \<Rightarrow> ('c, 'u) event_loop" where
  "result_state r = (case r of Inl (e, l) \<Rightarrow> l | Inr l \<Rightarrow> l)"

definition keeps :: "('c, 'u) event_loop \<Rightarrow> ('c, 'u) event_loop \<Rightarrow> bool" where
  "keeps l l' \<longleftrightarrow> loop_wf l' \<and>
    (\<forall>a ch. el_heap l a = Some ch \<longrightarrow> (\<exists>ch'. el_heap l' a = Some ch' \<and> ch_on_read ch' = ch_on_read ch \<and>
       ch_on_write ch' = ch_on_write ch \<and> (ch_dead ch \<longrightarrow> ch_dead ch')))"

definition safe_result :: "('c, 'u) event_loop \<Rightarrow> ('c, 'u) loop_result \<Rightarrow> bool" where
  "safe_result l r \<longleftrightarrow> keeps l (result_state r) \<and> (\<forall>l'. r \<noteq> Inl (Dangling, l'))"

lemma keeps_refl: "loop_wf l \<Longrightarrow> keeps l l"
  by (simp add: keeps_def)

lemma keeps_trans: "keeps l l' \<Longrightarrow> keeps l' l'' \<Longrightarrow> keeps l l''"
  unfolding keeps_def by metis

lemma result_state_simps [simp]: "result_state (Inl (e, l)) = l" "result_state (Inr l) = l"
  by (simp_all add: result_state_def)

lemma safe_result_simps [simp]:
  "safe_result l (Inr l') \<longleftrightarrow> keeps l l'" "safe_result l (Inl (e, l')) \<longleftrightarrow> keeps l l' \<and> e \<noteq> Dangling"
  by (auto simp: safe_result_def)

lemma keepsI:
  assumes "loop_wf l'"
    and "\<And>a ch. el_heap l a = Some ch \<Longrightarrow> \<exists>ch'. el_heap l' a = Some ch' \<and> ch_on_read ch' = ch_on_read ch \<and>
       ch_on_write ch' = ch_on_write ch \<and> (ch_dead ch \<longrightarrow> ch_dead ch')"
  shows "keeps l l'"
  using assms by (simp add: keeps_def)

lemma add_refused_keeps:
  assumes "loop_wf l"
  shows "keeps l (destroy (el_next l) (l\<lparr>el_heap := (el_heap l)(el_next l \<mapsto> ch), el_next := el_next l + 1, el_room := room\<rparr>))"
    (is "keeps l ?l")
proof (rule keepsI)
  have heap: "el_heap ?l = el_heap l" using fresh_address [OF assms] by (auto simp: destroy_def)
  moreover have "el_channels ?l = el_channels l" "el_dying ?l = el_dying l" "el_epoll ?l = el_epoll l" "el_next ?l = el_next l + 1"
    by (simp_all add: destroy_def)
  ultimately show "loop_wf ?l" by (intro loop_wfI) (use loop_wfD [OF assms] in \<open>auto intro: less_SucI\<close>)
  show "\<exists>ch'. el_heap ?l a = Some ch' \<and> ch_on_read ch' = ch_on_read c \<and> ch_on_write ch' = ch_on_write c \<and> (ch_dead c \<longrightarrow> ch_dead ch')"
    if "el_heap l a = Some c" for a c using that unfolding heap by blast
qed

lemma add_done_keeps:
  assumes "loop_wf l" and "\<not> ch_dead ch" and "el_epoll l (ch_fd ch) = None"
  shows "keeps l (l\<lparr>el_heap := (el_heap l)(el_next l \<mapsto> ch), el_next := el_next l + 1, el_room := room,
      el_epoll := (el_epoll l)(ch_fd ch \<mapsto> (ch_events ch, el_next l)), el_channels := (el_channels l)(ch_fd ch \<mapsto> el_next l)\<rparr>)"
    (is "keeps l ?l")
proof (rule keepsI)
  note wf = loop_wfD [OF assms(1)] and fresh = fresh_address [OF assms(1)] fresh_not_used [OF assms(1)]
  have free: "el_channels l (ch_fd ch) = None" using wf(1) [of "ch_fd ch"] assms(3) by simp
  show "loop_wf ?l"
  proof (rule loop_wfI)
    show "\<exists>c. el_heap ?l a = Some c \<and> ch_fd c = fd \<and> \<not> ch_dead c" if "el_channels ?l fd = Some a" for fd a
      using that wf(2) [of fd a] fresh(1,2) assms(2) by (auto split: if_splits)
    show "\<exists>c. el_heap ?l a = Some c \<and> ch_dead c" if "a \<in> set (el_dying ?l)" for a using that wf(3) [of a] fresh(3) by auto
    show "a < el_next ?l" if "el_heap ?l a = Some c" for a c using that wf(4) [of a c] by (auto split: if_splits)
    show "el_channels ?l (ch_fd c) = Some a" if "el_heap ?l a = Some c" "\<not> ch_dead c" for a c
      using that wf(5) [of a c] free by (auto split: if_splits)
    show "a \<in> set (el_dying ?l)" if "el_heap ?l a = Some c" "ch_dead c" for a c
      using that wf(6) [of a c] assms(2) by (auto split: if_splits)
  qed (use wf(1) in simp)
qed (use fresh_address [OF assms(1)] in auto)

lemma addChannel_safe:
  assumes "loop_wf l" and "\<not> ch_dead ch"
  shows "safe_result l (addChannel ch l)"
proof (cases "el_epoll l (ch_fd ch) \<noteq> None \<or> \<not> (case el_room l of [] \<Rightarrow> True | r # _ \<Rightarrow> r)")
  case True
  with add_refused_keeps [OF assms(1), where ch = ch and room = "tl (el_room l)"] show ?thesis by (auto simp: addChannel_def Let_def)
next
  case False
  then have n: "el_epoll l (ch_fd ch) = None" and r: "case el_room l of [] \<Rightarrow> True | r # _ \<Rightarrow> r" by blast+
  from add_done_keeps [OF assms n, where room = "tl (el_room l)"] show ?thesis by (simp add: addChannel_def Let_def n r)
qed

lemma removeChannel_safe:
  assumes "loop_wf l"
  shows "keeps l (removeChannel fd l)"
proof (cases "el_channels l fd")
  case None
  then have "el_epoll l fd = None" using loop_wfD(1) [OF assms, of fd] by simp
  then have "(el_epoll l)(fd := None) = el_epoll l" by auto
  with None keeps_refl [OF assms] show ?thesis by (simp add: removeChannel_def)
next
  case (Some a)
  note wf = loop_wfD [OF assms]
  from wf(2) [OF Some] obtain ch where ch: "el_heap l a = Some ch" "ch_fd ch = fd" "\<not> ch_dead ch" by blast
  let ?l = "removeChannel fd l"
  have l: "el_heap ?l = (el_heap l)(a \<mapsto> ch\<lparr>ch_dead := True\<rparr>)" "el_channels ?l = (el_channels l)(fd := None)"
    "el_epoll ?l = (el_epoll l)(fd := None)" "el_dying ?l = el_dying l @ [a]" "el_next ?l = el_next l"
    using Some ch by (simp_all add: removeChannel_def)
  have other: "b \<noteq> a" if "el_channels l g = Some b" "g \<noteq> fd" for g b using that wf(2) [OF that(1)] ch by auto
  show ?thesis
  proof (rule keepsI)
    show "loop_wf ?l"
    proof (rule loop_wfI)
      show "\<exists>c. el_heap ?l b = Some c \<and> ch_fd c = g \<and> \<not> ch_dead c" if "el_channels ?l g = Some b" for g b
        using that wf(2) [of g b] other [of g b] unfolding l by (auto split: if_splits)
      show "el_channels ?l (ch_fd c) = Some b" if "el_heap ?l b = Some c" "\<not> ch_dead c" for b c
        using that wf(5) [of b c] ch Some unfolding l by (auto split: if_splits)
    qed (use wf ch in \<open>auto simp: l split: if_splits\<close>)
  qed (use ch in \<open>auto simp: l\<close>)
qed

lemma modify_safe:
  assumes "loop_wf l"
  shows "safe_result l (perform_op (Op_modify fd m) l)"
proof (cases "el_channels l fd")
  case None
  with keeps_refl [OF assms] show ?thesis by simp
next
  case (Some a)
  note wf = loop_wfD [OF assms]
  from wf(2) [OF Some] obtain ch where ch: "el_heap l a = Some ch" "ch_fd ch = fd" "\<not> ch_dead ch" by blast
  from wf(1) [of fd] Some have reg: "el_epoll l fd \<noteq> None" by auto
  let ?l = "l\<lparr>el_heap := (el_heap l)(a \<mapsto> ch\<lparr>ch_events := m\<rparr>), el_epoll := (el_epoll l)(fd \<mapsto> (m, a))\<rparr>"
  have "loop_wf ?l"
  proof (rule loop_wfI)
    show "el_channels ?l (ch_fd c) = Some b" if "el_heap ?l b = Some c" "\<not> ch_dead c" for b c
      using that wf(5) [of b c] ch Some by (auto split: if_splits)
    show "\<exists>c. el_heap ?l b = Some c \<and> ch_fd c = g \<and> \<not> ch_dead c" if "el_channels ?l g = Some b" for g b
      using that wf(2) [of g b] ch by auto
    show "\<exists>c. el_heap ?l b = Some c \<and> ch_dead c" if "b \<in> set (el_dying ?l)" for b using that wf(3) [of b] ch by auto
    show "map_option snd (el_epoll ?l g) = el_channels ?l g" for g using wf(1) [of g] Some by auto
    show "b < el_next ?l" if "el_heap ?l b = Some c" for b c using that wf(4) [of b] ch by (auto split: if_splits)
    show "b \<in> set (el_dying ?l)" if "el_heap ?l b = Some c" "ch_dead c" for b c using that wf(6) [of b c] ch by (auto split: if_splits)
  qed
  then have "keeps l ?l" by (rule keepsI) (use ch in auto)
  with Some ch reg show ?thesis by (auto simp: modifyChannel_def)
qed

lemma perform_op_safe: "loop_wf l \<Longrightarrow> safe_result l (perform_op op l)"
proof (cases op)
  case Op_quit
  then show "loop_wf l \<Longrightarrow> ?thesis" by (auto simp: quit_def loop_wf_def intro!: keepsI)
qed (simp_all add: addChannel_safe removeChannel_safe modify_safe del: perform_op.simps(3))

lemma safe_bind:
  assumes "safe_result l r" and "\<And>l'. r = Inr l' \<Longrightarrow> loop_wf l' \<Longrightarrow> safe_result l' (f l')"
  shows "safe_result l (case r of Inl e \<Rightarrow> Inl e | Inr l' \<Rightarrow> f l')"
proof (cases r)
  case (Inr l')
  with assms have "keeps l l'" "safe_result l' (f l')" by (auto simp: keeps_def)
  then show ?thesis using Inr keeps_trans by (auto simp: safe_result_def)
qed (use assms(1) in simp)

lemma perform_ops_safe: "loop_wf l \<Longrightarrow> safe_result l (perform_ops ops l)"
  by (induction ops arbitrary: l) (auto intro!: safe_bind perform_op_safe simp: keeps_refl)

lemma keeps_heap_only:
  assumes "el_heap l' = el_heap l" "el_channels l' = el_channels l" "el_dying l' = el_dying l" "el_epoll l' = el_epoll l" "el_next l' = el_next l"
    and "loop_wf l"
  shows "keeps l l'"
  using assms by (intro keepsI) (auto simp: loop_wf_def)

lemma handle_safe:
  assumes "loop_wf l"
  shows "safe_result l (handle run is_read a ch l)"
proof (cases "if is_read then ch_on_read ch else ch_on_write ch")
  case None
  with keeps_refl [OF assms] show ?thesis by (simp add: handle_def)
next
  case (Some c)
  obtain u ops threw where r: "run c (el_user l) = (u, ops, threw)" by (metis prod_cases3)
  let ?l = "l\<lparr>el_user := u, el_calls := el_calls l @ [(a, is_read, registered a l)]\<rparr>"
  have k: "keeps l ?l" by (rule keeps_heap_only) (use assms in simp_all)
  then have "safe_result ?l (case perform_ops ops ?l of Inl e \<Rightarrow> Inl e | Inr l \<Rightarrow> if threw then Inl (Handler_threw, l) else Inr l)"
    by (intro safe_bind perform_ops_safe) (auto simp: keeps_refl keeps_def)
  with keeps_trans [OF k] Some r show ?thesis by (auto simp: handle_def safe_result_def)
qed

text \<open>The address of an event stays good: while the batch is handled no channel is released.\<close>

lemma dispatch_safe:
  assumes "loop_wf l" and "el_heap l a \<noteq> None"
  shows "safe_result l (dispatch run (a, revents) l)"
proof -
  from assms(2) obtain ch where ch: "el_heap l a = Some ch" by blast
  let ?r = "if revents AND EPOLLIN \<noteq> 0 then handle run True a ch l else Inr l"
  have r: "safe_result l ?r" using handle_safe [OF assms(1)] keeps_refl [OF assms(1)] by simp
  have "safe_result l' (if revents AND EPOLLOUT = 0 then Inr l'
      else case el_heap l' a of None \<Rightarrow> Inl (Dangling, l') | Some ch \<Rightarrow> if ch_dead ch then Inr l' else handle run False a ch l')"
    if "?r = Inr l'" "loop_wf l'" for l'
  proof -
    from r that(1) ch obtain ch' where "el_heap l' a = Some ch'" by (auto simp: keeps_def split: if_splits)
    with handle_safe [OF that(2)] keeps_refl [OF that(2)] show ?thesis by simp
  qed
  from safe_bind [OF r this] ch keeps_refl [OF assms(1)] show ?thesis by (simp add: dispatch_def)
qed

lemma dispatch_batch_safe:
  "loop_wf l \<Longrightarrow> (\<forall>(a, revents)\<in>set evs. el_heap l a \<noteq> None) \<Longrightarrow> safe_result l (dispatch_batch run evs l)"
proof (induction evs arbitrary: l)
  case (Cons ev evs)
  obtain a revents where ev: "ev = (a, revents)" by fastforce
  have s: "safe_result l (dispatch run ev l)" using Cons.prems ev by (auto intro: dispatch_safe)
  have "safe_result l' (dispatch_batch run evs l')" if "dispatch run ev l = Inr l'" "loop_wf l'" for l'
  proof (rule Cons.IH [OF that(2)])
    from s that(1) have "keeps l l'" by simp
    with Cons.prems(2) show "\<forall>(a, revents)\<in>set evs. el_heap l' a \<noteq> None" by (fastforce simp: keeps_def)
  qed
  from safe_bind [OF s this] show ?case by simp
qed (simp add: keeps_refl)

subsection \<open>Calls\<close>

lemma perform_op_calls: "el_calls (result_state (perform_op op l)) = el_calls l"
  by (cases op) (auto simp: addChannel_def destroy_def removeChannel_def modifyChannel_def quit_def Let_def split: option.splits)

lemma perform_ops_calls: "el_calls (result_state (perform_ops ops l)) = el_calls l"
proof (induction ops arbitrary: l)
  case (Cons op ops)
  show ?case
  proof (cases "perform_op op l")
    case (Inl e)
    with perform_op_calls [of op l] show ?thesis by (cases e) simp
  next
    case (Inr l')
    with perform_op_calls [of op l] Cons.IH [of l'] show ?thesis by simp
  qed
qed simp

definition handler_of :: "bool \<Rightarrow> 'c channel \<Rightarrow> 'c option" where
  "handler_of is_read ch = (if is_read then ch_on_read ch else ch_on_write ch)"

lemma handle_calls:
  "el_calls (result_state (handle run is_read a ch l)) =
    el_calls l @ (if handler_of is_read ch = None then [] else [(a, is_read, registered a l)])"
proof (cases "if is_read then ch_on_read ch else ch_on_write ch")
  case None
  then show ?thesis by (simp add: handle_def handler_of_def)
next
  case (Some c)
  obtain u ops threw where r: "run c (el_user l) = (u, ops, threw)" by (metis prod_cases3)
  let ?r = "perform_ops ops (l\<lparr>el_user := u, el_calls := el_calls l @ [(a, is_read, registered a l)]\<rparr>)"
  have "el_calls (result_state ?r) = el_calls l @ [(a, is_read, registered a l)]" by (simp add: perform_ops_calls)
  with Some r show ?thesis by (cases ?r) (auto simp: handle_def handler_of_def)
qed

text \<open>The calls the events of a batch ask for.\<close>

definition asked_calls :: "nat \<times> u32 \<Rightarrow> (nat \<times> bool) list" where
  "asked_calls ev = (if snd ev AND EPOLLIN \<noteq> 0 then [(fst ev, True)] else []) @ (if snd ev AND EPOLLOUT \<noteq> 0 then [(fst ev, False)] else [])"

definition made :: "(nat \<times> bool \<times> bool) list \<Rightarrow> (nat \<times> bool) list" where
  "made calls = map (\<lambda>(a, is_read, reg). (a, is_read)) calls"

lemma not_dead_registered: "loop_wf l \<Longrightarrow> el_heap l a = Some ch \<Longrightarrow> \<not> ch_dead ch \<Longrightarrow> registered a l"
  using loop_wfD(5) by (fastforce simp: registered_def)

text \<open>
  The calls fit what is asked for: a subsequence of it, on registered channels only; and all of it, as far as there are
  handlers, for the channels that are not marked afterwards.
\<close>

definition calls_fit :: "('c, 'u) event_loop \<Rightarrow> (nat \<times> bool) list \<Rightarrow> ('c, 'u) loop_result \<Rightarrow> bool" where
  "calls_fit l asked r \<longleftrightarrow>
    (\<exists>new. el_calls (result_state r) = el_calls l @ new \<and> subseq (made new) asked \<and>
      (\<forall>(a, is_read, reg)\<in>set new. reg) \<and>
      (\<forall>l' a is_read ch. r = Inr l' \<longrightarrow> (a, is_read) \<in> set asked \<longrightarrow>
         el_heap l' a = Some ch \<longrightarrow> \<not> ch_dead ch \<longrightarrow> handler_of is_read ch \<noteq> None \<longrightarrow> (a, is_read) \<in> set (made new)))"

lemma keeps_channel:
  assumes "keeps l l'" and "el_heap l a = Some ch"
  obtains ch' where "el_heap l' a = Some ch'" "\<And>is_read. handler_of is_read ch' = handler_of is_read ch" "ch_dead ch \<Longrightarrow> ch_dead ch'"
  using assms by (fastforce simp: keeps_def handler_of_def)

lemma keeps_handler:
  "keeps l l' \<Longrightarrow> el_heap l a = Some ch \<Longrightarrow> el_heap l' a = Some ch' \<Longrightarrow>
   handler_of is_read ch' = handler_of is_read ch \<and> (ch_dead ch \<longrightarrow> ch_dead ch')"
  by (fastforce simp: keeps_def handler_of_def)

lemma fit_nothing: "calls_fit l [] (Inr l)"
  by (auto simp: calls_fit_def made_def)

lemma fit_dead: "\<forall>(b, is_read)\<in>set asked. b = a \<Longrightarrow> el_heap l a = Some ch \<Longrightarrow> ch_dead ch \<Longrightarrow> calls_fit l asked (Inr l)"
  by (auto simp: calls_fit_def made_def intro!: exI [of _ "[]"])

lemma fit_handle:
  assumes "loop_wf l" and "el_heap l a = Some ch" and "\<not> ch_dead ch"
  shows "calls_fit l [(a, is_read)] (handle run is_read a ch l)"
  unfolding calls_fit_def
proof (intro exI conjI allI impI)
  let ?new = "if handler_of is_read ch = None then [] else [(a, is_read, registered a l)]"
  show "el_calls (result_state (handle run is_read a ch l)) = el_calls l @ ?new" by (rule handle_calls)
  show "subseq (made ?new) [(a, is_read)]" by (simp add: made_def)
  show "\<forall>(a, is_read, reg)\<in>set ?new. reg" using not_dead_registered [OF assms] by simp
  fix l' b r ch' assume l': "handle run is_read a ch l = Inr l'" and b: "(b, r) \<in> set [(a, is_read)]"
    and ch': "el_heap l' b = Some ch'" "handler_of r ch' \<noteq> None"
  have "keeps l l'" using handle_safe [OF assms(1), of run is_read a ch] l' by simp
  from keeps_handler [OF this assms(2), of ch' is_read] ch' b show "(b, r) \<in> set (made ?new)" by (auto simp: made_def)
qed

lemma fit_bind:
  assumes r: "safe_result l r" "calls_fit l asked r" and alive: "\<forall>(a, is_read)\<in>set asked. el_heap l a \<noteq> None"
    and f: "\<And>l'. r = Inr l' \<Longrightarrow> loop_wf l' \<Longrightarrow> calls_fit l' asked' (f l') \<and> safe_result l' (f l')"
  shows "calls_fit l (asked @ asked') (case r of Inl e \<Rightarrow> Inl e | Inr l' \<Rightarrow> f l')"
proof (cases r)
  case (Inl e)
  with r(2) obtain new where "el_calls (result_state (Inl e)) = el_calls l @ new" "subseq (made new) asked" "\<forall>(a, is_read, reg)\<in>set new. reg"
    by (auto simp: calls_fit_def)
  with Inl show ?thesis by (auto simp: calls_fit_def intro: subseq_rev_drop_many)
next
  case (Inr l1)
  with r(1) have k: "keeps l l1" by simp
  from r(2) Inr obtain new where new: "el_calls l1 = el_calls l @ new" "subseq (made new) asked" "\<forall>(a, is_read, reg)\<in>set new. reg"
    "\<And>a is_read ch. (a, is_read) \<in> set asked \<Longrightarrow> el_heap l1 a = Some ch \<Longrightarrow> \<not> ch_dead ch \<Longrightarrow> handler_of is_read ch \<noteq> None \<Longrightarrow>
      (a, is_read) \<in> set (made new)"
    by (auto simp: calls_fit_def)
  from f [OF Inr] k obtain new' where new': "el_calls (result_state (f l1)) = el_calls l1 @ new'" "subseq (made new') asked'"
    "\<forall>(a, is_read, reg)\<in>set new'. reg"
    "\<And>l' a is_read ch. f l1 = Inr l' \<Longrightarrow> (a, is_read) \<in> set asked' \<Longrightarrow> el_heap l' a = Some ch \<Longrightarrow> \<not> ch_dead ch \<Longrightarrow>
      handler_of is_read ch \<noteq> None \<Longrightarrow> (a, is_read) \<in> set (made new')"
    and safe: "safe_result l1 (f l1)"
    by (auto simp: calls_fit_def keeps_def)
  have "(a, is_read) \<in> set (made (new @ new'))"
    if l': "f l1 = Inr l'" and asked: "(a, is_read) \<in> set (asked @ asked')" and ch: "el_heap l' a = Some ch" "\<not> ch_dead ch" "handler_of is_read ch \<noteq> None"
    for l' a is_read ch
  proof (cases "(a, is_read) \<in> set asked'")
    case True
    with new'(4) [OF l' True ch] show ?thesis by (simp add: made_def)
  next
    case False
    with asked have a: "(a, is_read) \<in> set asked" by simp
    with alive obtain ch0 where "el_heap l a = Some ch0" by fastforce
    from keeps_channel [OF k this] obtain ch1 where ch1: "el_heap l1 a = Some ch1" by blast
    from safe l' have "keeps l1 l'" by simp
    from keeps_handler [OF this ch1 ch(1), of is_read] ch have "\<not> ch_dead ch1" "handler_of is_read ch1 \<noteq> None" by auto
    from new(4) [OF a ch1 this] show ?thesis by (simp add: made_def)
  qed
  moreover have "subseq (made (new @ new')) (asked @ asked')" using list_emb_append_mono [OF new(2) new'(2)] by (simp add: made_def)
  ultimately show ?thesis using Inr new(1,3) new'(1,3) by (auto simp: calls_fit_def intro!: exI [of _ "new @ new'"])
qed

lemma asked_self: "\<forall>(b, is_read)\<in>set (asked_calls (a, revents)). b = a"
  by (auto simp: asked_calls_def)

lemma dispatch_fit:
  assumes "loop_wf l" and "el_heap l a \<noteq> None"
  shows "calls_fit l (asked_calls (a, revents)) (dispatch run (a, revents) l)"
proof -
  from assms(2) obtain ch where ch: "el_heap l a = Some ch" by blast
  show ?thesis
  proof (cases "ch_dead ch")
    case True
    with ch fit_dead [OF asked_self ch True] show ?thesis by (simp add: dispatch_def)
  next
    case False
    let ?r = "if revents AND EPOLLIN \<noteq> 0 then handle run True a ch l else Inr l"
    let ?A = "if revents AND EPOLLIN \<noteq> 0 then [(a, True)] else []" and ?B = "if revents AND EPOLLOUT \<noteq> 0 then [(a, False)] else []"
    let ?w = "\<lambda>l'. if revents AND EPOLLOUT = 0 then Inr l'
      else case el_heap l' a of None \<Rightarrow> Inl (Dangling, l') | Some ch \<Rightarrow> if ch_dead ch then Inr l' else handle run False a ch l'"
    have r: "safe_result l ?r" using handle_safe [OF assms(1)] keeps_refl [OF assms(1)] by simp
    have "calls_fit l ?A ?r" using fit_handle [OF assms(1) ch False, of True run] fit_nothing [of l] by simp
    moreover have "calls_fit l' ?B (?w l') \<and> safe_result l' (?w l')" if "?r = Inr l'" "loop_wf l'" for l'
    proof -
      from r that(1) have "keeps l l'" by simp
      from keeps_channel [OF this ch] obtain ch' where ch': "el_heap l' a = Some ch'" by blast
      with fit_handle [OF that(2) ch', of False run] fit_dead [of "[(a, False)]" a l' ch'] fit_nothing [of l']
        handle_safe [OF that(2)] keeps_refl [OF that(2)] show ?thesis by simp
    qed
    ultimately have "calls_fit l (?A @ ?B) (case ?r of Inl e \<Rightarrow> Inl e | Inr l' \<Rightarrow> ?w l')"
      using ch by (intro fit_bind [OF r]) auto
    then show ?thesis
      unfolding dispatch_def asked_calls_def by (simp only: Let_def prod.case ch option.case False if_False fst_conv snd_conv)
  qed
qed

lemma dispatch_batch_fit:
  "loop_wf l \<Longrightarrow> (\<forall>(a, revents)\<in>set evs. el_heap l a \<noteq> None) \<Longrightarrow>
   calls_fit l (concat (map asked_calls evs)) (dispatch_batch run evs l)"
proof (induction evs arbitrary: l)
  case (Cons ev evs)
  obtain a revents where ev: "ev = (a, revents)" by fastforce
  have alive: "el_heap l a \<noteq> None" using Cons.prems(2) ev by auto
  have s: "safe_result l (dispatch run ev l)" unfolding ev by (rule dispatch_safe [OF Cons.prems(1) alive])
  have "calls_fit l' (concat (map asked_calls evs)) (dispatch_batch run evs l') \<and> safe_result l' (dispatch_batch run evs l')"
    if "dispatch run ev l = Inr l'" "loop_wf l'" for l'
  proof -
    from s that(1) have "keeps l l'" by simp
    with Cons.prems(2) have "\<forall>(a, revents)\<in>set evs. el_heap l' a \<noteq> None" by (fastforce simp: keeps_def)
    with Cons.IH [OF that(2)] dispatch_batch_safe [OF that(2)] show ?thesis by blast
  qed
  moreover have "calls_fit l (asked_calls ev) (dispatch run ev l)" unfolding ev by (rule dispatch_fit [OF Cons.prems(1) alive])
  moreover have "\<forall>(b, is_read)\<in>set (asked_calls ev). el_heap l b \<noteq> None" using alive asked_self [of a revents] ev by fastforce
  ultimately show ?case using fit_bind [OF s] by simp
qed (simp add: fit_nothing)

subsection \<open>The end of a batch\<close>

lemma fold_destroy:
  "el_heap (fold destroy as l) = (\<lambda>a. if a \<in> set as then None else el_heap l a)"
  "el_channels (fold destroy as l) = el_channels l" "el_epoll (fold destroy as l) = el_epoll l" "el_next (fold destroy as l) = el_next l"
  "el_calls (fold destroy as l) = el_calls l" "el_running (fold destroy as l) = el_running l"
  by (induction as arbitrary: l) (auto simp: destroy_def fun_eq_iff split: option.splits)

lemma clear_dying_wf:
  assumes "loop_wf l"
  shows "loop_wf (clear_dying l)" "dom (el_heap (clear_dying l)) = ran (el_channels (clear_dying l))"
proof -
  note wf = loop_wfD [OF assms]
  let ?l = "clear_dying l"
  have l: "el_heap ?l = (\<lambda>a. if a \<in> set (el_dying l) then None else el_heap l a)" "el_channels ?l = el_channels l"
    "el_epoll ?l = el_epoll l" "el_next ?l = el_next l" "el_dying ?l = []"
    by (simp_all add: clear_dying_def fold_destroy)
  have kept: "a \<notin> set (el_dying l)" if "el_heap l a = Some ch" "\<not> ch_dead ch" for a ch using that wf(3) [of a] by auto
  show "loop_wf ?l"
    by (rule loop_wfI) (use wf kept in \<open>fastforce simp: l split: if_splits\<close>)+
  show "dom (el_heap ?l) = ran (el_channels ?l)"
  proof (intro set_eqI iffI)
    fix a assume "a \<in> dom (el_heap ?l)"
    then obtain ch where "el_heap l a = Some ch" "a \<notin> set (el_dying l)" by (auto simp: l split: if_splits)
    with wf(5,6) have "el_channels l (ch_fd ch) = Some a" by blast
    then show "a \<in> ran (el_channels ?l)" by (auto simp: l ran_def)
  next
    fix a assume "a \<in> ran (el_channels ?l)"
    then obtain fd where "el_channels l fd = Some a" by (auto simp: l ran_def)
    with wf(2) kept show "a \<in> dom (el_heap ?l)" by (fastforce simp: l)
  qed
qed

subsection \<open>The layer above\<close>

text \<open>What all handlers keep of the state above the loop, a passage of the loop keeps.\<close>

lemma perform_op_user: "el_user (result_state (perform_op op l)) = el_user l"
  by (cases op) (auto simp: addChannel_def destroy_def removeChannel_def modifyChannel_def quit_def Let_def split: option.splits)

lemma perform_ops_user: "el_user (result_state (perform_ops ops l)) = el_user l"
proof (induction ops arbitrary: l)
  case (Cons op ops)
  show ?case
  proof (cases "perform_op op l")
    case (Inl e)
    with perform_op_user [of op l] show ?thesis by (cases e) simp
  next
    case (Inr l')
    with perform_op_user [of op l] Cons.IH [of l'] show ?thesis by simp
  qed
qed simp

lemma fold_destroy_user: "el_user (fold destroy as l) = el_user l"
  by (induction as arbitrary: l) (auto simp: destroy_def split: option.splits)

lemma bind_user:
  assumes "P (el_user (result_state r))" and "\<And>l. P (el_user l) \<Longrightarrow> P (el_user (result_state (f l)))"
  shows "P (el_user (result_state (case r of Inl e \<Rightarrow> Inl e | Inr l \<Rightarrow> f l)))"
  using assms by (cases r) auto

lemma handle_user:
  assumes "\<And>c u. P u \<Longrightarrow> P (fst (run c u))" and "P (el_user l)"
  shows "P (el_user (result_state (handle run is_read a ch l)))"
proof (cases "if is_read then ch_on_read ch else ch_on_write ch")
  case None
  with assms(2) show ?thesis by (simp add: handle_def)
next
  case (Some c)
  obtain u ops threw where r: "run c (el_user l) = (u, ops, threw)" by (metis prod_cases3)
  with assms(1) [of "el_user l" c] assms(2) have u: "P u" by simp
  let ?l = "l\<lparr>el_user := u, el_calls := el_calls l @ [(a, is_read, registered a l)]\<rparr>"
  have "P (el_user (result_state (case perform_ops ops ?l of Inl e \<Rightarrow> Inl e | Inr l \<Rightarrow> if threw then Inl (Handler_threw, l) else Inr l)))"
    by (rule bind_user) (use u perform_ops_user [of ops ?l] in auto)
  with Some r show ?thesis by (simp add: handle_def)
qed

lemma loop_turn_user:
  assumes run: "\<And>c u. P u \<Longrightarrow> P (fst (run c u))" and "P (el_user l)"
  shows "P (el_user (result_state (loop_turn run answer l)))"
proof -
  have handle: "P (el_user (result_state (handle run is_read a ch l)))" if "P (el_user l)" for is_read a ch l
    by (rule handle_user [where P = P]) (use run that in blast)+
  have dispatch: "P (el_user (result_state (dispatch run ev l)))" if P: "P (el_user l)" for ev l
  proof (cases "el_heap l (fst ev)")
    case (Some ch)
    have w: "P (el_user (result_state (if snd ev AND EPOLLOUT = 0 then Inr l' else case el_heap l' (fst ev) of
        None \<Rightarrow> Inl (Dangling, l') | Some ch \<Rightarrow> if ch_dead ch then Inr l' else handle run False (fst ev) ch l')))"
      if "P (el_user l')" for l' using handle [OF that] that by (simp split: option.splits)
    have "P (el_user (result_state (if snd ev AND EPOLLIN \<noteq> 0 then handle run True (fst ev) ch l else Inr l)))"
      using handle [OF P] P by simp
    from bind_user [where P = P, OF this w] Some P show ?thesis unfolding dispatch_def case_prod_beta Let_def by simp
  qed (use P in \<open>simp add: dispatch_def case_prod_beta\<close>)
  have batch: "P (el_user (result_state (dispatch_batch run evs l)))" if "P (el_user l)" for evs l
    using that
  proof (induction evs arbitrary: l)
    case (Cons ev evs)
    from bind_user [where P = P, OF dispatch [OF Cons.prems] Cons.IH] show ?case by simp
  qed simp
  show ?thesis
  proof (cases answer)
    case (Events evs)
    have "P (el_user (result_state (case dispatch_batch run evs l of Inl e \<Rightarrow> Inl e | Inr l \<Rightarrow> Inr (clear_dying l))))"
      by (rule bind_user [where P = P, OF batch [OF assms(2)]]) (simp add: clear_dying_def fold_destroy_user)
    with Events show ?thesis by (simp add: loop_turn_def)
  qed (use assms(2) in \<open>simp add: loop_turn_def\<close>)
qed

subsection \<open>Properties\<close>

text \<open>
  The kernel reports events of registered channels only. A loop is used by its owner before and after, and by the handlers
  during its passages; an exception ends it.
\<close>

definition reports :: "('c, 'u) event_loop \<Rightarrow> wait_answer \<Rightarrow> bool" where
  "reports l answer \<longleftrightarrow>
    (case answer of Wait_failed e \<Rightarrow> True | Events evs \<Rightarrow> \<forall>(a, revents)\<in>set evs. \<exists>fd m. el_epoll l fd = Some (m, a))"

inductive loop_states :: "('c, 'u) handlers \<Rightarrow> ('c, 'u) event_loop \<Rightarrow> bool" for run where
  loop_created: "loop_states run (new_loop room u)"
| loop_used: "loop_states run l \<Longrightarrow> perform_op op l = Inr l' \<Longrightarrow> loop_states run l'"
| loop_passes: "loop_states run l \<Longrightarrow> el_running l \<Longrightarrow> reports l answer \<Longrightarrow> loop_turn run answer l = Inr l' \<Longrightarrow> loop_states run l'"

lemma reported_alive:
  assumes "loop_wf l" and "reports l (Events evs)"
  shows "\<forall>(a, revents)\<in>set evs. el_heap l a \<noteq> None"
proof clarify
  fix a revents assume "(a, revents) \<in> set evs"
  with assms(2) obtain fd m where "el_epoll l fd = Some (m, a)" by (fastforce simp: reports_def)
  with loop_wfD(1) [OF assms(1), of fd] have "el_channels l fd = Some a" by simp
  with loop_wfD(2) [OF assms(1)] show "\<exists>y. el_heap l a = Some y" by blast
qed

lemma loop_states_wf: "loop_states run l \<Longrightarrow> loop_wf l"
proof (induction rule: loop_states.induct)
  case (loop_used l op l')
  with perform_op_safe [of l op] show ?case by (simp add: keeps_def)
next
  case (loop_passes l answer l')
  show ?case
  proof (cases answer)
    case (Events evs)
    with loop_passes dispatch_batch_safe [OF loop_passes.IH reported_alive [OF loop_passes.IH], of evs run] show ?thesis
      by (auto simp: loop_turn_def keeps_def clear_dying_wf split: sum.splits)
  next
    case (Wait_failed e)
    with loop_passes show ?thesis by (auto simp: loop_turn_def split: if_splits)
  qed
qed (rule new_loop_wf)

text \<open>
  C23. The reactor is memory safe and calls the right handlers: whatever the handlers do, adding and
  removing channels, themselves included, during the batch, no pointer the kernel hands back is used after its channel was
  released; handlers are called on registered channels only, at most once per event and kind and in the order of
  the events, read before write; after the batch exactly the registered channels are still allocated, and every event of a channel that
  is still registered has had its handler called.
\<close>

theorem event_loop_safe_and_complete:
  assumes "loop_states run l" and "reports l (Events evs)"
  defines "r \<equiv> loop_turn run (Events evs) l"
  shows "(\<forall>l'. r \<noteq> Inl (Dangling, l')) \<and>
    (\<exists>new. el_calls (result_state r) = el_calls l @ new \<and> (\<forall>(a, is_read, reg)\<in>set new. reg) \<and>
       subseq (made new) (concat (map asked_calls evs)) \<and>
       (\<forall>l'. r = Inr l' \<longrightarrow> dom (el_heap l') = ran (el_channels l') \<and>
          (\<forall>ev\<in>set evs. \<forall>(a, is_read)\<in>set (asked_calls ev). \<forall>ch. el_heap l' a = Some ch \<longrightarrow> handler_of is_read ch \<noteq> None \<longrightarrow>
             (a, is_read) \<in> set (made new))))"
proof -
  note wf = loop_states_wf [OF assms(1)]
  note alive = reported_alive [OF wf assms(2)]
  let ?b = "dispatch_batch run evs l"
  have safe: "safe_result l ?b" by (rule dispatch_batch_safe [OF wf alive])
  from dispatch_batch_fit [OF wf alive, of run] obtain new where new: "el_calls (result_state ?b) = el_calls l @ new"
    "subseq (made new) (concat (map asked_calls evs))" "\<forall>(a, is_read, reg)\<in>set new. reg"
    "\<And>l' a is_read ch. ?b = Inr l' \<Longrightarrow> (a, is_read) \<in> set (concat (map asked_calls evs)) \<Longrightarrow> el_heap l' a = Some ch \<Longrightarrow> \<not> ch_dead ch \<Longrightarrow>
      handler_of is_read ch \<noteq> None \<Longrightarrow> (a, is_read) \<in> set (made new)"
    unfolding calls_fit_def by metis
  show ?thesis
  proof (cases ?b)
    case (Inl e)
    with safe new(1-3) show ?thesis by (cases e) (auto simp: r_def loop_turn_def intro!: exI [of _ new])
  next
    case (Inr l1)
    then have r: "r = Inr (clear_dying l1)" by (simp add: r_def loop_turn_def)
    from safe Inr have wf1: "loop_wf l1" by (simp add: keeps_def)
    have "(a, is_read) \<in> set (made new)" if "ev \<in> set evs" "(a, is_read) \<in> set (asked_calls ev)" "el_heap (clear_dying l1) a = Some ch"
      "handler_of is_read ch \<noteq> None" for ev a is_read ch
    proof (rule new(4) [OF Inr])
      from that(3) have "el_heap l1 a = Some ch" "a \<notin> set (el_dying l1)" by (auto simp: clear_dying_def fold_destroy split: if_splits)
      with loop_wfD(6) [OF wf1] show "el_heap l1 a = Some ch" "\<not> ch_dead ch" by blast+
    qed (use that in auto)
    moreover have "el_calls (clear_dying l1) = el_calls l1" by (simp add: clear_dying_def fold_destroy)
    ultimately show ?thesis using r new(1-3) Inr clear_dying_wf(2) [OF wf1] by (auto intro!: exI [of _ new])
  qed
qed

text \<open>Two channels, each ready for reading and writing; the first one's handler removes both.\<close>

definition example_handlers :: "(nat, unit) handlers" where
  "example_handlers c u = (u, if c = 0 then [Op_remove 5, Op_remove 6] else [], False)"

definition example_channel :: "int \<Rightarrow> nat \<Rightarrow> nat channel" where
  "example_channel fd c = \<lparr>ch_fd = fd, ch_events = 5, ch_on_read = Some c, ch_on_write = Some c, ch_owns_fd = True, ch_dead = False\<rparr>"

definition example_loop :: "(nat, unit) event_loop" where
  "example_loop = result_state (perform_ops [Op_add (example_channel 5 0), Op_add (example_channel 6 1)] (new_loop [] ()))"

lemma example_loop_eq:
  "perform_op (Op_add (example_channel 5 0)) (new_loop [] ()) = Inr (result_state (perform_op (Op_add (example_channel 5 0)) (new_loop [] ())))"
  "perform_op (Op_add (example_channel 6 1)) (result_state (perform_op (Op_add (example_channel 5 0)) (new_loop [] ()))) = Inr example_loop"
  by (simp_all add: example_loop_def addChannel_def new_loop_def example_channel_def)

theorem event_loop_safe_and_complete_witness:
  "(\<forall>l'. loop_turn example_handlers (Events [(0, 5), (1, 5)]) example_loop \<noteq> Inl (Dangling, l')) \<and>
    el_calls (result_state (loop_turn example_handlers (Events [(0, 5), (1, 5)]) example_loop)) = [(0, True, True)]"
proof -
  have "loop_states example_handlers example_loop"
    using loop_used [OF loop_used [OF loop_created example_loop_eq(1)] example_loop_eq(2)] .
  moreover have "el_epoll example_loop 5 = Some (5, 0)" "el_epoll example_loop 6 = Some (5, 1)"
    by (simp_all add: example_loop_def addChannel_def new_loop_def example_channel_def)
  then have "reports example_loop (Events [(0, 5), (1, 5)])" by (auto simp: reports_def)
  ultimately have "\<forall>l'. loop_turn example_handlers (Events [(0, 5), (1, 5)]) example_loop \<noteq> Inl (Dangling, l')"
    using event_loop_safe_and_complete [of example_handlers example_loop "[(0, 5), (1, 5)]"] by blast
  moreover have "el_calls (result_state (loop_turn example_handlers (Events [(0, 5), (1, 5)]) example_loop)) = [(0, True, True)]"
    by code_simp
  ultimately show ?thesis by blast
qed

end
