(* ===== verification/Management_Reactor.thy ===== *)
theory Management_Reactor
  imports Event_Loop Lts
begin

text \<open>
  \<^verbatim>\<open>gateway/app/ManagementReactor.{h,cpp}\<close>: the thread that turns signals into reload and shutdown requests.
  It runs an event loop with two channels, the signal descriptor and the stop event; what their reads return
  is given as lists of answers, an exhausted one answering \<^verbatim>\<open>EAGAIN\<close>. The three callbacks are the events they stand for;
  whether calling one throws is an argument. Setting the signal mask and creating the descriptors is not modelled.
\<close>

subsection \<open>State\<close>

datatype signal = SIGHUP | SIGTERM | SIGINT | Other_signal nat

text \<open>The answer of a read: whole records, an odd number of bytes, or an error.\<close>

datatype 'a record_read = Records "'a list" | Partial_read | Read_failed errno

datatype management_event = Reload | Shutdown | Failed

record management =
  mg_signal_reads :: "signal record_read list"
  mg_stop_reads :: "nat record_read list"
  mg_reload :: bool
  mg_shutdown :: bool
  mg_failed :: bool
  mg_throws :: "management_event \<Rightarrow> bool"
  mg_stopping :: bool
  mg_shutdown_sent :: bool
  mg_events :: "management_event list"

datatype management_handler = On_signals | On_stop

type_synonym management_loop = "(management_handler, management) event_loop"

subsection \<open>Handlers\<close>

text \<open>The loop that repeats an interrupted read, on one of the two descriptors.\<close>

fun read_retry :: "'a record_read list \<Rightarrow> 'a record_read \<times> 'a record_read list" where
  "read_retry [] = (Read_failed EAGAIN, [])"
| "read_retry (Read_failed EINTR # answers) = read_retry answers"
| "read_retry (answer # answers) = (answer, answers)"

text \<open>Calling one of the callbacks, if it is set; the result says whether it threw.\<close>

definition call :: "bool \<Rightarrow> management_event \<Rightarrow> management \<Rightarrow> management \<times> bool" where
  "call present event m = (if present then (m\<lparr>mg_events := mg_events m @ [event]\<rparr>, mg_throws m event) else (m, False))"

definition onStop :: "management \<Rightarrow> management \<times> management_handler loop_op list \<times> bool" where
  "onStop m =
    (case read_retry (mg_stop_reads m) of
       (received, rest) \<Rightarrow>
         let m = m\<lparr>mg_stop_reads := rest\<rparr>
         in case received of
              Records [_] \<Rightarrow> (m, [Op_quit], False)
            | Read_failed EAGAIN \<Rightarrow> (m, [Op_quit], False)
            | _ \<Rightarrow> (m, [], True))"

definition onSignals :: "management \<Rightarrow> management \<times> management_handler loop_op list \<times> bool" where
  "onSignals m =
    (case read_retry (mg_signal_reads m) of
       (received, rest) \<Rightarrow>
         let m = m\<lparr>mg_signal_reads := rest\<rparr>
         in case received of
              Read_failed e \<Rightarrow> if e = EAGAIN then (m, [], False) else (m, [], True)
            | Partial_read \<Rightarrow> (m, [], True)
            | Records signals \<Rightarrow>
                let signals = take 8 signals
                in if signals = [] then (m, [], True)
                   else if mg_stopping m then (m, [], False)
                   else
                     let terminate = (\<exists>s\<in>set signals. s = SIGTERM \<or> s = SIGINT);
                         reload = (\<exists>s\<in>set signals. s = SIGHUP)
                     in if terminate \<and> \<not> mg_shutdown_sent m then
                          let (m, threw) = call (mg_shutdown m) Shutdown (m\<lparr>mg_shutdown_sent := True\<rparr>)
                          in (m, [], threw)
                        else if reload \<and> \<not> mg_shutdown_sent m \<and> mg_reload m then
                          let (m, threw) = call True Reload m
                          in (m, [], threw)
                        else (m, [], False))"

definition management_run :: "(management_handler, management) handlers" where
  "management_run h m = (case h of On_signals \<Rightarrow> onSignals m | On_stop \<Rightarrow> onStop m)"

definition management_channel :: "int \<Rightarrow> management_handler \<Rightarrow> management_handler channel" where
  "management_channel fd h =
    \<lparr>ch_fd = fd, ch_events = EPOLLIN, ch_on_read = Some h, ch_on_write = None, ch_owns_fd = True, ch_dead = False\<rparr>"

text \<open>The constructor, as far as the two registrations go: an exception leaves no reactor behind.\<close>

definition new_management :: "int \<Rightarrow> int \<Rightarrow> bool list \<Rightarrow> management \<Rightarrow> management_loop option" where
  "new_management signal_fd stop_fd room m =
    (case perform_ops [Op_add (management_channel signal_fd On_signals), Op_add (management_channel stop_fd On_stop)] (new_loop room m) of
       Inl e \<Rightarrow> None
     | Inr l \<Rightarrow> Some l)"

text \<open>What \<^verbatim>\<open>run\<close> does when the loop throws; nothing escapes it.\<close>

definition run_failed :: "management_loop \<Rightarrow> management_loop" where
  "run_failed l =
    (let l = quit (l\<lparr>el_user := (el_user l)\<lparr>mg_stopping := True\<rparr>\<rparr>);
         (m, threw) = call (mg_failed (el_user l)) Failed (el_user l)
     in l\<lparr>el_user := m\<rparr>)"

text \<open>The owner's \<^verbatim>\<open>stop\<close>, up to the join.\<close>

definition management_stop :: "management_loop \<Rightarrow> management_loop" where
  "management_stop l = l\<lparr>el_user := (el_user l)\<lparr>mg_stopping := True\<rparr>\<rparr>"

text \<open>
  The thread and its owner: passages of the loop, the end by an exception (the flag says whether the thread still
  runs the loop), and the owner's stop between two passages; a stop during a passage is one after it, as the passage looks at
  the flag once.
\<close>

inductive management_step :: "management_loop \<times> bool \<Rightarrow> management_loop \<times> bool \<Rightarrow> bool" where
  passes: "el_running l \<Longrightarrow> reports l answer \<Longrightarrow> loop_turn management_run answer l = Inr l' \<Longrightarrow>
    management_step (l, True) (l', True)"
| fails: "el_running l \<Longrightarrow> reports l answer \<Longrightarrow> loop_turn management_run answer l = Inl (e, l') \<Longrightarrow>
    management_step (l, True) (run_failed l', False)"
| stops: "management_step (l, running) (management_stop l, running)"

inductive_cases management_stepE [consumes 1, case_names passes fails stops]: "management_step (l, alive) (l', alive')"

inductive management_states :: "management_loop \<Rightarrow> bool \<Rightarrow> bool" where
  created: "new_management signal_fd stop_fd room m = Some l \<Longrightarrow> mg_events m = [] \<Longrightarrow> management_states l True"
| moves: "management_states l alive \<Longrightarrow> management_step (l, alive) (l', alive') \<Longrightarrow> management_states l' alive'"

subsection \<open>Properties\<close>

text \<open>The shape of the requests made so far: reloads, then at most one shutdown, then at most one failure notice.\<close>

definition request_order :: "management_event list \<Rightarrow> nat \<Rightarrow> bool \<Rightarrow> bool \<Rightarrow> bool" where
  "request_order evs n sd failed \<longleftrightarrow>
    evs = replicate n Reload @ (if sd then [Shutdown] else []) @ (if failed then [Failed] else [])"

definition requests_ok :: "management \<Rightarrow> bool" where
  "requests_ok m \<longleftrightarrow> (\<exists>n sd. request_order (mg_events m) n sd False \<and> (sd \<longrightarrow> mg_shutdown_sent m))"

lemma onStop_events: "mg_events (fst (onStop m)) = mg_events m" "mg_shutdown_sent (fst (onStop m)) = mg_shutdown_sent m"
  "mg_stopping (fst (onStop m)) = mg_stopping m"
  by (auto simp: onStop_def Let_def split: prod.splits record_read.splits list.splits errno.splits)

lemma replicate_snoc: "replicate n x @ [x] = replicate (Suc n) x"
  by (simp add: replicate_append_same)

text \<open>What reading the signals may do: nothing, one reload, or the shutdown.\<close>

lemma onSignals_cases:
  obtains (quiet) "mg_events (fst (onSignals m)) = mg_events m" "mg_shutdown_sent m \<longrightarrow> mg_shutdown_sent (fst (onSignals m))"
  | (reload) "mg_events (fst (onSignals m)) = mg_events m @ [Reload]" "\<not> mg_shutdown_sent m" "\<not> mg_stopping m"
  | (shutdown) "mg_events (fst (onSignals m)) = mg_events m @ [Shutdown]" "\<not> mg_shutdown_sent m" "mg_shutdown_sent (fst (onSignals m))" "\<not> mg_stopping m"
proof -
  obtain received rest where r: "read_retry (mg_signal_reads m) = (received, rest)" by fastforce
  show thesis
  proof (cases received)
    case (Records signals)
    let ?t = "\<exists>s\<in>set (take 8 signals). s = SIGTERM \<or> s = SIGINT" and ?r = "\<exists>s\<in>set (take 8 signals). s = SIGHUP"
    consider "take 8 signals = []" | "mg_stopping m" "take 8 signals \<noteq> []"
      | "?t" "\<not> mg_shutdown_sent m" "\<not> mg_stopping m" "take 8 signals \<noteq> []"
      | "\<not> (?t \<and> \<not> mg_shutdown_sent m)" "?r \<and> \<not> mg_shutdown_sent m \<and> mg_reload m" "\<not> mg_stopping m" "take 8 signals \<noteq> []"
      | "\<not> (?t \<and> \<not> mg_shutdown_sent m)" "\<not> (?r \<and> \<not> mg_shutdown_sent m \<and> mg_reload m)" "\<not> mg_stopping m" "take 8 signals \<noteq> []" by blast
    then show ?thesis
    proof cases
      case 3
      then show ?thesis using that(1,3) r Records by (cases "mg_shutdown m") (simp_all add: onSignals_def call_def Let_def)
    next
      case 4
      then show ?thesis using that(2) r Records by (simp add: onSignals_def call_def Let_def)
    next
      case 5
      then have "onSignals m = (m\<lparr>mg_signal_reads := rest\<rparr>, [], False)"
        using r Records by (auto simp: onSignals_def Let_def)
      then show ?thesis using that(1) by simp
    qed (use that(1) r Records in \<open>simp_all add: onSignals_def Let_def\<close>)
  qed (use that(1) r in \<open>simp_all add: onSignals_def Let_def\<close>)
qed

lemma management_run_requests: "requests_ok m \<Longrightarrow> requests_ok (fst (management_run h m))"
proof (cases h)
  case On_stop
  then show "requests_ok m \<Longrightarrow> ?thesis" by (simp add: management_run_def requests_ok_def onStop_events)
next
  case On_signals
  assume "requests_ok m"
  then obtain n sd where m: "request_order (mg_events m) n sd False" "sd \<longrightarrow> mg_shutdown_sent m" by (auto simp: requests_ok_def)
  have "requests_ok (fst (onSignals m))"
  proof (cases rule: onSignals_cases [of m])
    case quiet
    with m show ?thesis by (auto simp: requests_ok_def)
  next
    case reload
    with m have "request_order (mg_events (fst (onSignals m))) (Suc n) False False" by (simp add: request_order_def replicate_snoc del: replicate_Suc)
    then show ?thesis by (auto simp: requests_ok_def)
  next
    case shutdown
    with m have "request_order (mg_events (fst (onSignals m))) n True False" by (simp add: request_order_def)
    with shutdown(3) show ?thesis by (auto simp: requests_ok_def)
  qed
  with On_signals show ?thesis by (simp add: management_run_def)
qed

text \<open>A reactor that has been stopped, with the requests made so far and whether a failure would be notified.\<close>

definition stopped_with :: "management_event list \<Rightarrow> bool \<Rightarrow> management \<Rightarrow> bool" where
  "stopped_with evs notify m \<longleftrightarrow> mg_stopping m \<and> mg_events m = evs \<and> mg_failed m = notify"

lemma management_run_stopped:
  assumes "stopped_with evs notify m"
  shows "stopped_with evs notify (fst (management_run h m))"
proof (cases h)
  case On_signals
  have "mg_stopping (fst (onSignals m)) = mg_stopping m" "mg_failed (fst (onSignals m)) = mg_failed m"
    by (auto simp: onSignals_def call_def Let_def split: prod.splits record_read.splits)
  with On_signals assms show ?thesis
    by (cases rule: onSignals_cases [of m]) (auto simp: management_run_def stopped_with_def)
next
  case On_stop
  have "mg_failed (fst (onStop m)) = mg_failed m"
    by (auto simp: onStop_def Let_def split: prod.splits record_read.splits list.splits errno.splits)
  with On_stop assms show ?thesis by (simp add: management_run_def onStop_events stopped_with_def)
qed

lemma loop_turn_stopped:
  "stopped_with evs notify (el_user l) \<Longrightarrow> stopped_with evs notify (el_user (result_state (loop_turn management_run answer l)))"
  by (rule loop_turn_user) (rule management_run_stopped)

lemma run_failed_user:
  "el_user (run_failed l) = (el_user l)\<lparr>mg_stopping := True, mg_events := mg_events (el_user l) @ (if mg_failed (el_user l) then [Failed] else [])\<rparr>"
  "el_running (run_failed l) = False"
  by (simp_all add: run_failed_def call_def quit_def Let_def)

lemma new_management_user: "new_management signal_fd stop_fd room m = Some l \<Longrightarrow> el_user l = m"
  using perform_ops_user [of "[Op_add (management_channel signal_fd On_signals), Op_add (management_channel stop_fd On_stop)]" "new_loop room m"]
  by (simp add: new_management_def new_loop_def split: sum.splits del: perform_ops.simps)

lemma management_requests:
  "management_states l alive \<Longrightarrow>
   (if alive then requests_ok (el_user l)
    else \<not> el_running l \<and> (\<exists>n sd failed. request_order (mg_events (el_user l)) n sd failed))"
proof (induction rule: management_states.induct)
  case (created signal_fd stop_fd room m l)
  then show ?case by (auto simp: new_management_user requests_ok_def request_order_def intro!: exI [of _ 0])
next
  case (moves l alive l' alive')
  note turn = loop_turn_user [where P = requests_ok and run = management_run and l = l, OF management_run_requests]
  from moves(2) show ?case
  proof (cases rule: management_stepE)
    case (passes answer)
    with turn [of answer] moves(3) show ?thesis by auto
  next
    case (fails answer e l1)
    with turn [of answer] moves(3) have "requests_ok (el_user l1)" by auto
    then obtain n sd where "request_order (mg_events (el_user l1)) n sd False" by (auto simp: requests_ok_def)
    then have "request_order (mg_events (el_user (run_failed l1))) n sd (mg_failed (el_user l1))"
      by (simp add: run_failed_user request_order_def)
    with fails show ?thesis using run_failed_user(2) by auto
  next
    case stops
    with moves(3) show ?thesis by (cases alive) (simp_all add: management_stop_def requests_ok_def)
  qed
qed

text \<open>After the stop: as long as the thread runs no request is made, and its end by an exception makes one at most.\<close>

lemma stopped_requests:
  assumes "management_step\<^sup>*\<^sup>* (l, alive) (l', alive')" and "stopped_with evs notify (el_user l)"
  shows "(alive' \<longrightarrow> alive) \<and> stopped_with (evs @ (if alive \<and> \<not> alive' \<and> notify then [Failed] else [])) notify (el_user l')"
  using assms(1)
proof (induction rule: rtranclp_induct2)
  case refl
  with assms(2) show ?case by auto
next
  case (step l1 alive1 l2 alive2)
  note turn = loop_turn_stopped [where l = l1]
  from step(2) show ?case
  proof (cases rule: management_stepE)
    case (passes answer)
    with turn [of evs notify answer] step(3) show ?thesis by auto
  next
    case (fails answer e l3)
    with turn [of evs notify answer] step(3) have "stopped_with evs notify (el_user l3)" by auto
    with fails step(3) show ?thesis by (auto simp: stopped_with_def run_failed_user)
  next
    case stops
    with step(3) show ?thesis by (auto simp: stopped_with_def management_stop_def)
  qed
qed

text \<open>
  C24. The management thread makes its requests in order: however signals, failures and the owner's stop
  interleave, there are first reload requests, then at most one shutdown request, then at most one failure notice,
  which only a dead loop sends. Once the owner has stopped the thread, whatever signals arrive, for the rest of its life it
  makes no reload or shutdown request: all it may still send is the one failure notice, and it sends that exactly when its loop
  then ends by an exception and the owner wants to be notified of it.
\<close>

theorem management_requests_in_order:
  assumes "management_states l alive"
  shows "\<exists>n sd failed. mg_events (el_user l) = replicate n Reload @ (if sd then [Shutdown] else []) @ (if failed then [Failed] else []) \<and>
    (failed \<longrightarrow> \<not> alive \<and> \<not> el_running l) \<and>
    (\<forall>l' alive'. mg_stopping (el_user l) \<and> management_step\<^sup>*\<^sup>* (l, alive) (l', alive') \<longrightarrow>
       (alive' \<longrightarrow> alive) \<and>
       mg_events (el_user l') = mg_events (el_user l) @ (if alive \<and> \<not> alive' \<and> mg_failed (el_user l) then [Failed] else []))"
proof -
  have "\<exists>n sd failed. request_order (mg_events (el_user l)) n sd failed \<and> (failed \<longrightarrow> \<not> alive \<and> \<not> el_running l)"
    using management_requests [OF assms] by (cases alive) (auto simp: requests_ok_def)
  moreover have "(alive' \<longrightarrow> alive) \<and>
      mg_events (el_user l') = mg_events (el_user l) @ (if alive \<and> \<not> alive' \<and> mg_failed (el_user l) then [Failed] else [])"
    if "mg_stopping (el_user l)" "management_step\<^sup>*\<^sup>* (l, alive) (l', alive')" for l' alive'
    using stopped_requests [OF that(2), of "mg_events (el_user l)" "mg_failed (el_user l)"] that(1)
    unfolding stopped_with_def by blast
  ultimately show ?thesis unfolding request_order_def by blast
qed

definition example_management :: management where
  "example_management = \<lparr>mg_signal_reads = [Read_failed EINTR, Records [SIGHUP, SIGTERM], Records [SIGHUP]], mg_stop_reads = [], mg_reload = True,
     mg_shutdown = True, mg_failed = True, mg_throws = (\<lambda>e. False), mg_stopping = False, mg_shutdown_sent = False, mg_events = []\<rparr>"

definition example_management_loop :: management_loop where
  "example_management_loop = projr (loop_turn management_run (Events [(0, 1)]) (the (new_management 5 6 [] example_management)))"

text \<open>The signals of the example request a shutdown; then the owner stops the thread, whose next wait fails.\<close>

theorem management_requests_in_order_witness:
  "mg_events (el_user (run_failed (management_stop example_management_loop))) = [Shutdown, Failed]"
proof -
  let ?new = "the (new_management 5 6 [] example_management)"
  let ?stopped = "management_stop example_management_loop"
  have some: "new_management 5 6 [] example_management = Some ?new"
    by (simp add: new_management_def addChannel_def new_loop_def management_channel_def)
  have "\<not> isl (loop_turn management_run (Events [(0, 1)]) ?new)" by code_simp
  then have turn: "loop_turn management_run (Events [(0, 1)]) ?new = Inr example_management_loop"
    by (simp add: example_management_loop_def)
  have vals: "el_running ?new" "el_epoll ?new 5 = Some (1, 0)" "mg_events example_management = []"
    "mg_events (el_user example_management_loop) = [Shutdown]" "el_running example_management_loop"
    "mg_failed (el_user example_management_loop)" by code_simp+
  then have "reports ?new (Events [(0, 1)])" by (auto simp: reports_def)
  from passes [OF vals(1) this turn] created [OF some vals(3)] have "management_states example_management_loop True"
    by (blast intro: moves)
  then have reach: "management_states ?stopped True" by (blast intro: moves stops)
  have "loop_turn management_run (Wait_failed (Errno 9)) ?stopped = Inl (Epoll_wait_failed (Errno 9), ?stopped)"
    by (simp add: loop_turn_def)
  with vals(5) have "management_step (?stopped, True) (run_failed ?stopped, False)"
    by (intro fails) (simp_all add: management_stop_def reports_def)
  then have "management_step\<^sup>*\<^sup>* (?stopped, True) (run_failed ?stopped, False)" by (rule r_into_rtranclp)
  with management_requests_in_order [OF reach] have "mg_events (el_user (run_failed ?stopped)) = mg_events (el_user ?stopped) @ [Failed]"
    using vals(6) by (auto simp: management_stop_def)
  with vals(4) show ?thesis by (simp add: management_stop_def)
qed

end
