(* ===== verification/Handle_Classes.thy ===== *)
theory Handle_Classes
  imports Unique_Owner
begin

text \<open>
  The special member functions of two more owners of a handle: \<^verbatim>\<open>gateway/storage/Statement.h\<close> (a prepared statement of
  SQLite) and \<^verbatim>\<open>gateway/io/event/EventLoop.cpp\<close> (the epoll descriptor with the table of channels). A pointer is a
  number, 0 being the null pointer.
\<close>

subsection \<open>Statements\<close>

record stmt_object =
  st_db :: nat
  st_stmt :: nat

record stmt_world =
  sw_live :: "nat list"
  sw_objects :: "nat \<rightharpoonup> stmt_object"

definition sqlite3_finalize :: "nat \<Rightarrow> stmt_world \<Rightarrow> stmt_world option" where
  "sqlite3_finalize p w = (if p \<in> set (sw_live w) then Some (w\<lparr>sw_live := remove1 p (sw_live w)\<rparr>) else None)"

text \<open>\<open>prepared\<close> is the answer of \<^verbatim>\<open>sqlite3_prepare_v2\<close>: a statement, or the error that is thrown. The boolean says whether it throws.\<close>

definition stmt_construct :: "nat \<Rightarrow> nat \<Rightarrow> nat option \<Rightarrow> stmt_world \<Rightarrow> bool \<times> stmt_world" where
  "stmt_construct i db prepared w =
    (case prepared of
       None \<Rightarrow> (True, w)
     | Some p \<Rightarrow> (False, w\<lparr>sw_live := p # sw_live w, sw_objects := (sw_objects w)(i \<mapsto> \<lparr>st_db = db, st_stmt = p\<rparr>)\<rparr>))"

definition stmt_destroy :: "nat \<Rightarrow> stmt_world \<Rightarrow> stmt_world option" where
  "stmt_destroy i w =
    (case sw_objects w i of
       None \<Rightarrow> None
     | Some st \<Rightarrow>
         let w = w\<lparr>sw_objects := (sw_objects w)(i := None)\<rparr>
         in if st_stmt st \<noteq> 0 then sqlite3_finalize (st_stmt st) w else Some w)"

definition stmt_move_construct :: "nat \<Rightarrow> nat \<Rightarrow> stmt_world \<Rightarrow> stmt_world option" where
  "stmt_move_construct i j w =
    (case sw_objects w j of
       None \<Rightarrow> None
     | Some other \<Rightarrow>
         Some (w\<lparr>sw_objects := (sw_objects w)(i \<mapsto> \<lparr>st_db = st_db other, st_stmt = st_stmt other\<rparr>, j \<mapsto> other\<lparr>st_stmt := 0\<rparr>)\<rparr>))"

definition stmt_move_assign :: "nat \<Rightarrow> nat \<Rightarrow> stmt_world \<Rightarrow> stmt_world option" where
  "stmt_move_assign i j w =
    (case (sw_objects w i, sw_objects w j) of
       (Some this, Some other) \<Rightarrow>
         if i \<noteq> j then
           (case (if st_stmt this \<noteq> 0 then sqlite3_finalize (st_stmt this) w else Some w) of
              None \<Rightarrow> None
            | Some w \<Rightarrow>
                Some (w\<lparr>sw_objects := (sw_objects w)(i \<mapsto> this\<lparr>st_db := st_db other, st_stmt := st_stmt other\<rparr>, j \<mapsto> other\<lparr>st_stmt := 0\<rparr>)\<rparr>))
         else Some w
     | _ \<Rightarrow> None)"

definition stmt_owner :: "stmt_world \<Rightarrow> nat \<Rightarrow> nat option" where
  "stmt_owner w i = map_option st_stmt (sw_objects w i)"

subsection \<open>Event loops\<close>

record 'c loop_object =
  lo_epoll :: int
  lo_channels :: "'c list"
  lo_dying :: "'c list"

record 'c loops_world =
  lw_open :: "int list"
  lw_loops :: "nat \<rightharpoonup> 'c loop_object"

definition close_epoll :: "int \<Rightarrow> 'c loops_world \<Rightarrow> 'c loops_world option" where
  "close_epoll fd w = (if fd \<in> set (lw_open w) then Some (w\<lparr>lw_open := remove1 fd (lw_open w)\<rparr>) else None)"

text \<open>\<open>created\<close> is the answer of \<^verbatim>\<open>epoll_create1\<close>, -1 for an error, which is thrown.\<close>

definition loop_construct :: "nat \<Rightarrow> int \<Rightarrow> 'c loops_world \<Rightarrow> bool \<times> 'c loops_world" where
  "loop_construct i created w =
    (if created = - 1 then (True, w)
     else (False, w\<lparr>lw_open := created # lw_open w,
                    lw_loops := (lw_loops w)(i \<mapsto> \<lparr>lo_epoll = created, lo_channels = [], lo_dying = []\<rparr>)\<rparr>))"

definition loop_destroy :: "nat \<Rightarrow> 'c loops_world \<Rightarrow> 'c loops_world option" where
  "loop_destroy i w =
    (case lw_loops w i of
       None \<Rightarrow> None
     | Some l \<Rightarrow>
         let w = w\<lparr>lw_loops := (lw_loops w)(i := None)\<rparr>
         in if lo_epoll l \<noteq> - 1 then close_epoll (lo_epoll l) w else Some w)"

definition moved_from :: "'c loop_object \<Rightarrow> 'c loop_object" where
  "moved_from other = other\<lparr>lo_epoll := - 1, lo_channels := [], lo_dying := []\<rparr>"

definition loop_move_construct :: "nat \<Rightarrow> nat \<Rightarrow> 'c loops_world \<Rightarrow> 'c loops_world option" where
  "loop_move_construct i j w =
    (case lw_loops w j of
       None \<Rightarrow> None
     | Some other \<Rightarrow>
         Some (w\<lparr>lw_loops := (lw_loops w)(i \<mapsto> \<lparr>lo_epoll = lo_epoll other, lo_channels = lo_channels other, lo_dying = lo_dying other\<rparr>,
                                         j \<mapsto> moved_from other)\<rparr>))"

definition loop_move_assign :: "nat \<Rightarrow> nat \<Rightarrow> 'c loops_world \<Rightarrow> 'c loops_world option" where
  "loop_move_assign i j w =
    (case (lw_loops w i, lw_loops w j) of
       (Some this, Some other) \<Rightarrow>
         if i \<noteq> j then
           (case (if lo_epoll this \<noteq> - 1 then close_epoll (lo_epoll this) w else Some w) of
              None \<Rightarrow> None
            | Some w \<Rightarrow>
                Some (w\<lparr>lw_loops := (lw_loops w)(i \<mapsto> this\<lparr>lo_epoll := lo_epoll other, lo_channels := lo_channels other, lo_dying := lo_dying other\<rparr>,
                                                j \<mapsto> moved_from other)\<rparr>))
         else Some w
     | _ \<Rightarrow> None)"

definition loop_owner :: "'c loops_world \<Rightarrow> nat \<Rightarrow> int option" where
  "loop_owner w i = map_option lo_epoll (lw_loops w i)"

subsection \<open>Both classes keep the contract\<close>

lemma stmt_owner_simps:
  "stmt_owner w i = Some p \<longleftrightarrow> (\<exists>st. sw_objects w i = Some st \<and> st_stmt st = p)" "stmt_owner w i = None \<longleftrightarrow> sw_objects w i = None"
  "stmt_owner (w\<lparr>sw_objects := f\<rparr>) = (\<lambda>i. map_option st_stmt (f i))" "stmt_owner (w\<lparr>sw_live := l\<rparr>) = stmt_owner w"
  by (auto simp: stmt_owner_def)

interpretation st: unique_owner sw_live stmt_owner 0 "\<lambda>i p w. Some (snd (stmt_construct i db (Some p) w))"
    stmt_destroy stmt_move_construct stmt_move_assign for db
  by unfold_locales
    (auto simp: stmt_construct_def stmt_destroy_def stmt_move_construct_def stmt_move_assign_def sqlite3_finalize_def stmt_owner_simps Let_def
      fun_eq_iff stmt_owner_def)

lemma loop_owner_simps:
  "loop_owner w i = Some fd \<longleftrightarrow> (\<exists>l. lw_loops w i = Some l \<and> lo_epoll l = fd)" "loop_owner w i = None \<longleftrightarrow> lw_loops w i = None"
  by (auto simp: loop_owner_def)

interpretation lo: unique_owner lw_open loop_owner "- 1" "\<lambda>i fd w. Some (snd (loop_construct i fd w))"
    loop_destroy loop_move_construct loop_move_assign
  by unfold_locales
    (auto simp: loop_construct_def loop_destroy_def loop_move_construct_def loop_move_assign_def close_epoll_def loop_owner_simps moved_from_def
      Let_def fun_eq_iff loop_owner_def)

subsection \<open>Properties\<close>

text \<open>
  Whatever sequence of constructions, destructions and moves the program performs, no prepared statement is finalized twice,
  and the statements alive are exactly those of one object each: none is leaked.
\<close>

theorem statements_finalized_once:
  assumes "st.all_allowed db ops \<lparr>sw_live = [], sw_objects = Map.empty\<rparr>"
  shows "\<exists>w. st.run db ops \<lparr>sw_live = [], sw_objects = Map.empty\<rparr> = Some w \<and> owned_once 0 (sw_live w) (stmt_owner w)"
proof -
  have "st.ok \<lparr>sw_live = [], sw_objects = Map.empty\<rparr>" by (auto simp: st.ok_def stmt_owner_def owned_once_def)
  from st.run_ok [OF this assms] show ?thesis by (simp add: st.ok_def)
qed

text \<open>The same of the epoll descriptor of an event loop; and a move takes the channels along, so that no channel is in two loops.\<close>

theorem epoll_closed_once:
  fixes none :: "'c loops_world"
  assumes "none = \<lparr>lw_open = [], lw_loops = Map.empty\<rparr>" and "lo.all_allowed ops none"
  shows "\<exists>w. lo.run ops none = Some w \<and> owned_once (- 1) (lw_open w) (loop_owner w)"
proof -
  have "lo.ok none" using assms(1) by (auto simp: lo.ok_def loop_owner_def owned_once_def)
  from lo.run_ok [OF this assms(2)] show ?thesis by (simp add: lo.ok_def)
qed

lemma loop_move_takes_channels:
  assumes "loop_move_assign i j w = Some w'" and "i \<noteq> j" and "lw_loops w j = Some other"
  shows "map_option lo_channels (lw_loops w' i) = Some (lo_channels other) \<and> map_option lo_channels (lw_loops w' j) = Some []"
  using assms by (auto simp: loop_move_assign_def moved_from_def close_epoll_def split: option.splits if_splits)

end
