(* ===== verification/Database.thy ===== *)
theory Database
  imports Telemetry_Pipeline "HOL-Library.Sublist"
begin

text \<open>
  \<^verbatim>\<open>gateway/storage/Database.h\<close> and \<^verbatim>\<open>Statement.h\<close>. SQLite is a parameter: the record of the calls the class makes, over
  the state \<open>'s\<close> of a connection. What the code relies on is stated as \<open>sqlite_behaves\<close>, the documented meaning of a
  table, of transactions and of automatic commits. A text parameter is bound as a C string.
\<close>

subsection \<open>The interface of SQLite\<close>

record 's sqlite =
  sq_exec :: "string \<Rightarrow> 's \<Rightarrow> bool \<times> 's"
  sq_insert :: "DataRow \<Rightarrow> 's \<Rightarrow> bool \<times> 's"
  sq_prepare :: "string \<Rightarrow> 's \<Rightarrow> bool"
  sq_select :: "string \<Rightarrow> int \<Rightarrow> 's \<Rightarrow> DataRow list"
  sq_count :: "'s \<Rightarrow> int option"

definition sql_begin :: string where "sql_begin = ''BEGIN;''"
definition sql_commit :: string where "sql_commit = ''COMMIT;''"
definition sql_rollback :: string where "sql_rollback = ''ROLLBACK;''"
definition sql_query :: string where
  "sql_query = ''SELECT device_id, value, ts FROM device_data WHERE device_id = ? ORDER BY ts DESC LIMIT ?;''"
definition sql_count :: string where "sql_count = ''SELECT COUNT(*) FROM device_data;''"
definition sql_wal :: string where "sql_wal = ''PRAGMA journal_mode=WAL;''"
definition sql_normal :: string where "sql_normal = ''PRAGMA synchronous=NORMAL;''"
definition sql_table :: string where
  "sql_table = ''CREATE TABLE IF NOT EXISTS device_data('' @
     '' id        INTEGER PRIMARY KEY AUTOINCREMENT,'' @ '' device_id TEXT    NOT NULL,'' @ '' value     REAL,'' @ '' ts        INTEGER NOT NULL);''"
definition sql_index :: string where
  "sql_index = ''CREATE INDEX IF NOT EXISTS idx_dev_ts ON device_data(device_id, ts);''"
definition sql_insert :: string where
  "sql_insert = ''INSERT INTO device_data(device_id, value, ts) VALUES(?, ?, ?);''"

subsection \<open>Operations\<close>

definition execNoThrow :: "'s sqlite \<Rightarrow> string \<Rightarrow> 's \<Rightarrow> 's" where
  "execNoThrow api sql s = snd (sq_exec api sql s)"

text \<open>Binding the three parameters of the insert statement, stepping and resetting it.\<close>

definition insert_row :: "'s sqlite \<Rightarrow> DataRow \<Rightarrow> 's \<Rightarrow> 's" where
  "insert_row api r s = snd (sq_insert api (r\<lparr>dr_device := c_str (dr_device r)\<rparr>) s)"

definition insertBatch :: "'s sqlite \<Rightarrow> DataRow list \<Rightarrow> 's \<Rightarrow> 's" where
  "insertBatch api rows s =
    (if rows = [] then s
     else
       let s = execNoThrow api sql_begin s;
           s = fold (insert_row api) rows s;
           (committed, s) = sq_exec api sql_commit s
       in if \<not> committed then execNoThrow api sql_rollback s else s)"

text \<open>The rows are copied one by one; preparing the statement may throw (\<open>None\<close>).\<close>

fun copy_rows :: "DataRow list \<Rightarrow> DataRow list \<Rightarrow> DataRow list" where
  "copy_rows [] rows = rows"
| "copy_rows (r # rest) rows = copy_rows rest (rows @ [r])"

definition db_query :: "'s sqlite \<Rightarrow> string \<Rightarrow> int \<Rightarrow> 's \<Rightarrow> DataRow list option" where
  "db_query api device_id limit s =
    (if \<not> sq_prepare api sql_query s then None else Some (copy_rows (sq_select api (c_str device_id) limit s) []))"

definition db_count :: "'s sqlite \<Rightarrow> 's \<Rightarrow> int option" where
  "db_count api s =
    (if \<not> sq_prepare api sql_count s then None
     else Some (case sq_count api s of Some n \<Rightarrow> n | None \<Rightarrow> - 1))"

text \<open>The errors the constructor throws; the constructor itself is in the theory Database_Life.\<close>

datatype db_error = Open_readonly_error | Open_error | Create_table_error | Prepare_error

subsection \<open>What SQLite promises\<close>

text \<open>
  \<open>tbl\<close> is the committed content of the table in the order of insertion, \<open>txn\<close> the rows of the open transaction, if one is open.
  A failed insert or commit leaves the transaction open or, after some errors (a full disk, an I/O error), has rolled it back;
  outside a transaction a successful insert is committed at once.
\<close>

definition sqlite_behaves :: "'s sqlite \<Rightarrow> ('s \<Rightarrow> DataRow list) \<Rightarrow> ('s \<Rightarrow> DataRow list option) \<Rightarrow> bool" where
  "sqlite_behaves api tbl txn \<longleftrightarrow>
    (\<forall>s ok s'. sq_exec api sql_begin s = (ok, s') \<longrightarrow>
       tbl s' = tbl s \<and> (if ok then txn s = None \<and> txn s' = Some [] else txn s' = txn s)) \<and>
    (\<forall>s ok s'. sq_exec api sql_commit s = (ok, s') \<longrightarrow>
       (if ok then \<exists>rows. txn s = Some rows \<and> tbl s' = tbl s @ rows \<and> txn s' = None
        else tbl s' = tbl s \<and> (txn s' = txn s \<or> txn s' = None))) \<and>
    (\<forall>s ok s'. sq_exec api sql_rollback s = (ok, s') \<longrightarrow>
       tbl s' = tbl s \<and> (if ok then txn s' = None else txn s' = txn s)) \<and>
    (\<forall>r s ok s'. sq_insert api r s = (ok, s') \<longrightarrow>
       (if ok then case txn s of None \<Rightarrow> tbl s' = tbl s @ [r] \<and> txn s' = None
                               | Some rows \<Rightarrow> tbl s' = tbl s \<and> txn s' = Some (rows @ [r])
        else tbl s' = tbl s \<and> (txn s' = txn s \<or> txn s' = None)))"

definition bound_rows :: "DataRow list \<Rightarrow> DataRow list" where
  "bound_rows rows = map (\<lambda>r. r\<lparr>dr_device := c_str (dr_device r)\<rparr>) rows"

definition pending :: "('s \<Rightarrow> DataRow list option) \<Rightarrow> 's \<Rightarrow> DataRow list" where
  "pending txn s = (case txn s of None \<Rightarrow> [] | Some rows \<Rightarrow> rows)"

text \<open>
  From \<open>s\<close> to \<open>s'\<close> the table grew at its end, and its new rows followed by the open transaction are, in order, among the rows that
  were pending and the rows \<open>new\<close> offered since.
\<close>

definition grows :: "('s \<Rightarrow> DataRow list) \<Rightarrow> ('s \<Rightarrow> DataRow list option) \<Rightarrow> 's \<Rightarrow> DataRow list \<Rightarrow> 's \<Rightarrow> bool" where
  "grows tbl txn s new s' \<longleftrightarrow> (\<exists>l. tbl s' = tbl s @ l \<and> subseq (l @ pending txn s') (pending txn s @ new))"

subsection \<open>The pipeline on top\<close>

text \<open>The databases behind the connections of the pipeline: each insertion event is a call of \<^verbatim>\<open>insertBatch\<close>.\<close>

fun store_event :: "'s sqlite \<Rightarrow> ('d, 'n) pipe_event \<Rightarrow> ('d \<Rightarrow> 's) \<Rightarrow> 'd \<Rightarrow> 's" where
  "store_event api (Inserted d rows) w = w(d := insertBatch api rows (w d))"
| "store_event api _ w = w"

definition store_events :: "'s sqlite \<Rightarrow> ('d, 'n) pipe_event list \<Rightarrow> ('d \<Rightarrow> 's) \<Rightarrow> 'd \<Rightarrow> 's" where
  "store_events api evs w = fold (store_event api) evs w"

fun rows_for :: "'d \<Rightarrow> ('d, 'n) entry list \<Rightarrow> DataRow list" where
  "rows_for d [] = []"
| "rows_for d (Row d' r # es) = (if d' = d then r # rows_for d es else rows_for d es)"
| "rows_for d (Notify n # es) = rows_for d es"

lemma rows_for_append [simp]: "rows_for d (es @ es') = rows_for d es @ rows_for d es'"
  by (induction d es rule: rows_for.induct) simp_all

lemma rows_for_map_Row [simp]: "rows_for d (map (Row d') rows) = (if d' = d then rows else [])"
  by (cases "d' = d"; induction rows) simp_all

lemma bound_rows_simps [simp]:
  "bound_rows [] = []" "bound_rows (r # rows) = r\<lparr>dr_device := c_str (dr_device r)\<rparr> # bound_rows rows"
  "bound_rows (rows @ rows') = bound_rows rows @ bound_rows rows'"
  by (simp_all add: bound_rows_def)

subsection \<open>What each call does\<close>

lemma grows_refl [simp]: "grows tbl txn s [] s"
  by (simp add: grows_def)

lemma grows_trans:
  assumes "grows tbl txn s k s1" and "grows tbl txn s1 l s2"
  shows "grows tbl txn s (k @ l) s2"
proof -
  obtain a where a: "tbl s1 = tbl s @ a" "subseq (a @ pending txn s1) (pending txn s @ k)"
    using assms(1) by (auto simp: grows_def)
  obtain b where b: "tbl s2 = tbl s1 @ b" "subseq (b @ pending txn s2) (pending txn s1 @ l)"
    using assms(2) by (auto simp: grows_def)
  have "subseq (a @ b @ pending txn s2) (a @ pending txn s1 @ l)"
    using list_emb_append_mono [OF subseq_order.order_refl b(2)] by simp
  also have "subseq (a @ pending txn s1 @ l) (pending txn s @ k @ l)"
    using list_emb_append_mono [OF a(2), of l l] by simp
  finally show ?thesis using a(1) b(1) unfolding grows_def by (intro exI [of _ "a @ b"]) simp
qed

lemma begin_effect:
  "sqlite_behaves api tbl txn \<Longrightarrow> sq_exec api sql_begin s = (ok, s') \<Longrightarrow>
    tbl s' = tbl s \<and> (if ok then txn s = None \<and> txn s' = Some [] else txn s' = txn s)"
  unfolding sqlite_behaves_def by blast

lemma commit_effect:
  "sqlite_behaves api tbl txn \<Longrightarrow> sq_exec api sql_commit s = (ok, s') \<Longrightarrow>
    (if ok then \<exists>rows. txn s = Some rows \<and> tbl s' = tbl s @ rows \<and> txn s' = None
     else tbl s' = tbl s \<and> (txn s' = txn s \<or> txn s' = None))"
  unfolding sqlite_behaves_def by blast

lemma rollback_effect:
  "sqlite_behaves api tbl txn \<Longrightarrow> sq_exec api sql_rollback s = (ok, s') \<Longrightarrow>
    tbl s' = tbl s \<and> (if ok then txn s' = None else txn s' = txn s)"
  unfolding sqlite_behaves_def by blast

lemma insert_effect:
  "sqlite_behaves api tbl txn \<Longrightarrow> sq_insert api r s = (ok, s') \<Longrightarrow>
    (if ok then case txn s of None \<Rightarrow> tbl s' = tbl s @ [r] \<and> txn s' = None
                            | Some rows \<Rightarrow> tbl s' = tbl s \<and> txn s' = Some (rows @ [r])
     else tbl s' = tbl s \<and> (txn s' = txn s \<or> txn s' = None))"
  unfolding sqlite_behaves_def by blast

lemma exec_grows:
  assumes "sqlite_behaves api tbl txn" and "sql \<in> {sql_begin, sql_commit, sql_rollback}" and "sq_exec api sql s = (ok, s')"
  shows "grows tbl txn s [] s'"
proof -
  from assms(2) consider "sql = sql_begin" | "sql = sql_commit" | "sql = sql_rollback" by blast
  then show ?thesis
  proof cases
    case 1
    with assms begin_effect [of api tbl txn s ok s'] show ?thesis
      by (cases ok) (simp_all add: grows_def pending_def)
  next
    case 2
    with assms commit_effect [of api tbl txn s ok s'] show ?thesis
      by (cases ok) (auto simp: grows_def pending_def)
  next
    case 3
    with assms rollback_effect [of api tbl txn s ok s'] show ?thesis
      by (cases ok) (simp_all add: grows_def pending_def)
  qed
qed

lemma insert_row_grows:
  assumes "sqlite_behaves api tbl txn"
  shows "grows tbl txn s (bound_rows [r]) (insert_row api r s)"
proof -
  let ?r = "r\<lparr>dr_device := c_str (dr_device r)\<rparr>"
  obtain ok s' where i: "sq_insert api ?r s = (ok, s')" by fastforce
  from insert_effect [OF assms i] have "grows tbl txn s [?r] s'"
    by (cases ok; cases "txn s") (auto simp: grows_def pending_def list_emb_append2)
  with i show ?thesis by (simp add: insert_row_def)
qed

lemma insert_rows_grow:
  assumes "sqlite_behaves api tbl txn"
  shows "grows tbl txn s (bound_rows rows) (fold (insert_row api) rows s)"
proof (induction rows arbitrary: s)
  case (Cons r rows)
  from grows_trans [OF insert_row_grows [OF assms] Cons.IH] show ?case by simp
qed simp

text \<open>A batch adds rows of the batch only, in their order, whatever fails and whatever state an earlier batch left.\<close>

lemma insertBatch_grows:
  assumes "sqlite_behaves api tbl txn"
  shows "grows tbl txn s (bound_rows rows) (insertBatch api rows s)"
proof (cases "rows = []")
  case False
  obtain b s1 where b: "sq_exec api sql_begin s = (b, s1)" by fastforce
  define s2 where "s2 = fold (insert_row api) rows s1"
  obtain c s3 where c: "sq_exec api sql_commit s2 = (c, s3)" by fastforce
  obtain d s4 where d: "sq_exec api sql_rollback s3 = (d, s4)" by fastforce
  have s': "insertBatch api rows s = (if c then s3 else s4)"
    using False b c d by (simp add: insertBatch_def execNoThrow_def s2_def)
  note ex = exec_grows [OF assms]
  have "grows tbl txn s (bound_rows rows) s3"
    using grows_trans [OF ex [OF _ b] grows_trans [OF insert_rows_grow [OF assms, of s1 rows, folded s2_def] ex [OF _ c]]] by simp
  moreover from grows_trans [OF this ex [OF _ d]] have "grows tbl txn s (bound_rows rows) s4" by simp
  ultimately show ?thesis using s' by simp
qed (simp add: insertBatch_def)

subsection \<open>Batches without failing inserts\<close>

lemma insert_rows_add_all:
  assumes "sqlite_behaves api tbl txn" and "\<And>r u. fst (sq_insert api r u)"
  shows "(txn s = None \<longrightarrow> txn (fold (insert_row api) rows s) = None \<and> tbl (fold (insert_row api) rows s) = tbl s @ bound_rows rows) \<and>
    (\<forall>old. txn s = Some old \<longrightarrow> txn (fold (insert_row api) rows s) = Some (old @ bound_rows rows) \<and>
       tbl (fold (insert_row api) rows s) = tbl s)"
proof (induction rows arbitrary: s)
  case (Cons r rows)
  let ?r = "r\<lparr>dr_device := c_str (dr_device r)\<rparr>"
  obtain s1 where i: "sq_insert api ?r s = (True, s1)" using assms(2) [of ?r s] by (cases "sq_insert api ?r s") auto
  then have "insert_row api r s = s1" by (simp add: insert_row_def)
  with insert_effect [OF assms(1) i] Cons.IH [of s1] show ?case by (cases "txn s") auto
qed simp

text \<open>
  When no insert fails, a batch that begins outside a transaction is stored whole or not at all, and it is stored whole
  when the commit of a transaction does not fail. No transaction is left open then.
\<close>

lemma insertBatch_all_or_nothing:
  assumes "sqlite_behaves api tbl txn" and "\<And>r u. fst (sq_insert api r u)" and "txn s = None"
  shows "tbl (insertBatch api rows s) = tbl s \<or> tbl (insertBatch api rows s) = tbl s @ bound_rows rows"
    and "(\<And>u. txn u \<noteq> None \<Longrightarrow> fst (sq_exec api sql_commit u)) \<Longrightarrow>
      tbl (insertBatch api rows s) = tbl s @ bound_rows rows \<and> txn (insertBatch api rows s) = None"
proof -
  obtain b s1 where b: "sq_exec api sql_begin s = (b, s1)" by fastforce
  define s2 where "s2 = fold (insert_row api) rows s1"
  obtain c s3 where c: "sq_exec api sql_commit s2 = (c, s3)" by fastforce
  obtain d s4 where d: "sq_exec api sql_rollback s3 = (d, s4)" by fastforce
  have s': "rows \<noteq> [] \<Longrightarrow> insertBatch api rows s = (if c then s3 else s4)"
    using b c d by (simp add: insertBatch_def execNoThrow_def s2_def)
  have s1: "tbl s1 = tbl s" "txn s1 = (if b then Some [] else None)" using begin_effect [OF assms(1) b] assms(3) by auto
  note all = insert_rows_add_all [OF assms(1,2), of s1 rows, folded s2_def]
  have empty: "rows = [] \<Longrightarrow> insertBatch api rows s = s" by (simp add: insertBatch_def)
  have s2: "if b then txn s2 = Some (bound_rows rows) \<and> tbl s2 = tbl s else txn s2 = None \<and> tbl s2 = tbl s @ bound_rows rows"
    using all s1 by (cases b) simp_all
  have s3: "if c then b \<and> tbl s3 = tbl s @ bound_rows rows \<and> txn s3 = None
      else tbl s3 = tbl s2 \<and> (txn s3 = txn s2 \<or> txn s3 = None)"
    using commit_effect [OF assms(1) c] s2 by (cases b; cases c) auto
  have s4: "tbl s4 = tbl s3" "txn s3 = None \<Longrightarrow> txn s4 = None"
    using rollback_effect [OF assms(1) d] by (cases d; simp)+
  show "tbl (insertBatch api rows s) = tbl s \<or> tbl (insertBatch api rows s) = tbl s @ bound_rows rows"
  proof (cases "rows = []")
    case False
    from s2 s3 s4(1) have "if c then tbl s3 = tbl s @ bound_rows rows else tbl s4 = tbl s \<or> tbl s4 = tbl s @ bound_rows rows"
      by (cases b; cases c) simp_all
    with s' [OF False] show ?thesis by (cases c) simp_all
  qed (use empty in simp)
  assume "\<And>u. txn u \<noteq> None \<Longrightarrow> fst (sq_exec api sql_commit u)"
  from this [of s2] c s2 s3 have "b = c" by (cases b; cases c) simp_all
  then have "rows \<noteq> [] \<Longrightarrow> tbl (insertBatch api rows s) = tbl s @ bound_rows rows \<and> txn (insertBatch api rows s) = None"
    using s2 s3 s4 s' by (cases c) simp_all
  with empty assms(3) show "tbl (insertBatch api rows s) = tbl s @ bound_rows rows \<and> txn (insertBatch api rows s) = None"
    by (cases "rows = []") simp_all
qed

subsection \<open>Properties\<close>

lemma store_events_grow:
  assumes "sqlite_behaves api tbl txn"
  shows "grows tbl txn (w d) (bound_rows (rows_for d (trace evs))) (store_events api evs w d)"
proof (induction evs arbitrary: w)
  case (Cons e evs)
  have "grows tbl txn (w d) (bound_rows (rows_for d (event_trace e))) (store_event api e w d)"
    using insertBatch_grows [OF assms] by (cases e) simp_all
  from grows_trans [OF this Cons.IH [of "store_event api e w"]] show ?case by (simp add: store_events_def)
qed (simp add: store_events_def)

lemma store_events_all:
  assumes "sqlite_behaves api tbl txn" and "\<And>r u. fst (sq_insert api r u)"
    and "\<And>u. txn u \<noteq> None \<Longrightarrow> fst (sq_exec api sql_commit u)" and "txn (w d) = None"
  shows "tbl (store_events api evs w d) = tbl (w d) @ bound_rows (rows_for d (trace evs)) \<and> txn (store_events api evs w d) = None"
  using assms(4)
proof (induction evs arbitrary: w)
  case (Cons e evs)
  have e: "tbl (store_event api e w d) = tbl (w d) @ bound_rows (rows_for d (event_trace e)) \<and> txn (store_event api e w d) = None"
    using insertBatch_all_or_nothing(2) [OF assms(1,2) Cons.prems assms(3)] Cons.prems by (cases e) auto
  from Cons.IH [of "store_event api e w"] e show ?case by (simp add: store_events_def)
qed (simp add: store_events_def)

text \<open>
  C30. Telemetry reaches the database it was accepted for: run the pipeline in any interleaving of producers, database changes,
  shutdown and writer on top of real connections. Whatever SQLite refuses, every database has grown only at its end, and
  its new rows and its open transaction are, in order, among the rows of the accepted jobs for this database. If no insert
  and no commit of a transaction fails, then once the writer has exited every database holds exactly the accepted rows,
  each once and in order. What is stored of a device name is the part before its first NUL.
\<close>

theorem telemetry_reaches_the_tables:
  assumes "sqlite_behaves api tbl txn" and "lts_steps pipe_step (new_pipeline db) evs p" and "txn (w d) = None"
  shows "(\<exists>l. tbl (store_events api evs w d) = tbl (w d) @ l \<and>
      subseq (l @ pending txn (store_events api evs w d)) (bound_rows (rows_for d (spec_trace db (submitted evs))))) \<and>
    ((\<forall>r u. fst (sq_insert api r u)) \<and> (\<forall>u. txn u \<noteq> None \<longrightarrow> fst (sq_exec api sql_commit u)) \<and> pl_pc p = Exited \<longrightarrow>
      tbl (store_events api evs w d) = tbl (w d) @ bound_rows (rows_for d (spec_trace db (submitted evs))))"
proof -
  have inv: "spec_trace db (submitted evs) = trace evs @ to_do p" "pl_pc p = Exited \<longrightarrow> to_do p = []"
    using pipe_inv_reachable [OF assms(2)] by (auto simp: pipe_inv_def to_do_def)
  obtain l where l: "tbl (store_events api evs w d) = tbl (w d) @ l"
      "subseq (l @ pending txn (store_events api evs w d)) (bound_rows (rows_for d (trace evs)))"
    using store_events_grow [OF assms(1), of w d evs] assms(3) by (auto simp: grows_def pending_def)
  from l(2) have "subseq (l @ pending txn (store_events api evs w d)) (bound_rows (rows_for d (spec_trace db (submitted evs))))"
    using list_emb_append_mono [OF l(2), of "[]"] by (auto simp: inv(1))
  with l(1) store_events_all [where api = api and tbl = tbl and txn = txn and w = w and d = d and evs = evs] assms(1,3) inv
  show ?thesis by simp
qed

text \<open>A small SQLite: a table and an open transaction, with the answers of SQLite to a second begin and to a commit outside a transaction.\<close>

definition tiny_sqlite :: "(DataRow list \<times> DataRow list option) sqlite" where
  "tiny_sqlite =
    \<lparr>sq_exec = (\<lambda>sql s. case s of (t, x) \<Rightarrow>
        if sql = sql_begin \<and> x = None then (True, (t, Some []))
        else if sql = sql_commit \<and> x \<noteq> None then (True, (t @ the x, None))
        else if sql = sql_rollback then (x \<noteq> None, (t, None))
        else (\<not> sql \<in> {sql_begin, sql_commit}, s)),
     sq_insert = (\<lambda>r s. case s of (t, x) \<Rightarrow>
        (True, case x of None \<Rightarrow> (t @ [r], None) | Some rows \<Rightarrow> (t, Some (rows @ [r])))),
     sq_prepare = (\<lambda>sql s. True),
     sq_select = (\<lambda>dev limit s. filter (\<lambda>r. dr_device r = dev) (fst s)),
     sq_count = (\<lambda>s. Some (int (length (fst s))))\<rparr>"

lemmas sql_texts = sql_begin_def sql_commit_def sql_rollback_def

lemma tiny_sqlite_behaves: "sqlite_behaves tiny_sqlite fst snd"
  unfolding sqlite_behaves_def
proof (intro conjI allI impI)
qed (auto simp: tiny_sqlite_def sql_texts split: if_splits option.splits)


text \<open>One reading goes through the queue, the writer and the transaction, and the writer exits.\<close>

definition demo_events :: "(nat, unit) pipe_event list" where
  "demo_events = [Submitted (Batch (batch_of [demo_reading] 7)), Inserted 0 (batch_of [demo_reading] 7)]"

definition demo_end :: "(nat, unit) pipeline" where
  "demo_end = (new_pipeline 0)\<lparr>pl_queue := shutdown (new_queue kQueueCapacity), pl_pc := Exited\<rparr>"

lemma demo_end_run: "lts_steps pipe_step (new_pipeline 0) demo_events demo_end"
proof -
  let ?p0 = "new_pipeline 0 :: (nat, unit) pipeline"
  let ?p1 = "?p0\<lparr>pl_pc := TryPop, pl_rows := batch_of [demo_reading] 7\<rparr>"
  let ?p2 = "?p0\<lparr>pl_queue := shutdown (new_queue kQueueCapacity)\<rparr>"
  note defs = demo_pipeline_def new_pipeline_def new_queue_def pipeline_submit_def put_job_def try_push_def kQueueCapacity_def
    writer_turn_def pop_def try_pop_def not_empty_def handle_job_def batch_of_def kMaxRowsPerTxn_def end_batch_eq
    pipeline_shutdown_def shutdown_def demo_end_def Let_def
  have a: "pipe_step demo_pipeline [] ?p1"
    by (rule writer_step) (simp add: defs)
  have b: "pipe_step ?p1 [Inserted 0 (batch_of [demo_reading] 7)] ?p0"
    by (rule writer_step) (simp add: defs)
  have c: "pipe_step ?p0 [] ?p2"
    using shutdown_step [of ?p0] by (simp add: defs)
  have d: "pipe_step ?p2 [] demo_end"
    by (rule writer_step) (simp add: defs)
  note st = steps_step [where R = pipe_step]
  from st [OF a st [OF b st [OF c st [OF d steps_refl [where R = pipe_step]]]]]
  have "lts_steps pipe_step demo_pipeline [Inserted 0 (batch_of [demo_reading] 7)] demo_end" by simp
  from steps_trans [OF demo_pipeline_run this] show ?thesis by (simp add: demo_events_def)
qed

theorem telemetry_reaches_the_tables_witness:
  "fst (store_events tiny_sqlite demo_events (\<lambda>d. ([], None)) 0) = [\<lparr>dr_device = ''t'', dr_value = NotFinite, dr_ts = 7\<rparr>]"
proof -
  have ok: "\<forall>r u. fst (sq_insert tiny_sqlite r u)" "\<forall>u. snd u \<noteq> None \<longrightarrow> fst (sq_exec tiny_sqlite sql_commit u)"
    by (auto simp: tiny_sqlite_def sql_texts split: prod.splits)
  have "pl_pc demo_end = Exited" by (simp add: demo_end_def)
  with telemetry_reaches_the_tables [OF tiny_sqlite_behaves demo_end_run, of "\<lambda>d. ([], None)" 0] ok show ?thesis
    by (simp add: demo_events_def batch_of_def demo_reading_def c_str_def)
qed

end
