(* ===== verification/Mqtt_Client.thy ===== *)
theory Mqtt_Client
  imports Prelude
begin

text \<open>
  \<^verbatim>\<open>gateway/cloud/MqttClient.{h,cpp}\<close> and the two functions of \<^verbatim>\<open>GatewayApp.cpp\<close> that build and replace the
  client. libmosquitto is seen through the calls made to it, a list in the order they were made; its answers are
  arguments. A handle is a number. The log messages are left out. Clients are built, replaced and destroyed by
  one thread at a time; the counter of users of the library is the process-wide one.
\<close>

subsection \<open>State\<close>

datatype lib_call =
    Lib_init | Lib_cleanup | Lib_new nat string | Lib_connect nat string int int | Lib_disconnect nat | Lib_loop_stop nat | Lib_destroy nat
  | Lib_loop_start nat | Lib_subscribe nat string int | Lib_publish nat string string int bool

record mqtt_lib =
  lib_refcount :: int
  lib_next :: nat
  lib_calls :: "lib_call list"

record 'h mqtt_client =
  mc_mosq :: nat
  mc_started :: bool
  mc_handler :: "'h option"
  mc_subs :: "(string \<times> int) list"

definition call_lib :: "lib_call \<Rightarrow> mqtt_lib \<Rightarrow> mqtt_lib" where
  "call_lib c w = w\<lparr>lib_calls := lib_calls w @ [c]\<rparr>"

definition libInit :: "mqtt_lib \<Rightarrow> mqtt_lib" where
  "libInit w =
    (let first = (lib_refcount w = 0);
         w = w\<lparr>lib_refcount := lib_refcount w + 1\<rparr>
     in if first then call_lib Lib_init w else w)"

definition libCleanup :: "mqtt_lib \<Rightarrow> mqtt_lib" where
  "libCleanup w =
    (let w = w\<lparr>lib_refcount := lib_refcount w - 1\<rparr>
     in if lib_refcount w = 0 then call_lib Lib_cleanup w else w)"

subsection \<open>The client\<close>

definition mqtt_construct ::
    "bool \<Rightarrow> int \<Rightarrow> (int \<Rightarrow> string) \<Rightarrow> string \<Rightarrow> string \<Rightarrow> int \<Rightarrow> int \<Rightarrow> mqtt_lib \<Rightarrow>
     (string + 'h mqtt_client) \<times> mqtt_lib" where
  "mqtt_construct new_ok connect_rc strerror cid host port keepalive w =
    (let w = libInit w
     in if \<not> new_ok then (Inl ''mosquitto_new failed'', libCleanup w)
        else
          let h = lib_next w;
              w = call_lib (Lib_new h cid) (w\<lparr>lib_next := h + 1\<rparr>);
              w = call_lib (Lib_connect h host port keepalive) w
          in if connect_rc \<noteq> 0 then (Inl (''mosquitto_connect failed: '' @ strerror connect_rc), libCleanup (call_lib (Lib_destroy h) w))
             else (Inr \<lparr>mc_mosq = h, mc_started = False, mc_handler = None, mc_subs = []\<rparr>, w))"

definition mqtt_destroy :: "'h mqtt_client \<Rightarrow> mqtt_lib \<Rightarrow> mqtt_lib" where
  "mqtt_destroy c w =
    (let w = call_lib (Lib_disconnect (mc_mosq c)) w;
         w = call_lib (Lib_loop_stop (mc_mosq c)) w;
         w = call_lib (Lib_destroy (mc_mosq c)) w
     in libCleanup w)"

definition requireNotStarted :: "'h mqtt_client \<Rightarrow> string \<Rightarrow> string option" where
  "requireNotStarted c who = (if mc_started c then Some (who @ ''() called after loopStart()'') else None)"

definition setMessageHandler :: "'h option \<Rightarrow> 'h mqtt_client \<Rightarrow> string + 'h mqtt_client" where
  "setMessageHandler h c =
    (case requireNotStarted c ''setMessageHandler'' of Some e \<Rightarrow> Inl e | None \<Rightarrow> Inr (c\<lparr>mc_handler := h\<rparr>))"

definition subscribe :: "string \<Rightarrow> int \<Rightarrow> 'h mqtt_client \<Rightarrow> string + 'h mqtt_client" where
  "subscribe topic qos c =
    (case requireNotStarted c ''subscribe'' of Some e \<Rightarrow> Inl e | None \<Rightarrow> Inr (c\<lparr>mc_subs := mc_subs c @ [(topic, qos)]\<rparr>))"

definition mqtt_publish :: "string \<Rightarrow> string \<Rightarrow> int \<Rightarrow> bool \<Rightarrow> 'h mqtt_client \<Rightarrow> mqtt_lib \<Rightarrow> mqtt_lib" where
  "mqtt_publish topic payload qos retain c w = call_lib (Lib_publish (mc_mosq c) topic payload qos retain) w"

definition loopStart :: "int \<Rightarrow> 'h mqtt_client \<Rightarrow> mqtt_lib \<Rightarrow> bool \<times> 'h mqtt_client \<times> mqtt_lib" where
  "loopStart rc c w =
    (let c = c\<lparr>mc_started := True\<rparr>;
         w = call_lib (Lib_loop_start (mc_mosq c)) w
     in (rc = 0, c, w))"

text \<open>The connection callback: \<open>rc\<close> is the broker's answer; a failed request is only logged, the next one is sent all the same.\<close>

definition onConnect :: "int \<Rightarrow> 'h mqtt_client \<Rightarrow> mqtt_lib \<Rightarrow> mqtt_lib" where
  "onConnect rc c w =
    (if rc \<noteq> 0 then w else fold (\<lambda>(topic, qos). call_lib (Lib_subscribe (mc_mosq c) topic qos)) (mc_subs c) w)"

text \<open>
  The message callback: a null topic is empty, a negative length is zero, and the payload is copied by its length,
  which the library guarantees to be there. \<open>run\<close> is what calling the handler does.
\<close>

definition onMessage ::
    "('h \<Rightarrow> string \<Rightarrow> string \<Rightarrow> 'u \<Rightarrow> 'u) \<Rightarrow> string option \<Rightarrow> string \<Rightarrow> int \<Rightarrow> 'h mqtt_client \<Rightarrow> 'u \<Rightarrow> 'u" where
  "onMessage run topic payload payloadlen c u =
    (case mc_handler c of
       None \<Rightarrow> u
     | Some h \<Rightarrow>
         let topic = (case topic of Some t \<Rightarrow> t | None \<Rightarrow> []);
             payload_len = (if payloadlen > 0 then nat payloadlen else 0)
         in run h topic (take payload_len payload) u)"

subsection \<open>Building and replacing the client\<close>

record mqtt_answers =
  ma_new_ok :: bool
  ma_connect_rc :: int
  ma_strerror :: "int \<Rightarrow> string"
  ma_start_rc :: int

definition createMqttClient ::
    "mqtt_answers \<Rightarrow> 'h \<Rightarrow> string \<Rightarrow> int \<Rightarrow> int \<Rightarrow> mqtt_lib \<Rightarrow> (string + 'h mqtt_client) \<times> mqtt_lib" where
  "createMqttClient ans handler host port keepalive w =
    (case mqtt_construct (ma_new_ok ans) (ma_connect_rc ans) (ma_strerror ans) ''gateway-main'' host port keepalive w of
       (Inl e, w) \<Rightarrow> (Inl e, w)
     | (Inr c, w) \<Rightarrow>
         (case setMessageHandler (Some handler) c of
            Inl e \<Rightarrow> (Inl e, mqtt_destroy c w)
          | Inr c \<Rightarrow>
              (case subscribe ''gateway/cmd/#'' 1 c of
                 Inl e \<Rightarrow> (Inl e, mqtt_destroy c w)
               | Inr c \<Rightarrow>
                   (case loopStart (ma_start_rc ans) c w of
                      (ok, c, w) \<Rightarrow> if \<not> ok then (Inl ''mqtt loop start failed'', mqtt_destroy c w) else (Inr c, w)))))"

text \<open>The assignment to \<^verbatim>\<open>mqtt_client_\<close> destroys the previous client after the new one has been built.\<close>

definition reloadMqtt ::
    "mqtt_answers \<Rightarrow> 'h \<Rightarrow> string \<Rightarrow> int \<Rightarrow> int \<Rightarrow> 'h mqtt_client option \<Rightarrow> mqtt_lib \<Rightarrow>
     bool \<times> 'h mqtt_client option \<times> mqtt_lib" where
  "reloadMqtt ans handler host port keepalive client w =
    (case createMqttClient ans handler host port keepalive w of
       (Inl e, w) \<Rightarrow> (False, client, w)
     | (Inr c, w) \<Rightarrow> (True, Some c, case client of None \<Rightarrow> w | Some old \<Rightarrow> mqtt_destroy old w))"

subsection \<open>The library's rules\<close>

text \<open>
  The documented use of the library: one initialisation, handles only while initialised, no call on a
  handle that does not exist, the cleanup when no handle is left. The state is whether it is initialised and the handles.
\<close>

fun lib_rule :: "bool \<times> nat list \<Rightarrow> lib_call \<Rightarrow> (bool \<times> nat list) option" where
  "lib_rule (up, hs) Lib_init = (if up then None else Some (True, hs))"
| "lib_rule (up, hs) Lib_cleanup = (if \<not> up \<or> hs \<noteq> [] then None else Some (False, hs))"
| "lib_rule (up, hs) (Lib_new h cid) = (if up \<and> h \<notin> set hs then Some (up, h # hs) else None)"
| "lib_rule (up, hs) (Lib_destroy h) = (if up \<and> h \<in> set hs then Some (up, remove1 h hs) else None)"
| "lib_rule (up, hs) (Lib_connect h _ _ _) = (if up \<and> h \<in> set hs then Some (up, hs) else None)"
| "lib_rule (up, hs) (Lib_disconnect h) = (if up \<and> h \<in> set hs then Some (up, hs) else None)"
| "lib_rule (up, hs) (Lib_loop_stop h) = (if up \<and> h \<in> set hs then Some (up, hs) else None)"
| "lib_rule (up, hs) (Lib_loop_start h) = (if up \<and> h \<in> set hs then Some (up, hs) else None)"
| "lib_rule (up, hs) (Lib_subscribe h _ _) = (if up \<and> h \<in> set hs then Some (up, hs) else None)"
| "lib_rule (up, hs) (Lib_publish h _ _ _ _) = (if up \<and> h \<in> set hs then Some (up, hs) else None)"

definition lib_state :: "lib_call list \<Rightarrow> (bool \<times> nat list) option" where
  "lib_state calls = foldl (\<lambda>st c. case st of None \<Rightarrow> None | Some st \<Rightarrow> lib_rule st c) (Some (False, [])) calls"

text \<open>The application: clients are created, replaced, used by the network thread and the publisher, and destroyed.\<close>

inductive mqtt_states :: "mqtt_lib \<Rightarrow> 'h mqtt_client list \<Rightarrow> bool" where
  mqtt_none: "mqtt_states \<lparr>lib_refcount = 0, lib_next = 0, lib_calls = []\<rparr> []"
| mqtt_created: "mqtt_states w cs \<Longrightarrow> createMqttClient ans handler host port keepalive w = (Inr c, w') \<Longrightarrow> mqtt_states w' (c # cs)"
| mqtt_not_created: "mqtt_states w cs \<Longrightarrow> createMqttClient ans (handler :: 'h) host port keepalive w = (Inl e, w') \<Longrightarrow> mqtt_states w' cs"
| mqtt_destroyed: "mqtt_states w cs \<Longrightarrow> c \<in> set cs \<Longrightarrow> mqtt_states (mqtt_destroy c w) (remove1 c cs)"
| mqtt_connected: "mqtt_states w cs \<Longrightarrow> c \<in> set cs \<Longrightarrow> mqtt_states (onConnect rc c w) cs"
| mqtt_published: "mqtt_states w cs \<Longrightarrow> c \<in> set cs \<Longrightarrow> mqtt_states (mqtt_publish topic payload qos retain c w) cs"

subsection \<open>Properties\<close>

lemma lib_state_snoc: "lib_state (calls @ [c]) = (case lib_state calls of None \<Rightarrow> None | Some st \<Rightarrow> lib_rule st c)"
  by (simp add: lib_state_def)

text \<open>The library with \<open>n\<close> users and the handles \<open>hs\<close>.\<close>

definition lib_at :: "mqtt_lib \<Rightarrow> nat \<Rightarrow> nat list \<Rightarrow> bool" where
  "lib_at w n hs \<longleftrightarrow> lib_state (lib_calls w) = Some (n > 0, hs) \<and> lib_refcount w = int n \<and> distinct hs \<and> (\<forall>h\<in>set hs. h < lib_next w)"

lemma libInit_at: "lib_at w n hs \<Longrightarrow> lib_at (libInit w) (Suc n) hs"
  by (auto simp: lib_at_def libInit_def call_lib_def lib_state_snoc Let_def)

lemma libCleanup_at: "lib_at w (Suc n) hs \<Longrightarrow> (n = 0 \<Longrightarrow> hs = []) \<Longrightarrow> lib_at (libCleanup w) n hs"
  by (auto simp: lib_at_def libCleanup_def call_lib_def lib_state_snoc Let_def)

lemma lib_new_at: "lib_at w (Suc n) hs \<Longrightarrow> lib_at (call_lib (Lib_new (lib_next w) cid) (w\<lparr>lib_next := Suc (lib_next w)\<rparr>)) (Suc n) (lib_next w # hs)"
  by (fastforce simp: lib_at_def call_lib_def lib_state_snoc)

lemma lib_use_at:
  assumes "lib_at w (Suc n) hs" and "h \<in> set hs"
    and "c \<in> {Lib_disconnect h, Lib_loop_stop h, Lib_loop_start h} \<or> (\<exists>a b d. c = Lib_connect h a b d) \<or> (\<exists>t q. c = Lib_subscribe h t q) \<or>
      (\<exists>t p q r. c = Lib_publish h t p q r)"
  shows "lib_at (call_lib c w) (Suc n) hs"
  using assms by (auto simp: lib_at_def call_lib_def lib_state_snoc)

lemma lib_destroy_at: "lib_at w (Suc n) hs \<Longrightarrow> h \<in> set hs \<Longrightarrow> lib_at (call_lib (Lib_destroy h) w) (Suc n) (remove1 h hs)"
  by (auto simp: lib_at_def call_lib_def lib_state_snoc dest: notin_set_remove1)

lemma mqtt_destroy_at:
  assumes "lib_at w (Suc n) hs" and "mc_mosq c \<in> set hs" and "n = 0 \<Longrightarrow> remove1 (mc_mosq c) hs = []"
  shows "lib_at (mqtt_destroy c w) n (remove1 (mc_mosq c) hs)"
proof -
  have "lib_at (call_lib (Lib_loop_stop (mc_mosq c)) (call_lib (Lib_disconnect (mc_mosq c)) w)) (Suc n) hs"
    using assms(1,2) by (intro lib_use_at [where h = "mc_mosq c"]) auto
  from libCleanup_at [OF lib_destroy_at [OF this assms(2)] assms(3)] show ?thesis by (simp add: mqtt_destroy_def)
qed

text \<open>A client that can be handed out: running, with its handler and the command subscription.\<close>

definition client_ready :: "'h mqtt_client \<Rightarrow> bool" where
  "client_ready c \<longleftrightarrow> mc_started c \<and> mc_handler c \<noteq> None \<and> mc_subs c = [(''gateway/cmd/#'', 1)]"

lemma construct_at:
  assumes "lib_at w n hs" and "length hs = n" and "mqtt_construct new_ok rc strerror cid host port keepalive w = (r, w')"
  shows "case r of Inl e \<Rightarrow> lib_at w' n hs
    | Inr c \<Rightarrow> c = \<lparr>mc_mosq = lib_next w, mc_started = False, mc_handler = None, mc_subs = []\<rparr> \<and> lib_at w' (Suc n) (mc_mosq c # hs)"
proof -
  note init = libInit_at [OF assms(1)]
  have nxt: "lib_next (libInit w) = lib_next w" by (simp add: libInit_def call_lib_def Let_def)
  show ?thesis
  proof (cases new_ok)
    case False
    with assms(3) libCleanup_at [OF init] assms(2) show ?thesis by (auto simp: mqtt_construct_def Let_def)
  next
    case True
    let ?w = "call_lib (Lib_new (lib_next w) cid) ((libInit w)\<lparr>lib_next := Suc (lib_next w)\<rparr>)"
    let ?v = "call_lib (Lib_connect (lib_next w) host port keepalive) ?w"
    from lib_new_at [OF init] nxt have new: "lib_at ?w (Suc n) (lib_next w # hs)" by simp
    then have con: "lib_at ?v (Suc n) (lib_next w # hs)" by (rule lib_use_at [where h = "lib_next w"]) auto
    from lib_destroy_at [OF con, of "lib_next w"] have "lib_at (call_lib (Lib_destroy (lib_next w)) ?v) (Suc n) hs" by simp
    from libCleanup_at [OF this] assms(2) have "lib_at (libCleanup (call_lib (Lib_destroy (lib_next w)) ?v)) n hs" by auto
    with con assms(3) True nxt show ?thesis by (auto simp: mqtt_construct_def Let_def split: if_splits)
  qed
qed

lemma create_at:
  assumes "lib_at w n hs" and "length hs = n" and "createMqttClient ans handler host port keepalive w = (r, w')"
  shows "case r of Inl e \<Rightarrow> lib_at w' n hs | Inr c \<Rightarrow> client_ready c \<and> lib_at w' (Suc n) (mc_mosq c # hs)"
proof -
  obtain r1 w1 where r1: "mqtt_construct (ma_new_ok ans) (ma_connect_rc ans) (ma_strerror ans) ''gateway-main'' host port keepalive w = (r1 :: string + 'a mqtt_client, w1)" by fastforce
  note c1 = construct_at [OF assms(1,2) r1]
  show ?thesis
  proof (cases r1)
    case (Inl e)
    with c1 r1 assms(3) show ?thesis by (simp add: createMqttClient_def) auto
  next
    case (Inr c0)
    with c1 have c0: "c0 = \<lparr>mc_mosq = lib_next w, mc_started = False, mc_handler = None, mc_subs = []\<rparr>"
      and at: "lib_at w1 (Suc n) (lib_next w # hs)" by auto
    let ?c = "\<lparr>mc_mosq = lib_next w, mc_started = True, mc_handler = Some handler, mc_subs = [(''gateway/cmd/#'', 1)]\<rparr>"
    let ?w = "call_lib (Lib_loop_start (lib_next w)) w1"
    from at have at': "lib_at ?w (Suc n) (lib_next w # hs)" by (intro lib_use_at [where h = "lib_next w"]) auto
    have "createMqttClient ans handler host port keepalive w =
        (if ma_start_rc ans = 0 then (Inr ?c, ?w) else (Inl ''mqtt loop start failed'', mqtt_destroy ?c ?w))"
      by (simp add: createMqttClient_def r1 Inr c0 setMessageHandler_def subscribe_def requireNotStarted_def loopStart_def Let_def)
    moreover have "lib_at (mqtt_destroy ?c ?w) n hs"
      using mqtt_destroy_at [OF at', of ?c] assms(2) by auto
    ultimately show ?thesis using assms(3) at' by (auto simp: client_ready_def split: if_splits)
  qed
qed

lemma onConnect_at:
  assumes "lib_at w (Suc n) hs" and "mc_mosq c \<in> set hs"
  shows "lib_at (onConnect rc c w) (Suc n) hs"
proof -
  have "lib_at (fold (\<lambda>(topic, qos). call_lib (Lib_subscribe (mc_mosq c) topic qos)) subs w) (Suc n) hs" for subs
    using assms(1)
  proof (induction subs arbitrary: w)
    case (Cons s subs)
    obtain t q where s: "s = (t, q)" by fastforce
    have "lib_at (call_lib (Lib_subscribe (mc_mosq c) t q) w) (Suc n) hs"
      using Cons.prems assms(2) by (intro lib_use_at [where h = "mc_mosq c"]) auto
    from Cons.IH [OF this] s show ?case by simp
  qed simp
  with assms(1) show ?thesis by (simp add: onConnect_def)
qed

lemma mqtt_states_at:
  "mqtt_states w cs \<Longrightarrow> lib_at w (length cs) (map mc_mosq cs) \<and> (\<forall>c\<in>set cs. client_ready c)"
proof (induction rule: mqtt_states.induct)
  case mqtt_none
  show ?case by (simp add: lib_at_def lib_state_def)
next
  case (mqtt_created w cs ans handler host port keepalive c w')
  with create_at [OF _ _ mqtt_created.hyps(2)] show ?case by fastforce
next
  case (mqtt_not_created w cs ans handler host port keepalive e w')
  with create_at [OF _ _ mqtt_not_created.hyps(2)] show ?case by fastforce
next
  case (mqtt_destroyed w cs c)
  then obtain n where n: "length cs = Suc n" by (cases cs) auto
  have d: "distinct (map mc_mosq cs)" using mqtt_destroyed by (simp add: lib_at_def)
  have r: "remove1 (mc_mosq c) (map mc_mosq cs) = map mc_mosq (remove1 c cs)"
    using d mqtt_destroyed.hyps(2) by (induction cs) (auto simp: image_iff)
  have l: "length (remove1 c cs) = n" using n mqtt_destroyed.hyps(2) by (simp add: length_remove1)
  with mqtt_destroy_at [of w n "map mc_mosq cs" c] mqtt_destroyed n r show ?case by (auto dest: notin_set_remove1)
next
  case (mqtt_connected w cs c rc)
  then obtain n where n: "length cs = Suc n" by (cases cs) auto
  with mqtt_connected onConnect_at [of w n "map mc_mosq cs" c rc] show ?case by simp
next
  case (mqtt_published w cs c topic payload qos retain)
  then obtain n where n: "length cs = Suc n" by (cases cs) auto
  with mqtt_published lib_use_at [of w n "map mc_mosq cs" "mc_mosq c" "Lib_publish (mc_mosq c) topic payload qos retain"] show ?case
    by (simp add: mqtt_publish_def)
qed

text \<open>
  libmosquitto is used as documented however clients are created, fail, are replaced and destroyed: it is initialised exactly
  while there is a client, every call is on a handle that exists, and there is exactly one handle per client; and every
  client in use is started with its handler and resubscribes to the commands each time the broker accepts the connection.
\<close>

theorem mqtt_library_used_as_documented:
  assumes "mqtt_states w cs"
  shows "lib_state (lib_calls w) = Some (cs \<noteq> [], map mc_mosq cs) \<and> lib_refcount w = int (length cs) \<and> distinct (map mc_mosq cs) \<and>
    (\<forall>c\<in>set cs. lib_calls (onConnect 0 c w) = lib_calls w @ [Lib_subscribe (mc_mosq c) ''gateway/cmd/#'' 1])"
proof -
  from mqtt_states_at [OF assms] have at: "lib_at w (length cs) (map mc_mosq cs)" and ready: "\<forall>c\<in>set cs. client_ready c" by blast+
  from ready have "\<forall>c\<in>set cs. lib_calls (onConnect 0 c w) = lib_calls w @ [Lib_subscribe (mc_mosq c) ''gateway/cmd/#'' 1]"
    by (simp add: onConnect_def client_ready_def call_lib_def)
  with at show ?thesis by (auto simp: lib_at_def)
qed

text \<open>
  Replacing the client never leaves the gateway without one: when the new client cannot be created, connected or started, the
  previous one stays in use and still has its handle, and when it can, the previous one is destroyed after it.
\<close>

theorem mqtt_reload_keeps_a_client:
  assumes "mqtt_states w [old]" and "reloadMqtt ans handler host port keepalive (Some old) w = (ok, client, w')"
  shows "(ok \<longleftrightarrow> ma_new_ok ans \<and> ma_connect_rc ans = 0 \<and> ma_start_rc ans = 0) \<and>
    (\<exists>c. client = Some c \<and> (\<not> ok \<longrightarrow> c = old) \<and> mqtt_states w' [c])"
proof -
  obtain r w1 where r: "createMqttClient ans handler host port keepalive w = (r, w1)" by fastforce
  have "(\<exists>c. r = Inr c) \<longleftrightarrow> ma_new_ok ans \<and> ma_connect_rc ans = 0 \<and> ma_start_rc ans = 0"
    using r by (auto simp: createMqttClient_def mqtt_construct_def setMessageHandler_def subscribe_def requireNotStarted_def loopStart_def Let_def
      split: if_splits)
  moreover have "ok \<longleftrightarrow> (\<exists>c. r = Inr c)" using assms(2) r by (auto simp: reloadMqtt_def split: sum.splits)
  moreover have "\<exists>c. client = Some c \<and> (\<not> ok \<longrightarrow> c = old) \<and> mqtt_states w' [c]"
  proof (cases r)
    case (Inl e)
    with assms r mqtt_not_created show ?thesis by (fastforce simp: reloadMqtt_def)
  next
    case (Inr c)
    from mqtt_created [OF assms(1)] r Inr have st: "mqtt_states w1 [c, old]" by simp
    from mqtt_states_at [OF this] have "c \<noteq> old" by (auto simp: lib_at_def)
    with mqtt_destroyed [OF st, of old] have "mqtt_states (mqtt_destroy old w1) [c]" by simp
    with assms(2) r Inr show ?thesis by (auto simp: reloadMqtt_def)
  qed
  ultimately show ?thesis by blast
qed

definition example_mqtt :: "(string + nat mqtt_client) \<times> mqtt_lib" where
  "example_mqtt = createMqttClient \<lparr>ma_new_ok = True, ma_connect_rc = 0, ma_strerror = (\<lambda>_. []), ma_start_rc = 0\<rparr> 7 ''broker'' 1883 60
     \<lparr>lib_refcount = 0, lib_next = 0, lib_calls = []\<rparr>"

lemma example_mqtt_state: "mqtt_states (snd example_mqtt) [projr (fst example_mqtt)]"
proof -
  have "\<not> isl (fst example_mqtt)" by code_simp
  then have "example_mqtt = (Inr (projr (fst example_mqtt)), snd example_mqtt)" by (cases example_mqtt) auto
  with mqtt_created [OF mqtt_none] show ?thesis unfolding example_mqtt_def by metis
qed

theorem mqtt_library_used_as_documented_witness: "lib_state (lib_calls (snd example_mqtt)) = Some (True, [0])"
proof -
  have "map mc_mosq [projr (fst example_mqtt)] = [0]" by code_simp
  with mqtt_library_used_as_documented [OF example_mqtt_state] show ?thesis by simp
qed

theorem mqtt_reload_keeps_a_client_witness:
  "\<exists>w'. reloadMqtt \<lparr>ma_new_ok = True, ma_connect_rc = 5, ma_strerror = (\<lambda>_. []), ma_start_rc = 0\<rparr> 8 ''other'' 1883 60 (Some (projr (fst example_mqtt))) (snd example_mqtt) =
    (False, Some (projr (fst example_mqtt)), w')"
proof -
  obtain ok client w' where r: "reloadMqtt \<lparr>ma_new_ok = True, ma_connect_rc = 5, ma_strerror = (\<lambda>_. []), ma_start_rc = 0\<rparr> 8 ''other'' 1883 60
      (Some (projr (fst example_mqtt))) (snd example_mqtt) = (ok, client, w')" by (metis prod_cases3)
  from mqtt_reload_keeps_a_client [OF example_mqtt_state r] r show ?thesis by auto
qed

end
