(* ===== verification/Management_Worker.thy ===== *)
theory Management_Worker
  imports Database Mqtt_Client Config Gateway_Core
begin

text \<open>
  The management worker of \<^verbatim>\<open>GatewayApp.cpp\<close>: one thread executes, in order, the start of MQTT, the publications of
  the application core and the reloads of the configuration. The worker is a machine with a program point per wait or
  per moment where another thread's action matters: between tasks, before a task runs, and after a reload has read
  the file. Databases and links are known by their names; a writer's turn that ends a database change runs the
  callback that gives the readers the new database. Log messages are left out.
\<close>

subsection \<open>State\<close>

datatype manage_task = Task_init Config | Task_publish string string int "nat option" | Task_reload

datatype manage_pc = Mp_idle | Mp_running manage_task | Mp_applying ReloadResult Config | Mp_exited

record manage_state =
  ms_worker :: "manage_task TaskExecutor"
  ms_pc :: manage_pc
  ms_client :: "unit mqtt_client option"
  ms_lib :: mqtt_lib
  ms_config :: ConfigManager
  ms_log_level :: int
  ms_reload_pending :: bool
  ms_stopping :: bool
  ms_pipeline :: "(string, string) pipeline"
  ms_read_db :: string
  ms_replacements :: "(string \<times> int) ThreadSafeQueue"
  ms_file :: "string option"

text \<open>
  What can be seen: accepted publications, publications carried out (with the handle, if there is a client), completion
  callbacks, and for reloads the requests, early or after the file was read, and the reading of the file.
\<close>

datatype manage_event =
    Pub_accepted string string int "nat option"
  | Pub_handled string string int "nat option" "nat option"
  | Pub_done nat
  | Reload_requested | Reload_late | Config_read
  | Init_result bool

text \<open>The answers of the outside world to a reload: errors of opening the two databases, waiting time, broker, serial device.\<close>

record reload_answers =
  ra_write :: "db_error option"
  ra_read :: "db_error option"
  ra_expired :: bool
  ra_mqtt :: mqtt_answers
  ra_serial_ok :: bool

subsection \<open>Calls from other threads\<close>

definition app_publish ::
    "string \<Rightarrow> string \<Rightarrow> int \<Rightarrow> nat option \<Rightarrow> manage_state \<Rightarrow> bool \<times> manage_event list \<times> manage_state" where
  "app_publish topic payload qos fin s =
    (let completion = (fin \<noteq> None)
     in case post (Task_publish topic payload qos fin) completion (ms_worker s) of
          (accepted, e) \<Rightarrow> (accepted, if accepted then [Pub_accepted topic payload qos fin] else [], s\<lparr>ms_worker := e\<rparr>))"

definition is_applying :: "manage_pc \<Rightarrow> bool" where
  "is_applying pc = (case pc of Mp_applying _ _ \<Rightarrow> True | _ \<Rightarrow> False)"

definition requestReload :: "manage_state \<Rightarrow> manage_state" where
  "requestReload s =
    (if ms_stopping s \<or> ms_reload_pending s then s
     else
       let s = s\<lparr>ms_reload_pending := True\<rparr>
       in case post Task_reload True (ms_worker s) of
            (accepted, e) \<Rightarrow>
              let s = s\<lparr>ms_worker := e\<rparr> in if \<not> accepted then s\<lparr>ms_reload_pending := False\<rparr> else s)"

text \<open>The message handler installed in the client: \<open>accepted\<close> is the answer of the core's admission.\<close>

definition mqtt_handler :: "bool \<Rightarrow> bool \<Rightarrow> unit mqtt_client \<Rightarrow> mqtt_lib \<Rightarrow> mqtt_lib" where
  "mqtt_handler stopping accepted owner w =
    (if stopping then w
     else if \<not> accepted then mqtt_publish ''gateway/ack/rejected'' ''gateway_busy'' 1 False owner w
     else w)"

subsection \<open>Reloading\<close>

text \<open>\<open>None\<close> while \<^verbatim>\<open>swapDatabase\<close> waits for room in the queue. The reader of a database has the name of the database.\<close>

definition reloadDatabase :: "reload_answers \<Rightarrow> Config \<Rightarrow> (string, string) pipeline \<Rightarrow> (bool \<times> (string, string) pipeline) option" where
  "reloadDatabase ans config p =
    (if ra_write ans \<noteq> None then Some (False, p)
     else if ra_read ans \<noteq> None then Some (False, p)
     else
       let new_path = db_path config
       in case swapDatabase (ra_expired ans) new_path (Some new_path) p of
            None \<Rightarrow> None
          | Some (ok, evs, p') \<Rightarrow> Some (ok, p'))"

definition reloadSerial :: "reload_answers \<Rightarrow> Config \<Rightarrow> (string \<times> int) ThreadSafeQueue \<Rightarrow> bool \<times> (string \<times> int) ThreadSafeQueue" where
  "reloadSerial ans config q =
    (if \<not> ra_serial_ok ans then (False, q) else try_push (serial_path config, serial_baud config) q)"

text \<open>\<^verbatim>\<open>reloadConfig\<close> up to the point where the resources are applied: the next program point.\<close>

definition reload_read :: "manage_state \<Rightarrow> manage_state" where
  "reload_read s =
    (case reload (ms_file s) (ms_config s) of
       (changes, m) \<Rightarrow>
         let s = s\<lparr>ms_config := m\<rparr>
         in if \<not> rl_ok changes then s\<lparr>ms_reload_pending := False, ms_pc := Mp_idle\<rparr>
            else case cm_current m of
                   None \<Rightarrow> s\<lparr>ms_reload_pending := False, ms_pc := Mp_idle\<rparr>
                 | Some config \<Rightarrow> s\<lparr>ms_log_level := log_level config, ms_pc := Mp_applying changes config\<rparr>)"

text \<open>The rest of \<^verbatim>\<open>reloadConfig\<close>: the three resources, each independent of the failure of another.\<close>

definition reload_apply :: "reload_answers \<Rightarrow> ReloadResult \<Rightarrow> Config \<Rightarrow> manage_state \<Rightarrow> (bool \<times> manage_state) option" where
  "reload_apply ans changes config s =
    (case (if db_swap_required changes then reloadDatabase ans config (ms_pipeline s) else Some (True, ms_pipeline s)) of
       None \<Rightarrow> None
     | Some (db_ok, p) \<Rightarrow>
         let s = s\<lparr>ms_pipeline := p\<rparr>;
             (mqtt_ok, s) =
               (if mqtt_rebuild_required changes then
                  case reloadMqtt (ra_mqtt ans) () (mqtt_host config) (mqtt_port config) (mqtt_keepalive config) (ms_client s) (ms_lib s) of
                    (ok, client, w) \<Rightarrow> (ok, s\<lparr>ms_client := client, ms_lib := w\<rparr>)
                else (True, s));
             (serial_ok, s) =
               (if serial_rebuild_required changes then
                  case reloadSerial ans config (ms_replacements s) of (ok, q) \<Rightarrow> (ok, s\<lparr>ms_replacements := q\<rparr>)
                else (True, s))
         in Some (db_ok \<and> mqtt_ok \<and> serial_ok, s))"

subsection \<open>The worker\<close>

definition worker_take :: "manage_state \<Rightarrow> manage_state option" where
  "worker_take s =
    (case take_task (ms_worker s) of
       None \<Rightarrow> None
     | Some (None, e) \<Rightarrow> Some (s\<lparr>ms_worker := e, ms_pc := Mp_exited\<rparr>)
     | Some (Some task, e) \<Rightarrow> Some (s\<lparr>ms_worker := e, ms_pc := Mp_running task\<rparr>))"

definition run_init :: "reload_answers \<Rightarrow> Config \<Rightarrow> manage_state \<Rightarrow> manage_event list \<times> manage_state" where
  "run_init ans config s =
    (case createMqttClient (ra_mqtt ans) () (mqtt_host config) (mqtt_port config) (mqtt_keepalive config) (ms_lib s) of
       (Inl e, w) \<Rightarrow> ([Init_result False], s\<lparr>ms_lib := w, ms_pc := Mp_idle\<rparr>)
     | (Inr c, w) \<Rightarrow>
         ([Init_result True],
          s\<lparr>ms_client := Some c, ms_lib := (case ms_client s of None \<Rightarrow> w | Some old \<Rightarrow> mqtt_destroy old w), ms_pc := Mp_idle\<rparr>))"

definition run_publish :: "string \<Rightarrow> string \<Rightarrow> int \<Rightarrow> nat option \<Rightarrow> manage_state \<Rightarrow> manage_event list \<times> manage_state" where
  "run_publish topic payload qos fin s =
    (Pub_handled topic payload qos fin (map_option mc_mosq (ms_client s)) #
       (case fin of None \<Rightarrow> [] | Some n \<Rightarrow> [Pub_done n]),
     s\<lparr>ms_lib := (case ms_client s of None \<Rightarrow> ms_lib s | Some c \<Rightarrow> mqtt_publish topic payload qos False c (ms_lib s)),
       ms_pc := Mp_idle\<rparr>)"

definition worker_run :: "reload_answers \<Rightarrow> manage_state \<Rightarrow> (manage_event list \<times> manage_state) option" where
  "worker_run ans s =
    (case ms_pc s of
       Mp_running (Task_init config) \<Rightarrow> Some (run_init ans config s)
     | Mp_running (Task_publish topic payload qos fin) \<Rightarrow> Some (run_publish topic payload qos fin s)
     | Mp_running Task_reload \<Rightarrow>
         if ms_stopping s then Some ([], s\<lparr>ms_reload_pending := False, ms_pc := Mp_idle\<rparr>)
         else Some ([Config_read], reload_read s)
     | Mp_applying changes config \<Rightarrow>
         map_option (\<lambda>(ok, s). ([], s\<lparr>ms_reload_pending := False, ms_pc := Mp_idle\<rparr>)) (reload_apply ans changes config s)
     | _ \<Rightarrow> None)"

subsection \<open>Start, interleavings, end\<close>

text \<open>The executor of the worker: 1024 ordinary places and a reserve for the ends of commands and for reloads.\<close>

definition management_worker :: "manage_task TaskExecutor" where
  "management_worker = new_executor 1024 (nat kMaxCommands + 16)"

text \<open>\<^verbatim>\<open>run\<close> posts the start of MQTT before anything else can be posted.\<close>

definition new_manage :: "ConfigManager \<Rightarrow> Config \<Rightarrow> string option \<Rightarrow> manage_state" where
  "new_manage m config file =
    \<lparr>ms_worker = snd (post (Task_init config) False management_worker), ms_pc = Mp_idle, ms_client = None,
     ms_lib = \<lparr>lib_refcount = 0, lib_next = 0, lib_calls = []\<rparr>, ms_config = m, ms_log_level = log_level config,
     ms_reload_pending = False, ms_stopping = False, ms_pipeline = new_pipeline (db_path config),
     ms_read_db = db_path config, ms_replacements = new_queue 8, ms_file = file\<rparr>"

fun applied_db :: "(string, string) pipe_event list \<Rightarrow> string \<Rightarrow> string" where
  "applied_db [] db = db"
| "applied_db (Applied n # evs) db = applied_db evs n"
| "applied_db (_ # evs) db = applied_db evs db"

fun completion_task :: "manage_task \<Rightarrow> bool" where
  "completion_task (Task_publish _ _ _ fin) = (fin \<noteq> None)"
| "completion_task Task_reload = True"
| "completion_task (Task_init _) = False"

text \<open>The ends of commands that were accepted for publication and whose callback has not run.\<close>

definition commands_waiting :: "manage_state \<Rightarrow> nat" where
  "commands_waiting s =
    length (filter (\<lambda>t. completion_task t \<and> t \<noteq> Task_reload)
      ((case ms_pc s of Mp_running t \<Rightarrow> [t] | _ \<Rightarrow> []) @ te_tasks (ms_worker s)))"

text \<open>
  The steps of all threads. The end of a command is published only for an admitted command, of which there are at most
  512 until their callbacks have run.
\<close>

inductive manage_step :: "manage_state \<Rightarrow> manage_event list \<Rightarrow> manage_state \<Rightarrow> bool" where
  manage_publish: "\<lbrakk>app_publish topic payload qos fin s = (ok, evs, s'); fin \<noteq> None \<longrightarrow> commands_waiting s < nat kMaxCommands\<rbrakk> \<Longrightarrow>
    manage_step s evs s'"
| manage_request: "manage_step s [if is_applying (ms_pc s) then Reload_late else Reload_requested] (requestReload s)"
| manage_take: "\<lbrakk>ms_pc s = Mp_idle; worker_take s = Some s'\<rbrakk> \<Longrightarrow> manage_step s [] s'"
| manage_run: "worker_run ans s = Some (evs, s') \<Longrightarrow> manage_step s evs s'"
| manage_edit: "manage_step s [] (s\<lparr>ms_file := file\<rparr>)"
| manage_stopping: "manage_step s [] (s\<lparr>ms_stopping := True\<rparr>)"
| manage_close: "ms_stopping s \<Longrightarrow> manage_step s [] (s\<lparr>ms_worker := close_executor (ms_worker s)\<rparr>)"
| manage_connected: "ms_client s = Some c \<Longrightarrow> manage_step s [] (s\<lparr>ms_lib := onConnect rc c (ms_lib s)\<rparr>)"
| manage_message: "ms_client s = Some c \<Longrightarrow> manage_step s [] (s\<lparr>ms_lib := mqtt_handler (ms_stopping s) accepted c (ms_lib s)\<rparr>)"
| manage_telemetry: "pipeline_submit readings ts (ms_pipeline s) = (ok, evs, p) \<Longrightarrow> manage_step s [] (s\<lparr>ms_pipeline := p\<rparr>)"
| manage_writer: "writer_turn (ms_pipeline s) = Some (evs, p) \<Longrightarrow>
    manage_step s [] (s\<lparr>ms_pipeline := p, ms_read_db := applied_db evs (ms_read_db s)\<rparr>)"
| manage_replaced: "try_pop (ms_replacements s) = (link, q) \<Longrightarrow> manage_step s [] (s\<lparr>ms_replacements := q\<rparr>)"

subsection \<open>Invariant\<close>

definition running_tasks :: "manage_state \<Rightarrow> manage_task list" where
  "running_tasks s = (case ms_pc s of Mp_running t \<Rightarrow> [t] | Mp_applying _ _ \<Rightarrow> [Task_reload] | _ \<Rightarrow> [])"

text \<open>The work accepted and not finished, the task in progress first.\<close>

definition waiting_tasks :: "manage_state \<Rightarrow> manage_task list" where
  "waiting_tasks s = running_tasks s @ te_tasks (ms_worker s)"

fun task_pubs :: "manage_task list \<Rightarrow> (string \<times> string \<times> int \<times> nat option) list" where
  "task_pubs [] = []"
| "task_pubs (Task_publish t p q fin # ts) = (t, p, q, fin) # task_pubs ts"
| "task_pubs (_ # ts) = task_pubs ts"

fun accepted_pubs :: "manage_event list \<Rightarrow> (string \<times> string \<times> int \<times> nat option) list" where
  "accepted_pubs [] = []"
| "accepted_pubs (Pub_accepted t p q fin # evs) = (t, p, q, fin) # accepted_pubs evs"
| "accepted_pubs (_ # evs) = accepted_pubs evs"

fun handled_pubs :: "manage_event list \<Rightarrow> (string \<times> string \<times> int \<times> nat option) list" where
  "handled_pubs [] = []"
| "handled_pubs (Pub_handled t p q fin h # evs) = (t, p, q, fin) # handled_pubs evs"
| "handled_pubs (_ # evs) = handled_pubs evs"

fun done_calls :: "manage_event list \<Rightarrow> nat list" where
  "done_calls [] = []"
| "done_calls (Pub_done n # evs) = n # done_calls evs"
| "done_calls (_ # evs) = done_calls evs"

definition pub_ends :: "(string \<times> string \<times> int \<times> nat option) list \<Rightarrow> nat list" where
  "pub_ends pubs = concat (map (\<lambda>(t, p, q, fin). case fin of None \<Rightarrow> [] | Some n \<Rightarrow> [n]) pubs)"

text \<open>A request was made after the file was last read, and before a reload had read it.\<close>

definition reload_owed :: "manage_event list \<Rightarrow> bool" where
  "reload_owed evs \<longleftrightarrow> (\<exists>xs ys. evs = xs @ Reload_requested # ys \<and> Config_read \<notin> set ys)"

definition paired_job :: "(string, string) Job \<Rightarrow> bool" where
  "paired_job j = (case j of Batch _ \<Rightarrow> True | SwapDb db n \<Rightarrow> n = Some db)"

definition pubs_ok :: "manage_event list \<Rightarrow> manage_state \<Rightarrow> bool" where
  "pubs_ok evs s \<longleftrightarrow> accepted_pubs evs = handled_pubs evs @ task_pubs (waiting_tasks s) \<and>
    done_calls evs = pub_ends (handled_pubs evs)"

definition room_ok :: "manage_state \<Rightarrow> bool" where
  "room_ok s \<longleftrightarrow> te_capacity (ms_worker s) = 1024 \<and> te_reserve (ms_worker s) = nat kMaxCommands + 16 \<and>
    length (te_tasks (ms_worker s)) \<le> 1024 + length (filter completion_task (te_tasks (ms_worker s))) \<and>
    commands_waiting s \<le> nat kMaxCommands \<and>
    (te_closed (ms_worker s) \<longrightarrow> ms_stopping s)"

definition reload_ok :: "manage_event list \<Rightarrow> manage_state \<Rightarrow> bool" where
  "reload_ok evs s \<longleftrightarrow>
    count_list (waiting_tasks s) Task_reload = (if ms_reload_pending s then 1 else 0) \<and>
    (reload_owed evs \<and> \<not> ms_stopping s \<longrightarrow> ms_reload_pending s \<and> \<not> is_applying (ms_pc s))"

definition reader_ok :: "manage_state \<Rightarrow> bool" where
  "reader_ok s \<longleftrightarrow> ms_read_db s = pl_db (ms_pipeline s) \<and> (\<forall>j\<in>set (tsq_queue (pl_queue (ms_pipeline s))). paired_job j)"

definition client_list :: "manage_state \<Rightarrow> unit mqtt_client list" where
  "client_list s = (case ms_client s of None \<Rightarrow> [] | Some c \<Rightarrow> [c])"


subsection \<open>Lemmas\<close>

lemma pub_ends_simps [simp]:
  "pub_ends [] = []" "pub_ends ((t, p, q, fin) # ps) = (case fin of None \<Rightarrow> [] | Some n \<Rightarrow> [n]) @ pub_ends ps"
  by (simp_all add: pub_ends_def)

lemma event_lists_append [simp]:
  "accepted_pubs (evs @ evs') = accepted_pubs evs @ accepted_pubs evs'"
  "handled_pubs (evs @ evs') = handled_pubs evs @ handled_pubs evs'"
  "done_calls (evs @ evs') = done_calls evs @ done_calls evs'"
  "task_pubs (ts @ ts') = task_pubs ts @ task_pubs ts'"
  "pub_ends (ps @ ps') = pub_ends ps @ pub_ends ps'"
proof -
  show "accepted_pubs (evs @ evs') = accepted_pubs evs @ accepted_pubs evs'" by (induction evs rule: accepted_pubs.induct) simp_all
  show "handled_pubs (evs @ evs') = handled_pubs evs @ handled_pubs evs'" by (induction evs rule: handled_pubs.induct) simp_all
  show "done_calls (evs @ evs') = done_calls evs @ done_calls evs'" by (induction evs rule: done_calls.induct) simp_all
  show "task_pubs (ts @ ts') = task_pubs ts @ task_pubs ts'" by (induction ts rule: task_pubs.induct) simp_all
qed (simp add: pub_ends_def)

text \<open>What running a task does, by cases.\<close>

lemma reload_apply_effect:
  assumes "reload_apply ans changes config s = Some (ok, s')"
  obtains p client w q where "s' = s\<lparr>ms_pipeline := p, ms_client := client, ms_lib := w, ms_replacements := q\<rparr>"
    and "p = ms_pipeline s \<or> (\<exists>ok evs. swapDatabase (ra_expired ans) (db_path config) (Some (db_path config)) (ms_pipeline s) = Some (ok, evs, p))"
    and "client = ms_client s \<and> w = ms_lib s \<or>
      (\<exists>ok. reloadMqtt (ra_mqtt ans) () (mqtt_host config) (mqtt_port config) (mqtt_keepalive config) (ms_client s) (ms_lib s) = (ok, client, w))"
proof -
  obtain dbok p where d: "(if db_swap_required changes then reloadDatabase ans config (ms_pipeline s) else Some (True, ms_pipeline s)) = Some (dbok, p)"
    using assms by (auto simp: reload_apply_def split: option.splits)
  obtain mok client w where m: "(if mqtt_rebuild_required changes then
      reloadMqtt (ra_mqtt ans) () (mqtt_host config) (mqtt_port config) (mqtt_keepalive config) (ms_client s) (ms_lib s)
      else (True, ms_client s, ms_lib s)) = (mok, client, w)" by (metis surj_pair)
  obtain sok q where q: "(if serial_rebuild_required changes then reloadSerial ans config (ms_replacements s) else (True, ms_replacements s)) = (sok, q)"
    by fastforce
  let ?s1 = "s\<lparr>ms_pipeline := p\<rparr>" let ?s2 = "?s1\<lparr>ms_client := client, ms_lib := w\<rparr>"
  have m': "(if mqtt_rebuild_required changes then
      case reloadMqtt (ra_mqtt ans) () (mqtt_host config) (mqtt_port config) (mqtt_keepalive config) (ms_client ?s1) (ms_lib ?s1) of
        (ok, client, w) \<Rightarrow> (ok, ?s1\<lparr>ms_client := client, ms_lib := w\<rparr>)
      else (True, ?s1)) = (mok, ?s2)"
    using m by (cases "mqtt_rebuild_required changes"; cases s) simp_all
  have q': "(if serial_rebuild_required changes then
      case reloadSerial ans config (ms_replacements ?s2) of (ok, q) \<Rightarrow> (ok, ?s2\<lparr>ms_replacements := q\<rparr>)
      else (True, ?s2)) = (sok, ?s2\<lparr>ms_replacements := q\<rparr>)"
    using q by (cases "serial_rebuild_required changes"; cases s) simp_all
  have "s' = s\<lparr>ms_pipeline := p, ms_client := client, ms_lib := w, ms_replacements := q\<rparr>"
    using assms unfolding reload_apply_def d option.case prod.case Let_def m' q' by simp
  moreover have "p = ms_pipeline s \<or> (\<exists>ok evs. swapDatabase (ra_expired ans) (db_path config) (Some (db_path config)) (ms_pipeline s) = Some (ok, evs, p))"
    using d by (auto simp: reloadDatabase_def Let_def split: if_splits option.splits)
  moreover have "client = ms_client s \<and> w = ms_lib s \<or>
      (\<exists>ok. reloadMqtt (ra_mqtt ans) () (mqtt_host config) (mqtt_port config) (mqtt_keepalive config) (ms_client s) (ms_lib s) = (ok, client, w))"
    using m by (auto split: if_splits)
  ultimately show thesis by (rule that)
qed

lemma reload_read_cases:
  obtains (refused) m where "reload_read s = s\<lparr>ms_config := m, ms_reload_pending := False, ms_pc := Mp_idle\<rparr>"
  | (read) m changes config where "reload_read s = s\<lparr>ms_config := m, ms_log_level := log_level config, ms_pc := Mp_applying changes config\<rparr>"
proof -
  obtain changes m where m: "reload (ms_file s) (ms_config s) = (changes, m)" by fastforce
  show ?thesis
  proof (cases "rl_ok changes")
    case True
    with m read refused show ?thesis by (cases "cm_current m") (simp_all add: reload_read_def Let_def)
  next
    case False
    with m refused show ?thesis by (simp add: reload_read_def Let_def)
  qed
qed

lemma worker_run_cases:
  assumes "worker_run ans s = Some (evs, s')"
  obtains (init) config where "ms_pc s = Mp_running (Task_init config)" "(evs, s') = run_init ans config s"
  | (pub) t p q fin where "ms_pc s = Mp_running (Task_publish t p q fin)" "(evs, s') = run_publish t p q fin s"
  | (skipped) "ms_pc s = Mp_running Task_reload" "ms_stopping s" "evs = []" "s' = s\<lparr>ms_reload_pending := False, ms_pc := Mp_idle\<rparr>"
  | (refused) m where "ms_pc s = Mp_running Task_reload" "\<not> ms_stopping s" "evs = [Config_read]"
      "s' = s\<lparr>ms_config := m, ms_reload_pending := False, ms_pc := Mp_idle\<rparr>"
  | (read) m changes config where "ms_pc s = Mp_running Task_reload" "\<not> ms_stopping s" "evs = [Config_read]"
      "s' = s\<lparr>ms_config := m, ms_log_level := log_level config, ms_pc := Mp_applying changes config\<rparr>"
  | (applied) changes config ok s1 where "ms_pc s = Mp_applying changes config" "reload_apply ans changes config s = Some (ok, s1)" "evs = []"
      "s' = s1\<lparr>ms_reload_pending := False, ms_pc := Mp_idle\<rparr>"
proof (cases "ms_pc s")
  case (Mp_running t)
  show ?thesis
  proof (cases t)
    case Task_reload
    show ?thesis
    proof (cases "ms_stopping s")
      case True
      with assms Mp_running Task_reload show ?thesis by - (rule skipped, simp_all add: worker_run_def)
    next
      case False
      with assms Mp_running Task_reload have r: "evs = [Config_read]" "s' = reload_read s" by (simp_all add: worker_run_def)
      show ?thesis
      proof (cases s rule: reload_read_cases)
        case (refused m)
        with False r Mp_running Task_reload show ?thesis by - (rule that(4) [where m = m], simp_all)
      next
        case (read m changes config)
        with False r Mp_running Task_reload show ?thesis by - (rule that(5) [where m = m and config = config and changes = changes], simp_all)
      qed
    qed
  next
    case (Task_init config)
    from assms Mp_running this have "(evs, s') = run_init ans config s" by (simp add: worker_run_def)
    with Mp_running Task_init show ?thesis by - (rule init, simp_all)
  next
    case (Task_publish t p q fin)
    from assms Mp_running this have "(evs, s') = run_publish t p q fin s" by (simp add: worker_run_def)
    with Mp_running Task_publish show ?thesis by - (rule pub, simp_all)
  qed
next
  case (Mp_applying changes config)
  have "reload_apply ans changes config s \<noteq> None" using assms Mp_applying by (auto simp: worker_run_def)
  then obtain ok s1 where r: "reload_apply ans changes config s = Some (ok, s1)" by fast
  with assms Mp_applying have "evs = []" "s' = s1\<lparr>ms_reload_pending := False, ms_pc := Mp_idle\<rparr>" by (simp_all add: worker_run_def)
  from applied [OF Mp_applying r this] show ?thesis .
next
  case Mp_idle
  with assms have False by (simp add: worker_run_def)
  then show ?thesis ..
next
  case Mp_exited
  with assms have False by (simp add: worker_run_def)
  then show ?thesis ..
qed

lemma post_effect:
  assumes "post t completion e = (ok, e')"
  shows "e' = (if ok then e\<lparr>te_tasks := te_tasks e @ [t]\<rparr> else e)"
    and "ok \<longleftrightarrow> \<not> te_closed e \<and> length (te_tasks e) < te_capacity e + (if completion then te_reserve e else 0)"
  using assms by (auto simp: post_def Let_def split: if_splits)


lemma worker_take_cases:
  assumes "worker_take s = Some s'"
  obtains (task) t ts where "te_tasks (ms_worker s) = t # ts" "s' = s\<lparr>ms_worker := (ms_worker s)\<lparr>te_tasks := ts\<rparr>, ms_pc := Mp_running t\<rparr>"
  | (closed) "te_tasks (ms_worker s) = []" "te_closed (ms_worker s)" "s' = s\<lparr>ms_worker := ms_worker s, ms_pc := Mp_exited\<rparr>"
proof (cases "te_tasks (ms_worker s)")
  case Nil
  with assms have "te_closed (ms_worker s)" by (cases "te_closed (ms_worker s)") (simp_all add: worker_take_def take_task_def)
  with assms Nil closed show ?thesis by (simp add: worker_take_def take_task_def)
next
  case (Cons t ts)
  with assms task show ?thesis by (simp add: worker_take_def take_task_def)
qed

lemma requestReload_effect:
  "requestReload s = s \<or>
    (\<not> ms_stopping s \<and> \<not> ms_reload_pending s \<and>
     requestReload s = s\<lparr>ms_reload_pending := True, ms_worker := (ms_worker s)\<lparr>te_tasks := te_tasks (ms_worker s) @ [Task_reload]\<rparr>\<rparr>)"
proof (cases "ms_stopping s \<or> ms_reload_pending s")
  case False
  obtain ok e where p: "post Task_reload True (ms_worker s) = (ok, e)" by fastforce
  show ?thesis
  proof (cases ok)
    case True
    with False p post_effect(1) [OF p] show ?thesis by (simp add: requestReload_def Let_def)
  next
    case no: False
    with False p post_effect(1) [OF p] have "requestReload s = s\<lparr>ms_reload_pending := True, ms_worker := ms_worker s, ms_reload_pending := False\<rparr>"
      by (simp add: requestReload_def Let_def)
    with False show ?thesis by simp
  qed
qed (simp add: requestReload_def)

lemma app_publish_effect:
  assumes "app_publish topic payload qos fin s = (ok, evs, s')"
  shows "if ok then evs = [Pub_accepted topic payload qos fin] \<and>
      s' = s\<lparr>ms_worker := (ms_worker s)\<lparr>te_tasks := te_tasks (ms_worker s) @ [Task_publish topic payload qos fin]\<rparr>\<rparr>
    else evs = [] \<and> s' = s"
proof -
  obtain a e where p: "post (Task_publish topic payload qos fin) (fin \<noteq> None) (ms_worker s) = (a, e)" by fastforce
  with post_effect(1) [OF p] assms show ?thesis by (cases a) (simp_all add: app_publish_def Let_def)
qed

lemma run_init_effect:
  assumes "(evs, s') = run_init ans config s"
  obtains ok client w where "evs = [Init_result ok]" "s' = s\<lparr>ms_client := client, ms_lib := w, ms_pc := Mp_idle\<rparr>"
proof -
  obtain r w where c: "createMqttClient (ra_mqtt ans) () (mqtt_host config) (mqtt_port config) (mqtt_keepalive config) (ms_lib s) = (r, w)"
    by fastforce
  show ?thesis
  proof (cases r)
    case (Inl e)
    with assms c have "evs = [Init_result False]" "s' = s\<lparr>ms_client := ms_client s, ms_lib := w, ms_pc := Mp_idle\<rparr>"
      by (simp_all add: run_init_def)
    then show ?thesis by (rule that)
  next
    case (Inr d)
    with assms c have "evs = [Init_result True]"
      "s' = s\<lparr>ms_client := Some d, ms_lib := (case ms_client s of None \<Rightarrow> w | Some old \<Rightarrow> mqtt_destroy old w), ms_pc := Mp_idle\<rparr>"
      by (simp_all add: run_init_def)
    then show ?thesis by (rule that)
  qed
qed


lemmas waiting_defs = waiting_tasks_def running_tasks_def

text \<open>Steps that touch neither the worker's queue nor its program point nor the flags.\<close>

definition same_work :: "manage_state \<Rightarrow> manage_state \<Rightarrow> bool" where
  "same_work s s' \<longleftrightarrow> ms_worker s' = ms_worker s \<and> ms_pc s' = ms_pc s \<and> ms_reload_pending s' = ms_reload_pending s"

lemma same_workD:
  assumes "same_work s s'"
  shows "waiting_tasks s' = waiting_tasks s" "commands_waiting s' = commands_waiting s" "ms_worker s' = ms_worker s"
    "ms_pc s' = ms_pc s" "ms_reload_pending s' = ms_reload_pending s"
  using assms by (simp_all add: same_work_def waiting_defs commands_waiting_def)

text \<open>Running a task by its effect on the worker.\<close>

lemma worker_run_work:
  assumes "worker_run ans s = Some (evs, s')"
  obtains (init) config ok where "ms_pc s = Mp_running (Task_init config)" "evs = [Init_result ok]" "ms_pc s' = Mp_idle"
      "ms_reload_pending s' = ms_reload_pending s" "ms_worker s' = ms_worker s" "ms_stopping s' = ms_stopping s"
  | (pub) t p q fin h where "ms_pc s = Mp_running (Task_publish t p q fin)"
      "evs = Pub_handled t p q fin h # (case fin of None \<Rightarrow> [] | Some n \<Rightarrow> [Pub_done n])" "ms_pc s' = Mp_idle"
      "ms_reload_pending s' = ms_reload_pending s" "ms_worker s' = ms_worker s" "ms_stopping s' = ms_stopping s"
  | (reloaded) "running_tasks s = [Task_reload]" "ms_stopping s \<or> is_applying (ms_pc s) \<or> evs = [Config_read]" "evs = [] \<or> evs = [Config_read]"
      "ms_pc s' = Mp_idle" "\<not> ms_reload_pending s'" "ms_worker s' = ms_worker s" "ms_stopping s' = ms_stopping s"
  | (read) changes config where "ms_pc s = Mp_running Task_reload" "evs = [Config_read]" "ms_pc s' = Mp_applying changes config"
      "ms_reload_pending s' = ms_reload_pending s" "ms_worker s' = ms_worker s" "ms_stopping s' = ms_stopping s"
  using assms
proof (cases rule: worker_run_cases)
  case (init config)
  obtain ok client w where "evs = [Init_result ok]" "s' = s\<lparr>ms_client := client, ms_lib := w, ms_pc := Mp_idle\<rparr>"
    by (rule run_init_effect [OF init(2)])
  with init(1) show ?thesis by - (rule that(1), simp_all)
next
  case (pub t p q fin)
  then show ?thesis by - (rule that(2), simp_all add: run_publish_def)
next
  case skipped
  then show ?thesis by - (rule that(3), simp_all add: running_tasks_def)
next
  case (refused m)
  then show ?thesis by - (rule that(3), simp_all add: running_tasks_def)
next
  case (read m changes config)
  then show ?thesis by - (rule that(4), simp_all)
next
  case (applied changes config ok s1)
  obtain p client w q where "s1 = s\<lparr>ms_pipeline := p, ms_client := client, ms_lib := w, ms_replacements := q\<rparr>"
    by (rule reload_apply_effect [OF applied(2)])
  with applied show ?thesis by - (rule that(3), simp_all add: running_tasks_def is_applying_def)
qed

text \<open>The steps by their effect on the worker.\<close>

lemma manage_step_cases:
  assumes "manage_step s evs s'"
  obtains (publish) topic payload qos fin where
      "fin \<noteq> None \<longrightarrow> commands_waiting s < nat kMaxCommands" "evs = [Pub_accepted topic payload qos fin]"
      "fst (post (Task_publish topic payload qos fin) (fin \<noteq> None) (ms_worker s))"
      "s' = s\<lparr>ms_worker := (ms_worker s)\<lparr>te_tasks := te_tasks (ms_worker s) @ [Task_publish topic payload qos fin]\<rparr>\<rparr>"
  | (request) "evs = [if is_applying (ms_pc s) then Reload_late else Reload_requested]" "s' = requestReload s"
  | (taken) "evs = []" "ms_pc s = Mp_idle" "worker_take s = Some s'"
  | (run) ans where "worker_run ans s = Some (evs, s')"
  | (close_step) "evs = []" "ms_stopping s" "s' = s\<lparr>ms_worker := close_executor (ms_worker s)\<rparr>"
  | (other) "evs = []" "same_work s s'" "ms_stopping s' \<or> ms_stopping s' = ms_stopping s"
  using assms
proof cases
  case (manage_publish topic payload qos fin ok)
  obtain a e where p: "post (Task_publish topic payload qos fin) (fin \<noteq> None) (ms_worker s) = (a, e)" by fastforce
  with manage_publish(1) have "a = ok" by (simp add: app_publish_def Let_def)
  show ?thesis
  proof (cases ok)
    case True
    with app_publish_effect [OF manage_publish(1)] manage_publish(2) p \<open>a = ok\<close> show ?thesis by - (rule publish, simp_all)
  next
    case False
    with app_publish_effect [OF manage_publish(1)] show ?thesis by - (rule other, simp_all add: same_work_def)
  qed
next
  case manage_request
  then show ?thesis by (rule request)
next
  case manage_take
  then show ?thesis by (rule taken)
next
  case (manage_run ans)
  then show ?thesis by (rule run)
next
  case manage_close
  then show ?thesis by - (rule close_step, simp_all)
qed (rule other; simp add: same_work_def)+

lemma pubs_step:
  assumes "manage_step s evs s'" and "pubs_ok evs0 s"
  shows "pubs_ok (evs0 @ evs) s'"
  using assms(1)
proof (cases rule: manage_step_cases)
  case (publish topic payload qos fin)
  with assms(2) show ?thesis by (simp add: pubs_ok_def waiting_defs)
next
  case request
  with assms(2) requestReload_effect [of s] show ?thesis by (auto simp: pubs_ok_def waiting_defs)
next
  case taken
  from taken(3) show ?thesis
    by (cases rule: worker_take_cases) (use assms(2) taken in \<open>simp_all add: pubs_ok_def waiting_defs\<close>)
next
  case (run ans)
  then show ?thesis
    by (cases rule: worker_run_work) (use assms(2) in \<open>auto simp: pubs_ok_def waiting_defs split: option.splits\<close>)
next
  case close_step
  with assms(2) show ?thesis by (simp add: pubs_ok_def waiting_defs close_executor_def)
next
  case other
  with assms(2) same_workD [OF other(2)] show ?thesis by (simp add: pubs_ok_def)
qed

lemma count_reload_waiting:
  "commands_waiting s + count_list (te_tasks (ms_worker s)) Task_reload \<ge> length (filter completion_task (te_tasks (ms_worker s)))"
proof -
  have "length (filter completion_task ts) = length (filter (\<lambda>t. completion_task t \<and> t \<noteq> Task_reload) ts) + count_list ts Task_reload" for ts
    by (induction ts) auto
  then show ?thesis by (simp add: commands_waiting_def)
qed

lemma room_step:
  assumes "manage_step s evs s'" and "room_ok s"
  shows "room_ok s'"
  using assms(1)
proof (cases rule: manage_step_cases)
  case (publish topic payload qos fin)
  with assms(2) show ?thesis by (cases fin) (auto simp: room_ok_def commands_waiting_def post_accepted)
next
  case request
  with assms(2) requestReload_effect [of s] show ?thesis by (auto simp: room_ok_def commands_waiting_def)
next
  case taken
  from taken(3) show ?thesis
    by (cases rule: worker_take_cases) (use assms(2) taken in \<open>auto simp: room_ok_def commands_waiting_def split: if_splits\<close>)
next
  case (run ans)
  then have "ms_worker s' = ms_worker s" "ms_stopping s' = ms_stopping s" "\<forall>t. ms_pc s' \<noteq> Mp_running t"
    by (cases rule: worker_run_work; simp)+
  moreover from this have "commands_waiting s' \<le> commands_waiting s"
    by (cases "ms_pc s'") (simp_all add: commands_waiting_def)
  ultimately show ?thesis using assms(2) by (simp add: room_ok_def)
next
  case close_step
  with assms(2) show ?thesis by (simp add: room_ok_def commands_waiting_def close_executor_def)
next
  case other
  with assms(2) same_workD [OF other(2)] show ?thesis by (auto simp: room_ok_def)
qed

text \<open>With the reserve, the end of an admitted command and a reload always find room.\<close>

lemma completion_room:
  assumes "room_ok s" and "commands_waiting s + count_list (te_tasks (ms_worker s)) Task_reload < nat kMaxCommands + 16" and "\<not> te_closed (ms_worker s)"
  shows "fst (post t True (ms_worker s))"
  using assms count_reload_waiting [of s] by (simp add: post_accepted room_ok_def)

lemma reload_count_le: "reload_ok evs s \<Longrightarrow> count_list (te_tasks (ms_worker s)) Task_reload \<le> (if ms_reload_pending s then 1 else 0)"
  by (auto simp: reload_ok_def waiting_tasks_def split: if_splits)

lemma reload_owed_simps [simp]:
  "reload_owed (evs @ [Config_read]) = False" "reload_owed (evs @ [Reload_requested]) = True"
  "e \<noteq> Config_read \<Longrightarrow> e \<noteq> Reload_requested \<Longrightarrow> reload_owed (evs @ [e]) = reload_owed evs"
proof -
  have "\<not> (evs @ [Config_read] = xs @ Reload_requested # ys \<and> Config_read \<notin> set ys)" for xs ys
    by (cases ys rule: rev_cases) auto
  then show "reload_owed (evs @ [Config_read]) = False" by (auto simp: reload_owed_def)
  show "reload_owed (evs @ [Reload_requested]) = True" unfolding reload_owed_def
    by (simp, intro exI [of _ evs] exI [of _ "[]"]) simp
  assume e: "e \<noteq> Config_read" "e \<noteq> Reload_requested"
  show "reload_owed (evs @ [e]) = reload_owed evs"
  proof
    assume "reload_owed (evs @ [e])"
    then obtain xs ys where "evs @ [e] = xs @ Reload_requested # ys" "Config_read \<notin> set ys" unfolding reload_owed_def by blast
    with e show "reload_owed evs" unfolding reload_owed_def by (cases ys rule: rev_cases) auto
  next
    assume "reload_owed evs"
    then obtain xs ys where "evs = xs @ Reload_requested # ys" "Config_read \<notin> set ys" unfolding reload_owed_def by blast
    with e show "reload_owed (evs @ [e])" unfolding reload_owed_def
      by (intro exI [of _ xs] exI [of _ "ys @ [e]"]) auto
  qed
qed

lemma requestReload_pending:
  assumes "room_ok s" and "reload_ok evs s" and "\<not> ms_stopping s"
  shows "ms_reload_pending (requestReload s)"
proof (cases "ms_reload_pending s")
  case False
  have "fst (post Task_reload True (ms_worker s))"
    using assms False reload_count_le [OF assms(2)] by (intro completion_room) (auto simp: room_ok_def)
  then obtain e where "post Task_reload True (ms_worker s) = (True, e)" by (cases "post Task_reload True (ms_worker s)") auto
  with False assms(3) show ?thesis by (simp add: requestReload_def Let_def)
qed (simp add: requestReload_def)

lemma reload_step:
  assumes "manage_step s evs s'" and "room_ok s" and "reload_ok evs0 s"
  shows "reload_ok (evs0 @ evs) s'"
  using assms(1)
proof (cases rule: manage_step_cases)
  case (publish topic payload qos fin)
  with assms(3) show ?thesis by (simp add: reload_ok_def waiting_defs)
next
  case request
  have pc: "ms_pc (requestReload s) = ms_pc s" "ms_stopping (requestReload s) = ms_stopping s"
    using requestReload_effect [of s] by auto
  have "count_list (waiting_tasks s') Task_reload = (if ms_reload_pending s' then 1 else 0)"
    using requestReload_effect [of s] assms(3) request(2) by (auto simp: reload_ok_def waiting_defs)
  moreover have "ms_reload_pending s'" if "\<not> ms_stopping s"
    using requestReload_pending [OF assms(2,3) that] request(2) by simp
  ultimately show ?thesis using request assms(3) pc by (auto simp: reload_ok_def)
next
  case taken
  from taken(3) show ?thesis
    by (cases rule: worker_take_cases) (use assms(3) taken in \<open>auto simp: reload_ok_def waiting_defs is_applying_def\<close>)
next
  case (run ans)
  then show ?thesis
  proof (cases rule: worker_run_work)
    case (init config ok)
    with assms(3) show ?thesis by (auto simp: reload_ok_def waiting_defs is_applying_def)
  next
    case (pub t p q fin h)
    have "reload_owed (evs0 @ evs) = reload_owed evs0"
      using pub(2) reload_owed_simps(3) [of "Pub_done _" "evs0 @ [_]"] by (cases fin) simp_all
    with pub assms(3) show ?thesis by (auto simp: reload_ok_def waiting_defs is_applying_def)
  next
    case reloaded
    have "waiting_tasks s = Task_reload # waiting_tasks s'"
      using reloaded(1,4,6) by (simp add: waiting_tasks_def) (simp add: running_tasks_def)
    with assms(3) have "count_list (waiting_tasks s') Task_reload = 0" by (simp add: reload_ok_def split: if_splits)
    moreover have "\<not> reload_owed (evs0 @ evs)" if "\<not> ms_stopping s"
      using reloaded(2,3) assms(3) that by (auto simp: reload_ok_def)
    ultimately show ?thesis using reloaded(4,5,7) by (auto simp: reload_ok_def)
  next
    case (read changes config)
    with assms(3) show ?thesis by (auto simp: reload_ok_def waiting_defs)
  qed
next
  case close_step
  with assms(3) show ?thesis by (simp add: reload_ok_def waiting_defs close_executor_def)
next
  case other
  with assms(3) same_workD [OF other(2)] show ?thesis by (auto simp: reload_ok_def)
qed


text \<open>The readers get the database the writer writes to.\<close>

lemma applied_db_append [simp]: "applied_db (evs @ evs') db = applied_db evs' (applied_db evs db)"
  by (induction evs db rule: applied_db.induct) simp_all

lemma insert_rows_reader: "insert_rows p = (evs, p') \<Longrightarrow> applied_db evs db = db \<and> pl_db p' = pl_db p \<and> pl_queue p' = pl_queue p"
  by (auto simp: insert_rows_def split: if_splits)

lemma end_batch_reader: "end_batch p = (evs, p') \<Longrightarrow> applied_db evs db = db \<and> pl_db p' = pl_db p \<and> pl_queue p' = pl_queue p"
  by (auto simp: end_batch_eq)

lemma handle_job_reader:
  assumes "paired_job j" and "handle_job j p = (evs, p')"
  shows "applied_db evs (pl_db p) = pl_db p' \<and> pl_queue p' = pl_queue p"
proof (cases j)
  case (Batch b)
  with assms(2) show ?thesis by (auto simp: handle_job_def Let_def end_batch_eq split: if_splits)
next
  case (SwapDb db n)
  obtain evs1 p1 where i: "insert_rows p = (evs1, p1)" by fastforce
  obtain evs2 p2 where e: "end_batch (p1\<lparr>pl_db := db\<rparr>) = (evs2, p2)" by fastforce
  from SwapDb assms i e have "evs = evs1 @ [Applied db] @ evs2" "p' = p2" by (auto simp: handle_job_def paired_job_def Let_def)
  with end_batch_reader [OF e] insert_rows_reader [OF i] show ?thesis by simp
qed

lemma writer_turn_reader:
  assumes "writer_turn p = Some (evs, p')" and "\<forall>j\<in>set (tsq_queue (pl_queue p)). paired_job j"
  shows "applied_db evs (pl_db p) = pl_db p' \<and> (\<forall>j\<in>set (tsq_queue (pl_queue p')). paired_job j)"
proof (cases "tsq_queue (pl_queue p)")
  case Nil
  with assms(1) show ?thesis
    by (cases "pl_pc p") (auto simp: writer_turn_def pop_def try_pop_def not_empty_def end_batch_eq split: if_splits)
next
  case (Cons j js)
  let ?p = "p\<lparr>pl_queue := (pl_queue p)\<lparr>tsq_queue := js\<rparr>\<rparr>"
  from assms(1) Cons have "handle_job j ?p = (evs, p')"
    by (cases "pl_pc p") (auto simp: writer_turn_def pop_def try_pop_def not_empty_def)
  from handle_job_reader [OF _ this] assms(2) Cons show ?thesis by simp
qed

lemma pipeline_submit_reader:
  assumes "pipeline_submit readings ts p = (ok, evs, p')" and "\<forall>j\<in>set (tsq_queue (pl_queue p)). paired_job j"
  shows "pl_db p' = pl_db p \<and> (\<forall>j\<in>set (tsq_queue (pl_queue p')). paired_job j)"
  using assms by (auto simp: pipeline_submit_def put_job_def try_push_def Let_def paired_job_def split: if_splits)

lemma swapDatabase_reader:
  assumes "swapDatabase expired db (Some db) p = Some (ok, evs, p')" and "\<forall>j\<in>set (tsq_queue (pl_queue p)). paired_job j"
  shows "pl_db p' = pl_db p \<and> (\<forall>j\<in>set (tsq_queue (pl_queue p')). paired_job j)"
  using assms by (auto simp: swapDatabase_def put_job_def push_for_def Let_def paired_job_def split: if_splits)

lemma worker_run_reader:
  assumes "worker_run ans s = Some (evs, s')" and "reader_ok s"
  shows "reader_ok s'"
  using assms(1)
proof (cases rule: worker_run_cases)
  case (init config)
  show ?thesis by (rule run_init_effect [OF init(2)]) (use assms(2) in \<open>simp add: reader_ok_def\<close>)
next
  case (applied changes config ok s1)
  obtain p client w q where s1: "s1 = s\<lparr>ms_pipeline := p, ms_client := client, ms_lib := w, ms_replacements := q\<rparr>"
    and p: "p = ms_pipeline s \<or> (\<exists>ok evs. swapDatabase (ra_expired ans) (db_path config) (Some (db_path config)) (ms_pipeline s) = Some (ok, evs, p))"
    by (rule reload_apply_effect [OF applied(2)])
  from p have "pl_db p = pl_db (ms_pipeline s) \<and> (\<forall>j\<in>set (tsq_queue (pl_queue p)). paired_job j)"
    using swapDatabase_reader assms(2) unfolding reader_ok_def by blast
  with assms(2) applied(4) s1 show ?thesis by (simp add: reader_ok_def)
qed (use assms(2) in \<open>simp_all add: reader_ok_def run_publish_def\<close>)

lemma reader_step:
  assumes "manage_step s evs s'" and "reader_ok s"
  shows "reader_ok s'"
  using assms(1)
proof cases
  case (manage_publish topic payload qos fin ok)
  from app_publish_effect [OF manage_publish(1)] assms(2) show ?thesis by (cases ok) (simp_all add: reader_ok_def)
next
  case manage_request
  with requestReload_effect [of s] assms(2) show ?thesis by (auto simp: reader_ok_def)
next
  case manage_take
  from manage_take(3) show ?thesis by (cases rule: worker_take_cases) (use assms(2) in \<open>simp_all add: reader_ok_def\<close>)
next
  case (manage_run ans)
  from worker_run_reader [OF this assms(2)] show ?thesis .
next
  case (manage_telemetry readings ts ok evs p)
  with pipeline_submit_reader [of readings ts "ms_pipeline s" ok evs p] assms(2) show ?thesis by (simp add: reader_ok_def)
next
  case (manage_writer evs p)
  with writer_turn_reader [of "ms_pipeline s" evs p] assms(2) show ?thesis by (simp add: reader_ok_def)
qed (use assms(2) in \<open>simp_all add: reader_ok_def\<close>)


text \<open>The library is in the state of exactly the client that the worker holds.\<close>

definition mqtt_ok :: "manage_state \<Rightarrow> bool" where
  "mqtt_ok s \<longleftrightarrow> mqtt_states (ms_lib s) (client_list s)"

lemma replace_client:
  fixes client :: "'h mqtt_client option" and c :: "'h mqtt_client"
  assumes "mqtt_states w (case client of None \<Rightarrow> [] | Some c \<Rightarrow> [c])" and "createMqttClient ans h host port keepalive w = (Inr c, w')"
  shows "mqtt_states (case client of None \<Rightarrow> w' | Some old \<Rightarrow> mqtt_destroy old w') [c]"
proof (cases client)
  case None
  with assms mqtt_created [OF assms] show ?thesis by simp
next
  case (Some old)
  with mqtt_created [OF assms] have st: "mqtt_states w' [c, old]" by simp
  from mqtt_states_at [OF this] have "c \<noteq> old" by (auto simp: lib_at_def)
  with mqtt_destroyed [OF st, of old] Some show ?thesis by simp
qed

lemma reloadMqtt_states:
  fixes client client' :: "'h mqtt_client option"
  assumes "mqtt_states w (case client of None \<Rightarrow> [] | Some c \<Rightarrow> [c])" and "reloadMqtt ans h host port keepalive client w = (ok, client', w')"
  shows "mqtt_states w' (case client' of None \<Rightarrow> [] | Some c \<Rightarrow> [c])"
proof -
  obtain r w1 where r: "createMqttClient ans h host port keepalive w = (r, w1)" by fastforce
  show ?thesis
  proof (cases r)
    case (Inl e)
    with assms(2) r have "client' = client" "w' = w1" by (simp_all add: reloadMqtt_def)
    with mqtt_not_created [OF assms(1)] r Inl show ?thesis by simp
  next
    case (Inr c)
    with assms(2) r have "client' = Some c" "w' = (case client of None \<Rightarrow> w1 | Some old \<Rightarrow> mqtt_destroy old w1)"
      by (simp_all add: reloadMqtt_def)
    with replace_client [OF assms(1)] r Inr show ?thesis by simp
  qed
qed

lemma worker_run_mqtt:
  assumes "worker_run ans s = Some (evs, s')" and "mqtt_ok s"
  shows "mqtt_ok s'"
  using assms(1)
proof (cases rule: worker_run_cases)
  case (init config)
  have st: "mqtt_states (ms_lib s) (case ms_client s of None \<Rightarrow> [] | Some c \<Rightarrow> [c])"
    using assms(2) by (simp add: mqtt_ok_def client_list_def)
  obtain r w where c: "createMqttClient (ra_mqtt ans) () (mqtt_host config) (mqtt_port config) (mqtt_keepalive config) (ms_lib s) = (r, w)"
    by fastforce
  show ?thesis
  proof (cases r)
    case (Inl e)
    with mqtt_not_created [OF st] c init(2) show ?thesis by (simp add: run_init_def mqtt_ok_def client_list_def)
  next
    case (Inr d)
    with replace_client [OF st] c init(2) show ?thesis by (simp add: run_init_def mqtt_ok_def client_list_def)
  qed
next
  case (pub t p q fin)
  with assms(2) show ?thesis by (cases "ms_client s") (auto simp: run_publish_def mqtt_ok_def client_list_def intro: mqtt_published)
next
  case (applied changes config ok s1)
  obtain p client w q where s1: "s1 = s\<lparr>ms_pipeline := p, ms_client := client, ms_lib := w, ms_replacements := q\<rparr>"
    and m: "client = ms_client s \<and> w = ms_lib s \<or>
      (\<exists>ok. reloadMqtt (ra_mqtt ans) () (mqtt_host config) (mqtt_port config) (mqtt_keepalive config) (ms_client s) (ms_lib s) = (ok, client, w))"
    by (rule reload_apply_effect [OF applied(2)])
  have st: "mqtt_states (ms_lib s) (case ms_client s of None \<Rightarrow> [] | Some c \<Rightarrow> [c])"
    using assms(2) by (simp add: mqtt_ok_def client_list_def)
  from m have "mqtt_states w (case client of None \<Rightarrow> [] | Some c \<Rightarrow> [c])"
    using st by (elim disjE exE conjE) (simp, rule reloadMqtt_states [OF st])
  with applied(4) s1 show ?thesis by (simp add: mqtt_ok_def client_list_def)
qed (use assms(2) in \<open>simp_all add: mqtt_ok_def client_list_def\<close>)

lemma mqtt_step:
  assumes "manage_step s evs s'" and "mqtt_ok s"
  shows "mqtt_ok s'"
  using assms(1)
proof cases
  case (manage_publish topic payload qos fin ok)
  from app_publish_effect [OF manage_publish(1)] assms(2) show ?thesis by (cases ok) (simp_all add: mqtt_ok_def client_list_def)
next
  case manage_request
  with requestReload_effect [of s] assms(2) show ?thesis by (auto simp: mqtt_ok_def client_list_def)
next
  case manage_take
  from manage_take(3) show ?thesis by (cases rule: worker_take_cases) (use assms(2) in \<open>simp_all add: mqtt_ok_def client_list_def\<close>)
next
  case (manage_run ans)
  from worker_run_mqtt [OF this assms(2)] show ?thesis .
next
  case (manage_connected c rc)
  with assms(2) mqtt_connected [of "ms_lib s" "[c]" c rc] show ?thesis by (simp add: mqtt_ok_def client_list_def)
next
  case (manage_message c accepted)
  with assms(2) mqtt_published [of "ms_lib s" "[c]" c] show ?thesis by (simp add: mqtt_ok_def client_list_def mqtt_handler_def)
qed (use assms(2) in \<open>simp_all add: mqtt_ok_def client_list_def\<close>)

subsection \<open>Reachable states\<close>

definition manage_inv :: "manage_event list \<Rightarrow> manage_state \<Rightarrow> bool" where
  "manage_inv evs s \<longleftrightarrow> pubs_ok evs s \<and> room_ok s \<and> reload_ok evs s \<and> reader_ok s \<and> mqtt_ok s"

lemma manage_inv_step: "manage_inv evs0 s \<Longrightarrow> manage_step s evs s' \<Longrightarrow> manage_inv (evs0 @ evs) s'"
  using pubs_step room_step reload_step reader_step mqtt_step unfolding manage_inv_def by blast

lemma manage_inv_reachable:
  assumes "lts_steps manage_step (new_manage m config file) evs s"
  shows "manage_inv evs s"
proof (rule steps_invariant [OF assms])
  show "manage_inv [] (new_manage m config file)"
    using mqtt_none by (simp add: manage_inv_def new_manage_def pubs_ok_def room_ok_def reload_ok_def reader_ok_def mqtt_ok_def client_list_def
        management_worker_def new_executor_def post_def waiting_defs commands_waiting_def reload_owed_def new_pipeline_def new_queue_def)
qed (rule manage_inv_step)


lemma reload_again:
  assumes "reload file m = (r, m')" and "rl_ok r"
  shows "reload file m' = (\<lparr>rl_ok = True, serial_rebuild_required = False, mqtt_rebuild_required = False, db_swap_required = False\<rparr>, m')"
proof -
  obtain fresh startup old where f: "parseFile (cm_path m) file = Inr fresh" "validate fresh" "cm_startup m = Some startup" "cm_current m = Some old"
    using assms by (auto simp: reload_def failed_reload_def split: sum.splits if_splits option.splits)
  with assms(1) have "m' = m\<lparr>cm_current := Some (fresh\<lparr>mqtt_port := mqtt_port startup, http_port := http_port startup\<rparr>)\<rparr>"
    by (simp add: reload_def Let_def)
  with f show ?thesis by (simp add: reload_def Let_def)
qed

subsection \<open>Properties\<close>

text \<open>A worker that has exited is closed and has nothing left to do.\<close>

definition exit_ok :: "manage_state \<Rightarrow> bool" where
  "exit_ok s \<longleftrightarrow> (ms_pc s = Mp_exited \<longrightarrow> te_closed (ms_worker s) \<and> te_tasks (ms_worker s) = [])"

lemma exit_step:
  assumes "manage_step s evs s'" and "exit_ok s" and "room_ok s"
  shows "exit_ok s'"
  using assms(1)
proof (cases rule: manage_step_cases)
  case (publish topic payload qos fin)
  then have "\<not> te_closed (ms_worker s)" by (simp add: post_accepted)
  with publish assms(2) show ?thesis by (simp add: exit_ok_def)
next
  case request
  have "requestReload s = s" if "ms_pc s = Mp_exited"
    using that assms(2,3) by (simp add: exit_ok_def room_ok_def requestReload_def)
  with request(2) requestReload_effect [of s] assms(2) show ?thesis by (auto simp: exit_ok_def)
next
  case taken
  from taken(3) show ?thesis by (cases rule: worker_take_cases) (simp_all add: exit_ok_def)
next
  case (run ans)
  then show ?thesis by (cases rule: worker_run_work) (simp_all add: exit_ok_def)
next
  case close_step
  with assms(2) show ?thesis by (simp add: exit_ok_def close_executor_def)
next
  case other
  with assms(2) same_workD [OF other(2)] show ?thesis by (simp add: exit_ok_def)
qed

lemma exit_ok_reachable:
  assumes "lts_steps manage_step (new_manage m config file) evs s"
  shows "exit_ok s"
proof -
  have "manage_inv evs s \<and> exit_ok s"
    using assms
  proof (rule steps_invariant [where P = "\<lambda>evs s. manage_inv evs s \<and> exit_ok s"])
    show "manage_inv [] (new_manage m config file) \<and> exit_ok (new_manage m config file)"
      using manage_inv_reachable [OF steps_refl] by (simp add: exit_ok_def new_manage_def)
  next
    fix s evs0 evs s' assume inv: "manage_inv evs0 s \<and> exit_ok s" and step: "manage_step s evs s'"
    then have "room_ok s" by (simp add: manage_inv_def)
    with inv step show "manage_inv (evs0 @ evs) s' \<and> exit_ok s'" by (blast intro: manage_inv_step exit_step)
  qed
  then show ?thesis ..
qed

text \<open>
  C33. The worker publishes what it accepted, in order, once: under every interleaving of the application threads, reloads, network
  callbacks, database writer and shutdown, the accepted publications are those carried out followed by those waiting, and
  the completion callbacks that ran are, in order, those of the publications carried out; when the worker has exited, every
  accepted publication has been carried out. The end of an admitted command is accepted exactly as long as the worker is open:
  with at most 512 admitted commands the reserve suffices, reloads included. After the worker has been closed, which happens
  only when the gateway stops, every publication is refused and changes nothing.
\<close>

theorem management_publishes_in_order:
  assumes "lts_steps manage_step (new_manage m config file) evs s"
  shows "accepted_pubs evs = handled_pubs evs @ task_pubs (waiting_tasks s) \<and> done_calls evs = pub_ends (handled_pubs evs) \<and>
    (ms_pc s = Mp_exited \<longrightarrow> accepted_pubs evs = handled_pubs evs) \<and>
    (commands_waiting s < nat kMaxCommands \<longrightarrow>
      (\<forall>topic payload qos n. fst (app_publish topic payload qos (Some n) s) \<longleftrightarrow> \<not> te_closed (ms_worker s))) \<and>
    (te_closed (ms_worker s) \<longrightarrow>
      ms_stopping s \<and> (\<forall>topic payload qos fin. app_publish topic payload qos fin s = (False, [], s)))"
proof -
  from manage_inv_reachable [OF assms] have inv: "pubs_ok evs s" "room_ok s" "reload_ok evs s" by (simp_all add: manage_inv_def)
  have closed: "app_publish topic payload qos fin s = (False, [], s)" if "te_closed (ms_worker s)" for topic payload qos fin
    using that by (simp add: app_publish_def post_def Let_def)
  have open_room: "fst (post t True (ms_worker s))" if "\<not> te_closed (ms_worker s)" "commands_waiting s < nat kMaxCommands" for t
    using that reload_count_le [OF inv(3)] by (intro completion_room [OF inv(2)]) (auto split: if_splits)
  have "fst (app_publish topic payload qos (Some n) s) \<longleftrightarrow> \<not> te_closed (ms_worker s)"
    if "commands_waiting s < nat kMaxCommands" for topic payload qos n
  proof (cases "te_closed (ms_worker s)")
    case True
    with closed show ?thesis by simp
  next
    case False
    with open_room that show ?thesis by (simp add: app_publish_def Let_def split_beta)
  qed
  moreover have "ms_pc s = Mp_exited \<longrightarrow> accepted_pubs evs = handled_pubs evs"
    using exit_ok_reachable [OF assms] inv(1) by (simp add: exit_ok_def pubs_ok_def waiting_tasks_def running_tasks_def)
  ultimately show ?thesis using closed inv(1,2) by (simp add: pubs_ok_def room_ok_def)
qed

text \<open>An example: a gateway with the default settings, whose configuration file is empty.\<close>

definition example_config :: ConfigManager where
  "example_config = \<lparr>cm_path = ''gateway.conf'', cm_current = Some default_config, cm_startup = Some default_config\<rparr>"

definition example_manage :: manage_state where
  "example_manage = requestReload (new_manage example_config default_config (Some []))"

lemma example_manage_run: "lts_steps manage_step (new_manage example_config default_config (Some [])) [Reload_requested] example_manage"
proof -
  have "manage_step (new_manage example_config default_config (Some [])) [Reload_requested] example_manage"
    using manage_request [of "new_manage example_config default_config (Some [])"]
    by (simp add: example_manage_def new_manage_def is_applying_def)
  from steps_single [where R = manage_step, OF this] show ?thesis .
qed

lemma example_manage_eq:
  "\<not> te_closed (ms_worker example_manage)" "commands_waiting example_manage = 0" "\<not> ms_stopping example_manage"
  "te_tasks (ms_worker example_manage) = [Task_init default_config, Task_reload]" "ms_pc example_manage = Mp_idle"
  "ms_client example_manage = None" "pl_db (ms_pipeline example_manage) = db_path default_config"
  by (simp_all add: example_manage_def requestReload_def new_manage_def management_worker_def new_executor_def post_def commands_waiting_def
      kMaxCommands_def new_pipeline_def)

theorem management_publishes_in_order_witness: "fst (app_publish ''gateway/ack/1'' ''ok'' 1 (Some 7) example_manage)"
  using management_publishes_in_order [OF example_manage_run] by (simp add: example_manage_eq kMaxCommands_def)

text \<open>
  C34. A request to reload is not forgotten before the file is read: in every reachable state at most one reload is queued or in
  progress, exactly when the pending flag is set; unless the gateway stops, a request made since the file was last read, and not
  while a reload was applying what it had read, has a reload that has still to read the file, and a new request leaves one
  pending. A request that arrives while a reload applies its changes is ignored.
\<close>

theorem reload_requests_coalesced:
  assumes "lts_steps manage_step (new_manage m config file) evs s"
  shows "count_list (waiting_tasks s) Task_reload = (if ms_reload_pending s then 1 else 0) \<and>
    (reload_owed evs \<and> \<not> ms_stopping s \<longrightarrow> ms_pc s = Mp_running Task_reload \<or> Task_reload \<in> set (te_tasks (ms_worker s))) \<and>
    (\<not> ms_stopping s \<longrightarrow> ms_reload_pending (requestReload s)) \<and>
    (is_applying (ms_pc s) \<longrightarrow> requestReload s = s)"
proof -
  from manage_inv_reachable [OF assms] have inv: "room_ok s" "reload_ok evs s" by (simp_all add: manage_inv_def)
  have "ms_pc s = Mp_running Task_reload \<or> Task_reload \<in> set (te_tasks (ms_worker s))" if "reload_owed evs" "\<not> ms_stopping s"
  proof -
    from inv(2) that have "count_list (waiting_tasks s) Task_reload = 1" "\<not> is_applying (ms_pc s)" by (auto simp: reload_ok_def)
    then have "Task_reload \<in> set (waiting_tasks s)" by (metis count_list_0_iff zero_neq_one)
    with \<open>\<not> is_applying (ms_pc s)\<close> show ?thesis by (cases "ms_pc s") (auto simp: waiting_defs is_applying_def)
  qed
  moreover have "requestReload s = s" if "is_applying (ms_pc s)"
  proof -
    from that have "Task_reload \<in> set (waiting_tasks s)" by (cases "ms_pc s") (simp_all add: waiting_defs is_applying_def)
    then have "count_list (waiting_tasks s) Task_reload \<noteq> 0" by (simp add: count_list_0_iff)
    with inv(2) have "ms_reload_pending s" by (cases "ms_reload_pending s") (simp_all add: reload_ok_def)
    then show ?thesis by (simp add: requestReload_def)
  qed
  ultimately show ?thesis using inv requestReload_pending [OF inv] by (auto simp: reload_ok_def)
qed

theorem reload_requests_coalesced_witness: "ms_reload_pending (requestReload example_manage)"
  using reload_requests_coalesced [OF example_manage_run] by (simp add: example_manage_eq)

text \<open>
  C35. The shared resources stay consistent through reloads: the readers always use the database the writer writes to, changing
  with it, and libmosquitto has exactly the handle of the client in use, initialised exactly while there is one, whatever
  fails while a new client or database is prepared.
\<close>

theorem resources_stay_consistent:
  assumes "lts_steps manage_step (new_manage m config file) evs s"
  shows "ms_read_db s = pl_db (ms_pipeline s) \<and>
    lib_state (lib_calls (ms_lib s)) = Some (ms_client s \<noteq> None, case ms_client s of None \<Rightarrow> [] | Some c \<Rightarrow> [mc_mosq c])"
proof -
  from manage_inv_reachable [OF assms] have inv: "reader_ok s" "mqtt_ok s" by (simp_all add: manage_inv_def)
  from mqtt_states_at inv(2) have "lib_at (ms_lib s) (length (client_list s)) (map mc_mosq (client_list s))"
    unfolding mqtt_ok_def by blast
  with inv(1) show ?thesis by (cases "ms_client s") (simp_all add: reader_ok_def lib_at_def client_list_def)
qed

theorem resources_stay_consistent_witness: "ms_read_db example_manage = db_path default_config"
  using resources_stay_consistent [OF example_manage_run] by (simp add: example_manage_eq)

text \<open>
  C36. Reloading the same file rebuilds nothing: when the file is the one the last successful reload read, a reload changes neither
  the MQTT client nor the database nor the queue of serial links; after it only the log level is set and the request is
  finished. A resource that could not be applied, or a device that was unplugged, is not tried again.
\<close>

theorem same_file_rebuilds_nothing:
  assumes "reload file m = (r, m')" and "rl_ok r" and "cm_current m' = Some config"
    and "ms_file s = file" and "ms_config s = m'" and "ms_pc s = Mp_running Task_reload" and "\<not> ms_stopping s"
  shows "\<exists>s1. worker_run ans s = Some ([Config_read], s1) \<and>
    worker_run ans' s1 = Some ([], s\<lparr>ms_log_level := log_level config, ms_reload_pending := False, ms_pc := Mp_idle\<rparr>)"
proof -
  let ?r = "\<lparr>rl_ok = True, serial_rebuild_required = False, mqtt_rebuild_required = False, db_swap_required = False\<rparr>"
  let ?s1 = "s\<lparr>ms_log_level := log_level config, ms_pc := Mp_applying ?r config\<rparr>"
  have "reload_read s = s\<lparr>ms_config := m', ms_log_level := log_level config, ms_pc := Mp_applying ?r config\<rparr>"
    using reload_again [OF assms(1,2)] assms(3-5) by (simp add: reload_read_def)
  with assms(5) have "reload_read s = ?s1" by simp
  with assms(6,7) have "worker_run ans s = Some ([Config_read], ?s1)" by (simp add: worker_run_def)
  moreover have "reload_apply ans' ?r config ?s1 = Some (True, ?s1)" by (simp add: reload_apply_def Let_def)
  then have "worker_run ans' ?s1 = Some ([], ?s1\<lparr>ms_reload_pending := False, ms_pc := Mp_idle\<rparr>)" by (simp add: worker_run_def)
  ultimately show ?thesis by (intro exI [of _ ?s1]) simp
qed

definition example_answers :: reload_answers where
  "example_answers = \<lparr>ra_write = None, ra_read = None, ra_expired = False,
     ra_mqtt = \<lparr>ma_new_ok = True, ma_connect_rc = 0, ma_strerror = (\<lambda>_. []), ma_start_rc = 0\<rparr>, ra_serial_ok = True\<rparr>"

theorem same_file_rebuilds_nothing_witness:
  "\<exists>s1. worker_run example_answers (example_manage\<lparr>ms_pc := Mp_running Task_reload\<rparr>) = Some ([Config_read], s1) \<and>
    worker_run example_answers s1 = Some ([], example_manage\<lparr>ms_log_level := log_level default_config, ms_reload_pending := False, ms_pc := Mp_idle\<rparr>)"
proof -
  have "parseFile ''gateway.conf'' (Some []) = Inr default_config" and "validate default_config" by code_simp+
  then have r: "reload (Some []) example_config =
      (\<lparr>rl_ok = True, serial_rebuild_required = False, mqtt_rebuild_required = False, db_swap_required = False\<rparr>, example_config)"
    by (simp add: reload_def example_config_def Let_def)
  have "ms_file example_manage = Some []" "ms_config example_manage = example_config"
    by (simp_all add: example_manage_def requestReload_def new_manage_def management_worker_def new_executor_def post_def)
  with same_file_rebuilds_nothing [OF r, of default_config "example_manage\<lparr>ms_pc := Mp_running Task_reload\<rparr>" example_answers example_answers]
  show ?thesis by (simp add: example_manage_eq example_config_def)
qed

end
