(* ===== verification/Gateway_Life.thy ===== *)
theory Gateway_Life
  imports Database Config
begin

text \<open>
  The life of the process: \<^verbatim>\<open>gateway/app/main.cpp\<close>, the constructor, \<^verbatim>\<open>run\<close> and the destructor of
  \<^verbatim>\<open>GatewayApp\<close>, the start of the management reactor and of the HTTP server. Every call that can fail has its answer in
  a record; the result is the exit code and the trace of threads started and joined, resources opened and closed.
  Exceptions are values, and a thrown exception runs the destructors that C++ runs: the members of an object under
  construction in reverse order, or the destructor of a complete object and then its members. The thread of the logger
  lives as long as the process and is left out; the creation of a thread does not fail.
\<close>

subsection \<open>What can be seen\<close>

datatype gateway_thread = Manage_thread | Writer_thread | Core_thread | Query_thread | Mqtt_thread | Admin_thread | Http_thread

datatype resource = Epoll | Write_db | Read_db | Serial_link | Downlink_event | Command_timer

datatype life_event = Signals_blocked | Started gateway_thread | Joined gateway_thread | Acquired resource | Released resource | Loop_ran

datatype life_error =
    Block_failed | Config_failed string | Epoll_failed | Database_failed db_error | Serial_failed | Epoll_add_failed
  | Timer_failed | Signal_mask_wrong | Reactor_failed | Mqtt_failed | Loop_failed

text \<open>The answers of the system: \<open>la_mqtt_first\<close> says whether the worker starts MQTT before the management reactor is there.\<close>

record life_answers =
  la_block_ok :: bool
  la_file :: "string option"
  la_epoll_ok :: bool
  la_write_db :: "db_error option"
  la_serial_ok :: bool
  la_read_db :: "db_error option"
  la_add_serial_ok :: bool
  la_eventfd_ok :: bool
  la_add_downlink_ok :: bool
  la_timer_ok :: bool
  la_settime_ok :: bool
  la_add_timer_ok :: bool
  la_reactor_ok :: bool
  la_mqtt_ok :: bool
  la_mqtt_first :: bool
  la_stop_early :: bool
  la_http_ended :: bool
  la_listen_ok :: bool
  la_io_ok :: bool
  la_management_failed :: bool
  la_loop_ok :: bool

subsection \<open>Signals\<close>

text \<open>The signals by their Linux numbers.\<close>

definition managedSignals :: "nat list" where
  "managedSignals = [1, 15, 2]"

definition blockManagedSignals :: "bool \<Rightarrow> nat set \<Rightarrow> life_error + nat set" where
  "blockManagedSignals ok sigs = (if \<not> ok then Inl Block_failed else Inr (sigs \<union> set managedSignals))"

definition checkSignalMask :: "nat set \<Rightarrow> life_error option" where
  "checkSignalMask current = (if \<forall>signal\<in>set [1, 15, 2]. signal \<in> current then None else Some Signal_mask_wrong)"

subsection \<open>The application object\<close>

record app_life =
  al_mask :: "nat set"
  al_trace :: "life_event list"
  al_downlink :: bool
  al_timer :: bool
  al_core :: bool
  al_init_posted :: bool
  al_mqtt :: bool
  al_reactor :: bool
  al_http :: bool

definition see :: "life_event list \<Rightarrow> app_life \<Rightarrow> app_life" where
  "see evs a = a\<lparr>al_trace := al_trace a @ evs\<rparr>"

definition new_app_life :: "nat set \<Rightarrow> life_event list \<Rightarrow> app_life" where
  "new_app_life sigs tr = \<lparr>al_mask = sigs, al_trace = tr, al_downlink = False, al_timer = False, al_core = False,
     al_init_posted = False, al_mqtt = False, al_reactor = False, al_http = False\<rparr>"

text \<open>
  The constructor: the members (the event loop may throw, the management worker starts its thread), then the body. The
  clean-up of a throwing constructor destroys the members made so far in reverse order. A database that cannot prepare
  its statement is not closed.
\<close>

definition app_construct :: "life_answers \<Rightarrow> app_life \<Rightarrow> (life_error + app_life) \<times> app_life" where
  "app_construct ans a =
    (if \<not> la_epoll_ok ans then (Inl Epoll_failed, a)
     else
       let a = see [Acquired Epoll, Started Manage_thread] a;
           undo = [Joined Manage_thread, Released Epoll]
       in case la_write_db ans of
            Some e \<Rightarrow> (Inl (Database_failed e), see ((if e = Prepare_error then [Acquired Write_db] else []) @ undo) a)
          | None \<Rightarrow>
              let a = see [Acquired Write_db, Started Writer_thread] a;
                  undo_writer = [Joined Writer_thread, Released Write_db]
              in if \<not> la_serial_ok ans then (Inl Serial_failed, see (undo @ undo_writer) a)
                 else
                   let a = see [Acquired Serial_link] a
                   in case la_read_db ans of
                        Some e \<Rightarrow> (Inl (Database_failed e), see (undo @ [Released Serial_link] @ undo_writer) a)
                      | None \<Rightarrow> let a = see [Acquired Read_db] a in (Inr a, a))"

definition registerDownlinkEvent :: "life_answers \<Rightarrow> app_life \<Rightarrow> (life_error + bool) \<times> app_life" where
  "registerDownlinkEvent ans a =
    (if \<not> la_eventfd_ok ans then (Inr False, a)
     else if \<not> la_add_downlink_ok ans then (Inl Epoll_add_failed, see [Acquired Downlink_event, Released Downlink_event] a)
     else (Inr True, (see [Acquired Downlink_event] a)\<lparr>al_downlink := True\<rparr>))"

definition registerCommandTimerEvent :: "life_answers \<Rightarrow> app_life \<Rightarrow> life_error option \<times> app_life" where
  "registerCommandTimerEvent ans a =
    (if \<not> la_timer_ok ans then (Some Timer_failed, a)
     else if \<not> la_settime_ok ans then (Some Timer_failed, see [Acquired Command_timer, Released Command_timer] a)
     else if \<not> la_add_timer_ok ans then (Some Epoll_add_failed, see [Acquired Command_timer, Released Command_timer] a)
     else (None, (see [Acquired Command_timer] a)\<lparr>al_timer := True\<rparr>))"

text \<open>The task that starts MQTT on the management worker, executed at the latest when the worker is stopped.\<close>

definition run_mqtt_start :: "life_answers \<Rightarrow> app_life \<Rightarrow> app_life" where
  "run_mqtt_start ans a =
    (if \<not> al_init_posted a then a
     else
       let a = a\<lparr>al_init_posted := False\<rparr>
       in if la_mqtt_ok ans then (see [Started Mqtt_thread] a)\<lparr>al_mqtt := True\<rparr> else a)"

definition start_reactor :: "life_answers \<Rightarrow> app_life \<Rightarrow> life_error option \<times> app_life" where
  "start_reactor ans a =
    (case checkSignalMask (al_mask a) of
       Some e \<Rightarrow> (Some e, a)
     | None \<Rightarrow>
         if \<not> la_reactor_ok ans then (Some Reactor_failed, a)
         else (None, (see [Started Admin_thread] a)\<lparr>al_reactor := True\<rparr>))"

text \<open>The HTTP server's thread: the outcome of listening and of the event loop.\<close>

definition runHttpServer :: "int \<Rightarrow> bool \<Rightarrow> bool \<Rightarrow> bool" where
  "runHttpServer port listen_ok io_ok =
    (if port < 0 \<or> port > 65535 then False
     else if \<not> listen_ok then False
     else if \<not> io_ok then False
     else True)"

definition startHttpMonitor :: "app_life \<Rightarrow> app_life" where
  "startHttpMonitor a = (see [Started Http_thread] a)\<lparr>al_http := True\<rparr>"

definition http_failed :: "life_answers \<Rightarrow> int \<Rightarrow> app_life \<Rightarrow> bool" where
  "http_failed ans port a \<longleftrightarrow> al_http a \<and> la_http_ended ans \<and> \<not> runHttpServer port (la_listen_ok ans) (la_io_ok ans)"

definition app_run :: "life_answers \<Rightarrow> int \<Rightarrow> app_life \<Rightarrow> (life_error + int) \<times> app_life" where
  "app_run ans port a =
    (if \<not> la_add_serial_ok ans then (Inl Epoll_add_failed, a)
     else case registerDownlinkEvent ans a of
       (Inl e, a) \<Rightarrow> (Inl e, a)
     | (Inr registered, a) \<Rightarrow>
         if \<not> registered then (Inr 1, a)
         else case registerCommandTimerEvent ans a of
           (Some e, a) \<Rightarrow> (Inl e, a)
         | (None, a) \<Rightarrow>
             let a = (see [Started Core_thread, Started Query_thread] a)\<lparr>al_core := True\<rparr>;
                 a = a\<lparr>al_init_posted := True\<rparr>;
                 a = (if la_mqtt_first ans then run_mqtt_start ans a else a)
             in case start_reactor ans a of
                  (Some e, a) \<Rightarrow> (Inl e, a)
                | (None, a) \<Rightarrow>
                    let a = run_mqtt_start ans a
                    in if \<not> la_mqtt_ok ans then (Inl Mqtt_failed, a)
                       else
                         let a = (if \<not> la_stop_early ans then startHttpMonitor a else a);
                             a = see [Loop_ran] a
                         in if \<not> la_loop_ok ans then (Inl Loop_failed, a)
                            else (Inr (if http_failed ans port a \<or> la_management_failed ans then 1 else 0), a))"

text \<open>The destructor's body, then the members: the event loop with its channels, the link, the pipeline with the writer, the reader.\<close>

definition app_destroy :: "life_answers \<Rightarrow> app_life \<Rightarrow> app_life" where
  "app_destroy ans a =
    (let a = (if al_reactor a then see [Joined Admin_thread] a else a);
         a = (if al_http a then see [Joined Http_thread] a else a);
         a = (if al_core a then see [Joined Query_thread, Joined Core_thread] a else a);
         a = see [Joined Manage_thread] (run_mqtt_start ans a);
         a = (if al_mqtt a then see [Joined Mqtt_thread] a else a);
         a = see [Released Epoll] a;
         a = (if al_downlink a then see [Released Downlink_event] a else a);
         a = (if al_timer a then see [Released Command_timer] a else a)
     in see [Released Serial_link, Joined Writer_thread, Released Write_db, Released Read_db] a)"

text \<open>\<^verbatim>\<open>main\<close>: the configuration named by the first argument, then the application.\<close>

definition main_config :: "life_answers \<Rightarrow> string list \<Rightarrow> string + ConfigManager" where
  "main_config ans args =
    (let conf_path = (if length args > 1 then args ! 1 else ''/etc/gateway.conf'')
     in config_init conf_path (la_file ans) \<lparr>cm_path = [], cm_current = None, cm_startup = None\<rparr>)"

definition config_port :: "ConfigManager \<Rightarrow> int" where
  "config_port m = (case cm_current m of Some c \<Rightarrow> http_port c | None \<Rightarrow> 0)"

definition gateway_main :: "life_answers \<Rightarrow> string list \<Rightarrow> int \<times> life_event list" where
  "gateway_main ans args =
    (case blockManagedSignals (la_block_ok ans) {} of
       Inl e \<Rightarrow> (1, [])
     | Inr sigs \<Rightarrow>
         (case main_config ans args of
            Inl e \<Rightarrow> (1, [Signals_blocked])
          | Inr m \<Rightarrow>
              (case app_construct ans (new_app_life sigs [Signals_blocked]) of
                 (Inl e, a) \<Rightarrow> (1, al_trace a)
               | (Inr a, _) \<Rightarrow>
                   (case app_run ans (config_port m) a of
                      (Inl e, a) \<Rightarrow> (1, al_trace (app_destroy ans a))
                    | (Inr rc, a) \<Rightarrow> (rc, al_trace (app_destroy ans a))))))"

subsection \<open>Lemmas\<close>

definition thread_events :: "gateway_thread \<Rightarrow> life_event list \<Rightarrow> life_event list" where
  "thread_events t tr = filter (\<lambda>e. e = Started t \<or> e = Joined t) tr"

definition resource_events :: "resource \<Rightarrow> life_event list \<Rightarrow> life_event list" where
  "resource_events r tr = filter (\<lambda>e. e = Acquired r \<or> e = Released r) tr"

definition joins :: "life_event list \<Rightarrow> gateway_thread list" where
  "joins tr = concat (map (\<lambda>e. case e of Joined t \<Rightarrow> [t] | _ \<Rightarrow> []) tr)"

text \<open>A trace in which every thread is joined and every resource but those of \<open>leaks\<close> is released.\<close>

definition clean_trace :: "resource set \<Rightarrow> life_event list \<Rightarrow> bool" where
  "clean_trace leaks tr \<longleftrightarrow>
    (\<forall>t. thread_events t tr \<in> {[], [Started t, Joined t]}) \<and>
    (\<forall>r. r \<notin> leaks \<longrightarrow> resource_events r tr \<in> {[], [Acquired r, Released r]})"

lemmas trace_defs = clean_trace_def thread_events_def resource_events_def

lemma all_threads: "(\<forall>t. P t) \<longleftrightarrow> P Manage_thread \<and> P Writer_thread \<and> P Core_thread \<and> P Query_thread \<and> P Mqtt_thread \<and> P Admin_thread \<and> P Http_thread"
  by (metis gateway_thread.exhaust)

lemma all_resources: "(\<forall>r. P r) \<longleftrightarrow> P Epoll \<and> P Write_db \<and> P Read_db \<and> P Serial_link \<and> P Downlink_event \<and> P Command_timer"
  by (metis resource.exhaust)

text \<open>The trace of a complete object.\<close>

definition built_trace :: "life_event list" where
  "built_trace = [Signals_blocked, Acquired Epoll, Started Manage_thread, Acquired Write_db, Started Writer_thread,
     Acquired Serial_link, Acquired Read_db]"

lemma app_construct_cases:
  assumes "app_construct ans (new_app_life sigs [Signals_blocked]) = (r, a)"
  shows "case r of
      Inl e \<Rightarrow> \<not> (la_epoll_ok ans \<and> la_write_db ans = None \<and> la_serial_ok ans \<and> la_read_db ans = None) \<and>
        hd (al_trace a) = Signals_blocked \<and> Loop_ran \<notin> set (al_trace a) \<and>
        clean_trace (if la_write_db ans = Some Prepare_error then {Write_db} else {}) (al_trace a)
    | Inr b \<Rightarrow> b = new_app_life sigs built_trace \<and> la_epoll_ok ans \<and> la_write_db ans = None \<and> la_serial_ok ans \<and> la_read_db ans = None"
proof (cases "la_epoll_ok ans")
  case False
  with assms show ?thesis by (auto simp: app_construct_def new_app_life_def trace_defs)
next
  case ep: True
  show ?thesis
  proof (cases "la_write_db ans")
    case (Some e)
    with assms ep show ?thesis
      by (cases "e = Prepare_error") (auto simp: app_construct_def new_app_life_def see_def trace_defs all_threads all_resources)
  next
    case wr: None
    show ?thesis
    proof (cases "la_serial_ok ans")
      case False
      with assms ep wr show ?thesis by (auto simp: app_construct_def new_app_life_def see_def trace_defs all_threads all_resources)
    next
      case True
      with assms ep wr show ?thesis
        by (cases "la_read_db ans") (auto simp: app_construct_def new_app_life_def see_def built_trace_def Let_def trace_defs all_threads all_resources)
    qed
  qed
qed


text \<open>What the run and the destructor leave: the outcome is good when the trace is clean and ends the threads in their order.\<close>

definition loop_joins :: "life_answers \<Rightarrow> gateway_thread list" where
  "loop_joins ans = [Admin_thread] @ (if la_stop_early ans then [] else [Http_thread]) @
     [Query_thread, Core_thread, Manage_thread, Mqtt_thread, Writer_thread]"

definition good_end :: "life_answers \<Rightarrow> life_event list \<Rightarrow> bool" where
  "good_end ans tr \<longleftrightarrow> hd tr = Signals_blocked \<and> clean_trace {} tr \<and> (Loop_ran \<in> set tr \<longrightarrow> joins tr = loop_joins ans)"

lemmas life_defs = registerDownlinkEvent_def registerCommandTimerEvent_def run_mqtt_start_def start_reactor_def startHttpMonitor_def
  app_destroy_def see_def new_app_life_def built_trace_def

lemmas end_defs = good_end_def trace_defs all_threads all_resources joins_def loop_joins_def

definition started_up :: "life_answers \<Rightarrow> bool" where
  "started_up ans \<longleftrightarrow> la_add_serial_ok ans \<and> la_eventfd_ok ans \<and> la_add_downlink_ok ans \<and> la_timer_ok ans \<and> la_settime_ok ans \<and>
    la_add_timer_ok ans \<and> la_reactor_ok ans \<and> la_mqtt_ok ans"

text \<open>A run on a complete object, with the signals blocked.\<close>

definition run_and_destroy :: "life_answers \<Rightarrow> int \<Rightarrow> nat set \<Rightarrow> (life_error + int) \<times> life_event list" where
  "run_and_destroy ans port sigs =
    (case app_run ans port (new_app_life sigs built_trace) of (r, a) \<Rightarrow> (r, al_trace (app_destroy ans a)))"

lemma run_not_registered:
  assumes "\<not> (la_add_serial_ok ans \<and> la_eventfd_ok ans \<and> la_add_downlink_ok ans)" and "run_and_destroy ans port sigs = (r, tr)"
  shows "good_end ans tr \<and> (r = Inr 1 \<or> isl r)"
  using assms
  by (cases "la_add_serial_ok ans"; cases "la_eventfd_ok ans") (auto simp: run_and_destroy_def app_run_def life_defs end_defs)

lemma run_no_timer:
  assumes "la_add_serial_ok ans" "la_eventfd_ok ans" "la_add_downlink_ok ans"
    and "\<not> (la_timer_ok ans \<and> la_settime_ok ans \<and> la_add_timer_ok ans)" and "run_and_destroy ans port sigs = (r, tr)"
  shows "good_end ans tr \<and> (r = Inr 1 \<or> isl r)"
  using assms
  by (cases "la_timer_ok ans"; cases "la_settime_ok ans") (auto simp: run_and_destroy_def app_run_def life_defs end_defs)

lemma run_no_reactor:
  assumes "la_add_serial_ok ans" "la_eventfd_ok ans" "la_add_downlink_ok ans" "la_timer_ok ans" "la_settime_ok ans" "la_add_timer_ok ans"
    and "\<not> (la_reactor_ok ans \<and> la_mqtt_ok ans)" and "checkSignalMask sigs = None" and "run_and_destroy ans port sigs = (r, tr)"
  shows "good_end ans tr \<and> (r = Inr 1 \<or> isl r)"
  using assms
  by (cases "la_reactor_ok ans"; cases "la_mqtt_first ans"; cases "la_mqtt_ok ans")
    (auto simp: run_and_destroy_def app_run_def life_defs Let_def end_defs)

lemma run_started:
  assumes "started_up ans" and "checkSignalMask sigs = None" and "run_and_destroy ans port sigs = (r, tr)"
  shows "good_end ans tr \<and> Loop_ran \<in> set tr \<and>
    r = (if \<not> la_loop_ok ans then Inl Loop_failed
         else Inr (if la_management_failed ans \<or> \<not> la_stop_early ans \<and> la_http_ended ans \<and> \<not> runHttpServer port (la_listen_ok ans) (la_io_ok ans)
                   then 1 else 0))"
proof -
  have e: "run_and_destroy ans port sigs =
      (if \<not> la_loop_ok ans then Inl Loop_failed
       else Inr (if la_management_failed ans \<or> \<not> la_stop_early ans \<and> la_http_ended ans \<and> \<not> runHttpServer port (la_listen_ok ans) (la_io_ok ans)
                 then 1 else 0),
       built_trace @ [Acquired Downlink_event, Acquired Command_timer, Started Core_thread, Started Query_thread] @
       (if la_mqtt_first ans then [Started Mqtt_thread, Started Admin_thread] else [Started Admin_thread, Started Mqtt_thread]) @
       (if la_stop_early ans then [] else [Started Http_thread]) @ [Loop_ran, Joined Admin_thread] @
       (if la_stop_early ans then [] else [Joined Http_thread]) @
       [Joined Query_thread, Joined Core_thread, Joined Manage_thread, Joined Mqtt_thread, Released Epoll, Released Downlink_event,
        Released Command_timer, Released Serial_link, Joined Writer_thread, Released Write_db, Released Read_db])"
    using assms(1,2)
    by (cases "la_mqtt_first ans"; cases "la_stop_early ans"; cases "la_loop_ok ans")
      (simp_all add: started_up_def run_and_destroy_def app_run_def life_defs http_failed_def Let_def)
  from assms(3) show ?thesis unfolding e
    by (cases "la_mqtt_first ans"; cases "la_stop_early ans") (auto simp: built_trace_def end_defs)
qed

lemma run_good_end:
  assumes "checkSignalMask sigs = None" and "run_and_destroy ans port sigs = (r, tr)"
  shows "good_end ans tr \<and> (r = Inr 0 \<or> r = Inr 1 \<or> isl r) \<and>
    (r = Inr 0 \<longleftrightarrow> started_up ans \<and> la_loop_ok ans \<and> \<not> la_management_failed ans \<and>
       (la_stop_early ans \<or> \<not> la_http_ended ans \<or> runHttpServer port (la_listen_ok ans) (la_io_ok ans)))"
proof (cases "started_up ans")
  case True
  from run_started [OF this assms] True show ?thesis by (cases "la_loop_ok ans") auto
next
  case False
  then have "good_end ans tr \<and> (r = Inr 1 \<or> isl r)"
    using run_not_registered [OF _ assms(2)] run_no_timer [OF _ _ _ _ assms(2)] run_no_reactor [OF _ _ _ _ _ _ _ assms]
    unfolding started_up_def by blast
  with False show ?thesis by auto
qed

subsection \<open>Properties\<close>

lemma process_outcome:
  fixes ans :: life_answers and args :: "string list"
  defines "rc \<equiv> fst (gateway_main ans args)" and "tr \<equiv> snd (gateway_main ans args)"
  shows "(tr = [] \<or> hd tr = Signals_blocked) \<and>
    clean_trace (if la_write_db ans = Some Prepare_error then {Write_db} else {}) tr \<and>
    (Loop_ran \<notin> set tr \<or> joins tr = loop_joins ans) \<and> rc \<in> {0, 1} \<and>
    (rc = 0 \<longleftrightarrow> la_block_ok ans \<and> la_epoll_ok ans \<and> la_write_db ans = None \<and> la_serial_ok ans \<and> la_read_db ans = None \<and>
       started_up ans \<and> la_loop_ok ans \<and> \<not> la_management_failed ans \<and>
       (\<exists>m. main_config ans args = Inr m \<and>
         (la_stop_early ans \<or> \<not> la_http_ended ans \<or> runHttpServer (config_port m) (la_listen_ok ans) (la_io_ok ans))))"
proof (cases "la_block_ok ans \<and> \<not> isl (main_config ans args)")
  case False
  then have "gateway_main ans args = (1, []) \<or> gateway_main ans args = (1, [Signals_blocked])"
    by (cases "la_block_ok ans"; cases "main_config ans args") (simp_all add: gateway_main_def blockManagedSignals_def)
  with False show ?thesis by (auto simp: rc_def tr_def trace_defs)
next
  case True
  then obtain m where m: "main_config ans args = Inr m" by (cases "main_config ans args") auto
  let ?sigs = "set managedSignals"
  have sigs: "checkSignalMask ?sigs = None" by (auto simp: checkSignalMask_def managedSignals_def)
  obtain r a where c: "app_construct ans (new_app_life ?sigs [Signals_blocked]) = (r, a)" by fastforce
  show ?thesis
  proof (cases r)
    case (Inl e)
    with True m c have "gateway_main ans args = (1, al_trace a)" by (simp add: gateway_main_def blockManagedSignals_def)
    then have "rc = 1" "tr = al_trace a" by (simp_all add: rc_def tr_def)
    with app_construct_cases [OF c] Inl show ?thesis by auto
  next
    case (Inr b)
    obtain r' tr' where rd: "run_and_destroy ans (config_port m) ?sigs = (r', tr')" by fastforce
    from app_construct_cases [OF c] Inr have b: "b = new_app_life ?sigs built_trace" "la_epoll_ok ans" "la_write_db ans = None" "la_serial_ok ans"
      "la_read_db ans = None" by simp_all
    have "gateway_main ans args = (case r' of Inl e \<Rightarrow> 1 | Inr rc \<Rightarrow> rc, tr')"
      using True m c Inr b(1) rd
      by (auto simp: gateway_main_def blockManagedSignals_def run_and_destroy_def split: prod.splits sum.splits)
    then have "rc = (case r' of Inl e \<Rightarrow> 1 | Inr rc \<Rightarrow> rc)" "tr = tr'" by (simp_all add: rc_def tr_def)
    with run_good_end [OF sigs rd] b m True show ?thesis by (cases r') (auto simp: good_end_def)
  qed
qed

text \<open>
  C37. The process starts and ends in order, whatever fails: the managed signals are blocked before any thread starts; in
  every outcome, exceptions at any point of the start included, each thread that was started is joined exactly once before
  the end, and each resource acquired is released once, except the writing connection when its statement cannot be
  prepared. When the main loop has run, the threads end in the order management signals, HTTP, queries, core, management worker,
  MQTT, database writer, so that no thread outlives one it feeds. The exit code is 0 or 1, and 0 exactly when the signals
  were blocked, the configuration was valid, everything started, and the loops ended without a failure.
\<close>

theorem process_ends_in_order:
  "case gateway_main ans args of (rc, tr) \<Rightarrow>
    (tr = [] \<or> hd tr = Signals_blocked) \<and>
    clean_trace (if la_write_db ans = Some Prepare_error then {Write_db} else {}) tr \<and>
    (Loop_ran \<notin> set tr \<or> joins tr = loop_joins ans) \<and> rc \<in> {0, 1} \<and>
    (rc = 0 \<longleftrightarrow> la_block_ok ans \<and> la_epoll_ok ans \<and> la_write_db ans = None \<and> la_serial_ok ans \<and> la_read_db ans = None \<and>
       started_up ans \<and> la_loop_ok ans \<and> \<not> la_management_failed ans \<and>
       (\<exists>m. main_config ans args = Inr m \<and>
         (la_stop_early ans \<or> \<not> la_http_ended ans \<or> runHttpServer (config_port m) (la_listen_ok ans) (la_io_ok ans))))"
  unfolding split_beta by (rule process_outcome)


text \<open>An example: everything works, with an empty configuration file.\<close>

definition working_answers :: life_answers where
  "working_answers = \<lparr>la_block_ok = True, la_file = Some [], la_epoll_ok = True, la_write_db = None, la_serial_ok = True, la_read_db = None,
     la_add_serial_ok = True, la_eventfd_ok = True, la_add_downlink_ok = True, la_timer_ok = True, la_settime_ok = True, la_add_timer_ok = True,
     la_reactor_ok = True, la_mqtt_ok = True, la_mqtt_first = False, la_stop_early = False, la_http_ended = True, la_listen_ok = True,
     la_io_ok = True, la_management_failed = False, la_loop_ok = True\<rparr>"

theorem process_ends_in_order_witness: "fst (gateway_main working_answers [''gateway'']) = 0"
proof -
  have "parseFile ''/etc/gateway.conf'' (Some []) = Inr default_config" "validate default_config" "0 \<le> http_port default_config"
    "http_port default_config \<le> 65535"
    by code_simp+
  then have "\<exists>m. main_config working_answers [''gateway''] = Inr m \<and> runHttpServer (config_port m) True True"
    by (simp add: main_config_def working_answers_def config_init_def config_port_def runHttpServer_def)
  with process_ends_in_order [of working_answers "[''gateway'']"] show ?thesis
    by (auto simp: split_beta working_answers_def started_up_def)
qed

end
