(* ===== verification/Database_Life.thy ===== *)
theory Database_Life
  imports Database "HOL-Library.AList" "HOL-Library.Monad_Syntax"
begin

text \<open>
  The life of the objects of \<^verbatim>\<open>gateway/storage/Database.h\<close>: constructor, destructor, and the use of the handles in between.
  The open connections and the prepared statements of the process are an explicit store. Using, closing or finalizing a
  handle that is not there is the outcome \<open>None\<close>, and so is the use of a null statement; as SQLite documents it, closing a
  connection that still has statements answers busy and leaves it open.
\<close>

subsection \<open>The handles of the process\<close>

record 's sqlite_world =
  sw_names :: nat
  sw_conns :: "nat \<rightharpoonup> 's"
  sw_stmts :: "(nat \<times> nat) list"

text \<open>The answer of \<^verbatim>\<open>sqlite3_open\<close>: a connection, a connection with an error, or no connection at all.\<close>

datatype 's open_answer = Opened 's | Opened_with_error 's | No_connection

definition add_connection :: "'s \<Rightarrow> 's sqlite_world \<Rightarrow> 's sqlite_world" where
  "add_connection s w = w\<lparr>sw_names := Suc (sw_names w), sw_conns := (sw_conns w)(sw_names w \<mapsto> s)\<rparr>"

definition sqlite3_open :: "'s open_answer \<Rightarrow> 's sqlite_world \<Rightarrow> bool \<times> nat option \<times> 's sqlite_world" where
  "sqlite3_open answer w =
    (case answer of
       Opened s \<Rightarrow> (True, Some (sw_names w), add_connection s w)
     | Opened_with_error s \<Rightarrow> (False, Some (sw_names w), add_connection s w)
     | No_connection \<Rightarrow> (False, None, w))"

definition sqlite3_close :: "nat \<Rightarrow> 's sqlite_world \<Rightarrow> 's sqlite_world option" where
  "sqlite3_close c w =
    (if sw_conns w c = None then None
     else Some (if c \<in> snd ` set (sw_stmts w) then w else w\<lparr>sw_conns := (sw_conns w)(c := None)\<rparr>))"

definition sqlite3_exec :: "'s sqlite \<Rightarrow> nat \<Rightarrow> string \<Rightarrow> 's sqlite_world \<Rightarrow> (bool \<times> 's sqlite_world) option" where
  "sqlite3_exec api c sql w =
    (case sw_conns w c of
       None \<Rightarrow> None
     | Some s \<Rightarrow> (case sq_exec api sql s of (ok, s') \<Rightarrow> Some (ok, w\<lparr>sw_conns := (sw_conns w)(c \<mapsto> s')\<rparr>)))"

definition sqlite3_prepare :: "'s sqlite \<Rightarrow> nat \<Rightarrow> string \<Rightarrow> 's sqlite_world \<Rightarrow> (nat option \<times> 's sqlite_world) option" where
  "sqlite3_prepare api c sql w =
    (case sw_conns w c of
       None \<Rightarrow> None
     | Some s \<Rightarrow>
         Some (if sq_prepare api sql s
               then (Some (sw_names w), w\<lparr>sw_names := Suc (sw_names w), sw_stmts := (sw_names w, c) # sw_stmts w\<rparr>)
               else (None, w)))"

definition sqlite3_finalize :: "nat \<Rightarrow> 's sqlite_world \<Rightarrow> 's sqlite_world option" where
  "sqlite3_finalize st w =
    (if map_of (sw_stmts w) st = None then None else Some (w\<lparr>sw_stmts := AList.delete st (sw_stmts w)\<rparr>))"

subsection \<open>Constructor and destructor\<close>

record Database_object =
  db_handle :: "nat option"
  insertStmt :: "nat option"

text \<open>\<^verbatim>\<open>execNoThrow\<close> on the connection of the object: the answer is logged only.\<close>

definition exec_no_throw :: "'s sqlite \<Rightarrow> nat \<Rightarrow> string \<Rightarrow> 's sqlite_world \<Rightarrow> 's sqlite_world option" where
  "exec_no_throw api c sql w = do { (ok, w) \<leftarrow> sqlite3_exec api c sql w; Some w }"

definition close_if_open :: "nat option \<Rightarrow> 's sqlite_world \<Rightarrow> 's sqlite_world option" where
  "close_if_open db w = (case db of None \<Rightarrow> Some w | Some c \<Rightarrow> sqlite3_close c w)"

text \<open>
  The constructor: an error, or the object. When the constructor of the statement throws, the language destroys neither the
  statement nor the database: no destructor runs for an object that was not constructed.
\<close>

definition db_open ::
    "'s sqlite \<Rightarrow> 's open_answer \<Rightarrow> bool \<Rightarrow> 's sqlite_world \<Rightarrow> ((db_error + Database_object) \<times> 's sqlite_world) option" where
  "db_open api answer readonly w =
    (case sqlite3_open answer w of
       (rc_ok, db, w) \<Rightarrow>
         if readonly then
           (if \<not> rc_ok then do { w \<leftarrow> close_if_open db w; Some (Inl Open_readonly_error, w) }
            else Some (Inr \<lparr>db_handle = db, insertStmt = None\<rparr>, w))
         else if \<not> rc_ok then do { w \<leftarrow> close_if_open db w; Some (Inl Open_error, w) }
         else do {
           c \<leftarrow> db;
           w \<leftarrow> exec_no_throw api c sql_wal w;
           w \<leftarrow> exec_no_throw api c sql_normal w;
           (created, w) \<leftarrow> sqlite3_exec api c sql_table w;
           if \<not> created then do { w \<leftarrow> sqlite3_close c w; Some (Inl Create_table_error, w) }
           else do {
             w \<leftarrow> exec_no_throw api c sql_index w;
             (st, w) \<leftarrow> sqlite3_prepare api c sql_insert w;
             Some (if st = None then Inl Prepare_error else Inr \<lparr>db_handle = Some c, insertStmt = st\<rparr>, w)
           }
         })"

definition finalize_statement :: "nat option \<Rightarrow> 's sqlite_world \<Rightarrow> 's sqlite_world option" where
  "finalize_statement stmt w = (case stmt of None \<Rightarrow> Some w | Some st \<Rightarrow> sqlite3_finalize st w)"

definition db_destroy :: "Database_object \<Rightarrow> 's sqlite_world \<Rightarrow> 's sqlite_world option" where
  "db_destroy ob w = do { w \<leftarrow> finalize_statement (insertStmt ob) w; close_if_open (db_handle ob) w }"

subsection \<open>Use of an object\<close>

text \<open>\<^verbatim>\<open>insertBatch\<close> through the handles: nothing on an empty batch, otherwise the connection and the cached statement are used.\<close>

definition db_insertBatch :: "'s sqlite \<Rightarrow> DataRow list \<Rightarrow> Database_object \<Rightarrow> 's sqlite_world \<Rightarrow> 's sqlite_world option" where
  "db_insertBatch api rows ob w =
    (if rows = [] then Some w
     else do {
       c \<leftarrow> db_handle ob;
       s \<leftarrow> sw_conns w c;
       st \<leftarrow> insertStmt ob;
       c' \<leftarrow> map_of (sw_stmts w) st;
       if c' = c then Some (w\<lparr>sw_conns := (sw_conns w)(c \<mapsto> insertBatch api rows s)\<rparr>) else None
     })"

text \<open>\<^verbatim>\<open>query\<close> and \<^verbatim>\<open>count\<close>: the local statement is finalized on return; preparing it may throw (an inner \<open>None\<close>).\<close>

definition db_read :: "'s sqlite \<Rightarrow> string \<Rightarrow> ('s \<Rightarrow> 'a option) \<Rightarrow> Database_object \<Rightarrow> 's sqlite_world \<Rightarrow> ('a option \<times> 's sqlite_world) option" where
  "db_read api sql result ob w =
    do {
      c \<leftarrow> db_handle ob;
      s \<leftarrow> sw_conns w c;
      (st, w) \<leftarrow> sqlite3_prepare api c sql w;
      w \<leftarrow> finalize_statement st w;
      Some (if st = None then None else result s, w)
    }"

subsection \<open>The objects of a process\<close>

text \<open>
  The owners of the process, each a smart pointer that is null or owns one object: those of writing connections and those of
  read-only ones. A construction whose owner holds an object already replaces it: the new object is constructed first and
  then the old one destroyed.
\<close>

datatype db_owner = Writer nat | Reader nat

datatype 's db_call =
    Construct db_owner "'s open_answer"
  | Destroy db_owner
  | Insert_batch nat "DataRow list"
  | Query db_owner string int
  | Count db_owner

record 's db_process =
  dp_world :: "'s sqlite_world"
  dp_objects :: "(db_owner \<times> Database_object) list"
  dp_errors :: "db_error list"

definition new_db_process :: "'s db_process" where
  "new_db_process = \<lparr>dp_world = \<lparr>sw_names = 0, sw_conns = Map.empty, sw_stmts = []\<rparr>, dp_objects = [], dp_errors = []\<rparr>"

definition is_reader :: "db_owner \<Rightarrow> bool" where
  "is_reader k = (case k of Writer i \<Rightarrow> False | Reader i \<Rightarrow> True)"

definition drop_object :: "db_owner \<Rightarrow> 's db_process \<Rightarrow> 's db_process option" where
  "drop_object k p =
    (case map_of (dp_objects p) k of
       None \<Rightarrow> Some p
     | Some ob \<Rightarrow>
         do { w \<leftarrow> db_destroy ob (dp_world p); Some (p\<lparr>dp_world := w, dp_objects := AList.delete k (dp_objects p)\<rparr>) })"

definition with_object ::
    "db_owner \<Rightarrow> (Database_object \<Rightarrow> 's sqlite_world \<Rightarrow> 's sqlite_world option) \<Rightarrow> 's db_process \<Rightarrow> 's db_process option" where
  "with_object k f p =
    (case map_of (dp_objects p) k of
       None \<Rightarrow> Some p
     | Some ob \<Rightarrow> do { w \<leftarrow> f ob (dp_world p); Some (p\<lparr>dp_world := w\<rparr>) })"

fun db_step :: "'s sqlite \<Rightarrow> 's db_call \<Rightarrow> 's db_process \<Rightarrow> 's db_process option" where
  "db_step api (Construct k answer) p =
    do {
      (r, w) \<leftarrow> db_open api answer (is_reader k) (dp_world p);
      case r of
        Inl e \<Rightarrow> Some (p\<lparr>dp_world := w, dp_errors := dp_errors p @ [e]\<rparr>)
      | Inr ob \<Rightarrow>
          do { p \<leftarrow> drop_object k (p\<lparr>dp_world := w\<rparr>); Some (p\<lparr>dp_objects := (k, ob) # dp_objects p\<rparr>) }
    }"
| "db_step api (Destroy k) p = drop_object k p"
| "db_step api (Insert_batch i rows) p = with_object (Writer i) (db_insertBatch api rows) p"
| "db_step api (Query k dev limit) p =
    with_object k (\<lambda>ob w. map_option snd (db_read api sql_query (db_query api dev limit) ob w)) p"
| "db_step api (Count k) p = with_object k (\<lambda>ob w. map_option snd (db_read api sql_count (db_count api) ob w)) p"

fun db_run :: "'s sqlite \<Rightarrow> 's db_call list \<Rightarrow> 's db_process \<Rightarrow> 's db_process option" where
  "db_run api [] p = Some p"
| "db_run api (x # xs) p = do { p \<leftarrow> db_step api x p; db_run api xs p }"

subsection \<open>Who holds which handle\<close>

definition connections_of :: "(db_owner \<times> Database_object) list \<Rightarrow> nat list" where
  "connections_of objs = map (\<lambda>(k, ob). the (db_handle ob)) objs"

definition statements_of :: "(db_owner \<times> Database_object) list \<Rightarrow> (nat \<times> nat) set" where
  "statements_of objs = {(st, c). \<exists>k ob. (k, ob) \<in> set objs \<and> insertStmt ob = Some st \<and> db_handle ob = Some c}"

definition owner_ok :: "db_owner \<Rightarrow> Database_object \<Rightarrow> bool" where
  "owner_ok k ob \<longleftrightarrow> db_handle ob \<noteq> None \<and> (insertStmt ob = None \<longleftrightarrow> is_reader k)"

text \<open>The handles of the process are those of its objects and, beside them, the connections \<open>leaked\<close>.\<close>

definition handles_inv :: "(db_owner \<times> Database_object) list \<Rightarrow> nat list \<Rightarrow> 's sqlite_world \<Rightarrow> bool" where
  "handles_inv objs leaked w \<longleftrightarrow>
    (\<forall>(k, ob) \<in> set objs. owner_ok k ob) \<and>
    distinct (connections_of objs @ leaked) \<and> dom (sw_conns w) = set (connections_of objs @ leaked) \<and>
    distinct (map fst (sw_stmts w)) \<and> set (sw_stmts w) = statements_of objs \<and>
    (\<forall>c \<in> dom (sw_conns w). c < sw_names w) \<and> (\<forall>(st, c) \<in> set (sw_stmts w). st < sw_names w)"

lemma connections_of_simps [simp]:
  "connections_of [] = []" "connections_of ((k, ob) # objs) = the (db_handle ob) # connections_of objs"
  "connections_of (objs @ objs') = connections_of objs @ connections_of objs'"
  by (simp_all add: connections_of_def)

lemma statements_of_simps [simp]:
  "statements_of [] = {}"
  "statements_of ((k, ob) # objs) =
    (case (insertStmt ob, db_handle ob) of (Some st, Some c) \<Rightarrow> {(st, c)} | _ \<Rightarrow> {}) \<union> statements_of objs"
  "statements_of (objs @ objs') = statements_of objs \<union> statements_of objs'"
  by (auto simp: statements_of_def split: option.splits)

lemma statements_of_connections: "(st, c) \<in> statements_of objs \<Longrightarrow> c \<in> set (connections_of objs)"
  by (force simp: statements_of_def connections_of_def)

lemma handles_invD:
  assumes "handles_inv objs leaked w"
  shows "distinct (connections_of objs @ leaked)" and "dom (sw_conns w) = set (connections_of objs @ leaked)"
    and "distinct (map fst (sw_stmts w))" and "set (sw_stmts w) = statements_of objs"
    and "c \<in> dom (sw_conns w) \<Longrightarrow> c < sw_names w" and "(st, c) \<in> set (sw_stmts w) \<Longrightarrow> st < sw_names w"
    and "(k, ob) \<in> set objs \<Longrightarrow> owner_ok k ob"
  using assms by (auto simp: handles_inv_def)

lemma split_object:
  assumes "map_of objs k = Some ob" and "distinct (map fst objs)"
  obtains xs ys where "objs = xs @ (k, ob) # ys" and "AList.delete k objs = xs @ ys"
proof -
  from split_list [OF map_of_SomeD [OF assms(1)]] obtain xs ys where o: "objs = xs @ (k, ob) # ys" by auto
  with assms(2) have "k \<notin> fst ` set xs" "k \<notin> fst ` set ys" by auto
  then have "AList.delete k xs = xs" "AList.delete k ys = ys" by simp_all
  then have "AList.delete k objs = xs @ ys" by (simp add: o AList.delete_eq)
  with o that show thesis by blast
qed

subsection \<open>What each operation does to the handles\<close>

text \<open>Running SQL and batches changes the content of connections only.\<close>

lemma handles_inv_same:
  assumes "handles_inv objs leaked w" and "dom (sw_conns w') = dom (sw_conns w)" and "set (sw_stmts w') = set (sw_stmts w)"
    and "distinct (map fst (sw_stmts w'))" and "sw_names w \<le> sw_names w'"
  shows "handles_inv objs leaked w'"
  proof -
  have "\<And>c. c \<in> dom (sw_conns w') \<Longrightarrow> c < sw_names w'" "\<And>st c. (st, c) \<in> set (sw_stmts w') \<Longrightarrow> st < sw_names w'"
    using handles_invD(5,6) [OF assms(1)] assms(2,3,5) by (metis less_le_trans)+
  then have "\<forall>c \<in> dom (sw_conns w'). c < sw_names w'" "\<forall>(st, c) \<in> set (sw_stmts w'). st < sw_names w'" by blast+
  with assms show ?thesis by (simp add: handles_inv_def)
qed

lemma exec_runs:
  assumes "c \<in> dom (sw_conns w)"
  obtains ok s where "sqlite3_exec api c sql w = Some (ok, w\<lparr>sw_conns := (sw_conns w)(c \<mapsto> s)\<rparr>)"
proof -
  obtain s0 where s0: "sw_conns w c = Some s0" using assms by blast
  obtain ok s where "sq_exec api sql s0 = (ok, s)" by fastforce
  with s0 that show thesis by (simp add: sqlite3_exec_def)
qed

lemma destroy_releases:
  assumes inv: "handles_inv (xs @ (k, ob) # ys) leaked w"
  obtains w' where "db_destroy ob w = Some w'" and "handles_inv (xs @ ys) leaked w'"
proof -
  note d = handles_invD [OF inv]
  obtain c where c: "db_handle ob = Some c" using d(7) [of k ob] by (auto simp: owner_ok_def)
  let ?conns = "(sw_conns w)(c := None)"
  have others: "c \<notin> set (connections_of (xs @ ys) @ leaked)" using d(1) c by auto
  have free: "c \<notin> snd ` statements_of (xs @ ys)" using statements_of_connections others by fastforce
  have opened: "sw_conns w c \<noteq> None" using d(2) c by auto
  have rest: "\<forall>(k, ob) \<in> set (xs @ ys). owner_ok k ob" "distinct (connections_of (xs @ ys) @ leaked)"
    using d(1,7) by auto
  have bound': "\<forall>(st, c) \<in> statements_of (xs @ ys). st < sw_names w" using d(4,6) by auto
  have bound: "\<forall>c \<in> dom ?conns. c < sw_names w" using d(5) by auto
  have dom: "dom ?conns = set (connections_of (xs @ ys) @ leaked)" using d(2) c others by auto
  show thesis
  proof (cases "insertStmt ob")
    case None
    with c have "db_destroy ob w = Some (w\<lparr>sw_conns := ?conns\<rparr>)"
      using opened d(4) free by (simp add: db_destroy_def finalize_statement_def close_if_open_def sqlite3_close_def)
    moreover have "handles_inv (xs @ ys) leaked (w\<lparr>sw_conns := ?conns\<rparr>)"
      using None rest bound bound' dom d(3,4) unfolding handles_inv_def by simp
    ultimately show thesis by (rule that)
  next
    case (Some st)
    let ?stmts = "AList.delete st (sw_stmts w)"
    have st: "(st, c) \<in> set (sw_stmts w)" using d(4) Some c by simp
    then have "map_of (sw_stmts w) st = Some c" using d(3) by simp
    have unique: "(st, c') \<in> set (sw_stmts w) \<Longrightarrow> c' = c" for c' using st d(3) by (auto dest: eq_key_imp_eq_value)
    have stmts: "set ?stmts = statements_of (xs @ ys)"
      using d(4) unique free Some c by (force simp: AList.delete_eq)
    have "db_destroy ob w = Some (w\<lparr>sw_stmts := ?stmts, sw_conns := ?conns\<rparr>)"
      using opened stmts free Some c \<open>map_of (sw_stmts w) st = Some c\<close>
      by (simp add: db_destroy_def finalize_statement_def close_if_open_def sqlite3_finalize_def sqlite3_close_def)
    moreover have "handles_inv (xs @ ys) leaked (w\<lparr>sw_stmts := ?stmts, sw_conns := ?conns\<rparr>)"
      using rest bound dom stmts distinct_delete [OF d(3)] bound' unfolding handles_inv_def by simp
    ultimately show thesis by (rule that)
  qed
qed

text \<open>A new connection is leaked until an object holds it; a statement of it makes it the connection of a writing object.\<close>

lemma add_connection_inv:
  assumes "handles_inv objs leaked w"
  shows "handles_inv objs (sw_names w # leaked) (add_connection s w)"
proof -
  note d = handles_invD [OF assms]
  have "sw_names w \<notin> dom (sw_conns w)" using d(5) by blast
  with assms d(1,2) show ?thesis by (auto simp: handles_inv_def add_connection_def less_Suc_eq)
qed

lemma reader_inv:
  assumes "handles_inv objs (c # leaked) w"
  shows "handles_inv ((Reader i, \<lparr>db_handle = Some c, insertStmt = None\<rparr>) # objs) leaked w"
  using assms by (auto simp: handles_inv_def owner_ok_def is_reader_def)

lemma prepare_inv:
  assumes "handles_inv objs (c # leaked) w"
  shows "(sqlite3_prepare api c sql w = Some (None, w)) \<or>
    (\<exists>st w'. sqlite3_prepare api c sql w = Some (Some st, w') \<and>
      handles_inv ((Writer i, \<lparr>db_handle = Some c, insertStmt = Some st\<rparr>) # objs) leaked w')"
proof -
  note d = handles_invD [OF assms]
  obtain s where s: "sw_conns w c = Some s" using d(2) by auto
  let ?w = "w\<lparr>sw_names := Suc (sw_names w), sw_stmts := (sw_names w, c) # sw_stmts w\<rparr>"
  have "sw_names w \<notin> fst ` set (sw_stmts w)" using d(6) by fastforce
  with assms have "handles_inv ((Writer i, \<lparr>db_handle = Some c, insertStmt = Some (sw_names w)\<rparr>) # objs) leaked ?w"
    unfolding handles_inv_def by (auto simp: owner_ok_def is_reader_def less_Suc_eq)
  with s show ?thesis by (simp add: sqlite3_prepare_def)
qed

lemma close_inv:
  assumes "handles_inv objs (c # leaked) w"
  obtains w' where "sqlite3_close c w = Some w'" and "handles_inv objs leaked w'"
proof -
  note d = handles_invD [OF assms]
  let ?w = "w\<lparr>sw_conns := (sw_conns w)(c := None)\<rparr>"
  have "c \<notin> snd ` set (sw_stmts w)" using d(1,4) statements_of_connections by fastforce
  moreover have "sw_conns w c \<noteq> None" using d(2) by auto
  ultimately have "sqlite3_close c w = Some ?w" by (simp add: sqlite3_close_def)
  moreover have "handles_inv objs leaked ?w"
    using assms d(1,2) unfolding handles_inv_def by auto
  ultimately show thesis by (rule that)
qed

lemma exec_inv:
  assumes "handles_inv objs (c # leaked) w"
  obtains ok w' where "sqlite3_exec api c sql w = Some (ok, w')" and "handles_inv objs (c # leaked) w'"
proof -
  have c: "c \<in> dom (sw_conns w)" using handles_invD(2) [OF assms] by auto
  then obtain ok s where e: "sqlite3_exec api c sql w = Some (ok, w\<lparr>sw_conns := (sw_conns w)(c \<mapsto> s)\<rparr>)"
    by (rule exec_runs)
  have "handles_inv objs (c # leaked) (w\<lparr>sw_conns := (sw_conns w)(c \<mapsto> s)\<rparr>)"
    using assms by (rule handles_inv_same) (use c handles_invD(3) [OF assms] in auto)
  with e show thesis by (rule that)
qed

lemma exec_no_throw_inv:
  assumes "handles_inv objs (c # leaked) w"
  obtains w' where "exec_no_throw api c sql w = Some w'" and "handles_inv objs (c # leaked) w'"
  using exec_inv [OF assms, of api sql] that by (metis (no_types, lifting) bind.bind_lunit case_prod_conv exec_no_throw_def)

lemma open_answer_inv:
  assumes "handles_inv objs leaked w" and "sqlite3_open answer w = (rc_ok, db, w1)"
  obtains "db = None" and "\<not> rc_ok" and "handles_inv objs leaked w1"
  | c where "db = Some c" and "handles_inv objs (c # leaked) w1"
  using assms add_connection_inv [OF assms(1)] by (cases answer) (auto simp: sqlite3_open_def)

lemma close_if_open_inv:
  assumes "handles_inv objs leaked w" and "sqlite3_open answer w = (rc_ok, db, w1)"
  obtains w' where "close_if_open db w1 = Some w'" and "handles_inv objs leaked w'"
  using assms
proof (cases rule: open_answer_inv [case_names none some])
  case none
  with that show thesis by (simp add: close_if_open_def)
next
  case (some c)
  from close_inv [OF some(2)] some(1) that show thesis by (auto simp: close_if_open_def)
qed

text \<open>The constructor of a writing object, from an open connection on.\<close>

lemma initialise_inv:
  assumes inv: "handles_inv objs (c # leaked) w1" and o: "sqlite3_open answer w = (True, Some c, w1)"
  obtains e l w' where "db_open api answer False w = Some (Inl e, w')" and "handles_inv objs (l @ leaked) w'"
      and "length l = of_bool (e = Prepare_error)"
  | ob w' where "db_open api answer False w = Some (Inr ob, w')" and "handles_inv ((Writer i, ob) # objs) leaked w'"
proof -
  obtain w2 where 2: "exec_no_throw api c sql_wal w1 = Some w2" "handles_inv objs (c # leaked) w2"
    using inv by (rule exec_no_throw_inv)
  obtain w3 where 3: "exec_no_throw api c sql_normal w2 = Some w3" "handles_inv objs (c # leaked) w3"
    using 2(2) by (rule exec_no_throw_inv)
  obtain created w4 where 4: "sqlite3_exec api c sql_table w3 = Some (created, w4)" "handles_inv objs (c # leaked) w4"
    using 3(2) by (rule exec_inv)
  obtain w5 where 5: "exec_no_throw api c sql_index w4 = Some w5" "handles_inv objs (c # leaked) w5"
    using 4(2) by (rule exec_no_throw_inv)
  note eq = o 2(1) 3(1) 4(1)
  show thesis
  proof (cases created)
    case False
    obtain w' where "sqlite3_close c w4 = Some w'" "handles_inv objs leaked w'" using 4(2) by (rule close_inv)
    with False eq that(1) [of Create_table_error w' "[]"] show thesis by (simp add: db_open_def)
  next
    case True
    from prepare_inv [OF 5(2), where i = i and api = api and sql = sql_insert] show thesis
    proof (elim disjE exE conjE)
      assume "sqlite3_prepare api c sql_insert w5 = Some (None, w5)"
      with True eq 5 that(1) [of Prepare_error w5 "[c]"] show thesis by (simp add: db_open_def)
    next
      fix st w'
      assume "sqlite3_prepare api c sql_insert w5 = Some (Some st, w')"
        and "handles_inv ((Writer i, \<lparr>db_handle = Some c, insertStmt = Some st\<rparr>) # objs) leaked w'"
      with True eq 5 that(2) show thesis by (simp add: db_open_def)
    qed
  qed
qed

lemma db_open_inv:
  assumes inv: "handles_inv objs leaked w"
  obtains e l w' where "db_open api answer (is_reader k) w = Some (Inl e, w')" and "handles_inv objs (l @ leaked) w'"
      and "length l = of_bool (e = Prepare_error)"
  | ob w' where "db_open api answer (is_reader k) w = Some (Inr ob, w')" and "handles_inv ((k, ob) # objs) leaked w'"
proof -
  obtain rc_ok db w1 where o: "sqlite3_open answer w = (rc_ok, db, w1)" by (metis prod_cases3)
  obtain w2 where c: "close_if_open db w1 = Some w2" "handles_inv objs leaked w2" using inv o by (rule close_if_open_inv)
  show thesis
  proof (cases rc_ok)
    case False
    with o c that(1) [of Open_readonly_error w2 "[]"] that(1) [of Open_error w2 "[]"] show thesis
      by (cases "is_reader k") (simp_all add: db_open_def)
  next
    case True
    with inv o obtain h where h: "db = Some h" "handles_inv objs (h # leaked) w1" by (auto elim: open_answer_inv)
    show thesis
    proof (cases k)
      case (Reader i)
      with True o h reader_inv [OF h(2)] that(2) show thesis by (simp add: db_open_def is_reader_def)
    next
      case (Writer i)
      then have k: "is_reader k = False" by (simp add: is_reader_def)
      have "sqlite3_open answer w = (True, Some h, w1)" using o h(1) True by simp
      with h(2) show thesis
      proof (rule initialise_inv [where api = api and i = i])
      qed (use that k Writer in simp_all)
    qed
  qed
qed

subsection \<open>The handles of a process\<close>

definition process_inv :: "nat list \<Rightarrow> 's db_process \<Rightarrow> bool" where
  "process_inv leaked p \<longleftrightarrow>
    distinct (map fst (dp_objects p)) \<and> handles_inv (dp_objects p) leaked (dp_world p) \<and>
    length leaked = count_list (dp_errors p) Prepare_error"

lemma drop_object_inv:
  assumes "distinct (map fst (dp_objects p))" and "handles_inv (ks @ dp_objects p) leaked (dp_world p)"
  obtains w' where "drop_object k p = Some (p\<lparr>dp_world := w', dp_objects := AList.delete k (dp_objects p)\<rparr>)"
    and "handles_inv (ks @ AList.delete k (dp_objects p)) leaked w'"
proof (cases "map_of (dp_objects p) k")
  case None
  then have "AList.delete k (dp_objects p) = dp_objects p" by (simp add: map_of_eq_None_iff)
  with None assms(2) that [of "dp_world p"] show thesis by (simp add: drop_object_def)
next
  case (Some ob)
  obtain xs ys where o: "dp_objects p = xs @ (k, ob) # ys" "AList.delete k (dp_objects p) = xs @ ys"
    using Some assms(1) by (rule split_object)
  obtain w' where "db_destroy ob (dp_world p) = Some w'" "handles_inv ((ks @ xs) @ ys) leaked w'"
    using destroy_releases [of "ks @ xs" k ob ys leaked "dp_world p"] assms(2) o(1) by auto
  with Some o(2) that show thesis by (simp add: drop_object_def)
qed

lemma with_object_inv:
  assumes "process_inv leaked p"
    and "\<And>ob. (k, ob) \<in> set (dp_objects p) \<Longrightarrow> \<exists>w'. f ob (dp_world p) = Some w' \<and> handles_inv (dp_objects p) leaked w'"
  shows "\<exists>p'. with_object k f p = Some p' \<and> process_inv leaked p' \<and> dp_errors p' = dp_errors p"
proof (cases "map_of (dp_objects p) k")
  case None
  with assms(1) show ?thesis by (simp add: with_object_def)
next
  case (Some ob)
  with assms(2) map_of_SomeD obtain w' where "f ob (dp_world p) = Some w'" "handles_inv (dp_objects p) leaked w'" by metis
  with Some assms(1) show ?thesis by (simp add: with_object_def process_inv_def)
qed

lemma insertBatch_inv:
  assumes inv: "handles_inv objs leaked w" and ob: "(Writer i, ob) \<in> set objs"
  shows "\<exists>w'. db_insertBatch api rows ob w = Some w' \<and> handles_inv objs leaked w'"
proof (cases "rows = []")
  case True
  with inv show ?thesis by (simp add: db_insertBatch_def)
next
  case False
  note d = handles_invD [OF inv]
  from d(7) [OF ob] obtain c st where h: "db_handle ob = Some c" "insertStmt ob = Some st"
    by (auto simp: owner_ok_def is_reader_def)
  then have st: "(st, c) \<in> statements_of objs" using ob by (auto simp: statements_of_def)
  then have "c \<in> dom (sw_conns w)" using d(2) statements_of_connections by fastforce
  then obtain s where s: "sw_conns w c = Some s" by blast
  have "map_of (sw_stmts w) st = Some c" using st d(3,4) by simp
  with False h s have "db_insertBatch api rows ob w = Some (w\<lparr>sw_conns := (sw_conns w)(c \<mapsto> insertBatch api rows s)\<rparr>)"
    by (simp add: db_insertBatch_def)
  moreover have "handles_inv objs leaked (w\<lparr>sw_conns := (sw_conns w)(c \<mapsto> insertBatch api rows s)\<rparr>)"
    using inv by (rule handles_inv_same) (use s d(3) in auto)
  ultimately show ?thesis by blast
qed

text \<open>The local statement of a query is gone when the query returns or throws.\<close>

lemma read_inv:
  assumes inv: "handles_inv objs leaked w" and ob: "(k, ob) \<in> set objs"
  shows "\<exists>x w'. db_read api sql result ob w = Some (x, w') \<and> handles_inv objs leaked w'"
proof -
  note d = handles_invD [OF inv]
  from d(7) [OF ob] obtain c where h: "db_handle ob = Some c" by (auto simp: owner_ok_def)
  then have "c \<in> set (connections_of objs)" using ob by (force simp: connections_of_def)
  then obtain s where s: "sw_conns w c = Some s" using d(2) by auto
  have fresh: "sw_names w \<notin> fst ` set (sw_stmts w)" using d(6) by fastforce
  have "handles_inv objs leaked (w\<lparr>sw_names := Suc (sw_names w)\<rparr>)"
    using inv by (rule handles_inv_same) (use d(3) in auto)
  with inv h s fresh show ?thesis
    by (cases "sq_prepare api sql s") (simp_all add: db_read_def sqlite3_prepare_def sqlite3_finalize_def finalize_statement_def)
qed

lemma db_step_inv:
  assumes inv: "process_inv leaked p"
  shows "\<exists>l p'. db_step api x p = Some p' \<and> process_inv (l @ leaked) p'"
proof (cases x)
  case (Construct k answer)
  from inv have "handles_inv (dp_objects p) leaked (dp_world p)" by (simp add: process_inv_def)
  then show ?thesis
  proof (cases rule: db_open_inv [where api = api and answer = answer and k = k, case_names Throws Returns])
    case (Throws e l w')
    with Construct inv show ?thesis by (intro exI [of _ l]) (auto simp: process_inv_def)
  next
    case (Returns ob w')
    let ?p = "p\<lparr>dp_world := w'\<rparr>"
    have "distinct (map fst (dp_objects ?p))" using inv by (simp add: process_inv_def)
    moreover have "handles_inv ([(k, ob)] @ dp_objects ?p) leaked (dp_world ?p)" using Returns(2) by simp
    ultimately obtain w'' where
      "drop_object k ?p = Some (?p\<lparr>dp_world := w'', dp_objects := AList.delete k (dp_objects ?p)\<rparr>)"
      "handles_inv ([(k, ob)] @ AList.delete k (dp_objects ?p)) leaked w''"
      by (rule drop_object_inv)
    with Construct Returns(1) inv show ?thesis
      by (intro exI [of _ "[]"]) (auto simp: process_inv_def distinct_delete AList.delete_notin_dom)
  qed
next
  case (Destroy k)
  from inv have "distinct (map fst (dp_objects p))" "handles_inv ([] @ dp_objects p) leaked (dp_world p)"
    by (simp_all add: process_inv_def)
  then obtain w' where "drop_object k p = Some (p\<lparr>dp_world := w', dp_objects := AList.delete k (dp_objects p)\<rparr>)"
      "handles_inv ([] @ AList.delete k (dp_objects p)) leaked w'" by (rule drop_object_inv)
  with Destroy inv show ?thesis by (intro exI [of _ "[]"]) (auto simp: process_inv_def distinct_delete)
next
  case (Insert_batch i rows)
  from inv have "handles_inv (dp_objects p) leaked (dp_world p)" by (simp add: process_inv_def)
  from with_object_inv [OF inv, of "Writer i" "db_insertBatch api rows"] insertBatch_inv [OF this] Insert_batch show ?thesis
    by (intro exI [of _ "[]"]) fastforce
next
  case (Query k dev limit)
  from inv have "handles_inv (dp_objects p) leaked (dp_world p)" by (simp add: process_inv_def)
  from with_object_inv [OF inv, of k "\<lambda>ob w. map_option snd (db_read api sql_query (db_query api dev limit) ob w)"]
    read_inv [OF this] Query show ?thesis
    by (intro exI [of _ "[]"]) fastforce
next
  case (Count k)
  from inv have "handles_inv (dp_objects p) leaked (dp_world p)" by (simp add: process_inv_def)
  from with_object_inv [OF inv, of k "\<lambda>ob w. map_option snd (db_read api sql_count (db_count api) ob w)"]
    read_inv [OF this] Count show ?thesis
    by (intro exI [of _ "[]"]) fastforce
qed

lemma db_run_inv:
  assumes "process_inv leaked p"
  shows "\<exists>l p'. db_run api calls p = Some p' \<and> process_inv (l @ leaked) p'"
  using assms
proof (induction calls arbitrary: p leaked)
  case Nil
  then show ?case by (intro exI [of _ "[]"]) simp
next
  case (Cons x calls)
  obtain l p1 where "db_step api x p = Some p1" "process_inv (l @ leaked) p1" using db_step_inv [OF Cons.prems] by blast
  with Cons.IH [of "l @ leaked" p1] show ?case by (metis append.assoc bind.bind_lunit db_run.simps(2))
qed

subsection \<open>Properties\<close>

text \<open>
  The leak happens: a writing connection whose insert statement cannot be prepared, then another one that is refused by
  SQLite, and no object at all. One connection stays open for good, the first.
\<close>

lemma a_failed_prepare_leaks:
  "map_option (\<lambda>p. (dp_objects p, dp_errors p, sw_conns (dp_world p) 0 = None, sw_conns (dp_world p) 1 = None))
     (db_run (tiny_sqlite\<lparr>sq_prepare := \<lambda>sql s. sql \<noteq> sql_insert\<rparr>)
       [Construct (Writer 0) (Opened ([], None)), Construct (Reader 0) (Opened_with_error ([], None))] new_db_process) =
   Some ([], [Prepare_error, Open_readonly_error], False, True)"
  by (simp add: new_db_process_def db_open_def sqlite3_open_def add_connection_def is_reader_def exec_no_throw_def sqlite3_exec_def
      sqlite3_prepare_def sqlite3_close_def close_if_open_def tiny_sqlite_def sql_table_def sql_wal_def sql_normal_def
      sql_index_def sql_texts)

text \<open>
  C32. Whatever SQLite answers and in whatever order connections are constructed, replaced, used and destroyed, no handle is used,
  closed or finalized unless it is open, and at the end the open handles are accounted for: every live object holds a
  connection of its own, a writing object and no other a prepared statement on it, no other statement is left (those of the
  queries, and those of destroyed objects, are finalized before their connection is closed), and the only
  other open connections are one for each constructor that threw because the insert statement could not be prepared. So
  every other failing constructor and every destructor has closed its connection, once.
\<close>

theorem database_handles_accounted:
  "\<exists>p leaked. db_run api calls new_db_process = Some p \<and>
     dom (sw_conns (dp_world p)) = set (connections_of (dp_objects p) @ leaked) \<and>
     distinct (connections_of (dp_objects p) @ leaked) \<and>
     list_all (\<lambda>(k, ob). owner_ok k ob) (dp_objects p) \<and>
     set (sw_stmts (dp_world p)) = statements_of (dp_objects p) \<and> distinct (map fst (sw_stmts (dp_world p))) \<and>
     length leaked = count_list (dp_errors p) Prepare_error"
proof -
  have "process_inv [] (new_db_process :: 'a db_process)"
    by (simp add: process_inv_def handles_inv_def new_db_process_def)
  from db_run_inv [OF this, of api calls] show ?thesis
    by (auto simp: process_inv_def handles_inv_def list_all_iff)
qed

end
