(* ===== verification/Spec2Isabelle.thy ===== *)
theory Spec2Isabelle
  imports Edge_Frame Edge_Sr_History Command_Link Node_Link Thread_Safe_Queue Thread_Pool Telemetry_Pipeline Core_Credits Reactor_History
    Http_Server Async_Logger Node_Sim_Main Management_Reactor Handle_Classes Management_Worker Gateway_Life Database_Life
begin

text \<open>
  Verification of the embedded edge gateway: a shared protocol library in C99, which runs on the sensor node and in the
  gateway, the gateway in C++17, and a node simulator. Paths below are relative to the root of the repository.

  \<^bold>\<open>The program.\<close> A sensor node and the gateway exchange frames over a serial line (\<^verbatim>\<open>protocol/\<close>). Upstream, the
  frames' readings become rows of a database and messages to a broker; downstream, commands from the broker are sent to
  the node by a selective-repeat protocol and answered exactly once. The gateway has one thread per concern, joined by
  bounded queues: the serial reactor (main thread), the application core, the query worker, the database writer, the
  management worker, the management reactor for signals, the HTTP server, the network thread of libmosquitto, and the
  flush thread of the logger.

  \<^bold>\<open>Protocol library\<close> (\<^verbatim>\<open>protocol/src\<close>, \<^verbatim>\<open>protocol/include\<close>).
  \<^item> Edge_Proto, Edge_Crc16, Edge_Frame: constants and byte order, the table-driven checksum (\<^verbatim>\<open>edge_crc16.c\<close>), the encoder and
    the byte-driven receive machine (\<^verbatim>\<open>edge_frame.c\<close>). Lemmas: the checksum is CRC-16/MODBUS and detects every
    single-byte change; the parser is memory safe, delivers only complete correct frames that lie in the stream one after the other,
    delivers all of them after noise without a header byte, and is back in the header search after 68 quiet bytes. What a
    false header costs is a theorem of its own.
  \<^item> Edge_Sr, Edge_Sr_History: the node's receiver (\<^verbatim>\<open>edge_sr.c\<close>), with the hooks for clock, execution and transmission as
    a record of functions. The operations refine a relation of small steps; over every history of frames and ticks the node
    executes the commands of a session in order and once, only commands that arrived, and answers a command always with the same bytes.

  \<^bold>\<open>Command link\<close> (\<^verbatim>\<open>src/gateway/link\<close>, \<^verbatim>\<open>src/gateway/protocol\<close>, \<^verbatim>\<open>src/gateway/io/serial\<close>).
  \<^item> Command_Tracker, Tracker_History: the sender \<^verbatim>\<open>CommandTracker.cpp\<close> as a state machine on explicit time; its invariant, the
    deadlines a tick enforces, and the exact accounting of completions.
  \<^item> Command_Link: sender and receiver over a line that loses, delays, repeats and reorders frames, used by C1 and C2 below.
  \<^item> Frame_Codec, Posix, Node_Link: the C++ codec, descriptors as lists of the kernel's answers, and \<^verbatim>\<open>NodeLink.cpp\<close>: whatever
    short reads and writes occur, the bytes on the line are those of the frames, and what was sent arrives.
  \<^item> Unique_Owner, Serial_Port, Handle_Classes: the contract of the move-only classes that own a handle, as a locale over an explicit
    store of objects, interpreted for \<^verbatim>\<open>SerialPort\<close>, \<^verbatim>\<open>Statement\<close> and \<^verbatim>\<open>EventLoop\<close>; line settings.

  \<^bold>\<open>Queues and workers\<close> (\<^verbatim>\<open>src/gateway/core/concurrent\<close>). Fifo is the contract of a queue, interpreted for
  \<^verbatim>\<open>ThreadSafeQueue\<close> (Thread_Safe_Queue, with the threads sleeping on its condition variables) and \<^verbatim>\<open>TaskExecutor\<close>
  (Task_Executor); Thread_Pool is the pool of workers on such a queue. Lts has the sequences of labelled steps all
  interleavings are stated with, Std_Map the ordered map, Prelude the lists and words.

  \<^bold>\<open>Data path.\<close> Cpp_String and Number model the string and number functions of the library the code uses; Command_Translator the
  texts of commands (\<^verbatim>\<open>cloud/CommandTranslator.cpp\<close>), Telemetry_Decoder the frames of readings, Telemetry_Pipeline the
  queue in front of the database writer (\<^verbatim>\<open>pipeline/\<close>), Database the storage (\<^verbatim>\<open>storage/\<close>) and both together, Database_Life the connections and statements its objects hold from
  constructor to destructor, Config the
  configuration file and its reload, Http_Text the texts of HTTP answers.

  \<^bold>\<open>Application\<close> (\<^verbatim>\<open>src/gateway/app\<close>, \<^verbatim>\<open>src/gateway/cloud\<close>, \<^verbatim>\<open>src/gateway/io\<close>).
  \<^item> Gateway_Core, Core_Credits: the handlers of \<^verbatim>\<open>GatewayCore.cpp\<close> as tasks of its two executors, and the admission credits
    under every interleaving with the other threads: each admitted message is answered once.
  \<^item> Gateway_Reactor, Reactor_History: the serial reactor of \<^verbatim>\<open>GatewayApp.cpp\<close> with the tracker, the table of requests and the
    link; each accepted command is reported once, and the reactor never sleeps on work.
  \<^item> Event_Loop, Management_Reactor: \<^verbatim>\<open>EventLoop.cpp\<close> with channels in an explicit heap, so that a use after release would show, and
    the signal thread on top.
  \<^item> Mqtt_Client, Management_Worker: the client of libmosquitto, and the worker that publishes and reloads; readers, writer and
    broker client stay consistent through reloads that fail anywhere.
  \<^item> Http_Session, Http_Server: one HTTP connection with its reply callbacks, and the server that accepts and stops. Async_Logger: lines, buffers and the flush thread.
  \<^item> Gateway_Life: \<^verbatim>\<open>main.cpp\<close>, construction, \<^verbatim>\<open>run\<close> and destruction of the application with every failure.
  \<^item> Node_Sim, Node_Sim_Main: the simulator \<^verbatim>\<open>tools/node-sim/main.cpp\<close>, whose frames the gateway's parser and decoder read back.

  \<^bold>\<open>How states and operations correspond.\<close> A struct or class is a record with the fields of the code and a prefix of its own; a
  member function is a definition of the same name that returns the new state, with a prefix where the name is taken.
  Exceptions are values of sums or options. A blocking call is \<open>None\<close> while it blocks. Callbacks are arguments or
  names whose meaning is an argument. What a component shows to others is a list of events. Threads are steps of a relation:
  a section under a mutex is one step, and so is a handler of a reactor, which only its own thread runs; what other threads can
  do between two steps of a handler is a step of its own where it matters (posting and waking in the serial reactor, the two
  halves of a reload, the delivery of a notification).

  \<^bold>\<open>Bounds and partial functions.\<close> Machine integers of the protocol are words of their width, and wrap. Sequence numbers, the
  window of eight, sixteen entries of the node, 63 bytes of payload, and the capacities of the queues are those of the code. Loops over
  the kernel's answers end because each turn uses up an answer, an exhausted list being \<^verbatim>\<open>EAGAIN\<close>. The two loops
  that may not end, since a cancelled frame's handler may queue another (\<open>flush_loop\<close>, and \<open>transmit\<close> of the
  reactor), are partial functions; that they return is proved (C14 and C20). No fuel is used.

  \<^bold>\<open>Assumptions.\<close> Clocks give any values; request numbers of the core stay below
  2 to the 64; counters that only grow are naturals; allocation and the creation of threads succeed. A finite \<^verbatim>\<open>double\<close>
  that is printed is its rational value. SQLite, libmosquitto, Boost.Asio, the kernel, the random engine and \<^verbatim>\<open>strtod\<close> are arguments,
  answers, or a record of functions with its documented behaviour as a hypothesis (\<open>sqlite_behaves\<close>);
  the documented rules for the handles of SQLite are those of the store of open connections and statements in Database_Life.

  \<^bold>\<open>Not modelled.\<close> The texts of log messages and of the simulator's output, which nothing depends on; the event loop and sockets
  of Boost.Asio under the HTTP server (accepting, timers and reading are the steps a session allows); the query
  plan and the order of rows, which SQLite computes; build files, deployment and test programs. The C++ memory model is not
  needed where a mutex protects the data; the atomics of the application are single steps.
\<close>

section \<open>The command link end to end\<close>

text \<open>
  C1. Success at the gateway means one execution at the node: over a line that loses, repeats,
  delays and reorders frames, when the gateway completes a command without an error, the node has
  executed exactly this command (session, number, type and the arguments given at submission)
  exactly once, and the completion carries the result bytes that the node sent for it.
\<close>

theorem command_success_means_executed_once:
  fixes u :: 'u
  assumes "joint h m u calls inputs" and "hooks_ok h" and "node_memory_ok m"
    and "Completed s c \<in> set (fst (tracker_run new_tracker calls))" and "cc_error c = []"
  defines "N \<equiv> sr_history h (edge_sr_node_init m) u inputs"
  shows "\<exists>args p. Accepted s (cc_seq c) (cc_type c) args \<in> set (fst (tracker_run new_tracker calls)) \<and>
    (s, Executed (cc_seq c) (cc_type c) args) \<in> set N \<and>
    filter ((=) (cc_seq c)) (executed_seqs s N) = [cc_seq c] \<and>
    (s, Sent EDGE_TYPE_SR_RESULT p) \<in> set N \<and> p ! 8 = cc_seq c \<and> cc_result c = drop 10 p"
  using success_was_executed [OF assms(1-5)] executed_was_accepted [OF assms(1-3)] executed_once [OF assms(2,3)]
  unfolding N_def by blast

theorem command_success_means_executed_once_witness:
  "filter ((=) 0) (executed_seqs 1 (sr_history plain_hooks (edge_sr_node_init blank_node) () link_inputs)) = [0]"
  using command_success_means_executed_once [OF link_run plain_hooks_ok blank_node_ok]
    demo_calls_completed by (fastforce simp: link_calls_def)

text \<open>
  C2. The node does only what was asked: whatever the line does, every command the node executes
  was accepted by the gateway's sender in that session under that number with the same command type
  and the same arguments, and the node executes it once.
\<close>

theorem node_executes_only_submitted_commands:
  fixes u :: 'u
  assumes "joint h m u calls inputs" and "hooks_ok h" and "node_memory_ok m"
    and "(s, Executed q ty args) \<in> set (sr_history h (edge_sr_node_init m) u inputs)"
  shows "Accepted s q ty args \<in> set (fst (tracker_run new_tracker calls)) \<and>
    filter ((=) q) (executed_seqs s (sr_history h (edge_sr_node_init m) u inputs)) = [q]"
  using executed_was_accepted [OF assms] executed_once [OF assms(2-4)] by simp

theorem node_executes_only_submitted_commands_witness:
  "Accepted 1 0 0x22 [0, 5] \<in> set (fst (tracker_run new_tracker link_calls))"
proof -
  have "(1, Executed 0 0x22 [0, 5]) \<in> set (sr_history plain_hooks (edge_sr_node_init blank_node) () link_inputs)"
    unfolding link_history by simp
  from node_executes_only_submitted_commands [OF link_run plain_hooks_ok blank_node_ok this] show ?thesis by simp
qed

end
